(* ===== verification/Prelude.thy ===== *)
theory Prelude
  imports Main "HOL-Library.Word"
begin

text \<open>
  The prelude of the development: what every component uses of the Go language.
  \<^item> Faults. A computation that Go would stop (an index out of range, a bad type
    assertion) or suspend (a channel that is full or empty) is a value of
    \<open>fault + 'a\<close>; \<open>go_bind\<close> sequences such computations.
  \<^item> Signed 32-bit integers. A Go \<open>int32\<close> is the integer it denotes, and \<open>i32\<close>
    is the wrap-around every conversion to \<open>int32\<close> and every \<open>int32\<close> addition
    performs; \<open>i32_is_word\<close> ties it to the two's complement word.
  \<^item> Slices. \<open>idx\<close> and \<open>reslice\<close> are Go's checked \<open>xs[i]\<close> and \<open>xs[lo:hi]\<close>,
    \<open>upd_idx\<close> is the checked assignment to \<open>xs[i]\<close>.
  The collection \<open>go_simps\<close> holds the evaluation rules of these operations, so that
  \<open>simp add: go_simps\<close> runs a handler.
\<close>

named_theorems go_simps \<open>evaluation of the Go primitives\<close>

section \<open>Faults and sequencing\<close>

datatype fault =
    IndexOutOfRange
  | SliceBounds
  | BadAssertion
  | NilDereference
  | ClosedChannel
  | Blocked

type_synonym 'a go = "fault + 'a"

definition go_bind :: "'a go \<Rightarrow> ('a \<Rightarrow> 'b go) \<Rightarrow> 'b go" where
  "go_bind m f = (case m of Inl e \<Rightarrow> Inl e | Inr x \<Rightarrow> f x)"

lemma go_bind_simps [simp, go_simps]:
  "go_bind (Inr x) f = f x"
  "go_bind (Inl e) f = Inl e"
  by (simp_all add: go_bind_def)

lemma go_bind_Inr: "go_bind m f = Inr y \<longleftrightarrow> (\<exists>x. m = Inr x \<and> f x = Inr y)"
  by (cases m) simp_all

lemma go_bind_InrE [elim!]:
  assumes "go_bind m f = Inr y"
  obtains x where "m = Inr x" "f x = Inr y"
  using assms by (auto simp: go_bind_Inr)

lemma go_bind_Inl:
  "go_bind m f = Inl e \<longleftrightarrow> m = Inl e \<or> (\<exists>x. m = Inr x \<and> f x = Inl e)"
  by (cases m) auto

lemma go_bind_cong [fundef_cong]:
  "m = m' \<Longrightarrow> (\<And>x. m' = Inr x \<Longrightarrow> f x = f' x) \<Longrightarrow> go_bind m f = go_bind m' f'"
  by (cases m') auto

text \<open>Evaluate the first computation before looking into the second.\<close>

lemma go_bind_weak_cong: "m = m' \<Longrightarrow> go_bind m f = go_bind m' f"
  by simp

text \<open>A handler that runs on a sequence of messages, until one of them faults.\<close>

primrec go_fold :: "('m \<Rightarrow> 's \<Rightarrow> 's go) \<Rightarrow> 'm list \<Rightarrow> 's \<Rightarrow> 's go" where
  "go_fold f [] s = Inr s"
| "go_fold f (m # ms) s = go_bind (f m s) (go_fold f ms)"

lemma go_fold_append: "go_fold f (xs @ ys) s = go_bind (go_fold f xs s) (go_fold f ys)"
  by (induction xs arbitrary: s) (auto simp: go_bind_def split: sum.split)

lemma go_fold_snoc: "go_fold f (xs @ [x]) s = go_bind (go_fold f xs s) (f x)"
  by (induction xs arbitrary: s) (auto simp: go_bind_def split: sum.split)

section \<open>Signed 32-bit integers\<close>

type_synonym int32 = int

definition in32 :: "int \<Rightarrow> bool" where
  "in32 x \<longleftrightarrow> - 2147483648 \<le> x \<and> x < 2147483648"

definition i32 :: "int \<Rightarrow> int32" where
  "i32 x = (x + 2147483648) mod 4294967296 - 2147483648"

lemma i32_id: "in32 x \<Longrightarrow> i32 x = x"
  by (simp add: in32_def i32_def)

lemma i32_small [simp]: "- 2147483648 \<le> x \<Longrightarrow> x < 2147483648 \<Longrightarrow> i32 x = x"
  by (simp add: i32_def)

lemma in32_i32 [simp]: "in32 (i32 x)"
proof -
  have "0 \<le> (x + 2147483648) mod 4294967296" "(x + 2147483648) mod 4294967296 < 4294967296"
    by simp_all
  then show ?thesis by (simp add: in32_def i32_def)
qed

lemma i32_succ_le: "in32 x \<Longrightarrow> i32 (x + 1) \<le> x + 1"
  by (cases "x = 2147483647") (auto simp: in32_def i32_def)

text \<open>\<open>i32\<close> is the reading of the low 32 bits as a two's complement number.\<close>

lemma i32_is_word: "i32 x = sint (word_of_int x :: 32 word)"
  by (simp add: i32_def int_word_sint)

lemma i32_add_word: "i32 (sint (a :: 32 word) + sint b) = sint (a + b)"
  by (simp add: i32_is_word)

section \<open>Checked indexing and slicing\<close>

definition idx :: "'a list \<Rightarrow> int \<Rightarrow> 'a go" where
  "idx xs i = (if 0 \<le> i \<and> i < int (length xs) then Inr (xs ! nat i) else Inl IndexOutOfRange)"

definition reslice :: "'a list \<Rightarrow> int \<Rightarrow> int \<Rightarrow> 'a list go" where
  "reslice xs lo hi =
     (if 0 \<le> lo \<and> lo \<le> hi \<and> hi \<le> int (length xs)
      then Inr (drop (nat lo) (take (nat hi) xs)) else Inl SliceBounds)"

lemma idx_in [go_simps]: "0 \<le> i \<Longrightarrow> i < int (length xs) \<Longrightarrow> idx xs i = Inr (xs ! nat i)"
  by (simp add: idx_def)

lemma idx_out [go_simps]: "i < 0 \<or> int (length xs) \<le> i \<Longrightarrow> idx xs i = Inl IndexOutOfRange"
  by (auto simp: idx_def)

lemma idx_Inr: "idx xs i = Inr x \<longleftrightarrow> 0 \<le> i \<and> i < int (length xs) \<and> x = xs ! nat i"
  by (auto simp: idx_def)

lemma idx_Inl: "idx xs i = Inl e \<longleftrightarrow> e = IndexOutOfRange \<and> (i < 0 \<or> int (length xs) \<le> i)"
  by (auto simp: idx_def)

lemma idx_last [simp, go_simps]: "xs \<noteq> [] \<Longrightarrow> idx xs (int (length xs) - 1) = Inr (last xs)"
  by (cases xs rule: rev_cases) (auto simp: idx_def)

lemma reslice_in [go_simps]:
  "0 \<le> lo \<Longrightarrow> lo \<le> hi \<Longrightarrow> hi \<le> int (length xs) \<Longrightarrow>
   reslice xs lo hi = Inr (drop (nat lo) (take (nat hi) xs))"
  by (simp add: reslice_def)

lemma reslice_Inr:
  "reslice xs lo hi = Inr ys \<longleftrightarrow>
   0 \<le> lo \<and> lo \<le> hi \<and> hi \<le> int (length xs) \<and> ys = drop (nat lo) (take (nat hi) xs)"
  by (auto simp: reslice_def)

definition upd_idx :: "'a list \<Rightarrow> int \<Rightarrow> 'a \<Rightarrow> 'a list go" where
  "upd_idx xs i x = (if 0 \<le> i \<and> i < int (length xs) then Inr (xs[nat i := x]) else Inl IndexOutOfRange)"

lemma upd_idx_Inr:
  "upd_idx xs i x = Inr ys \<longleftrightarrow> 0 \<le> i \<and> i < int (length xs) \<and> ys = xs[nat i := x]"
  by (auto simp: upd_idx_def)

lemma upd_idx_in [go_simps]: "0 \<le> i \<Longrightarrow> i < int (length xs) \<Longrightarrow> upd_idx xs i x = Inr (xs[nat i := x])"
  by (simp add: upd_idx_def)

section \<open>Lists\<close>

lemma last_take_conv: "0 < n \<Longrightarrow> n \<le> length xs \<Longrightarrow> last (take n xs) = xs ! (n - 1)"
  by (subst last_conv_nth) (auto simp: min_def)

lemma take_nth_eq: "take n xs = take n ys \<Longrightarrow> i < n \<Longrightarrow> n \<le> length xs \<Longrightarrow> xs ! i = ys ! i"
  by (metis nth_take)

lemma map_upt_take: "n \<le> length xs \<Longrightarrow> map ((!) xs) [0..<n] = take n xs"
  by (metis map_nth take_map take_upt add_0)

text \<open>The first occurrence of a separator splits a list in one way.\<close>

lemma split_at_unique:
  "xs @ c # ys = xs' @ c # ys' \<Longrightarrow> c \<notin> set xs \<Longrightarrow> c \<notin> set xs' \<Longrightarrow> xs = xs' \<and> ys = ys'"
proof (induction xs arbitrary: xs')
  case Nil
  then show ?case by (cases xs') auto
next
  case (Cons x xs)
  then show ?case by (cases xs') auto
qed

text \<open>
  The list \<open>xs\<close> with the elements from position \<open>h\<close> on overwritten by \<open>es\<close>, as far
  as they fit: what an \<open>append\<close> to \<open>xs[:h]\<close> does to the array under \<open>xs\<close> when the
  array has room.
\<close>

definition overwrite :: "'a list \<Rightarrow> nat \<Rightarrow> 'a list \<Rightarrow> 'a list" where
  "overwrite xs h es = take (length xs) (take h xs @ es @ drop (h + length es) xs)"

lemma length_overwrite [simp]: "h \<le> length xs \<Longrightarrow> length (overwrite xs h es) = length xs"
  by (simp add: overwrite_def)

lemma overwrite_Nil [simp]: "overwrite xs h [] = xs"
  by (simp add: overwrite_def)

lemma nth_overwrite:
  assumes "h \<le> length xs" "i < length xs"
  shows "overwrite xs h es ! i = (if h \<le> i \<and> i < h + length es then es ! (i - h) else xs ! i)"
  using assms by (auto simp: overwrite_def nth_append min_def)

text \<open>Overwriting with elements that are already there changes nothing.\<close>

lemma overwrite_same:
  assumes "h \<le> length xs"
    and "\<And>i. i < length es \<Longrightarrow> h + i < length xs \<Longrightarrow> es ! i = xs ! (h + i)"
  shows "overwrite xs h es = xs"
proof (rule nth_equalityI)
  show "length (overwrite xs h es) = length xs" using assms(1) by simp
next
  fix i assume "i < length (overwrite xs h es)"
  then have i: "i < length xs" using assms(1) by simp
  show "overwrite xs h es ! i = xs ! i"
    using assms(2)[of "i - h"] i by (auto simp: nth_overwrite[OF assms(1) i])
qed

end
