(* ===== verification/Atomics.thy ===== *)
theory Atomics
  imports Prelude
begin

text \<open>
  The atomic cells of \<open>common/data/atomic_data.go\<close>. \<open>At32\<close> holds an \<open>int32\<close>,
  \<open>AtU64\<close> a \<open>uint64\<close>, and \<open>AtBool\<close> a \<open>uint32\<close> that stands for a boolean (0 is
  false, anything else true). Each operation is one \<open>sync/atomic\<close> access, hence one
  step. They are modelled at their machine width; \<open>At32_Add_int\<close> is the bridge to the
  Raft state, which holds an \<open>int32\<close> as the integer it denotes.

  The locale \<open>cell\<close> is the contract the rest of the program uses (a load gives the last
  value stored); it is interpreted for all three cells.
\<close>

record At32 = at32_val :: "32 word"
record AtBool = atbool_val :: "32 word"
record AtU64 = atu64_val :: "64 word"

definition At32_Set :: "At32 \<Rightarrow> 32 word \<Rightarrow> At32" where
  "At32_Set at v = at\<lparr>at32_val := v\<rparr>"

definition At32_Load :: "At32 \<Rightarrow> 32 word" where
  "At32_Load at = at32_val at"

definition At32_Add :: "At32 \<Rightarrow> 32 word \<Rightarrow> At32 \<times> 32 word" where
  "At32_Add at v = (let s = at32_val at + v in (at\<lparr>at32_val := s\<rparr>, s))"

definition AtBool_Set :: "AtBool \<Rightarrow> bool \<Rightarrow> AtBool" where
  "AtBool_Set at v = (let inn = (if v then 1 else 0) in at\<lparr>atbool_val := inn\<rparr>)"

definition AtBool_Load :: "AtBool \<Rightarrow> bool" where
  "AtBool_Load at \<longleftrightarrow> atbool_val at \<noteq> 0"

definition AtU64_Set :: "AtU64 \<Rightarrow> 64 word \<Rightarrow> AtU64" where
  "AtU64_Set at v = at\<lparr>atu64_val := v\<rparr>"

definition AtU64_Load :: "AtU64 \<Rightarrow> 64 word" where
  "AtU64_Load at = atu64_val at"

definition AtU64_Add :: "AtU64 \<Rightarrow> 64 word \<Rightarrow> AtU64 \<times> 64 word" where
  "AtU64_Add at v = (let s = atu64_val at + v in (at\<lparr>atu64_val := s\<rparr>, s))"

lemmas atomic_defs = At32_Set_def At32_Load_def At32_Add_def AtBool_Set_def AtBool_Load_def
  AtU64_Set_def AtU64_Load_def AtU64_Add_def

declare atomic_defs [go_simps]

locale cell =
  fixes store :: "'c \<Rightarrow> 'v \<Rightarrow> 'c"
    and load :: "'c \<Rightarrow> 'v"
  assumes load_store: "load (store c v) = v"
begin

primrec store_all :: "'c \<Rightarrow> 'v list \<Rightarrow> 'c" where
  "store_all c [] = c"
| "store_all c (v # vs) = store_all (store c v) vs"

text \<open>After any sequence of stores a load gives the last value stored.\<close>

lemma load_store_all: "load (store_all c (vs @ [v])) = v"
  by (induction vs arbitrary: c) (simp_all add: load_store)

end

interpretation at32: cell At32_Set At32_Load
  by unfold_locales (simp add: atomic_defs)

interpretation atbool: cell AtBool_Set AtBool_Load
  by unfold_locales (simp add: atomic_defs)

interpretation atu64: cell AtU64_Set AtU64_Load
  by unfold_locales (simp add: atomic_defs)

text \<open>The value \<open>Add\<close> returns is the value a later load sees.\<close>

lemma At32_Add_loads: "At32_Load (fst (At32_Add at v)) = snd (At32_Add at v)"
  by (simp add: atomic_defs Let_def)

lemma AtU64_Add_loads: "AtU64_Load (fst (AtU64_Add at v)) = snd (AtU64_Add at v)"
  by (simp add: atomic_defs Let_def)

text \<open>Read as a signed number, \<open>Add\<close> is the wrapped sum of the integers.\<close>

lemma At32_Add_int: "sint (snd (At32_Add at v)) = i32 (sint (At32_Load at) + sint v)"
  by (simp add: atomic_defs Let_def i32_add_word)

lemma At32_Add_max:
  "sint (At32_Load at) = 2147483647 \<Longrightarrow> sint (snd (At32_Add at 1)) = - 2147483648"
  by (simp add: At32_Add_int i32_def)

end
