(* ===== verification/Channels.thy ===== *)
theory Channels
  imports Prelude
begin

text \<open>
  Go's buffered channels, the only shared structure the goroutines of this program
  synchronise on. A channel is the list of the values in its buffer, oldest first; its
  capacity is the number given to \<open>make\<close>. A send to a full channel and a receive
  from an empty one suspend the goroutine: the outcome is \<open>Blocked\<close>, the step is not
  enabled until another goroutine makes room. \<open>chan_try_send\<close> is the send in a
  \<open>select\<close> with a \<open>default\<close>.

  The interface the clients rely on is the locale \<open>fifo\<close>: what is received is what was
  sent, in order, and the buffer never holds more than its capacity.
\<close>

definition chan_send :: "nat \<Rightarrow> 'a \<Rightarrow> 'a list \<Rightarrow> 'a list go" where
  "chan_send cap x c = (if length c < cap then Inr (c @ [x]) else Inl Blocked)"

fun chan_recv :: "'a list \<Rightarrow> ('a \<times> 'a list) go" where
  "chan_recv [] = Inl Blocked"
| "chan_recv (x # c) = Inr (x, c)"

definition chan_try_send :: "nat \<Rightarrow> 'a \<Rightarrow> 'a list \<Rightarrow> 'a list" where
  "chan_try_send cap x c = (case chan_send cap x c of Inr c' \<Rightarrow> c' | Inl _ \<Rightarrow> c)"

lemma chan_send_room [go_simps]: "length c < cap \<Longrightarrow> chan_send cap x c = Inr (c @ [x])"
  by (simp add: chan_send_def)

lemma chan_send_full [go_simps]: "cap \<le> length c \<Longrightarrow> chan_send cap x c = Inl Blocked"
  by (simp add: chan_send_def)

lemma chan_send_Inr: "chan_send cap x c = Inr c' \<longleftrightarrow> length c < cap \<and> c' = c @ [x]"
  by (auto simp: chan_send_def)

lemma chan_send_Inl: "chan_send cap x c = Inl e \<longleftrightarrow> e = Blocked \<and> cap \<le> length c"
  by (auto simp: chan_send_def)

lemma chan_recv_Inr: "chan_recv c = Inr r \<longleftrightarrow> c = fst r # snd r"
  by (cases c) (auto simp: prod_eq_iff)

lemma chan_recv_Inl: "chan_recv c = Inl e \<longleftrightarrow> e = Blocked \<and> c = []"
  by (cases c) auto

lemma chan_try_send_cases [go_simps]:
  "chan_try_send cap x c = (if length c < cap then c @ [x] else c)"
  by (simp add: chan_try_send_def chan_send_def)

locale fifo =
  fixes send :: "'a \<Rightarrow> 'c \<Rightarrow> 'c go"
    and recv :: "'c \<Rightarrow> ('a \<times> 'c) go"
    and contents :: "'c \<Rightarrow> 'a list"
    and cap :: nat
  assumes send_ok: "send x c = Inr c' \<Longrightarrow> contents c' = contents c @ [x] \<and> length (contents c) < cap"
    and send_room: "length (contents c) < cap \<Longrightarrow> \<exists>c'. send x c = Inr c'"
    and recv_ok: "recv c = Inr (x, c') \<Longrightarrow> contents c = x # contents c'"
    and recv_some: "contents c \<noteq> [] \<Longrightarrow> \<exists>r. recv c = Inr r"
begin

primrec send_all :: "'a list \<Rightarrow> 'c \<Rightarrow> 'c go" where
  "send_all [] c = Inr c"
| "send_all (x # xs) c = go_bind (send x c) (send_all xs)"

text \<open>A burst of sends keeps its order behind what is already buffered.\<close>

lemma send_all_contents: "send_all xs c = Inr c' \<Longrightarrow> contents c' = contents c @ xs"
  by (induction xs arbitrary: c) (auto dest: send_ok)

text \<open>A burst that fits in the free room does not suspend.\<close>

lemma send_all_room: "length (contents c) + length xs \<le> cap \<Longrightarrow> \<exists>c'. send_all xs c = Inr c'"
proof (induction xs arbitrary: c)
  case Nil
  then show ?case by simp
next
  case (Cons x xs)
  then obtain c1 where c1: "send x c = Inr c1" using send_room[of c x] by auto
  with Cons.prems have "length (contents c1) + length xs \<le> cap" by (auto dest: send_ok)
  with Cons.IH c1 show ?case by simp
qed

text \<open>The first receive after a send to an empty channel gives the value that was sent.\<close>

lemma recv_after_send:
  assumes "contents c = []" "send x c = Inr c'"
  shows "\<exists>c''. recv c' = Inr (x, c'') \<and> contents c'' = []"
proof -
  have "contents c' = [x]" using send_ok[OF assms(2)] assms(1) by simp
  moreover then obtain y c'' where "recv c' = Inr (y, c'')" using recv_some[of c'] by auto
  ultimately show ?thesis using recv_ok[of c' y c''] by auto
qed

lemma send_bounded:
  assumes "length (contents c) \<le> cap" "send x c = Inr c'"
  shows "length (contents c') \<le> cap"
  using send_ok[OF assms(2)] by simp

end

interpretation chan: fifo "chan_send cap" chan_recv "\<lambda>c. c" cap for cap
  by unfold_locales (auto simp: chan_send_def chan_recv_Inr neq_Nil_conv split: if_splits)

lemma chan_bounded: "length c \<le> cap \<Longrightarrow> chan_send cap x c = Inr c' \<Longrightarrow> length c' \<le> cap"
  by (rule chan.send_bounded)

end
