(* ===== verification/RaftData.thy ===== *)
theory RaftData
  imports Prelude
begin

text \<open>
  The data of the Raft protocol: the structs of \<open>raft/data/rpc_data.go\<close>, and the part of
  \<open>controller/data/metric.go\<close> that Raft sends. A struct is a record with the source's
  fields; fields that two structs share get the struct's initials as a prefix.

  A command is Go's \<open>interface{}\<close>. Every command reaches a Raft server inside a JSON
  body, so its dynamic type is one of the types \<open>encoding/json\<close> decodes into: the
  datatype \<open>gval\<close>. (Numbers are kept as integers; the program never inspects them.)
\<close>

datatype gval =
    GNil
  | GBool bool
  | GNum int
  | GStr string
  | GList "gval list"
  | GMap "(string \<times> gval) list"

record raft_log =
  Index :: int32
  Term :: int32
  Cmd :: gval

definition zero_log :: raft_log where
  "zero_log = \<lparr>Index = 0, Term = 0, Cmd = GNil\<rparr>"

lemma zero_log_simps [simp]: "Index zero_log = 0" "Term zero_log = 0" "Cmd zero_log = GNil"
  by (simp_all add: zero_log_def)

record append_entries_args =
  ae_Term :: int32
  LeaderID :: int32
  PrevLog :: raft_log
  Entries :: "raft_log list"
  LeaderCommitIdx :: int32

record append_entries_reply =
  aer_Term :: int32
  Success :: bool
  LastEntry :: raft_log

record request_vote_args =
  rv_Term :: int32
  ID :: int32
  Log :: raft_log

record request_vote_reply =
  rvr_Term :: int32
  Voted :: bool

record apply_msg =
  msg_Index :: int
  Command :: gval
  UseSnapshot :: bool
  Snapshot :: "8 word list"

record apply_msg_reply =
  apply_Ok :: bool

record agree_args =
  agree_Cmd :: gval

record agree_reply =
  ag_Term :: int
  ag_Index :: int
  ag_IsLeader :: bool

record state_reply =
  st_Term :: int
  st_IsLeader :: bool

text \<open>The zero values Go gives a reply that is allocated and passed by address.\<close>

definition zero_append_reply :: append_entries_reply where
  "zero_append_reply = \<lparr>aer_Term = 0, Success = False, LastEntry = zero_log\<rparr>"

definition zero_vote_reply :: request_vote_reply where
  "zero_vote_reply = \<lparr>rvr_Term = 0, Voted = False\<rparr>"

definition zero_agree_reply :: agree_reply where
  "zero_agree_reply = \<lparr>ag_Term = 0, ag_Index = 0, ag_IsLeader = False\<rparr>"

definition zero_state_reply :: state_reply where
  "zero_state_reply = \<lparr>st_Term = 0, st_IsLeader = False\<rparr>"

lemmas zero_replies [simp, go_simps] =
  zero_append_reply_def zero_vote_reply_def zero_agree_reply_def zero_state_reply_def

text \<open>What Raft reports to the metric controller (\<open>RPCArgs\<close>).\<close>

record rpc_args =
  Idx :: int
  RPCFromIdx :: int
  rpc_Logs :: "raft_log list"
  rpc_Type :: string
  rpc_VotedFor :: int
  rpc_LeaderIdx :: int

definition zero_rpc_args :: rpc_args where
  "zero_rpc_args =
     \<lparr>Idx = 0, RPCFromIdx = 0, rpc_Logs = [], rpc_Type = '''', rpc_VotedFor = 0, rpc_LeaderIdx = 0\<rparr>"

section \<open>The shape of a log\<close>

text \<open>
  A log is indexed from the sentinel entry \<open>RaftLog{}\<close> at position 0, and an entry's
  \<open>Index\<close> is its position; \<open>consecutive i\<close> is the same for a run of entries that
  starts at index \<open>i\<close>.
\<close>

fun consecutive :: "int \<Rightarrow> raft_log list \<Rightarrow> bool" where
  "consecutive i [] = True"
| "consecutive i (e # es) = (Index e = i \<and> consecutive (i + 1) es)"

definition log_wf :: "raft_log list \<Rightarrow> bool" where
  "log_wf ls \<longleftrightarrow> ls \<noteq> [] \<and> hd ls = zero_log \<and> consecutive 0 ls \<and> length ls < 2147483648"

lemma consecutive_append [simp]:
  "consecutive i (xs @ ys) \<longleftrightarrow> consecutive i xs \<and> consecutive (i + int (length xs)) ys"
  by (induction xs arbitrary: i) (auto simp: algebra_simps)

lemma consecutive_take: "consecutive i xs \<Longrightarrow> consecutive i (take n xs)"
  by (metis append_take_drop_id consecutive_append)

lemma consecutive_drop: "consecutive i xs \<Longrightarrow> n \<le> length xs \<Longrightarrow> consecutive (i + int n) (drop n xs)"
  by (metis append_take_drop_id consecutive_append length_take min.absorb2)

lemma consecutive_nth: "consecutive i xs \<Longrightarrow> k < length xs \<Longrightarrow> Index (xs ! k) = i + int k"
  by (induction xs arbitrary: i k) (auto simp: nth_Cons split: nat.splits)

lemma consecutiveI: "(\<And>k. k < length xs \<Longrightarrow> Index (xs ! k) = i + int k) \<Longrightarrow> consecutive i xs"
proof (induction xs arbitrary: i)
  case Nil
  then show ?case by simp
next
  case (Cons x xs)
  have "Index x = i" using Cons.prems[of 0] by simp
  moreover have "consecutive (i + 1) xs"
    by (rule Cons.IH) (use Cons.prems[of "Suc k" for k] in \<open>auto simp: algebra_simps\<close>)
  ultimately show ?case by simp
qed

lemma log_wfD:
  assumes "log_wf ls"
  shows "ls \<noteq> []" "ls ! 0 = zero_log" "length ls < 2147483648" "consecutive 0 ls"
  using assms by (auto simp: log_wf_def hd_conv_nth)

lemma log_wf_Index: "log_wf ls \<Longrightarrow> k < length ls \<Longrightarrow> Index (ls ! k) = int k"
  by (auto simp: log_wf_def dest: consecutive_nth)

lemma log_wf_last [simp]: "log_wf ls \<Longrightarrow> Index (last ls) = int (length ls) - 1"
  using log_wf_Index[of ls "length ls - 1"]
  by (cases ls) (auto simp: last_conv_nth dest: log_wfD(1))

lemma log_wf_take: "log_wf ls \<Longrightarrow> 0 < n \<Longrightarrow> log_wf (take n ls)"
  by (auto simp: log_wf_def consecutive_take min_def)

lemma log_wf_append:
  "log_wf ls \<Longrightarrow> consecutive (int (length ls)) es \<Longrightarrow> length ls + length es < 2147483648 \<Longrightarrow>
   log_wf (ls @ es)"
  by (auto simp: log_wf_def)

lemma log_wf_zero [simp]: "log_wf [zero_log]"
  by (simp add: log_wf_def)

text \<open>The pair that identifies an entry across logs in Raft's log matching.\<close>

definition entry_id :: "raft_log \<Rightarrow> int32 \<times> int32" where
  "entry_id e = (Index e, Term e)"

end
