(* ===== verification/Persist.thy ===== *)
theory Persist
  imports RaftData
begin

text \<open>
  \<open>raft/persister.go\<close> and the \<open>encoding/gob\<close> streams that \<open>Raft.persist\<close> writes into it.

  The persister keeps two byte slices; it never looks into them, so its model is
  polymorphic in what a slice is made of. Its mutex makes every method one atomic step.

  A gob stream is the sequence of the values encoded into it. Three documented facts of
  \<open>encoding/gob\<close> matter here. (i) Decoding takes the values in the order they were
  encoded; at the end of the stream \<open>Decode\<close> returns an error and leaves its target as
  it was. (ii) An interface value can be encoded only when its concrete type is
  registered; the basic types are, and a nil interface is simply omitted. (iii) When
  \<open>Encode\<close> fails it writes nothing. A command of a Raft log has type \<open>interface{}\<close>, and a
  JSON object or array in it (\<open>map[string]interface{}\<close>, \<open>[]interface{}\<close>) has a type that
  nothing registers: \<open>gob_registered\<close>.
\<close>

record 'b persister =
  raftstate :: "'b list"
  snapshot :: "'b list"

definition MakePersister :: "'b persister" where
  "MakePersister = \<lparr>raftstate = [], snapshot = []\<rparr>"

definition Persister_Copy :: "'b persister \<Rightarrow> 'b persister" where
  "Persister_Copy ps =
     (let np = MakePersister in np\<lparr>raftstate := raftstate ps, snapshot := snapshot ps\<rparr>)"

definition SaveRaftState :: "'b list \<Rightarrow> 'b persister \<Rightarrow> 'b persister" where
  "SaveRaftState data ps = ps\<lparr>raftstate := data\<rparr>"

definition ReadRaftState :: "'b persister \<Rightarrow> 'b list" where
  "ReadRaftState ps = raftstate ps"

definition RaftStateSize :: "'b persister \<Rightarrow> nat" where
  "RaftStateSize ps = length (raftstate ps)"

definition SaveSnapshot :: "'b list \<Rightarrow> 'b persister \<Rightarrow> 'b persister" where
  "SaveSnapshot snap ps = ps\<lparr>snapshot := snap\<rparr>"

definition ReadSnapshot :: "'b persister \<Rightarrow> 'b list" where
  "ReadSnapshot ps = snapshot ps"

lemmas persister_defs = MakePersister_def Persister_Copy_def SaveRaftState_def
  ReadRaftState_def RaftStateSize_def SaveSnapshot_def ReadSnapshot_def

declare persister_defs [go_simps]

text \<open>The copy is independent of later saves to the original, and holds what it held.\<close>

lemma Persister_Copy_same: "Persister_Copy ps = ps"
  by (simp add: persister_defs)

lemma Save_Read:
  "ReadRaftState (SaveRaftState d ps) = d"
  "ReadSnapshot (SaveSnapshot d ps) = d"
  "ReadRaftState (SaveSnapshot d ps) = ReadRaftState ps"
  "ReadSnapshot (SaveRaftState d ps) = ReadSnapshot ps"
  by (simp_all add: persister_defs)

section \<open>gob streams\<close>

datatype gob_value = GobInt32 int32 | GobLogs "raft_log list"

type_synonym gob_stream = "gob_value list"

fun gob_registered :: "gval \<Rightarrow> bool" where
  "gob_registered (GList _) = False"
| "gob_registered (GMap _) = False"
| "gob_registered _ = True"

definition gob_Encode_int32 :: "int32 \<Rightarrow> gob_stream \<Rightarrow> gob_stream" where
  "gob_Encode_int32 v w = w @ [GobInt32 v]"

definition gob_Encode_logs :: "raft_log list \<Rightarrow> gob_stream \<Rightarrow> gob_stream" where
  "gob_Encode_logs ls w =
     (if list_all (\<lambda>e. gob_registered (Cmd e)) ls then w @ [GobLogs ls] else w)"

text \<open>Decoding returns the new value of the target and the rest of the stream.\<close>

fun gob_Decode_int32 :: "gob_stream \<Rightarrow> int32 \<Rightarrow> int32 \<times> gob_stream" where
  "gob_Decode_int32 (GobInt32 v # r) old = (v, r)"
| "gob_Decode_int32 (_ # r) old = (old, r)"
| "gob_Decode_int32 [] old = (old, [])"

fun gob_Decode_logs :: "gob_stream \<Rightarrow> raft_log list \<Rightarrow> raft_log list \<times> gob_stream" where
  "gob_Decode_logs (GobLogs ls # r) old = (ls, r)"
| "gob_Decode_logs (_ # r) old = (old, r)"
| "gob_Decode_logs [] old = (old, [])"

end
