(* ===== verification/Raft.thy ===== *)
theory Raft
  imports Channels Persist
begin

text \<open>
  One Raft server: the struct \<open>Raft\<close> of \<open>raft/raft.go\<close>, its RPC handlers and API, and one
  iteration of each of the goroutines that \<open>Make\<close> starts.

  \<^item> State. The record \<open>raft\<close> has the struct's fields by name. \<open>peers\<close> is represented by
    its length (the connections themselves are used only to emit calls), an atomic cell by
    the value in it, a channel by the buffer of \<open>Channels\<close>, and the local variables of the
    goroutines (\<open>commitTracker\<close>, the ticker, the elections in progress) are fields too. The
    mutex \<open>mu\<close> and \<open>heartBeatChnl\<close> are never used by the code and are left out.
  \<^item> Calls a handler makes on its own connection \<open>peers[me]\<close> are outputs (\<open>effect\<close>): the
    code ignores what they return.
  \<^item> Atomicity. Each definition is one handler invocation or one loop iteration run without
    interference; the code splits an iteration at the points where it waits for another
    server, and so does the model (\<open>peer_send\<close> and \<open>peer_reply\<close>, \<open>election_timeout\<close>,
    \<open>vote_reply\<close>, \<open>tracker_recv\<close> and \<open>leader_init\<close>). \<open>Blocked\<close> means the iteration waits for a
    channel.
  \<^item> Slices are values, except that \<open>peer_send\<close> keeps the one write through a shared array.
\<close>

definition MAX_LOGS :: nat where "MAX_LOGS = 256"
definition OK :: int where "OK = 1"

datatype effect = ApplyCall apply_msg | MetricCall rpc_args

text \<open>
  An election in progress: the goroutine that counts the votes of one term. \<open>Announced\<close> is
  the moment between declaring itself leader and initialising \<open>nextIndex\<close>.
\<close>

datatype election_phase = Counting | Announced | Won | Quit

record election =
  el_term :: int32
  el_lastLog :: raft_log
  el_commitIdx :: int32
  votes :: int
  votingChnl :: "bool list"
  phase :: election_phase

record raft =
  n_peers :: nat
  persister :: "gob_value persister"
  me :: int32
  jobsChnl :: "raft_log list"
  rpcChnl :: "int list"
  heartBeatTimerReset :: "bool list"
  rdyChnl :: "append_entries_args list list"
  stopChnl :: "bool list"
  commitIdxChnl :: "int32 list"
  logidx :: int32
  isLeader :: bool
  heartbeatTimer :: bool
  currentTerm :: int32
  VotedFor :: int32
  logs :: "raft_log list"
  commitIdx :: int32
  lastApplied :: int32
  nextIndex :: "int32 list"
  matchIndex :: "int32 list"
  commitTracker :: "int32 \<Rightarrow> int32 option"
  elections :: "election list"

section \<open>Persistence\<close>

definition persist :: "raft \<Rightarrow> raft" where
  "persist rf =
     (let w = gob_Encode_int32 (currentTerm rf) [];
          w = gob_Encode_int32 (VotedFor rf) w;
          w = gob_Encode_logs (logs rf) w
      in rf\<lparr>persister := SaveRaftState w (persister rf)\<rparr>)"

definition readPersist :: "gob_stream \<Rightarrow> raft \<Rightarrow> raft" where
  "readPersist data rf =
     (let (term, r) = gob_Decode_int32 data 0;
          (vf, r) = gob_Decode_int32 r (VotedFor rf);
          (ls, r) = gob_Decode_logs r (logs rf)
      in rf\<lparr>VotedFor := vf, logs := ls, currentTerm := term, logidx := i32 (int (length ls) - 1)\<rparr>)"

text \<open>\<open>Make\<close> without the goroutines it starts.\<close>

definition Make :: "nat \<Rightarrow> int \<Rightarrow> gob_value persister \<Rightarrow> raft" where
  "Make n i ps =
     readPersist (ReadRaftState ps)
       \<lparr>n_peers = n, persister = ps, me = i32 i,
        jobsChnl = [], rpcChnl = [], heartBeatTimerReset = [], rdyChnl = replicate n [],
        stopChnl = [], commitIdxChnl = [],
        logidx = 0, isLeader = False, heartbeatTimer = False,
        currentTerm = 0, VotedFor = -1, logs = [zero_log],
        commitIdx = 0, lastApplied = 0,
        nextIndex = replicate n 0, matchIndex = replicate n 0,
        commitTracker = Map.empty, elections = []\<rparr>"

section \<open>The API: Start, GetState, Kill\<close>

definition GetState :: "raft \<Rightarrow> int \<times> bool" where
  "GetState rf = (currentTerm rf, isLeader rf)"

definition ReturnState :: "state_reply \<Rightarrow> raft \<Rightarrow> state_reply" where
  "ReturnState reply rf = reply\<lparr>st_IsLeader := isLeader rf, st_Term := currentTerm rf\<rparr>"

definition Start :: "gval \<Rightarrow> raft \<Rightarrow> (raft \<times> int \<times> int \<times> bool) go" where
  "Start command rf =
     (if \<not> isLeader rf then Inr (rf, 0, 0, False)
      else let index = i32 (logidx rf + 1);
               rf = rf\<lparr>logidx := index\<rparr>;
               term = currentTerm rf
           in go_bind (chan_send MAX_LOGS \<lparr>Index = index, Term = term, Cmd = command\<rparr> (jobsChnl rf)) (\<lambda>c.
              Inr (rf\<lparr>jobsChnl := c\<rparr>, index, term, True)))"

definition Agree :: "agree_args \<Rightarrow> agree_reply \<Rightarrow> raft \<Rightarrow> (raft \<times> agree_reply) go" where
  "Agree args reply rf =
     go_bind (Start (agree_Cmd args) rf) (\<lambda>(rf, i, term, isleader).
       Inr (rf, reply\<lparr>ag_Index := i, ag_IsLeader := isleader, ag_Term := term\<rparr>))"

definition Kill :: "raft \<Rightarrow> raft go" where
  "Kill rf = go_bind (chan_send 1 True (stopChnl rf)) (\<lambda>c. Inr (rf\<lparr>stopChnl := c\<rparr>))"

definition SendMetrics :: "rpc_args \<Rightarrow> effect list" where
  "SendMetrics arg = [MetricCall arg]"

section \<open>RequestVote\<close>

definition RequestVote ::
  "request_vote_args \<Rightarrow> request_vote_reply \<Rightarrow> raft \<Rightarrow> (raft \<times> request_vote_reply \<times> effect list) go" where
  "RequestVote args reply rf =
     go_bind (chan_send MAX_LOGS OK (rpcChnl rf)) (\<lambda>c.
     let rf = rf\<lparr>rpcChnl := c\<rparr>;
         cur = currentTerm rf;
         reply = reply\<lparr>rvr_Term := cur\<rparr>
     in if rv_Term args < cur then Inr (persist rf, reply, [])
     else
       let rf = rf\<lparr>currentTerm := rv_Term args\<rparr>;
           reply = reply\<lparr>rvr_Term := rv_Term args\<rparr>
       in if rv_Term args > cur \<or> (cur = rv_Term args \<and> VotedFor rf = -1) then
         go_bind (idx (logs rf) (int (length (logs rf)) - 1)) (\<lambda>mylast.
           if Term mylast < Term (Log args)
              \<or> (Term mylast = Term (Log args) \<and> Index mylast \<le> Index (Log args))
           then
             let reply = reply\<lparr>Voted := True\<rparr>;
                 rf = rf\<lparr>VotedFor := ID args, isLeader := False\<rparr>
             in go_bind (chan_send 1 False (heartBeatTimerReset rf)) (\<lambda>h.
                let rf = rf\<lparr>heartBeatTimerReset := h\<rparr>
                in Inr (persist rf, reply,
                     SendMetrics (zero_rpc_args\<lparr>Idx := me rf, rpc_Type := ''Election'',
                                                rpc_VotedFor := VotedFor rf\<rparr>)))
           else Inr (persist rf, reply, []))
       else Inr (persist rf, reply, []))"

section \<open>HeartBeat (AppendEntries)\<close>

text \<open>
  The loop that looks for the first entry of the conflicting term, from position \<open>i\<close> down;
  it stops at 0 whatever the term there.
\<close>

fun conflict_scan :: "raft_log list \<Rightarrow> int32 \<Rightarrow> nat \<Rightarrow> nat" where
  "conflict_scan ls t 0 = 0"
| "conflict_scan ls t (Suc i) = (if Term (ls ! Suc i) = t then conflict_scan ls t i else Suc i)"

text \<open>
  The loop over \<open>args.Entries\<close>. \<open>n\<close> is \<open>lengthLogs\<close> and \<open>lst\<close> is \<open>reply.LastEntry.Index\<close>, both
  read before the loop. \<open>Some\<close> is the log after the loop, \<open>None\<close> the early return.
\<close>

fun merge_entries ::
  "raft_log list \<Rightarrow> int \<Rightarrow> int32 \<Rightarrow> raft_log list \<Rightarrow> raft_log list option go" where
  "merge_entries ls n lst [] = Inr (Some ls)"
| "merge_entries ls n lst (v # vs) =
     (if Index v = n then Inr (Some (ls @ v # vs))
      else if Index v < n then
        go_bind (idx ls (Index v)) (\<lambda>e.
          if Term e \<noteq> Term v then
            go_bind (reslice ls 0 (Index v)) (\<lambda>pre. Inr (Some (pre @ v # vs)))
          else if Index v > lst then Inr None
          else merge_entries ls n lst vs)
      else if Index v > lst then Inr None
      else merge_entries ls n lst vs)"

definition apply_msg_of :: "raft_log \<Rightarrow> apply_msg" where
  "apply_msg_of v = \<lparr>msg_Index = Index v, Command = Cmd v, UseSnapshot = False, Snapshot = []\<rparr>"

text \<open>The part after the loop: advance \<open>commitIdx\<close> and hand the new entries to the service.\<close>

definition follower_commit :: "append_entries_args \<Rightarrow> raft_log \<Rightarrow> raft \<Rightarrow> (raft \<times> effect list) go" where
  "follower_commit args lastEntry rf =
     (let oldCommitIdx = commitIdx rf in
      if LeaderCommitIdx args > oldCommitIdx then
        let newCommitIdx = (if Index lastEntry < LeaderCommitIdx args
                            then Index lastEntry else LeaderCommitIdx args);
            oldLastApplied = lastApplied rf
        in if newCommitIdx > oldLastApplied then
             let rf = rf\<lparr>lastApplied := newCommitIdx, commitIdx := newCommitIdx\<rparr>
             in go_bind (reslice (logs rf) (i32 (oldLastApplied + 1)) (i32 (newCommitIdx + 1))) (\<lambda>toApply.
                go_bind (idx (logs rf) newCommitIdx) (\<lambda>_.
                Inr (rf, map (\<lambda>v. ApplyCall (apply_msg_of v)) toApply)))
           else Inr (rf, [])
      else Inr (rf, []))"

definition HeartBeat ::
  "append_entries_args \<Rightarrow> append_entries_reply \<Rightarrow> raft \<Rightarrow> (raft \<times> append_entries_reply \<times> effect list) go" where
  "HeartBeat args reply rf =
     go_bind (chan_send MAX_LOGS OK (rpcChnl rf)) (\<lambda>c.
     let rf = rf\<lparr>rpcChnl := c\<rparr>; cur = currentTerm rf; reply = reply\<lparr>aer_Term := cur\<rparr> in
     go_bind (idx (logs rf) (int (length (logs rf)) - 1)) (\<lambda>mylast.
     let reply = reply\<lparr>LastEntry := mylast\<rparr> in
     if ae_Term args < cur then Inr (persist rf, reply, [])
     else
     let rf = rf\<lparr>currentTerm := ae_Term args, isLeader := False\<rparr> in
     go_bind (chan_send 1 False (heartBeatTimerReset rf)) (\<lambda>h.
     let rf = rf\<lparr>heartBeatTimerReset := h\<rparr>;
         lengthLogs = int (length (logs rf));
         prevLogIdx = Index (PrevLog args);
         prevLogTerm = Term (PrevLog args)
     in
     go_bind (if prevLogIdx < lengthLogs
              then go_bind (idx (logs rf) prevLogIdx) (\<lambda>e. Inr (Term e \<noteq> prevLogTerm))
              else Inr False) (\<lambda>conflict.
     if conflict then
       let cut = Suc (conflict_scan (logs rf) (Term (logs rf ! nat prevLogIdx)) (nat prevLogIdx));
           rf = rf\<lparr>logs := take cut (logs rf)\<rparr>;
           reply = reply\<lparr>LastEntry := logs rf ! (cut - 1)\<rparr>;
           rf = rf\<lparr>logidx := Index (LastEntry reply)\<rparr>
       in Inr (persist rf, reply, [])
     else if i32 prevLogIdx > Index (LastEntry reply) then Inr (persist rf, reply, [])
     else
     go_bind (merge_entries (logs rf) lengthLogs (Index (LastEntry reply)) (Entries args)) (\<lambda>r.
     case r of
       None \<Rightarrow> Inr (persist rf, reply, [])
     | Some ls \<Rightarrow>
         let rf = rf\<lparr>logs := ls\<rparr> in
         go_bind (idx (logs rf) (int (length (logs rf)) - 1)) (\<lambda>newlast.
         let reply = reply\<lparr>LastEntry := newlast\<rparr>;
             rf = rf\<lparr>logidx := Index newlast\<rparr>
         in go_bind (follower_commit args newlast rf) (\<lambda>(rf, out).
            if Index newlast < Index (PrevLog args) then Inr (persist rf, reply, out)
            else Inr (persist rf, reply\<lparr>Success := True\<rparr>,
                   out @ SendMetrics (zero_rpc_args\<lparr>Idx := me rf, rpc_Type := ''HB'',
                           rpc_VotedFor := VotedFor rf, RPCFromIdx := LeaderID args\<rparr>)))))))))"

end
