(* ===== verification/RaftLoops.thy ===== *)
theory RaftLoops
  imports Raft
begin

text \<open>
  The goroutines that \<open>Make\<close> starts (\<open>raft/raft.go\<close>), one definition per branch of their
  \<open>select\<close>: the heartbeat ticker, the job dispatcher, the commit-index updater, one sender
  per peer, the election timer, and the goroutines an election starts.
\<close>

section \<open>Stopping\<close>

text \<open>Every goroutine that sees the stop token puts it back for the others and returns.\<close>

definition stop_observed :: "raft \<Rightarrow> raft go" where
  "stop_observed rf =
     go_bind (chan_recv (stopChnl rf)) (\<lambda>(_, c).
     go_bind (chan_send 1 True c) (\<lambda>c. Inr (rf\<lparr>stopChnl := c\<rparr>)))"

section \<open>Heartbeat timer\<close>

definition hb_reset :: "raft \<Rightarrow> raft go" where
  "hb_reset rf =
     go_bind (chan_recv (heartBeatTimerReset rf)) (\<lambda>(r, c).
     let rf = rf\<lparr>heartBeatTimerReset := c, heartbeatTimer := False\<rparr>
     in Inr (if r then rf\<lparr>heartbeatTimer := True\<rparr> else rf))"

definition hb_tick :: "raft \<Rightarrow> raft go" where
  "hb_tick rf =
     (if \<not> heartbeatTimer rf then Inl Blocked
      else go_bind (idx (logs rf) (int (length (logs rf)) - 1)) (\<lambda>prevLog.
        let a = \<lparr>ae_Term = currentTerm rf, LeaderID = me rf, PrevLog = prevLog,
                 Entries = [], LeaderCommitIdx = commitIdx rf\<rparr>
        in Inr (rf\<lparr>rdyChnl := map (\<lambda>i. let ch = rdyChnl rf ! i in
                     if length ch \<noteq> 0 \<or> int i = me rf then ch else ch @ [a]) [0..<n_peers rf]\<rparr>)))"

section \<open>Job dispatcher\<close>

definition maxEntriesPerBatch :: nat where "maxEntriesPerBatch = 30"

text \<open>The blocking sends of one AppendEntries to every other peer's channel.\<close>

fun send_rdy ::
  "append_entries_args \<Rightarrow> int32 \<Rightarrow> nat list \<Rightarrow> append_entries_args list list \<Rightarrow> append_entries_args list list go" where
  "send_rdy a m [] chs = Inr chs"
| "send_rdy a m (i # is) chs =
     (if m = int i then send_rdy a m is chs
      else go_bind (chan_send MAX_LOGS a (chs ! i)) (\<lambda>c. send_rdy a m is (chs[i := c])))"

text \<open>The loop \<open>entries[j.Index-prevLog.Index-1] = j\<close> over the rest of the batch.\<close>

fun fill_entries :: "int32 \<Rightarrow> raft_log list \<Rightarrow> raft_log list \<Rightarrow> raft_log list go" where
  "fill_entries p es [] = Inr es"
| "fill_entries p es (j # js) =
     (let k = i32 (Index j - p - 1)
      in go_bind (idx es k) (\<lambda>_. fill_entries p (es[nat k := j]) js))"

text \<open>The loop under "Never replace. Append only".\<close>

fun append_only :: "raft_log list \<Rightarrow> raft_log list \<Rightarrow> raft_log list" where
  "append_only ls [] = ls"
| "append_only ls (v # vs) = (if Index v = int (length ls) then ls @ v # vs else append_only ls vs)"

definition job_step :: "raft \<Rightarrow> raft go" where
  "job_step rf =
     (case jobsChnl rf of
        [] \<Rightarrow> Inr rf
      | job # queue \<Rightarrow>
          let numJobs = length queue + 1;
              count = (if numJobs < maxEntriesPerBatch then numJobs else maxEntriesPerBatch)
          in
          go_bind (idx (logs rf) (int (length (logs rf)) - 1)) (\<lambda>prevLog.
          go_bind (fill_entries (Index prevLog) ((replicate count zero_log)[0 := job])
                     (take (count - 1) queue)) (\<lambda>entries.
          let rf = rf\<lparr>jobsChnl := drop (count - 1) queue\<rparr>;
              appendArgs = \<lparr>ae_Term = currentTerm rf, LeaderID = me rf, PrevLog = prevLog,
                            Entries = entries, LeaderCommitIdx = commitIdx rf\<rparr>
          in
          go_bind (if isLeader rf then send_rdy appendArgs (me rf) [0..<n_peers rf] (rdyChnl rf)
                   else Inr (rdyChnl rf)) (\<lambda>chs.
          let rf = rf\<lparr>rdyChnl := chs\<rparr>;
              rf = rf\<lparr>logs := append_only (logs rf) entries\<rparr>
          in Inr (persist rf)))))"

section \<open>Commit-index updater\<close>

definition commit_step :: "raft \<Rightarrow> (raft \<times> effect list) go" where
  "commit_step rf =
     go_bind (chan_recv (commitIdxChnl rf)) (\<lambda>(newIdx, c).
     let rf = rf\<lparr>commitIdxChnl := c\<rparr>;
         reqLen = i32 (int (n_peers rf div 2));
         lengthLogs = int (length (logs rf));
         currCommitIdx = commitIdx rf
     in
     if newIdx \<le> currCommitIdx \<or> newIdx \<ge> i32 lengthLogs then Inr (rf, [])
     else
       let seen = (case commitTracker rf newIdx of None \<Rightarrow> 0 | Some k \<Rightarrow> k);
           now = i32 (seen + 1);
           rf = rf\<lparr>commitTracker := (commitTracker rf)(newIdx \<mapsto> now)\<rparr>
       in if now = reqLen \<and> newIdx > currCommitIdx then
            go_bind (reslice (logs rf) (i32 (currCommitIdx + 1)) (i32 (newIdx + 1))) (\<lambda>toApply.
            let out = map (\<lambda>l. ApplyCall (apply_msg_of l)) toApply
                      @ SendMetrics (zero_rpc_args\<lparr>Idx := me rf, rpc_Logs := logs rf, rpc_Type := ''Logs''\<rparr>);
                rf = rf\<lparr>commitIdx := newIdx\<rparr>;
                rf = rf\<lparr>lastApplied := newIdx\<rparr>
            in Inr (persist rf, out))
          else Inr (rf, []))"

section \<open>Peer sender\<close>

text \<open>
  \<open>append(rf.logs[nextIdx:hi], appendArg.Entries...)\<close> writes the entries into the array
  under \<open>rf.logs\<close> when the array has room for them. It has when they end inside the log;
  beyond that it depends on the spare capacity, which is the argument \<open>fits\<close>. (Go also
  accepts a \<open>hi\<close> between the length and the capacity of \<open>rf.logs\<close>; the model reports that
  as \<open>SliceBounds\<close>.) The result \<open>None\<close> is a message dropped because the server is no leader.
\<close>

definition peer_send :: "bool \<Rightarrow> nat \<Rightarrow> raft \<Rightarrow> (raft \<times> append_entries_args option) go" where
  "peer_send fits server rf =
     go_bind (idx (rdyChnl rf) (int server)) (\<lambda>ch.
     go_bind (chan_recv ch) (\<lambda>(appendArg, c).
     let rf = rf\<lparr>rdyChnl := (rdyChnl rf)[server := c]\<rparr> in
     if \<not> isLeader rf then Inr (rf, None)
     else
     go_bind (idx (nextIndex rf) (int server)) (\<lambda>nextIdx.
     if Index (PrevLog appendArg) \<ge> nextIdx then
       let hi = i32 (Index (PrevLog appendArg) + 1) in
       go_bind (reslice (logs rf) nextIdx hi) (\<lambda>pre.
       let room = (fits \<or> nat hi + length (Entries appendArg) \<le> length (logs rf));
           rf = (if room then rf\<lparr>logs := overwrite (logs rf) (nat hi) (Entries appendArg)\<rparr> else rf);
           appendArg = appendArg\<lparr>Entries := pre @ Entries appendArg\<rparr>
       in
       go_bind (idx (logs rf) (i32 (nextIdx - 1))) (\<lambda>p.
       Inr (rf, Some (appendArg\<lparr>PrevLog := p\<rparr>))))
     else Inr (rf, Some appendArg))))"

text \<open>
  The select between a reply and the timeout, in \<open>sendHeartBeat\<close> and \<open>sendRequestVote\<close>:
  \<open>None\<close> is a call whose answer did not come in time.
\<close>

definition sendHeartBeat :: "bool option \<Rightarrow> bool" where
  "sendHeartBeat answer = (case answer of Some ok \<Rightarrow> ok | None \<Rightarrow> False)"

definition sendRequestVote :: "bool option \<Rightarrow> bool" where
  "sendRequestVote answer = (case answer of Some ok \<Rightarrow> ok | None \<Rightarrow> False)"

text \<open>The loop \<open>for rf.logs[replyIdx].Term >= appendArg.Term { replyIdx-- }\<close>.\<close>

fun skip_back :: "raft_log list \<Rightarrow> int32 \<Rightarrow> nat \<Rightarrow> nat go" where
  "skip_back ls t 0 = (if Term (ls ! 0) \<ge> t then Inl IndexOutOfRange else Inr 0)"
| "skip_back ls t (Suc i) = (if Term (ls ! Suc i) \<ge> t then skip_back ls t i else Inr (Suc i))"

definition peer_reply ::
  "nat \<Rightarrow> append_entries_args \<Rightarrow> append_entries_reply \<Rightarrow> raft \<Rightarrow> (raft \<times> effect list) go" where
  "peer_reply server appendArg reply rf =
     (let out = SendMetrics (zero_rpc_args\<lparr>Idx := me rf, rpc_Type := ''SuccessHB''\<rparr>) in
      if Success reply then
        let lastEntryIdx = Index (LastEntry reply) in
        go_bind (idx (matchIndex rf) (int server)) (\<lambda>serverLastMatch.
        let rf = rf\<lparr>nextIndex := (nextIndex rf)[server := i32 (lastEntryIdx + 1)]\<rparr> in
        if lastEntryIdx > serverLastMatch then
          let rf = rf\<lparr>matchIndex := (matchIndex rf)[server := lastEntryIdx]\<rparr> in
          go_bind (chan_send 512 lastEntryIdx (commitIdxChnl rf)) (\<lambda>c.
          Inr (rf\<lparr>commitIdxChnl := c\<rparr>, out))
        else Inr (rf, out))
      else if aer_Term reply > currentTerm rf then
        let rf = rf\<lparr>currentTerm := aer_Term reply, isLeader := False\<rparr> in
        go_bind (chan_send 1 False (heartBeatTimerReset rf)) (\<lambda>h.
        Inr (rf\<lparr>heartBeatTimerReset := h\<rparr>, out))
      else
        let replyTerm = Term (LastEntry reply);
            replyIdx = Index (LastEntry reply)
        in
        go_bind (if replyIdx > 1 \<and> replyIdx \<le> Index (PrevLog appendArg)
                 then go_bind (idx (logs rf) replyIdx) (\<lambda>e. Inr (Term e \<noteq> replyTerm))
                 else Inr False) (\<lambda>differs.
        if differs then
          go_bind (skip_back (logs rf) (ae_Term appendArg) (nat replyIdx)) (\<lambda>r.
          Inr (rf\<lparr>nextIndex := (nextIndex rf)[server := i32 (int r + 1)]\<rparr>, out))
        else Inr (rf\<lparr>nextIndex := (nextIndex rf)[server := i32 (replyIdx + 1)]\<rparr>, out)))"

section \<open>Elections\<close>

text \<open>The main loop resets the election timer for every RPC it has been told of.\<close>

definition drain_rpc :: "raft \<Rightarrow> raft go" where
  "drain_rpc rf = go_bind (chan_recv (rpcChnl rf)) (\<lambda>(_, c). Inr (rf\<lparr>rpcChnl := c\<rparr>))"

text \<open>
  The election timer fires: only when no RPC notice is waiting and the server is not a
  leader, since the loop looks at those first. The result is the request sent to every
  other peer; the new entry of \<open>elections\<close> is the goroutine that counts the answers.
\<close>

definition election_timeout :: "raft \<Rightarrow> (raft \<times> request_vote_args) go" where
  "election_timeout rf =
     (if rpcChnl rf \<noteq> [] \<or> isLeader rf then Inl Blocked
      else
        let t = i32 (currentTerm rf + 1);
            rf = rf\<lparr>currentTerm := t, VotedFor := me rf\<rparr>
        in
        go_bind (idx (logs rf) (int (length (logs rf)) - 1)) (\<lambda>lastLog.
        let e = \<lparr>el_term = t, el_lastLog = lastLog, el_commitIdx = commitIdx rf,
                 votes = 0, votingChnl = [], phase = Counting\<rparr>
        in Inr (rf\<lparr>elections := elections rf @ [e]\<rparr>,
                \<lparr>rv_Term = t, ID = me rf, Log = lastLog\<rparr>)))"

text \<open>The goroutine of one RequestVote call, once the call has returned \<open>ok\<close>.\<close>

definition vote_reply :: "nat \<Rightarrow> request_vote_reply \<Rightarrow> raft \<Rightarrow> raft go" where
  "vote_reply k reply rf =
     go_bind (if Voted reply then Inr rf
              else if rvr_Term reply > currentTerm rf then
                go_bind (chan_send 1 False (heartBeatTimerReset rf)) (\<lambda>h.
                Inr (rf\<lparr>heartBeatTimerReset := h, currentTerm := rvr_Term reply, isLeader := False\<rparr>))
              else Inr rf) (\<lambda>rf.
     go_bind (idx (elections rf) (int k)) (\<lambda>e.
     go_bind (chan_send (n_peers rf - 1) (Voted reply) (votingChnl e)) (\<lambda>c.
     Inr (rf\<lparr>elections := (elections rf)[k := e\<lparr>votingChnl := c\<rparr>]\<rparr>))))"

text \<open>The counting goroutine receives one vote.\<close>

definition tracker_recv :: "nat \<Rightarrow> raft \<Rightarrow> raft go" where
  "tracker_recv k rf =
     go_bind (idx (elections rf) (int k)) (\<lambda>e.
     if phase e \<noteq> Counting then Inl Blocked
     else
     go_bind (chan_recv (votingChnl e)) (\<lambda>(isVoted, c).
     let e = e\<lparr>votingChnl := c\<rparr> in
     if \<not> isVoted then Inr (rf\<lparr>elections := (elections rf)[k := e\<lparr>phase := Quit\<rparr>]\<rparr>)
     else
       let e = e\<lparr>votes := votes e + 1\<rparr> in
       if votes e = int (n_peers rf div 2) then
         go_bind (chan_send 1 True (heartBeatTimerReset rf)) (\<lambda>h.
         let rf = rf\<lparr>heartBeatTimerReset := h, isLeader := True\<rparr>;
             a = \<lparr>ae_Term = el_term e, LeaderID = me rf, PrevLog = el_lastLog e,
                  Entries = [], LeaderCommitIdx = el_commitIdx e\<rparr>
         in
         go_bind (send_rdy a (me rf) [0..<n_peers rf] (rdyChnl rf)) (\<lambda>chs.
         Inr (rf\<lparr>rdyChnl := chs, elections := (elections rf)[k := e\<lparr>phase := Announced\<rparr>]\<rparr>)))
       else Inr (rf\<lparr>elections := (elections rf)[k := e]\<rparr>)))"

definition tracker_timeout :: "nat \<Rightarrow> raft \<Rightarrow> raft go" where
  "tracker_timeout k rf =
     go_bind (idx (elections rf) (int k)) (\<lambda>e.
     if phase e \<noteq> Counting then Inl Blocked
     else Inr (rf\<lparr>elections := (elections rf)[k := e\<lparr>phase := Quit\<rparr>]\<rparr>))"

definition leader_init :: "nat \<Rightarrow> raft \<Rightarrow> raft go" where
  "leader_init k rf =
     go_bind (idx (elections rf) (int k)) (\<lambda>e.
     if phase e \<noteq> Announced then Inl Blocked
     else Inr (rf\<lparr>nextIndex := replicate (n_peers rf) (i32 (int (length (logs rf)))),
                  matchIndex := replicate (n_peers rf) 0,
                  elections := (elections rf)[k := e\<lparr>phase := Won\<rparr>]\<rparr>))"

section \<open>Durations\<close>

text \<open>
  In milliseconds. \<open>Int31n\<close> is \<open>rand.Int31n\<close>, whose documentation promises a number from
  0 up to but not including its (positive) argument.
\<close>

definition GetRandDuration :: "(int32 \<Rightarrow> int32) \<Rightarrow> int32 \<Rightarrow> int32 \<Rightarrow> int" where
  "GetRandDuration Int31n begin end' = i32 (Int31n (i32 (end' - begin)) + begin)"

definition DefaultElectionTimeout :: "(int32 \<Rightarrow> int32) \<Rightarrow> int" where
  "DefaultElectionTimeout Int31n = GetRandDuration Int31n 330 660"

definition DefaultReqVoteTimeout :: int where "DefaultReqVoteTimeout = 330"
definition DefaultHeartBeatTimeout :: int where "DefaultHeartBeatTimeout = DefaultReqVoteTimeout"
definition DefaultHeartBeatTime :: int where "DefaultHeartBeatTime = 12"
definition JobChannelPollRate :: int where "JobChannelPollRate = 4"

end
