(* ===== verification/RaftHeartBeat.thy ===== *)
theory RaftHeartBeat
  imports Raft
begin

text \<open>
  What \<open>HeartBeat\<close> does to a follower's log. The two loops are compared with reference
  definitions (\<open>merge_ref\<close>: keep the entries that agree, replace from the first that does
  not), then the handler is given in closed form on each of its branches, and the
  properties of the whole follow from the closed forms.
\<close>

section \<open>The conflict scan\<close>

lemma conflict_scan_le: "conflict_scan ls t i \<le> i"
  by (induction i) auto

text \<open>Everything between the result and the start has the conflicting term.\<close>

lemma conflict_scan_run:
  "conflict_scan ls t i < j \<Longrightarrow> j \<le> i \<Longrightarrow> Term (ls ! j) = t"
  by (induction i) (auto simp: le_Suc_eq split: if_splits)

text \<open>The scan stops at the sentinel or at an entry of another term.\<close>

lemma conflict_scan_stop:
  "conflict_scan ls t i = 0 \<or> Term (ls ! conflict_scan ls t i) \<noteq> t"
  by (induction i) auto

lemma conflict_scan_lt: "0 < i \<Longrightarrow> Term (ls ! i) = t \<Longrightarrow> conflict_scan ls t i < i"
  by (cases i) (auto simp: less_Suc_eq_le conflict_scan_le)

section \<open>The merge loop\<close>

text \<open>The number of leading entries of the two lists whose terms agree.\<close>

fun common :: "raft_log list \<Rightarrow> raft_log list \<Rightarrow> nat" where
  "common (x # xs) (y # ys) = (if Term x = Term y then Suc (common xs ys) else 0)"
| "common _ _ = 0"

definition merge_ref :: "raft_log list \<Rightarrow> nat \<Rightarrow> raft_log list \<Rightarrow> raft_log list" where
  "merge_ref ls i es =
     (let k = common (drop i ls) es in if k = length es then ls else take (i + k) ls @ drop k es)"

lemma common_le: "common xs ys \<le> length xs" "common xs ys \<le> length ys"
  by (induction xs ys rule: common.induct) auto

lemma common_Term: "j < common xs ys \<Longrightarrow> Term (xs ! j) = Term (ys ! j)"
  by (induction xs ys arbitrary: j rule: common.induct)
     (auto simp: nth_Cons split: if_splits nat.splits)

lemma common_differs:
  "common xs ys < length xs \<Longrightarrow> common xs ys < length ys \<Longrightarrow>
   Term (xs ! common xs ys) \<noteq> Term (ys ! common xs ys)"
  by (induction xs ys rule: common.induct) (auto split: if_splits)

lemma common_append_same: "common xs (xs @ ys) = length xs"
  by (induction xs) auto

lemma merge_ref_Nil [simp]: "merge_ref ls i [] = ls"
  by (simp add: merge_ref_def)

lemma merge_ref_end:
  "merge_ref ls (length ls) es = ls @ es"
  by (cases es) (simp_all add: merge_ref_def)

lemma merge_ref_Cons:
  assumes "i < length ls"
  shows "merge_ref ls i (v # vs) =
    (if Term (ls ! i) = Term v then merge_ref ls (Suc i) vs else take i ls @ v # vs)"
proof -
  have "drop i ls = ls ! i # drop (Suc i) ls" using assms by (simp add: Cons_nth_drop_Suc)
  then show ?thesis by (simp add: merge_ref_def Let_def)
qed

text \<open>On consecutive entries that start inside or right behind the log, the loop is \<open>merge_ref\<close>.\<close>

lemma merge_entries_ref:
  assumes "consecutive (int i) es" "i \<le> length ls"
  shows "merge_entries ls (int (length ls)) (int (length ls) - 1) es = Inr (Some (merge_ref ls i es))"
  using assms
proof (induction es arbitrary: i)
  case Nil
  then show ?case by simp
next
  case (Cons v vs)
  show ?case
  proof (cases "i = length ls")
    case True
    with Cons.prems show ?thesis by (simp add: merge_ref_end)
  next
    case False
    with Cons.prems have i: "i < length ls" "Index v = int i" by auto
    have "merge_entries ls (int (length ls)) (int (length ls) - 1) vs = Inr (Some (merge_ref ls (Suc i) vs))"
      using Cons.prems i by (intro Cons.IH) (auto simp: algebra_simps)
    with i show ?thesis
      by (simp add: merge_ref_Cons idx_def reslice_def)
  qed
qed

lemma merge_ref_prefix: "i \<le> length ls \<Longrightarrow> take i (merge_ref ls i es) = take i ls"
  by (auto simp: merge_ref_def Let_def min_def)

lemma merge_ref_length: "i + length es \<le> length (merge_ref ls i es)" if "i \<le> length ls"
  using that common_le[of "drop i ls" es] by (auto simp: merge_ref_def Let_def)

lemma length_merge_ref_le: "length (merge_ref ls i es) \<le> max (length ls) (i + length es)"
  using common_le(2)[of "drop i ls" es] by (auto simp: merge_ref_def Let_def)

lemma merge_ref_Term:
  assumes "i \<le> length ls" "j < length es"
  shows "Term (merge_ref ls i es ! (i + j)) = Term (es ! j)"
proof -
  let ?k = "common (drop i ls) es"
  have k: "?k \<le> length ls - i" using common_le(1)[of "drop i ls" es] by simp
  show ?thesis
  proof (cases "j < ?k")
    case True
    then have "Term (ls ! (i + j)) = Term (es ! j)"
      using common_Term[of j "drop i ls" es] assms k by simp
    with True k assms show ?thesis by (auto simp: merge_ref_def Let_def nth_append)
  next
    case False
    with k assms show ?thesis by (auto simp: merge_ref_def Let_def nth_append)
  qed
qed

lemma merge_ref_wf:
  assumes ls: "log_wf ls" and es: "consecutive (int i) es" "i \<le> length ls" "0 < i"
    and len: "i + length es < 2147483648"
  shows "log_wf (merge_ref ls i es)"
proof -
  let ?k = "common (drop i ls) es"
  have k: "?k \<le> length ls - i" "?k \<le> length es"
    using common_le[of "drop i ls" es] by auto
  show ?thesis
  proof (cases "?k = length es")
    case True
    with ls show ?thesis by (simp add: merge_ref_def)
  next
    case False
    have "log_wf (take (i + ?k) ls)" using ls es(3) by (intro log_wf_take) auto
    moreover have "consecutive (int (i + ?k)) (drop ?k es)"
      using consecutive_drop[OF es(1) k(2)] by simp
    moreover have "length (take (i + ?k) ls) = i + ?k" using k es(2) by simp
    ultimately have "log_wf (take (i + ?k) ls @ drop ?k es)"
      using k(2) len by (intro log_wf_append) auto
    with False show ?thesis by (simp add: merge_ref_def Let_def)
  qed
qed

text \<open>Entries that agree with the log up to position \<open>c\<close> leave it alone up to there.\<close>

lemma merge_ref_keeps:
  assumes i: "i \<le> length ls" and c: "c < length ls"
    and agree: "\<And>j. j < length es \<Longrightarrow> i + j \<le> c \<Longrightarrow> Term (es ! j) = Term (ls ! (i + j))"
  shows "take (c + 1) (merge_ref ls i es) = take (c + 1) ls"
proof -
  let ?k = "common (drop i ls) es"
  show ?thesis
  proof (cases "?k = length es")
    case False
    have k: "?k \<le> length ls - i" "?k < length es"
      using common_le[of "drop i ls" es] False by auto
    have "c < i + ?k"
    proof (rule ccontr)
      assume "\<not> c < i + ?k"
      then have "Term (drop i ls ! ?k) = Term (es ! ?k)" using agree[of ?k] k c i by simp
      moreover have "?k < length (drop i ls)" using \<open>\<not> c < i + ?k\<close> c by simp
      ultimately show False using common_differs[of "drop i ls" es] k by simp
    qed
    with k i c show ?thesis by (simp add: merge_ref_def Let_def min_def)
  qed (simp add: merge_ref_def)
qed

text \<open>A log that already holds the entries is left alone, whatever follows them.\<close>

lemma merge_ref_idem:
  assumes "i \<le> length ls" "i + length es \<le> length ls"
    and "\<And>j. j < length es \<Longrightarrow> Term (ls ! (i + j)) = Term (es ! j)"
  shows "merge_ref ls i es = ls"
  using assms
proof (induction es arbitrary: i)
  case Nil
  then show ?case by simp
next
  case (Cons v vs)
  then have "i < length ls" "Term (ls ! i) = Term v" using Cons.prems(3)[of 0] by auto
  moreover have "merge_ref ls (Suc i) vs = ls"
    using Cons.prems(2) Cons.prems(3)[of "Suc j" for j] by (intro Cons.IH) auto
  ultimately show ?case by (simp add: merge_ref_Cons)
qed

section \<open>The handler, branch by branch\<close>

text \<open>What a follower may assume of an incoming AppendEntries: its sender's shape.\<close>

definition args_wf :: "append_entries_args \<Rightarrow> bool" where
  "args_wf a \<longleftrightarrow>
     0 \<le> Index (PrevLog a) \<and> consecutive (Index (PrevLog a) + 1) (Entries a)
     \<and> Index (PrevLog a) + int (length (Entries a)) < 2147483647"

lemma args_wfD:
  assumes "args_wf a"
  shows "0 \<le> Index (PrevLog a)" "Index (PrevLog a) < 2147483647"
    "consecutive (int (nat (Index (PrevLog a)) + 1)) (Entries a)"
    "nat (Index (PrevLog a)) + 1 + length (Entries a) < 2147483648"
  using assms by (auto simp: args_wf_def algebra_simps)

text \<open>The two channels the handler writes to have room.\<close>

definition hb_room :: "raft \<Rightarrow> bool" where
  "hb_room rf \<longleftrightarrow> length (rpcChnl rf) < MAX_LOGS \<and> heartBeatTimerReset rf = []"

definition hb_stale :: "append_entries_args \<Rightarrow> raft \<Rightarrow> bool" where
  "hb_stale args rf \<longleftrightarrow> ae_Term args < currentTerm rf"

definition hb_missing :: "append_entries_args \<Rightarrow> raft \<Rightarrow> bool" where
  "hb_missing args rf \<longleftrightarrow> int (length (logs rf)) \<le> Index (PrevLog args)"

definition hb_conflict :: "append_entries_args \<Rightarrow> raft \<Rightarrow> bool" where
  "hb_conflict args rf \<longleftrightarrow>
     Index (PrevLog args) < int (length (logs rf))
     \<and> Term (logs rf ! nat (Index (PrevLog args))) \<noteq> Term (PrevLog args)"

lemmas hb_tests = hb_stale_def hb_missing_def hb_conflict_def

text \<open>The state after the term check: a newer or equal term makes the server a follower.\<close>

definition hb_follow :: "append_entries_args \<Rightarrow> raft \<Rightarrow> raft" where
  "hb_follow args rf =
     rf\<lparr>rpcChnl := rpcChnl rf @ [OK], currentTerm := ae_Term args, isLeader := False,
        heartBeatTimerReset := [False]\<rparr>"

definition hb_cut :: "append_entries_args \<Rightarrow> raft \<Rightarrow> nat" where
  "hb_cut args rf =
     (let p = nat (Index (PrevLog args)) in Suc (conflict_scan (logs rf) (Term (logs rf ! p)) p))"

definition hb_merged :: "append_entries_args \<Rightarrow> raft \<Rightarrow> raft_log list" where
  "hb_merged args rf = merge_ref (logs rf) (nat (Index (PrevLog args)) + 1) (Entries args)"

definition hb_metric :: "append_entries_args \<Rightarrow> raft \<Rightarrow> effect list" where
  "hb_metric args rf = SendMetrics (zero_rpc_args\<lparr>Idx := me rf, rpc_Type := ''HB'',
     rpc_VotedFor := VotedFor rf, RPCFromIdx := LeaderID args\<rparr>)"

text \<open>The commit index a follower moves to, and the entries it hands to its service.\<close>

definition new_commit :: "append_entries_args \<Rightarrow> nat \<Rightarrow> int32" where
  "new_commit args n = min (int n - 1) (LeaderCommitIdx args)"

definition advances :: "append_entries_args \<Rightarrow> raft \<Rightarrow> nat \<Rightarrow> bool" where
  "advances args rf n \<longleftrightarrow>
     commitIdx rf < LeaderCommitIdx args \<and> lastApplied rf < new_commit args n"

definition apply_range :: "raft_log list \<Rightarrow> int \<Rightarrow> int \<Rightarrow> effect list" where
  "apply_range ls a b = map (\<lambda>v. ApplyCall (apply_msg_of v)) (drop (nat (a + 1)) (take (nat (b + 1)) ls))"

lemma follower_commit_eq:
  assumes ls: "log_wf (logs rf)" and la: "0 \<le> lastApplied rf"
  shows "follower_commit args (last (logs rf)) rf =
    Inr (if advances args rf (length (logs rf))
         then (rf\<lparr>lastApplied := new_commit args (length (logs rf)),
                  commitIdx := new_commit args (length (logs rf))\<rparr>,
               apply_range (logs rf) (lastApplied rf) (new_commit args (length (logs rf))))
         else (rf, []))"
proof -
  have n: "0 < length (logs rf)" "length (logs rf) < 2147483648" using log_wfD[OF ls] by auto
  let ?c = "new_commit args (length (logs rf))"
  have c: "?c = (if Index (last (logs rf)) < LeaderCommitIdx args
                 then Index (last (logs rf)) else LeaderCommitIdx args)"
    using ls by (auto simp: new_commit_def)
  have le: "?c \<le> int (length (logs rf)) - 1" by (simp add: new_commit_def)
  show ?thesis
  proof (cases "advances args rf (length (logs rf))")
    case True
    then have "reslice (logs rf) (i32 (lastApplied rf + 1)) (i32 (?c + 1))
        = Inr (drop (nat (lastApplied rf + 1)) (take (nat (?c + 1)) (logs rf)))"
      "idx (logs rf) ?c = Inr (logs rf ! nat ?c)"
      using la le n by (auto simp: advances_def reslice_def idx_def)
    with True show ?thesis
      by (simp add: follower_commit_def Let_def advances_def apply_range_def flip: c)
  next
    case False
    then show ?thesis
      by (auto simp: follower_commit_def Let_def advances_def simp flip: c)
  qed
qed

lemma hb_cut_bounds:
  assumes "hb_conflict args rf" "0 \<le> Index (PrevLog args)"
  shows "1 \<le> hb_cut args rf" "hb_cut args rf \<le> length (logs rf)"
    "0 < Index (PrevLog args) \<Longrightarrow> int (hb_cut args rf) \<le> Index (PrevLog args)"
proof -
  let ?p = "nat (Index (PrevLog args))"
  have p: "?p < length (logs rf)" using assms by (auto simp: hb_conflict_def)
  show "1 \<le> hb_cut args rf" by (simp add: hb_cut_def Let_def)
  show "hb_cut args rf \<le> length (logs rf)"
    using conflict_scan_le[of "logs rf" "Term (logs rf ! ?p)" ?p] p by (simp add: hb_cut_def Let_def)
  show "int (hb_cut args rf) \<le> Index (PrevLog args)" if "0 < Index (PrevLog args)"
    using conflict_scan_lt[of ?p "logs rf" "Term (logs rf ! ?p)"] that by (simp add: hb_cut_def Let_def)
qed

lemma HeartBeat_stale:
  assumes "log_wf (logs rf)" "length (rpcChnl rf) < MAX_LOGS" "hb_stale args rf"
  shows "HeartBeat args reply rf =
    Inr (persist (rf\<lparr>rpcChnl := rpcChnl rf @ [OK]\<rparr>),
         reply\<lparr>aer_Term := currentTerm rf, LastEntry := last (logs rf)\<rparr>, [])"
  using assms log_wfD(1)[OF assms(1)]
  by (simp add: HeartBeat_def chan_send_room hb_stale_def Let_def)

lemma HeartBeat_conflict:
  assumes "log_wf (logs rf)" "args_wf args" "hb_room rf" "\<not> hb_stale args rf" "hb_conflict args rf"
  shows "HeartBeat args reply rf =
    Inr (persist ((hb_follow args rf)\<lparr>logs := take (hb_cut args rf) (logs rf),
                                    logidx := int (hb_cut args rf) - 1\<rparr>),
         reply\<lparr>aer_Term := currentTerm rf, LastEntry := logs rf ! (hb_cut args rf - 1)\<rparr>, [])"
proof -
  have cut: "1 \<le> hb_cut args rf" "hb_cut args rf \<le> length (logs rf)"
    using hb_cut_bounds[OF assms(5)] assms(2) by (auto simp: args_wf_def)
  have last: "Index (logs rf ! (hb_cut args rf - 1)) = int (hb_cut args rf) - 1"
    "take (hb_cut args rf) (logs rf) ! (hb_cut args rf - 1) = logs rf ! (hb_cut args rf - 1)"
    using cut log_wf_Index[OF assms(1), of "hb_cut args rf - 1"] by auto
  show ?thesis
    using assms log_wfD(1)[OF assms(1)] args_wfD(1)[OF assms(2)] last
    by (simp add: HeartBeat_def chan_send_room hb_stale_def hb_conflict_def hb_room_def hb_follow_def
        idx_in Let_def hb_cut_def)
qed

lemma HeartBeat_missing:
  assumes "log_wf (logs rf)" "args_wf args" "hb_room rf" "\<not> hb_stale args rf" "hb_missing args rf"
  shows "HeartBeat args reply rf =
    Inr (persist (hb_follow args rf),
         reply\<lparr>aer_Term := currentTerm rf, LastEntry := last (logs rf)\<rparr>, [])"
  using assms log_wfD(1)[OF assms(1)] args_wfD(1,2)[OF assms(2)]
  by (simp add: HeartBeat_def chan_send_room hb_stale_def hb_missing_def hb_room_def hb_follow_def
      Let_def)

lemma HeartBeat_accept:
  assumes wf: "log_wf (logs rf)" "args_wf args" and room: "hb_room rf" and la: "0 \<le> lastApplied rf"
    and branch: "\<not> hb_stale args rf" "\<not> hb_missing args rf" "\<not> hb_conflict args rf"
  shows "HeartBeat args reply rf =
    (let ls = hb_merged args rf; n = length ls;
         rf1 = (hb_follow args rf)\<lparr>logs := ls, logidx := int n - 1\<rparr>;
         c = new_commit args n
     in Inr (persist (if advances args rf n then rf1\<lparr>lastApplied := c, commitIdx := c\<rparr> else rf1),
             reply\<lparr>aer_Term := currentTerm rf, LastEntry := last ls, Success := True\<rparr>,
             (if advances args rf n then apply_range ls (lastApplied rf) c else [])
             @ hb_metric args rf))"
proof -
  let ?p = "nat (Index (PrevLog args))" and ?ls = "hb_merged args rf"
  have p: "?p + 1 \<le> length (logs rf)" "0 \<le> Index (PrevLog args)" "Index (PrevLog args) < 2147483647"
    using branch(2) args_wfD(1,2)[OF wf(2)] by (auto simp: hb_missing_def)
  have merge: "merge_entries (logs rf) (int (length (logs rf))) (int (length (logs rf)) - 1) (Entries args)
      = Inr (Some ?ls)"
    unfolding hb_merged_def using args_wfD(3)[OF wf(2)] p(1) by (rule merge_entries_ref)
  have ls: "log_wf ?ls"
    unfolding hb_merged_def using wf p(1) args_wfD(3,4)[OF wf(2)] by (intro merge_ref_wf) auto
  have len: "?p + 1 \<le> length ?ls"
    unfolding hb_merged_def using merge_ref_length[OF p(1), of "Entries args"] by simp
  let ?rf = "(hb_follow args rf)\<lparr>logs := ?ls, logidx := int (length ?ls) - 1\<rparr>"
  have commit: "follower_commit args (last ?ls) ?rf =
      Inr (if advances args rf (length ?ls)
           then (?rf\<lparr>lastApplied := new_commit args (length ?ls), commitIdx := new_commit args (length ?ls)\<rparr>,
                 apply_range ?ls (lastApplied rf) (new_commit args (length ?ls)))
           else (?rf, []))"
    using follower_commit_eq[of ?rf args] ls la by (simp add: advances_def hb_follow_def)
  have prev: "idx (logs rf) (Index (PrevLog args)) = Inr (logs rf ! ?p)"
    using p by (simp add: idx_def)
  have reach: "\<not> int (length ?ls) - 1 < Index (PrevLog args)" using p len by auto
  have chans: "length (rpcChnl rf) < MAX_LOGS" "heartBeatTimerReset rf = []"
    using room by (auto simp: hb_room_def)
  have tests: "\<not> ae_Term args < currentTerm rf" "Index (PrevLog args) < int (length (logs rf))"
    "Term (logs rf ! ?p) = Term (PrevLog args)"
    using branch by (auto simp: hb_tests)
  show ?thesis
    using tests chans p reach log_wfD(1)[OF wf(1)] log_wfD(1)[OF ls] log_wf_last[OF ls]
      log_wf_last[OF wf(1)] prev merge commit
    by (simp add: HeartBeat_def chan_send_room hb_follow_def Let_def hb_metric_def)
qed

lemma HeartBeat_full:
  "MAX_LOGS \<le> length (rpcChnl rf) \<Longrightarrow> HeartBeat args reply rf = Inl Blocked"
  by (simp add: HeartBeat_def chan_send_full)

lemma HeartBeat_reset_pending:
  assumes "log_wf (logs rf)" "\<not> hb_stale args rf" "heartBeatTimerReset rf \<noteq> []"
  shows "HeartBeat args reply rf = Inl Blocked"
proof (cases "length (rpcChnl rf) < MAX_LOGS")
  case True
  have "1 \<le> length (heartBeatTimerReset rf)" using assms(3) by (cases "heartBeatTimerReset rf") auto
  with True assms log_wfD(1)[OF assms(1)] show ?thesis
    by (simp add: HeartBeat_def chan_send_room chan_send_full hb_stale_def Let_def)
next
  case False
  then show ?thesis by (simp add: HeartBeat_full)
qed

text \<open>The branches are exhaustive: an invocation waits, or it ends in one of four ways.\<close>

lemma HeartBeat_branches [consumes 3, case_names blocked stale conflict missing accept]:
  assumes "log_wf (logs rf)" "args_wf args" "0 \<le> lastApplied rf"
  obtains (blocked) "HeartBeat args reply rf = Inl Blocked"
    "MAX_LOGS \<le> length (rpcChnl rf) \<or> (\<not> hb_stale args rf \<and> heartBeatTimerReset rf \<noteq> [])"
  | (stale) "hb_stale args rf" "length (rpcChnl rf) < MAX_LOGS"
  | (conflict) "\<not> hb_stale args rf" "hb_room rf" "hb_conflict args rf" "\<not> hb_missing args rf"
  | (missing) "\<not> hb_stale args rf" "hb_room rf" "hb_missing args rf" "\<not> hb_conflict args rf"
  | (accept) "\<not> hb_stale args rf" "hb_room rf" "\<not> hb_missing args rf" "\<not> hb_conflict args rf"
proof -
  have excl: "\<not> (hb_conflict args rf \<and> hb_missing args rf)" by (auto simp: hb_tests)
  consider (full) "MAX_LOGS \<le> length (rpcChnl rf)"
    | (reset) "length (rpcChnl rf) < MAX_LOGS" "\<not> hb_stale args rf" "heartBeatTimerReset rf \<noteq> []"
    | (st) "length (rpcChnl rf) < MAX_LOGS" "hb_stale args rf"
    | (go) "\<not> hb_stale args rf" "hb_room rf"
    unfolding hb_room_def using not_le by blast
  then show thesis
  proof cases
    case full then show thesis using blocked HeartBeat_full by blast
  next
    case reset then show thesis using blocked HeartBeat_reset_pending[OF assms(1)] by blast
  next
    case st then show thesis using stale by blast
  next
    case go then show thesis using conflict missing accept excl by blast
  qed
qed

lemma persist_simps [simp, go_simps]:
  "n_peers (persist rf) = n_peers rf" "me (persist rf) = me rf"
  "jobsChnl (persist rf) = jobsChnl rf" "rpcChnl (persist rf) = rpcChnl rf"
  "heartBeatTimerReset (persist rf) = heartBeatTimerReset rf" "rdyChnl (persist rf) = rdyChnl rf"
  "stopChnl (persist rf) = stopChnl rf" "commitIdxChnl (persist rf) = commitIdxChnl rf"
  "logidx (persist rf) = logidx rf" "isLeader (persist rf) = isLeader rf"
  "heartbeatTimer (persist rf) = heartbeatTimer rf" "currentTerm (persist rf) = currentTerm rf"
  "VotedFor (persist rf) = VotedFor rf" "logs (persist rf) = logs rf"
  "commitIdx (persist rf) = commitIdx rf" "lastApplied (persist rf) = lastApplied rf"
  "nextIndex (persist rf) = nextIndex rf" "matchIndex (persist rf) = matchIndex rf"
  "commitTracker (persist rf) = commitTracker rf" "elections (persist rf) = elections rf"
  by (simp_all add: persist_def Let_def)

lemma hb_follow_simps [simp, go_simps]:
  "n_peers (hb_follow a rf) = n_peers rf" "me (hb_follow a rf) = me rf"
  "jobsChnl (hb_follow a rf) = jobsChnl rf" "rdyChnl (hb_follow a rf) = rdyChnl rf"
  "isLeader (hb_follow a rf) = False" "currentTerm (hb_follow a rf) = ae_Term a"
  "VotedFor (hb_follow a rf) = VotedFor rf" "logs (hb_follow a rf) = logs rf"
  "commitIdx (hb_follow a rf) = commitIdx rf" "lastApplied (hb_follow a rf) = lastApplied rf"
  "nextIndex (hb_follow a rf) = nextIndex rf" "matchIndex (hb_follow a rf) = matchIndex rf"
  "commitIdxChnl (hb_follow a rf) = commitIdxChnl rf" "elections (hb_follow a rf) = elections rf"
  "commitTracker (hb_follow a rf) = commitTracker rf" "logidx (hb_follow a rf) = logidx rf"
  by (simp_all add: hb_follow_def)

lemmas HeartBeat_eqs = HeartBeat_stale HeartBeat_conflict HeartBeat_missing HeartBeat_accept

section \<open>Properties\<close>

text \<open>C26: HeartBeat never panics on a well-formed log and message: it returns, or it waits, and it
  waits exactly when the RPC notice channel is full or (for a term that is not stale) a heartbeat
  timer reset is still pending.\<close>
theorem HeartBeat_no_panic:
  assumes "log_wf (logs rf)" "args_wf args" "0 \<le> lastApplied rf"
  shows "(HeartBeat args reply rf = Inl Blocked \<longleftrightarrow>
            MAX_LOGS \<le> length (rpcChnl rf) \<or> (\<not> hb_stale args rf \<and> heartBeatTimerReset rf \<noteq> []))
         \<and> (HeartBeat args reply rf = Inl e \<longrightarrow> e = Blocked)"
  using assms
proof (cases rule: HeartBeat_branches[where reply = reply])
  case blocked
  then show ?thesis by simp
qed (use assms in \<open>auto simp: HeartBeat_eqs hb_room_def Let_def\<close>)

text \<open>C15: When a follower answers Success, its log holds the leader's previous entry and every entry
  of the message at its index with its term, and the log up to the previous entry is untouched.\<close>
theorem HeartBeat_success_agrees:
  assumes wf: "log_wf (logs rf)" "args_wf args" "0 \<le> lastApplied rf"
    and run: "HeartBeat args zero_append_reply rf = Inr (rf', reply', out)"
    and ok: "Success reply'"
  shows "let p = nat (Index (PrevLog args)) in
      log_wf (logs rf') \<and> p + 1 + length (Entries args) \<le> length (logs rf')
      \<and> take (p + 1) (logs rf') = take (p + 1) (logs rf)
      \<and> Term (logs rf' ! p) = Term (PrevLog args)
      \<and> (\<forall>j. j < length (Entries args) \<longrightarrow> entry_id (logs rf' ! (p + 1 + j)) = entry_id (Entries args ! j))"
  using wf
proof (cases rule: HeartBeat_branches[where reply = zero_append_reply])
  case accept
  let ?p = "nat (Index (PrevLog args))"
  have p: "?p + 1 \<le> length (logs rf)" using accept args_wfD(1)[OF wf(2)] by (auto simp: hb_missing_def)
  have "logs rf' = hb_merged args rf"
    using run HeartBeat_accept[OF wf(1,2) accept(2) wf(3) accept(1,3,4)]
    by (auto simp: Let_def split: if_splits)
  moreover have "log_wf (hb_merged args rf)"
    unfolding hb_merged_def using wf p args_wfD(3,4)[OF wf(2)] by (intro merge_ref_wf) auto
  moreover note merge_ref_length[OF p, of "Entries args"] merge_ref_prefix[OF p, of "Entries args"]
    merge_ref_Term[OF p, of _ "Entries args"] consecutive_nth[OF args_wfD(3)[OF wf(2)]]
  moreover have "Term (logs rf ! ?p) = Term (PrevLog args)"
    using accept p by (auto simp: hb_tests)
  ultimately show ?thesis
    using p nth_take[of ?p "Suc ?p" "logs rf"] nth_take[of ?p "Suc ?p" "hb_merged args rf"]
    by (auto simp: Let_def hb_merged_def entry_id_def log_wf_Index)
qed (use assms in \<open>auto simp: HeartBeat_eqs\<close>)

text \<open>A follower of three servers with two entries of term 1, the first committed, and a message of a
  leader of term 2 that replaces the second.\<close>

definition ex_log :: "raft_log list" where
  "ex_log = [zero_log, \<lparr>Index = 1, Term = 1, Cmd = GStr ''a''\<rparr>, \<lparr>Index = 2, Term = 1, Cmd = GStr ''b''\<rparr>]"

definition ex_follower :: raft where
  "ex_follower = (Make 3 1 MakePersister)\<lparr>logs := ex_log, logidx := 2, currentTerm := 1, commitIdx := 1, lastApplied := 1\<rparr>"

definition ex_args :: append_entries_args where
  "ex_args = \<lparr>ae_Term = 2, LeaderID = 0, PrevLog = \<lparr>Index = 1, Term = 1, Cmd = GStr ''a''\<rparr>,
     Entries = [\<lparr>Index = 2, Term = 2, Cmd = GStr ''c''\<rparr>], LeaderCommitIdx = 2\<rparr>"

lemma Make_simps [simp, go_simps]:
  "Make n i MakePersister =
     \<lparr>n_peers = n, persister = MakePersister, me = i32 i,
      jobsChnl = [], rpcChnl = [], heartBeatTimerReset = [], rdyChnl = replicate n [],
      stopChnl = [], commitIdxChnl = [], logidx = 0, isLeader = False, heartbeatTimer = False,
      currentTerm = 0, VotedFor = -1, logs = [zero_log], commitIdx = 0, lastApplied = 0,
      nextIndex = replicate n 0, matchIndex = replicate n 0, commitTracker = Map.empty, elections = []\<rparr>"
  by (simp add: Make_def readPersist_def persister_defs)

lemma ex_facts:
  "log_wf (logs ex_follower)" "args_wf ex_args" "0 \<le> lastApplied ex_follower"
  "commitIdx ex_follower = 1" "lastApplied ex_follower = 1" "logs ex_follower = ex_log"
  "hb_room ex_follower" "\<not> hb_stale ex_args ex_follower" "\<not> hb_missing ex_args ex_follower"
  "\<not> hb_conflict ex_args ex_follower"
  "hb_merged ex_args ex_follower =
     [zero_log, \<lparr>Index = 1, Term = 1, Cmd = GStr ''a''\<rparr>, \<lparr>Index = 2, Term = 2, Cmd = GStr ''c''\<rparr>]"
  by (simp_all add: ex_follower_def ex_args_def ex_log_def log_wf_def args_wf_def hb_room_def MAX_LOGS_def
      hb_tests hb_merged_def merge_ref_def)

lemma ex_accept: "\<exists>rf' r out. HeartBeat ex_args zero_append_reply ex_follower = Inr (rf', r, out) \<and> Success r
    \<and> logs rf' = [zero_log, \<lparr>Index = 1, Term = 1, Cmd = GStr ''a''\<rparr>, \<lparr>Index = 2, Term = 2, Cmd = GStr ''c''\<rparr>]"
  using HeartBeat_accept[OF ex_facts(1,2,7,3,8,9,10), of zero_append_reply] ex_facts(11)
  by (simp add: Let_def)

theorem HeartBeat_no_panic_witness:
  "\<not> (MAX_LOGS \<le> length (rpcChnl ex_follower)) \<and> HeartBeat ex_args zero_append_reply ex_follower \<noteq> Inl IndexOutOfRange"
  using HeartBeat_no_panic[OF ex_facts(1,2,3), of zero_append_reply IndexOutOfRange]
  by (auto simp: ex_follower_def MAX_LOGS_def)

theorem HeartBeat_success_agrees_witness:
  "\<exists>rf' r out. HeartBeat ex_args zero_append_reply ex_follower = Inr (rf', r, out) \<and> Success r
    \<and> entry_id (logs rf' ! 2) = (2, 2)"
proof -
  obtain rf' r out where run: "HeartBeat ex_args zero_append_reply ex_follower = Inr (rf', r, out)" "Success r"
    using ex_accept by blast
  from HeartBeat_success_agrees[OF ex_facts(1,2,3) run]
  have "entry_id (logs rf' ! 2) = (2, 2)"
    by (auto simp: Let_def ex_args_def entry_id_def eval_nat_numeral)
  with run show ?thesis by blast
qed

text \<open>C16: A follower never gives up or changes a committed entry, provided the message agrees with
  its committed prefix and, if the previous entry conflicts, the conflicting term is not also the
  term of the last committed entry (the scan for the conflicting term would run into it).\<close>
theorem HeartBeat_keeps_committed:
  assumes wf: "log_wf (logs rf)" "args_wf args" "0 \<le> lastApplied rf"
    and run: "HeartBeat args reply rf = Inr (rf', reply', out)"
    and c: "commitIdx rf = int c" "c < length (logs rf)"
    and prev: "nat (Index (PrevLog args)) \<le> c \<Longrightarrow>
      Term (PrevLog args) = Term (logs rf ! nat (Index (PrevLog args)))"
    and agree: "\<And>j. j < length (Entries args) \<Longrightarrow> nat (Index (PrevLog args)) + 1 + j \<le> c \<Longrightarrow>
      Term (Entries args ! j) = Term (logs rf ! (nat (Index (PrevLog args)) + 1 + j))"
    and differs: "hb_conflict args rf \<Longrightarrow> Term (logs rf ! c) \<noteq> Term (logs rf ! nat (Index (PrevLog args)))"
  shows "take (c + 1) (logs rf') = take (c + 1) (logs rf)"
  using wf
proof (cases rule: HeartBeat_branches[where reply = reply])
  case conflict
  let ?p = "nat (Index (PrevLog args))"
  have "c < ?p" using prev conflict(3) by (auto simp: hb_conflict_def not_less[symmetric])
  then have "\<not> conflict_scan (logs rf) (Term (logs rf ! ?p)) ?p < c"
    using conflict_scan_run[of "logs rf" "Term (logs rf ! ?p)" ?p c] differs[OF conflict(3)] by auto
  then have "c < hb_cut args rf" by (simp add: hb_cut_def Let_def)
  moreover have "logs rf' = take (hb_cut args rf) (logs rf)"
    using run HeartBeat_conflict[OF wf(1,2) conflict(2,1,3)] by auto
  ultimately show ?thesis by (simp add: min_def)
next
  case accept
  let ?p = "nat (Index (PrevLog args))"
  have p: "?p + 1 \<le> length (logs rf)" using accept args_wfD(1)[OF wf(2)] by (auto simp: hb_missing_def)
  have "logs rf' = hb_merged args rf"
    using run HeartBeat_accept[OF wf(1,2) accept(2) wf(3) accept(1,3,4)]
    by (auto simp: Let_def split: if_splits)
  then show ?thesis
    using merge_ref_keeps[OF p c(2)] agree by (simp add: hb_merged_def)
qed (use wf run in \<open>auto simp: HeartBeat_eqs\<close>)

theorem HeartBeat_keeps_committed_witness:
  "\<exists>rf' r out. HeartBeat ex_args zero_append_reply ex_follower = Inr (rf', r, out)
    \<and> take 2 (logs rf') = take 2 ex_log"
proof -
  obtain rf' r out where run: "HeartBeat ex_args zero_append_reply ex_follower = Inr (rf', r, out)"
    using ex_accept by blast
  have "take (1 + 1) (logs rf') = take (1 + 1) (logs ex_follower)"
    by (rule HeartBeat_keeps_committed[OF ex_facts(1,2,3) run])
       (use ex_facts in \<open>auto simp: ex_log_def ex_args_def\<close>)
  with run show ?thesis by (simp add: ex_facts(6) numeral_2_eq_2)
qed

text \<open>On a conflicting previous entry the follower refuses, and cuts its log right before the
  whole run of the conflicting term that ends at that entry; it reports the last entry it kept.\<close>
lemma HeartBeat_conflict_cuts_run:
  assumes wf: "log_wf (logs rf)" "args_wf args" "hb_room rf"
    and branch: "\<not> hb_stale args rf" "hb_conflict args rf"
  shows "\<exists>cut rf' reply'. HeartBeat args zero_append_reply rf = Inr (rf', reply', [])
      \<and> \<not> Success reply' \<and> 1 \<le> cut \<and> cut \<le> length (logs rf)
      \<and> logs rf' = take cut (logs rf) \<and> log_wf (logs rf')
      \<and> LastEntry reply' = last (logs rf') \<and> logidx rf' = Index (last (logs rf'))
      \<and> (\<forall>j. cut \<le> j \<and> j \<le> nat (Index (PrevLog args)) \<longrightarrow>
             Term (logs rf ! j) = Term (logs rf ! nat (Index (PrevLog args))))
      \<and> (cut = 1 \<or> Term (logs rf ! (cut - 1)) \<noteq> Term (logs rf ! nat (Index (PrevLog args))))"
proof -
  let ?p = "nat (Index (PrevLog args))" and ?cut = "hb_cut args rf"
  have cut: "1 \<le> ?cut" "?cut \<le> length (logs rf)"
    using hb_cut_bounds[OF branch(2)] args_wfD(1)[OF wf(2)] by auto
  have lst: "last (take ?cut (logs rf)) = logs rf ! (?cut - 1)"
    using cut by (intro last_take_conv) auto
  have wf': "log_wf (take ?cut (logs rf))" using cut by (intro log_wf_take wf(1)) auto
  have ix: "Index (logs rf ! (?cut - 1)) = int ?cut - 1"
    using log_wf_Index[OF wf(1), of "?cut - 1"] cut by auto
  have run: "\<forall>j. ?cut \<le> j \<and> j \<le> ?p \<longrightarrow> Term (logs rf ! j) = Term (logs rf ! ?p)"
    unfolding hb_cut_def Let_def Suc_le_eq using conflict_scan_run by blast
  have stop: "?cut = 1 \<or> Term (logs rf ! (?cut - 1)) \<noteq> Term (logs rf ! ?p)"
    using conflict_scan_stop[of "logs rf" "Term (logs rf ! ?p)" ?p] by (auto simp: hb_cut_def Let_def)
  obtain rf' reply' where res: "HeartBeat args zero_append_reply rf = Inr (rf', reply', [])"
    "\<not> Success reply'" "logs rf' = take ?cut (logs rf)" "logidx rf' = int ?cut - 1"
    "LastEntry reply' = logs rf ! (?cut - 1)"
    using HeartBeat_conflict[OF wf branch, of zero_append_reply] by fastforce
  have "log_wf (logs rf')" "LastEntry reply' = last (logs rf')" "logidx rf' = Index (last (logs rf'))"
    using res(3-5) wf' lst ix by simp_all
  with res(1-3) cut run stop show ?thesis by blast
qed

text \<open>The same follower, and a previous entry of another term at index 2.\<close>

definition ex_conflict :: append_entries_args where
  "ex_conflict = ex_args\<lparr>PrevLog := \<lparr>Index = 2, Term = 2, Cmd = GStr ''c''\<rparr>, Entries := []\<rparr>"

lemma ex_conflict_facts:
  "args_wf ex_conflict" "\<not> hb_stale ex_conflict ex_follower" "hb_conflict ex_conflict ex_follower"
  by (simp_all add: ex_follower_def ex_conflict_def ex_args_def ex_log_def args_wf_def hb_tests)

lemma HeartBeat_conflict_cuts_example:
  "\<exists>rf' reply'. HeartBeat ex_conflict zero_append_reply ex_follower = Inr (rf', reply', [])
     \<and> \<not> Success reply' \<and> log_wf (logs rf')"
  using HeartBeat_conflict_cuts_run[OF ex_facts(1) ex_conflict_facts(1) ex_facts(7) ex_conflict_facts(2,3)]
  by blast

text \<open>That cut can reach below the commit index: the follower of the example has committed the
  entry at index 1, and the message of a leader that also holds it makes it drop it.\<close>
lemma HeartBeat_drops_committed:
  "\<exists>rf' reply'. HeartBeat ex_conflict zero_append_reply ex_follower = Inr (rf', reply', [])
     \<and> commitIdx rf' = 1 \<and> logs rf' = [zero_log]"
  using HeartBeat_conflict[OF ex_facts(1) ex_conflict_facts(1) ex_facts(7) ex_conflict_facts(2,3),
      of zero_append_reply]
  by (simp add: hb_cut_def ex_follower_def ex_conflict_def ex_args_def ex_log_def eval_nat_numeral)

text \<open>C27: Delivering an accepted AppendEntries a second time changes neither the log nor the commit
  index, hands nothing to the service again, and is answered with Success.\<close>
theorem HeartBeat_redelivery:
  assumes wf: "log_wf (logs rf)" "args_wf args" "0 \<le> lastApplied rf" "commitIdx rf = lastApplied rf"
    and run: "HeartBeat args zero_append_reply rf = Inr (rf1, reply1, out1)" "Success reply1"
    and again: "rf2 = rf1\<lparr>rpcChnl := c, heartBeatTimerReset := []\<rparr>" "length c < MAX_LOGS"
  shows "\<exists>rf3 reply3. HeartBeat args zero_append_reply rf2 = Inr (rf3, reply3, hb_metric args rf2)
      \<and> Success reply3 \<and> LastEntry reply3 = LastEntry reply1
      \<and> logs rf3 = logs rf1 \<and> commitIdx rf3 = commitIdx rf1 \<and> lastApplied rf3 = lastApplied rf1"
  using wf(1,2,3)
proof (cases rule: HeartBeat_branches[where reply = zero_append_reply])
  case accept
  let ?p = "nat (Index (PrevLog args))" and ?ls = "hb_merged args rf"
  have p: "?p + 1 \<le> length (logs rf)" using accept args_wfD(1)[OF wf(2)] by (auto simp: hb_missing_def)
  note res = run(1)[unfolded HeartBeat_accept[OF wf(1,2) accept(2) wf(3) accept(1,3,4)] Let_def]
  have logs2: "logs rf2 = ?ls" "currentTerm rf2 = ae_Term args" "LastEntry reply1 = last ?ls"
    using res again(1) by (auto split: if_splits)
  have ca: "commitIdx rf2 = lastApplied rf2" "commitIdx rf2 = commitIdx rf1"
    using res again(1) wf(4) by (auto split: if_splits)
  have idle: "\<not> advances args rf2 (length ?ls)"
    using res again(1) wf(4) by (auto simp: advances_def new_commit_def split: if_splits)
  have la: "0 \<le> lastApplied rf2"
    using res again(1) wf(3,4) by (auto simp: advances_def split: if_splits)
  note len = merge_ref_length[OF p, of "Entries args"]
  have wf2: "log_wf (logs rf2)"
    unfolding logs2 hb_merged_def using wf p args_wfD(3,4)[OF wf(2)] by (intro merge_ref_wf) auto
  have merged: "hb_merged args rf2 = ?ls"
    unfolding hb_merged_def[of _ rf2] logs2 unfolding hb_merged_def
    using len merge_ref_Term[OF p] by (intro merge_ref_idem) auto
  have "take (?p + 1) ?ls = take (?p + 1) (logs rf)"
    unfolding hb_merged_def by (rule merge_ref_prefix[OF p])
  then have "?ls ! ?p = logs rf ! ?p"
    by (rule take_nth_eq) (use p len in \<open>auto simp: hb_merged_def\<close>)
  then have branch: "\<not> hb_stale args rf2" "\<not> hb_missing args rf2" "\<not> hb_conflict args rf2"
    using logs2 len accept(3,4) args_wfD(1)[OF wf(2)] p by (auto simp: hb_tests hb_merged_def)
  have "hb_room rf2" using again by (simp add: hb_room_def)
  from HeartBeat_accept[OF wf2 wf(2) this la branch, of zero_append_reply] show ?thesis
    using merged idle logs2 ca again(1) by (simp add: Let_def)
qed (use wf run in \<open>auto simp: HeartBeat_eqs\<close>)

theorem HeartBeat_redelivery_witness:
  "\<exists>rf1 reply1 out1 rf3 reply3. HeartBeat ex_args zero_append_reply ex_follower = Inr (rf1, reply1, out1)
     \<and> HeartBeat ex_args zero_append_reply (rf1\<lparr>rpcChnl := [], heartBeatTimerReset := []\<rparr>)
         = Inr (rf3, reply3, hb_metric ex_args (rf1\<lparr>rpcChnl := [], heartBeatTimerReset := []\<rparr>))
     \<and> logs rf3 = logs rf1"
proof -
  obtain rf' r out where run: "HeartBeat ex_args zero_append_reply ex_follower = Inr (rf', r, out)" "Success r"
    using ex_accept by blast
  from HeartBeat_redelivery[OF ex_facts(1,2,3) _ run refl, of "[]"] run show ?thesis
    by (auto simp: ex_facts MAX_LOGS_def)
qed

text \<open>
  Success does not mean that the follower's last entry is the leader's: a follower with
  entries beyond the message keeps them (rightly, the message may be old), and reports its
  own last entry. Here it acknowledges index 2, of which the leader sent nothing.
\<close>

theorem HeartBeat_acks_unmatched_tail:
  "\<exists>rf' r out. HeartBeat (ex_args\<lparr>Entries := []\<rparr>) zero_append_reply ex_follower = Inr (rf', r, out)
     \<and> Success r \<and> LastEntry r = \<lparr>Index = 2, Term = 1, Cmd = GStr ''b''\<rparr>"
proof -
  have "args_wf (ex_args\<lparr>Entries := []\<rparr>)" "\<not> hb_stale (ex_args\<lparr>Entries := []\<rparr>) ex_follower"
    "\<not> hb_missing (ex_args\<lparr>Entries := []\<rparr>) ex_follower" "\<not> hb_conflict (ex_args\<lparr>Entries := []\<rparr>) ex_follower"
    by (simp_all add: ex_follower_def ex_args_def ex_log_def args_wf_def hb_tests)
  from HeartBeat_accept[OF ex_facts(1) this(1) ex_facts(7,3) this(2-4), of zero_append_reply]
  show ?thesis by (simp add: hb_merged_def Let_def ex_facts(6) ex_log_def)
qed

end
