(* ===== verification/RaftSteps.thy ===== *)
theory RaftSteps
  imports RaftLoops RaftHeartBeat
begin

text \<open>
  The steps of one server, and what they leave alone. \<open>local_step\<close> collects the handlers and
  loop iterations that take no part in an election, with any message and any reply from the
  network; \<open>vote_frame\<close> is what they all keep: the vote, the elections, and a term that never
  goes back. The steps that do take part in elections are characterised one by one.
\<close>

inductive local_step :: "raft \<Rightarrow> effect list \<Rightarrow> raft \<Rightarrow> bool" where
  heartbeat: "HeartBeat args reply rf = Inr (rf', reply', out) \<Longrightarrow> local_step rf out rf'"
| start: "Start cmd rf = Inr (rf', i, t, l) \<Longrightarrow> local_step rf [] rf'"
| kill: "Kill rf = Inr rf' \<Longrightarrow> local_step rf [] rf'"
| stop: "stop_observed rf = Inr rf' \<Longrightarrow> local_step rf [] rf'"
| reset: "hb_reset rf = Inr rf' \<Longrightarrow> local_step rf [] rf'"
| tick: "hb_tick rf = Inr rf' \<Longrightarrow> local_step rf [] rf'"
| jobs: "job_step rf = Inr rf' \<Longrightarrow> local_step rf [] rf'"
| commit: "commit_step rf = Inr (rf', out) \<Longrightarrow> local_step rf out rf'"
| send: "peer_send fits server rf = Inr (rf', msg) \<Longrightarrow> local_step rf [] rf'"
| answer: "peer_reply server args reply rf = Inr (rf', out) \<Longrightarrow> local_step rf out rf'"
| drain: "drain_rpc rf = Inr rf' \<Longrightarrow> local_step rf [] rf'"

definition vote_frame :: "raft \<Rightarrow> raft \<Rightarrow> bool" where
  "vote_frame rf rf' \<longleftrightarrow>
     me rf' = me rf \<and> n_peers rf' = n_peers rf \<and> elections rf' = elections rf
     \<and> VotedFor rf' = VotedFor rf \<and> currentTerm rf \<le> currentTerm rf'
     \<and> (isLeader rf' \<longrightarrow> isLeader rf)"

lemma vote_frame_refl [simp]: "vote_frame rf rf"
  by (simp add: vote_frame_def)

lemma vote_frame_trans: "vote_frame a b \<Longrightarrow> vote_frame b c \<Longrightarrow> vote_frame a c"
  by (auto simp: vote_frame_def)

lemma vote_frame_persist [simp]: "vote_frame rf (persist rf') \<longleftrightarrow> vote_frame rf rf'"
  by (simp add: vote_frame_def)

lemma follower_commit_frame:
  "follower_commit args e rf = Inr (rf', out) \<Longrightarrow> vote_frame rf rf'"
  by (auto simp: follower_commit_def Let_def vote_frame_def split: if_splits)

lemma HeartBeat_frame: "HeartBeat args reply rf = Inr (rf', reply', out) \<Longrightarrow> vote_frame rf rf'"
  by (auto simp: HeartBeat_def Let_def vote_frame_def chan_send_Inr
      split: if_splits option.splits dest!: follower_commit_frame)

lemma Start_frame: "Start cmd rf = Inr (rf', i, t, l) \<Longrightarrow> vote_frame rf rf'"
  by (auto simp: Start_def Let_def vote_frame_def split: if_splits)

lemma job_step_frame: "job_step rf = Inr rf' \<Longrightarrow> vote_frame rf rf'"
  by (auto simp: job_step_def Let_def vote_frame_def split: list.splits if_splits)

lemma commit_step_frame: "commit_step rf = Inr (rf', out) \<Longrightarrow> vote_frame rf rf'"
  by (auto simp: commit_step_def Let_def vote_frame_def split: if_splits)

lemma peer_send_frame: "peer_send fits server rf = Inr (rf', msg) \<Longrightarrow> vote_frame rf rf'"
  by (auto simp: peer_send_def Let_def vote_frame_def split: if_splits)

lemma peer_reply_frame: "peer_reply server args reply rf = Inr (rf', out) \<Longrightarrow> vote_frame rf rf'"
  by (auto simp: peer_reply_def Let_def vote_frame_def split: if_splits)

lemma small_frames:
  "Kill rf = Inr rf' \<Longrightarrow> vote_frame rf rf'"
  "stop_observed rf = Inr rf' \<Longrightarrow> vote_frame rf rf'"
  "hb_reset rf = Inr rf' \<Longrightarrow> vote_frame rf rf'"
  "hb_tick rf = Inr rf' \<Longrightarrow> vote_frame rf rf'"
  "drain_rpc rf = Inr rf' \<Longrightarrow> vote_frame rf rf'"
  by (auto simp: Kill_def stop_observed_def hb_reset_def hb_tick_def drain_rpc_def Let_def
      vote_frame_def split: if_splits)

lemma local_step_frame: "local_step rf out rf' \<Longrightarrow> vote_frame rf rf'"
  by (induction rule: local_step.induct)
     (blast intro: HeartBeat_frame Start_frame job_step_frame commit_step_frame peer_send_frame
       peer_reply_frame small_frames)+

end
