(* ===== verification/RaftVotes.thy ===== *)
theory RaftVotes
  imports RaftSteps
begin

text \<open>
  The steps of one server that take part in elections: granting a vote, starting an election,
  the answer to a vote request, and counting. Each is given by what it does to the vote, the
  term and the elections in progress; \<open>RequestVote_eq\<close> is the complete account of the
  handler of \<open>raft/raft.go\<close>.
\<close>

section \<open>RequestVote\<close>

definition rv_eligible :: "request_vote_args \<Rightarrow> raft \<Rightarrow> bool" where
  "rv_eligible args rf \<longleftrightarrow>
     currentTerm rf < rv_Term args \<or> (currentTerm rf = rv_Term args \<and> VotedFor rf = -1)"

text \<open>Raft's "at least as up-to-date": the later last term wins, then the longer log.\<close>

definition log_up_to_date :: "raft_log \<Rightarrow> raft_log list \<Rightarrow> bool" where
  "log_up_to_date cand ls \<longleftrightarrow>
     (Term (last ls), Index (last ls)) = (Term cand, Index cand)
     \<or> Term (last ls) < Term cand \<or> (Term (last ls) = Term cand \<and> Index (last ls) < Index cand)"

definition rv_grants :: "request_vote_args \<Rightarrow> raft \<Rightarrow> bool" where
  "rv_grants args rf \<longleftrightarrow> rv_eligible args rf \<and> log_up_to_date (Log args) (logs rf)"

lemma up_to_date_alt:
  "log_up_to_date cand ls \<longleftrightarrow>
   Term (last ls) < Term cand \<or> (Term (last ls) = Term cand \<and> Index (last ls) \<le> Index cand)"
  by (auto simp: log_up_to_date_def)

text \<open>RequestVote, on every branch: a stale request changes nothing but the RPC notice and is
  answered with the current term; otherwise the term becomes the candidate's, and the vote is
  given exactly when the candidate is eligible and its log is at least as up-to-date, in which
  case the server records it, steps down, and stops its heartbeat timer.\<close>

lemma RequestVote_eq:
  assumes "logs rf \<noteq> []" "length (rpcChnl rf) < MAX_LOGS"
  shows "RequestVote args zero_vote_reply rf =
    (if rv_Term args < currentTerm rf
     then Inr (persist (rf\<lparr>rpcChnl := rpcChnl rf @ [OK]\<rparr>), \<lparr>rvr_Term = currentTerm rf, Voted = False\<rparr>, [])
     else if \<not> rv_grants args rf
     then Inr (persist (rf\<lparr>rpcChnl := rpcChnl rf @ [OK], currentTerm := rv_Term args\<rparr>),
               \<lparr>rvr_Term = rv_Term args, Voted = False\<rparr>, [])
     else if heartBeatTimerReset rf \<noteq> [] then Inl Blocked
     else Inr (persist (rf\<lparr>rpcChnl := rpcChnl rf @ [OK], currentTerm := rv_Term args,
                           VotedFor := ID args, isLeader := False, heartBeatTimerReset := [False]\<rparr>),
               \<lparr>rvr_Term = rv_Term args, Voted = True\<rparr>,
               SendMetrics (zero_rpc_args\<lparr>Idx := me rf, rpc_Type := ''Election'', rpc_VotedFor := ID args\<rparr>)))"
  using assms
  by (cases "heartBeatTimerReset rf")
     (auto simp: RequestVote_def Let_def chan_send_room chan_send_full rv_grants_def rv_eligible_def
       up_to_date_alt not_less)

definition ex_request :: request_vote_args where
  "ex_request = \<lparr>rv_Term = 1, ID = 0, Log = zero_log\<rparr>"

lemma ex_request_granted:
  "RequestVote ex_request zero_vote_reply (Make 3 1 MakePersister) =
     Inr (persist ((Make 3 1 MakePersister)\<lparr>rpcChnl := [OK], currentTerm := 1, VotedFor := 0,
            isLeader := False, heartBeatTimerReset := [False]\<rparr>),
          \<lparr>rvr_Term = 1, Voted = True\<rparr>,
          SendMetrics (zero_rpc_args\<lparr>Idx := 1, rpc_Type := ''Election'', rpc_VotedFor := 0\<rparr>))"
proof -
  have "logs (Make 3 1 MakePersister) \<noteq> []" "length (rpcChnl (Make 3 1 MakePersister)) < MAX_LOGS"
    by (simp_all add: MAX_LOGS_def)
  from RequestVote_eq[OF this, of ex_request] show ?thesis
    by (simp add: ex_request_def rv_grants_def rv_eligible_def up_to_date_alt)
qed

text \<open>What a completed invocation did, with no assumption on the state.\<close>

lemma RequestVote_effect:
  assumes "RequestVote args zero_vote_reply rf = Inr (rf', r, out)"
  shows "me rf' = me rf" "n_peers rf' = n_peers rf" "elections rf' = elections rf"
    "currentTerm rf \<le> currentTerm rf'" "isLeader rf' \<Longrightarrow> isLeader rf"
    "Voted r \<Longrightarrow> rv_eligible args rf \<and> VotedFor rf' = ID args \<and> currentTerm rf' = rv_Term args"
    "\<not> Voted r \<Longrightarrow> VotedFor rf' = VotedFor rf"
  using assms by (auto simp: RequestVote_def Let_def rv_eligible_def split: if_splits)

section \<open>Candidates\<close>

lemma election_timeout_effect:
  assumes "election_timeout rf = Inr (rf', args)" "currentTerm rf < 2147483647" "0 \<le> currentTerm rf"
  shows "me rf' = me rf" "n_peers rf' = n_peers rf" "\<not> isLeader rf" "\<not> isLeader rf'"
    "currentTerm rf' = currentTerm rf + 1" "VotedFor rf' = me rf"
    "rv_Term args = currentTerm rf + 1" "ID args = me rf"
    "elections rf' = elections rf @ [\<lparr>el_term = currentTerm rf + 1, el_lastLog = Log args,
       el_commitIdx = commitIdx rf, votes = 0, votingChnl = [], phase = Counting\<rparr>]"
  using assms by (auto simp: election_timeout_def Let_def split: if_splits)

lemma vote_reply_effect:
  assumes "vote_reply k reply rf = Inr rf'"
  shows "me rf' = me rf" "n_peers rf' = n_peers rf" "currentTerm rf \<le> currentTerm rf'"
    "VotedFor rf' = VotedFor rf" "isLeader rf' \<Longrightarrow> isLeader rf" "k < length (elections rf)"
    "elections rf' = (elections rf)[k := (elections rf ! k)\<lparr>votingChnl := votingChnl (elections rf ! k) @ [Voted reply]\<rparr>]"
  using assms by (auto simp: vote_reply_def Let_def idx_Inr chan_send_Inr split: if_splits)

lemma tracker_timeout_effect:
  assumes "tracker_timeout k rf = Inr rf'"
  shows "k < length (elections rf)" "phase (elections rf ! k) = Counting"
    "rf' = rf\<lparr>elections := (elections rf)[k := (elections rf ! k)\<lparr>phase := Quit\<rparr>]\<rparr>"
  using assms by (auto simp: tracker_timeout_def idx_Inr split: if_splits)

lemma leader_init_effect:
  assumes "leader_init k rf = Inr rf'"
  shows "k < length (elections rf)" "phase (elections rf ! k) = Announced"
    "me rf' = me rf" "n_peers rf' = n_peers rf" "currentTerm rf' = currentTerm rf"
    "VotedFor rf' = VotedFor rf" "isLeader rf' = isLeader rf"
    "elections rf' = (elections rf)[k := (elections rf ! k)\<lparr>phase := Won\<rparr>]"
  using assms by (auto simp: leader_init_def idx_Inr split: if_splits)

text \<open>
  Counting one vote: a refusal ends the count; an approval adds one, and at half of the
  servers (its own vote not counted) the candidate announces itself.
\<close>

lemma tracker_recv_effect:
  assumes "tracker_recv k rf = Inr rf'"
  obtains b c e' where
    "me rf' = me rf" "n_peers rf' = n_peers rf" "currentTerm rf' = currentTerm rf"
    "VotedFor rf' = VotedFor rf" "k < length (elections rf)" "phase (elections rf ! k) = Counting"
    "votingChnl (elections rf ! k) = b # c" "elections rf' = (elections rf)[k := e']"
    "el_term e' = el_term (elections rf ! k)" "votingChnl e' = c"
    "votes e' = (if b then votes (elections rf ! k) + 1 else votes (elections rf ! k))"
    "phase e' \<in> {Announced, Won} \<longrightarrow> phase e' = Announced \<and> b \<and> votes e' = int (n_peers rf div 2)"
    "isLeader rf' \<longrightarrow> isLeader rf \<or> phase e' = Announced"
proof -
  let ?e = "elections rf ! k"
  from assms obtain b c where 1: "k < length (elections rf)" "phase ?e = Counting" "votingChnl ?e = b # c"
    by (auto simp: tracker_recv_def idx_Inr chan_recv_Inr split: if_splits)
  consider (win) "b" "votes ?e + 1 = int (n_peers rf div 2)"
    | (more) "b" "votes ?e + 1 \<noteq> int (n_peers rf div 2)" | (refused) "\<not> b" by blast
  then show thesis
  proof cases
    case win
    show thesis
      by (rule that[of b c "?e\<lparr>votingChnl := c, votes := votes ?e + 1, phase := Announced\<rparr>"])
         (use assms 1 win in \<open>auto simp: tracker_recv_def idx_def Let_def\<close>)
  next
    case more
    show thesis
      by (rule that[of b c "?e\<lparr>votingChnl := c, votes := votes ?e + 1\<rparr>"])
         (use assms 1 more in \<open>auto simp: tracker_recv_def idx_def Let_def\<close>)
  next
    case refused
    show thesis
      by (rule that[of b c "?e\<lparr>votingChnl := c, phase := Quit\<rparr>"])
         (use assms 1 refused in \<open>auto simp: tracker_recv_def idx_def Let_def\<close>)
  qed
qed

text \<open>
  A server that takes a newer term from a candidate it refuses stays what it was: a leader
  goes on as the leader of a term it was not elected in.
\<close>

definition ex_stale_leader :: raft where
  "ex_stale_leader = (Make 3 0 MakePersister)\<lparr>currentTerm := 1, VotedFor := 0, isLeader := True,
     logs := [zero_log, \<lparr>Index = 1, Term = 1, Cmd = GStr ''a''\<rparr>]\<rparr>"

lemma RequestVote_keeps_refusing_leader:
  "\<exists>rf'. RequestVote \<lparr>rv_Term = 2, ID = 2, Log = zero_log\<rparr> zero_vote_reply ex_stale_leader
     = Inr (rf', \<lparr>rvr_Term = 2, Voted = False\<rparr>, []) \<and> isLeader rf' \<and> currentTerm rf' = 2"
proof -
  have "logs ex_stale_leader \<noteq> []" "length (rpcChnl ex_stale_leader) < MAX_LOGS"
    by (simp_all add: ex_stale_leader_def MAX_LOGS_def)
  from RequestVote_eq[OF this, of "\<lparr>rv_Term = 2, ID = 2, Log = zero_log\<rparr>"] show ?thesis
    by (simp add: ex_stale_leader_def rv_grants_def rv_eligible_def up_to_date_alt)
qed

end
