(* ===== verification/Quorums.thy ===== *)
theory Quorums
  imports Main
begin

text \<open>
  Quorums, the interface between counting votes and the safety of an election. The locale
  \<open>quorum_system\<close> is what a notion of quorum promises (any two meet, a superset of one is
  one); \<open>voting\<close> adds voters that vote once per term, and proves that a term has one winner.
  The interpretation is the counting rule of \<open>raft/raft.go\<close>: more than half of \<open>n\<close> servers,
  which is what \<open>votes == len(peers)/2\<close> and the candidate's own vote amount to.
\<close>

locale quorum_system =
  fixes quorum :: "'p set \<Rightarrow> bool"
  assumes meet: "quorum Q \<Longrightarrow> quorum Q' \<Longrightarrow> \<exists>p. p \<in> Q \<and> p \<in> Q'"
    and mono: "quorum Q \<Longrightarrow> Q \<subseteq> Q' \<Longrightarrow> quorum Q'"
begin

lemma nonempty: "quorum Q \<Longrightarrow> Q \<noteq> {}"
  using meet by blast

lemma meet_three:
  "quorum Q \<Longrightarrow> quorum Q' \<Longrightarrow> Q \<inter> Q' \<subseteq> R \<Longrightarrow> R \<noteq> {}"
  using meet by blast

end

locale voting = quorum_system quorum
  for quorum :: "'p set \<Rightarrow> bool" +
  fixes ballot :: "'p \<Rightarrow> 't \<Rightarrow> 'c \<Rightarrow> bool"
  assumes once: "ballot p t c \<Longrightarrow> ballot p t c' \<Longrightarrow> c = c'"
begin

lemma unique_winner:
  assumes "quorum {p. ballot p t c}" "quorum {p. ballot p t c'}"
  shows "c = c'"
  using meet[OF assms] once by blast

lemma winner_by_subset:
  assumes "quorum Q" "\<And>p. p \<in> Q \<Longrightarrow> ballot p t c" "quorum Q'" "\<And>p. p \<in> Q' \<Longrightarrow> ballot p t c'"
  shows "c = c'"
  using assms by (intro unique_winner) (auto intro: mono)

end

definition majority :: "nat \<Rightarrow> nat set \<Rightarrow> bool" where
  "majority n Q \<longleftrightarrow> n div 2 < card (Q \<inter> {..<n})"

lemma majority_meet:
  assumes "majority n Q" "majority n Q'"
  shows "\<exists>p. p \<in> Q \<and> p \<in> Q'"
proof (rule ccontr)
  assume "\<not> (\<exists>p. p \<in> Q \<and> p \<in> Q')"
  then have "card (Q \<inter> {..<n}) + card (Q' \<inter> {..<n}) = card ((Q \<inter> {..<n}) \<union> (Q' \<inter> {..<n}))"
    by (intro card_Un_disjoint[symmetric]) auto
  also have "\<dots> \<le> card {..<n}" by (intro card_mono) auto
  finally show False using assms by (simp add: majority_def)
qed

interpretation majority: quorum_system "majority n" for n
proof unfold_locales
  show "majority n Q \<Longrightarrow> majority n Q' \<Longrightarrow> \<exists>p. p \<in> Q \<and> p \<in> Q'" for Q Q'
    by (rule majority_meet)
  show "majority n Q \<Longrightarrow> Q \<subseteq> Q' \<Longrightarrow> majority n Q'" for Q Q'
    unfolding majority_def by (erule order.strict_trans2) (intro card_mono, auto)
qed

text \<open>The counting rule: \<open>n div 2\<close> other servers and oneself are a majority.\<close>

lemma votes_majority:
  assumes "Q \<subseteq> {..<n}" "c < n" "c \<notin> Q" "n div 2 \<le> card Q"
  shows "majority n (insert c Q)"
proof -
  have "finite Q" using assms(1) by (rule finite_subset) simp
  moreover have "insert c Q \<inter> {..<n} = insert c Q" using assms by auto
  ultimately show ?thesis using assms by (simp add: majority_def)
qed

end
