(* ===== verification/Election.thy ===== *)
theory Election
  imports RaftVotes Quorums
begin

text \<open>
  A cluster of Raft servers electing leaders. The state is the servers and, for every election
  a server has started and every other server, the goroutine that asks for its vote: the
  request is on its way, or answered, or the answer has been passed to the counting goroutine.
  A request or an answer may stay on its way forever (a lost message, a timeout). All other
  steps of a server are \<open>local_step\<close>, with whatever the network brings: no assumption is made
  on AppendEntries messages and replies.

  \<open>grants\<close> is a history variable: the votes given, as (voter, term, candidate).

  The election timer does not fire in a server whose term is the largest \<open>int32\<close>: that is the
  bound of the model (the next term would wrap around to the smallest).
\<close>

datatype call = Idle | Sent request_vote_args | Answered request_vote_reply | Done bool

record cluster =
  nodes :: "nat \<Rightarrow> raft"
  calls :: "nat \<Rightarrow> nat \<Rightarrow> nat \<Rightarrow> call"
  grants :: "(nat \<times> int32 \<times> nat) set"

definition init_cluster :: "nat \<Rightarrow> cluster" where
  "init_cluster n =
     \<lparr>nodes = (\<lambda>i. Make n (int i) MakePersister), calls = (\<lambda>_ _ _. Idle), grants = {}\<rparr>"

definition set_node :: "nat \<Rightarrow> raft \<Rightarrow> cluster \<Rightarrow> cluster" where
  "set_node i rf s = s\<lparr>nodes := (nodes s)(i := rf)\<rparr>"

definition set_call :: "nat \<Rightarrow> nat \<Rightarrow> nat \<Rightarrow> call \<Rightarrow> cluster \<Rightarrow> cluster" where
  "set_call c k v x s = s\<lparr>calls := (calls s)(c := (calls s c)(k := (calls s c k)(v := x)))\<rparr>"

text \<open>The loop that starts one goroutine per other server.\<close>

definition send_calls :: "nat \<Rightarrow> nat \<Rightarrow> nat \<Rightarrow> request_vote_args \<Rightarrow> cluster \<Rightarrow> cluster" where
  "send_calls n c k args s =
     s\<lparr>calls := (calls s)(c := (calls s c)(k := (\<lambda>v. if v < n \<and> v \<noteq> c then Sent args else Idle)))\<rparr>"

definition add_grant :: "nat \<Rightarrow> int32 \<Rightarrow> nat \<Rightarrow> cluster \<Rightarrow> cluster" where
  "add_grant v t c s = s\<lparr>grants := insert (v, t, c) (grants s)\<rparr>"

lemma cluster_simps [simp]:
  "nodes (set_node i rf s) = (nodes s)(i := rf)" "calls (set_node i rf s) = calls s"
  "grants (set_node i rf s) = grants s"
  "nodes (set_call c k v x s) = nodes s" "grants (set_call c k v x s) = grants s"
  "calls (set_call c k v x s) c' k' v' = (if c' = c \<and> k' = k \<and> v' = v then x else calls s c' k' v')"
  "nodes (send_calls n c k args s) = nodes s" "grants (send_calls n c k args s) = grants s"
  "calls (send_calls n c k args s) c' k' v' =
     (if c' = c \<and> k' = k then if v' < n \<and> v' \<noteq> c then Sent args else Idle else calls s c' k' v')"
  "nodes (add_grant v t c s) = nodes s" "calls (add_grant v t c s) = calls s"
  "grants (add_grant v t c s) = insert (v, t, c) (grants s)"
  by (auto simp: set_node_def set_call_def send_calls_def add_grant_def)

inductive cluster_step :: "nat \<Rightarrow> cluster \<Rightarrow> cluster \<Rightarrow> bool" for n where
  timeout: "i < n \<Longrightarrow> currentTerm (nodes s i) < 2147483647 \<Longrightarrow>
     election_timeout (nodes s i) = Inr (rf', args) \<Longrightarrow>
     cluster_step n s (add_grant i (rv_Term args) i
       (send_calls n i (length (elections (nodes s i))) args (set_node i rf' s)))"
| deliver: "calls s c k v = Sent args \<Longrightarrow>
     RequestVote args zero_vote_reply (nodes s v) = Inr (rf', reply, out) \<Longrightarrow>
     cluster_step n s ((if Voted reply then add_grant v (rv_Term args) c else id)
       (set_call c k v (Answered reply) (set_node v rf' s)))"
| reply: "calls s c k v = Answered r \<Longrightarrow> vote_reply k r (nodes s c) = Inr rf' \<Longrightarrow>
     cluster_step n s (set_call c k v (Done (Voted r)) (set_node c rf' s))"
| count: "i < n \<Longrightarrow> tracker_recv k (nodes s i) = Inr rf' \<Longrightarrow> cluster_step n s (set_node i rf' s)"
| quit: "i < n \<Longrightarrow> tracker_timeout k (nodes s i) = Inr rf' \<Longrightarrow> cluster_step n s (set_node i rf' s)"
| lead: "i < n \<Longrightarrow> leader_init k (nodes s i) = Inr rf' \<Longrightarrow> cluster_step n s (set_node i rf' s)"
| local: "i < n \<Longrightarrow> local_step (nodes s i) out rf' \<Longrightarrow> cluster_step n s (set_node i rf' s)"

inductive reachable :: "nat \<Rightarrow> cluster \<Rightarrow> bool" for n where
  init: "reachable n (init_cluster n)"
| step: "reachable n s \<Longrightarrow> cluster_step n s s' \<Longrightarrow> reachable n s'"

text \<open>A server has won term \<open>t\<close> when one of its counting goroutines reached the threshold.\<close>

definition has_won :: "election \<Rightarrow> bool" where
  "has_won e \<longleftrightarrow> phase e = Announced \<or> phase e = Won"

definition elected :: "cluster \<Rightarrow> nat \<Rightarrow> int32 \<Rightarrow> bool" where
  "elected s c t \<longleftrightarrow> (\<exists>e \<in> set (elections (nodes s c)). has_won e \<and> el_term e = t)"

section \<open>The invariant\<close>

definition voters :: "cluster \<Rightarrow> nat \<Rightarrow> nat \<Rightarrow> nat set" where
  "voters s c k = {v. calls s c k v = Done True}"

definition node_ok :: "nat \<Rightarrow> cluster \<Rightarrow> nat \<Rightarrow> bool" where
  "node_ok n s i \<longleftrightarrow> me (nodes s i) = int i \<and> n_peers (nodes s i) = n \<and> 0 \<le> currentTerm (nodes s i)
     \<and> (isLeader (nodes s i) \<longrightarrow> (\<exists>e \<in> set (elections (nodes s i)). has_won e))"

definition grant_ok :: "nat \<Rightarrow> cluster \<Rightarrow> nat \<times> int32 \<times> nat \<Rightarrow> bool" where
  "grant_ok n s g \<longleftrightarrow> (case g of (v, t, c) \<Rightarrow> v < n \<and> c < n \<and> t \<le> currentTerm (nodes s v)
     \<and> (t = currentTerm (nodes s v) \<longrightarrow> VotedFor (nodes s v) = int c))"

definition grants_once :: "cluster \<Rightarrow> bool" where
  "grants_once s \<longleftrightarrow> (\<forall>v t c c'. (v, t, c) \<in> grants s \<longrightarrow> (v, t, c') \<in> grants s \<longrightarrow> c = c')"

definition call_ok :: "nat \<Rightarrow> cluster \<Rightarrow> nat \<Rightarrow> nat \<Rightarrow> nat \<Rightarrow> bool" where
  "call_ok n s c k v \<longleftrightarrow>
     (let es = elections (nodes s c) in
      case calls s c k v of
        Idle \<Rightarrow> True
      | Sent args \<Rightarrow> c < n \<and> v < n \<and> v \<noteq> c \<and> k < length es \<and> rv_Term args = el_term (es ! k) \<and> ID args = int c
      | Answered r \<Rightarrow> c < n \<and> v < n \<and> v \<noteq> c \<and> k < length es
          \<and> (Voted r \<longrightarrow> (v, el_term (es ! k), c) \<in> grants s)
      | Done b \<Rightarrow> c < n \<and> v < n \<and> v \<noteq> c \<and> k < length es
          \<and> (b \<longrightarrow> (v, el_term (es ! k), c) \<in> grants s))"

definition election_ok :: "nat \<Rightarrow> cluster \<Rightarrow> nat \<Rightarrow> nat \<Rightarrow> bool" where
  "election_ok n s c k \<longleftrightarrow>
     (let e = elections (nodes s c) ! k in
      (c, el_term e, c) \<in> grants s
      \<and> votes e + int (count_list (votingChnl e) True) \<le> int (card (voters s c k))
      \<and> (has_won e \<longrightarrow> votes e = int (n div 2)))"

definition cluster_inv :: "nat \<Rightarrow> cluster \<Rightarrow> bool" where
  "cluster_inv n s \<longleftrightarrow>
     (\<forall>i < n. node_ok n s i) \<and> (\<forall>g \<in> grants s. grant_ok n s g) \<and> grants_once s
     \<and> (\<forall>c k v. call_ok n s c k v)
     \<and> (\<forall>c < n. \<forall>k < length (elections (nodes s c)). election_ok n s c k)"

lemma cluster_inv_init: "cluster_inv n (init_cluster n)" if "n < 2147483648"
  using that
  by (simp add: cluster_inv_def init_cluster_def node_ok_def grants_once_def call_ok_def)

lemma cluster_invD:
  assumes "cluster_inv n s"
  shows "i < n \<Longrightarrow> node_ok n s i" "g \<in> grants s \<Longrightarrow> grant_ok n s g" "grants_once s"
    "call_ok n s c k v" "c < n \<Longrightarrow> k < length (elections (nodes s c)) \<Longrightarrow> election_ok n s c k"
  using assms by (auto simp: cluster_inv_def)

lemma cluster_invI:
  assumes "\<And>i. i < n \<Longrightarrow> node_ok n s i" "\<And>g. g \<in> grants s \<Longrightarrow> grant_ok n s g" "grants_once s"
    "\<And>c k v. call_ok n s c k v"
    "\<And>c k. c < n \<Longrightarrow> k < length (elections (nodes s c)) \<Longrightarrow> election_ok n s c k"
  shows "cluster_inv n s"
  using assms by (auto simp: cluster_inv_def)

text \<open>The counts and phases a step may leave in the elections of a server.\<close>

definition count_ok :: "nat \<Rightarrow> cluster \<Rightarrow> nat \<Rightarrow> nat \<Rightarrow> election \<Rightarrow> bool" where
  "count_ok n s c k e \<longleftrightarrow>
     votes e + int (count_list (votingChnl e) True) \<le> int (card (voters s c k))
     \<and> (has_won e \<longrightarrow> votes e = int (n div 2))"

lemma election_ok_count: "election_ok n s c k \<Longrightarrow> count_ok n s c k (elections (nodes s c) ! k)"
  by (simp add: election_ok_def count_ok_def Let_def)

text \<open>
  A step of server \<open>i\<close> that keeps its vote, does not lower its term and keeps the terms of its
  elections keeps the invariant, when the counts stay within the votes received.
\<close>

lemma set_node_inv:
  assumes inv: "cluster_inv n s" and i: "i < n"
    and frame: "me rf' = me (nodes s i)" "n_peers rf' = n_peers (nodes s i)"
      "currentTerm (nodes s i) \<le> currentTerm rf'" "VotedFor rf' = VotedFor (nodes s i)"
    and els: "length (elections rf') = length (elections (nodes s i))"
      "\<And>k. k < length (elections rf') \<Longrightarrow> el_term (elections rf' ! k) = el_term (elections (nodes s i) ! k)"
      "\<And>k. k < length (elections rf') \<Longrightarrow> count_ok n s i k (elections rf' ! k)"
    and lead: "isLeader rf' \<Longrightarrow> \<exists>e \<in> set (elections rf'). has_won e"
  shows "cluster_inv n (set_node i rf' s)"
proof (rule cluster_invI)
  fix j assume "j < n"
  then show "node_ok n (set_node i rf' s) j"
    using cluster_invD(1)[OF inv, of j] frame lead by (auto simp: node_ok_def)
next
  fix g assume "g \<in> grants (set_node i rf' s)"
  then show "grant_ok n (set_node i rf' s) g"
    using cluster_invD(2)[OF inv, of g] frame by (auto simp: grant_ok_def)
next
  show "grants_once (set_node i rf' s)" using cluster_invD(3)[OF inv] by (simp add: grants_once_def)
next
  fix c k v show "call_ok n (set_node i rf' s) c k v"
    using cluster_invD(4)[OF inv, of c k v] els(1) els(2)[of k] by (auto simp: call_ok_def Let_def split: call.splits)
next
  fix c k assume c: "c < n" "k < length (elections (nodes (set_node i rf' s) c))"
  have "voters (set_node i rf' s) c k = voters s c k" by (simp add: voters_def)
  then show "election_ok n (set_node i rf' s) c k"
    using cluster_invD(5)[OF inv, of c k] c els
    by (cases "c = i") (auto simp: election_ok_def count_ok_def Let_def)
qed

lemma local_inv:
  assumes inv: "cluster_inv n s" and i: "i < n" and st: "local_step (nodes s i) out rf'"
  shows "cluster_inv n (set_node i rf' s)"
proof -
  have fr: "vote_frame (nodes s i) rf'" using st by (rule local_step_frame)
  show ?thesis
    using fr cluster_invD(1)[OF inv i] election_ok_count[OF cluster_invD(5)[OF inv i]]
    by (intro set_node_inv[OF inv i]) (auto simp: vote_frame_def node_ok_def)
qed

lemma won_update:
  assumes "k < length es" "has_won (es ! k) \<Longrightarrow> has_won e'" "\<exists>e \<in> set es. has_won e"
  shows "\<exists>e \<in> set (es[k := e']). has_won e"
proof -
  from assms(3) obtain j where "j < length es" "has_won (es ! j)" by (auto simp: in_set_conv_nth)
  with assms(1,2) have "has_won (es[k := e'] ! j)" "j < length (es[k := e'])"
    by (auto simp: nth_list_update)
  then show ?thesis using nth_mem by blast
qed

text \<open>Changing one election of a server, at a position the counts allow.\<close>

lemma set_election_inv:
  assumes inv: "cluster_inv n s" and i: "i < n" and k: "k < length (elections (nodes s i))"
    and frame: "me rf' = me (nodes s i)" "n_peers rf' = n_peers (nodes s i)"
      "currentTerm rf' = currentTerm (nodes s i)" "VotedFor rf' = VotedFor (nodes s i)"
    and els: "elections rf' = (elections (nodes s i))[k := e']"
      "el_term e' = el_term (elections (nodes s i) ! k)" "count_ok n s i k e'"
      "has_won (elections (nodes s i) ! k) \<Longrightarrow> has_won e'"
    and lead: "isLeader rf' \<Longrightarrow> isLeader (nodes s i) \<or> has_won e'"
  shows "cluster_inv n (set_node i rf' s)"
proof (rule set_node_inv[OF inv i frame(1,2) _ frame(4)])
  show "isLeader rf' \<Longrightarrow> \<exists>e \<in> set (elections rf'). has_won e"
  proof -
    assume "isLeader rf'"
    with lead consider "has_won e'" | e where "e \<in> set (elections (nodes s i))" "has_won e"
      using cluster_invD(1)[OF inv i] by (auto simp: node_ok_def)
    then show ?thesis
    proof cases
      case 1
      then show ?thesis using els(1) k by (auto intro: set_update_memI)
    next
      case (2 e)
      then show ?thesis unfolding els(1) by (intro won_update[OF k els(4)]) auto
    qed
  qed
qed (use els frame election_ok_count[OF cluster_invD(5)[OF inv i]] k in \<open>auto simp: nth_list_update\<close>)

lemma count_inv:
  assumes inv: "cluster_inv n s" and i: "i < n" and st: "tracker_recv k (nodes s i) = Inr rf'"
  shows "cluster_inv n (set_node i rf' s)"
  using st
proof (rule tracker_recv_effect)
  fix b c e'
  assume e: "k < length (elections (nodes s i))" "phase (elections (nodes s i) ! k) = Counting"
    "votingChnl (elections (nodes s i) ! k) = b # c" "elections rf' = (elections (nodes s i))[k := e']"
    "el_term e' = el_term (elections (nodes s i) ! k)" "votingChnl e' = c"
    "votes e' = (if b then votes (elections (nodes s i) ! k) + 1 else votes (elections (nodes s i) ! k))"
    "phase e' \<in> {Announced, Won} \<longrightarrow> phase e' = Announced \<and> b \<and> votes e' = int (n_peers (nodes s i) div 2)"
    "isLeader rf' \<longrightarrow> isLeader (nodes s i) \<or> phase e' = Announced"
    and frame: "me rf' = me (nodes s i)" "n_peers rf' = n_peers (nodes s i)"
      "currentTerm rf' = currentTerm (nodes s i)" "VotedFor rf' = VotedFor (nodes s i)"
  have "n_peers (nodes s i) = n" using cluster_invD(1)[OF inv i] by (simp add: node_ok_def)
  then have "count_ok n s i k e'"
    using e election_ok_count[OF cluster_invD(5)[OF inv i e(1)]] by (auto simp: count_ok_def has_won_def)
  with e show ?thesis
    by (intro set_election_inv[OF inv i e(1) frame e(4,5)]) (auto simp: has_won_def)
qed

lemma quit_inv:
  assumes inv: "cluster_inv n s" and i: "i < n" and st: "tracker_timeout k (nodes s i) = Inr rf'"
  shows "cluster_inv n (set_node i rf' s)"
  using tracker_timeout_effect[OF st] election_ok_count[OF cluster_invD(5)[OF inv i tracker_timeout_effect(1)[OF st]]]
  by (intro set_election_inv[OF inv i, of k _ "(elections (nodes s i) ! k)\<lparr>phase := Quit\<rparr>"])
     (auto simp: count_ok_def has_won_def)

lemma lead_inv:
  assumes inv: "cluster_inv n s" and i: "i < n" and st: "leader_init k (nodes s i) = Inr rf'"
  shows "cluster_inv n (set_node i rf' s)"
  using leader_init_effect[OF st] election_ok_count[OF cluster_invD(5)[OF inv i leader_init_effect(1)[OF st]]]
  by (intro set_election_inv[OF inv i, of k _ "(elections (nodes s i) ! k)\<lparr>phase := Won\<rparr>"])
     (auto simp: count_ok_def has_won_def)

lemma voters_finite:
  assumes "cluster_inv n s"
  shows "voters s c k \<subseteq> {..<n} - {c}"
proof
  fix v assume "v \<in> voters s c k"
  then show "v \<in> {..<n} - {c}"
    using cluster_invD(4)[OF assms, of c k v] by (auto simp: voters_def call_ok_def Let_def)
qed

lemma reply_inv:
  assumes inv: "cluster_inv n s" and call: "calls s c k v = Answered r"
    and st: "vote_reply k r (nodes s c) = Inr rf'"
  shows "cluster_inv n (set_call c k v (Done (Voted r)) (set_node c rf' s))" (is "cluster_inv n ?s")
proof -
  note eff = vote_reply_effect[OF st]
  have c: "c < n" "k < length (elections (nodes s c))" "v < n" "v \<noteq> c"
    "Voted r \<Longrightarrow> (v, el_term (elections (nodes s c) ! k), c) \<in> grants s"
    using cluster_invD(4)[OF inv, of c k v] call by (auto simp: call_ok_def Let_def)
  have fin: "finite (voters s c k)"
    using voters_finite[OF inv, of c k] by (rule finite_subset) simp
  have vs: "voters ?s c' k' = (if c' = c \<and> k' = k \<and> Voted r then insert v (voters s c k) else voters s c' k')" for c' k'
    using call by (auto simp: voters_def)
  have new: "v \<notin> voters s c k" using call by (simp add: voters_def)
  have nodes: "nodes ?s = (nodes s)(c := rf')" and grants: "grants ?s = grants s" by simp_all
  show ?thesis
  proof (rule cluster_invI)
    fix j assume "j < n"
    moreover have "\<exists>e \<in> set (elections rf'). has_won e" if "\<exists>e \<in> set (elections (nodes s c)). has_won e"
      unfolding eff(7) by (rule won_update[OF c(2) _ that]) (simp add: has_won_def)
    ultimately show "node_ok n ?s j"
      using cluster_invD(1)[OF inv, of j] eff by (auto simp: node_ok_def)
  next
    fix g assume "g \<in> grants ?s"
    then show "grant_ok n ?s g" using cluster_invD(2)[OF inv, of g] eff by (auto simp: grant_ok_def)
  next
    show "grants_once ?s" using cluster_invD(3)[OF inv] by (simp add: grants_once_def)
  next
    fix c' k' v' show "call_ok n ?s c' k' v'"
      using cluster_invD(4)[OF inv, of c' k' v'] c eff
      by (auto simp: call_ok_def Let_def nth_list_update split: call.splits)
  next
    fix c' k' assume ck: "c' < n" "k' < length (elections (nodes ?s c'))"
    show "election_ok n ?s c' k'"
      using cluster_invD(5)[OF inv, of c' k'] ck eff fin new
      by (auto simp: election_ok_def Let_def vs has_won_def nth_list_update card_insert_if)
  qed
qed

lemma deliver_inv:
  assumes inv: "cluster_inv n s" and call: "calls s c k v = Sent args"
    and st: "RequestVote args zero_vote_reply (nodes s v) = Inr (rf', r, out)"
  shows "cluster_inv n ((if Voted r then add_grant v (rv_Term args) c else id)
    (set_call c k v (Answered r) (set_node v rf' s)))" (is "cluster_inv n ?s")
proof -
  note eff = RequestVote_effect[OF st]
  have c: "c < n" "k < length (elections (nodes s c))" "v < n" "v \<noteq> c"
    "rv_Term args = el_term (elections (nodes s c) ! k)" "ID args = int c"
    using cluster_invD(4)[OF inv, of c k v] call by (auto simp: call_ok_def Let_def)
  have nodes: "nodes ?s = (nodes s)(v := rf')" by simp
  have grants: "grants ?s = (if Voted r then insert (v, rv_Term args, c) (grants s) else grants s)"
    by simp
  have calls: "calls ?s c' k' v' = (if c' = c \<and> k' = k \<and> v' = v then Answered r else calls s c' k' v')"
    for c' k' v' by simp
  have els: "elections (nodes ?s j) = elections (nodes s j)" for j using eff(3) by (simp add: nodes)
  have vs: "voters ?s c' k' = voters s c' k'" for c' k'
    using call by (auto simp: voters_def calls)
  have fresh: "(v, rv_Term args, c') \<notin> grants s" if "Voted r" for c'
  proof
    assume "(v, rv_Term args, c') \<in> grants s"
    then show False
      using cluster_invD(2)[OF inv, of "(v, rv_Term args, c')"] eff(6)[OF that]
      by (auto simp: grant_ok_def rv_eligible_def)
  qed
  show ?thesis
  proof (rule cluster_invI)
    fix j assume "j < n"
    then show "node_ok n ?s j"
      using cluster_invD(1)[OF inv, of j] eff by (auto simp: node_ok_def nodes)
  next
    fix g assume "g \<in> grants ?s"
    then consider "g \<in> grants s" | "Voted r" "g = (v, rv_Term args, c)"
      by (auto simp: grants split: if_splits)
    then show "grant_ok n ?s g"
    proof cases
      case 1
      then show ?thesis
        using cluster_invD(2)[OF inv 1] eff fresh by (cases "Voted r") (auto simp: grant_ok_def nodes)
    next
      case 2
      then show ?thesis using eff(6) c by (auto simp: grant_ok_def nodes)
    qed
  next
    show "grants_once ?s"
      using cluster_invD(3)[OF inv] fresh unfolding grants_once_def grants by (auto split: if_splits)
  next
    fix c' k' v' show "call_ok n ?s c' k' v'"
      using cluster_invD(4)[OF inv, of c' k' v'] c
      by (auto simp: call_ok_def Let_def calls els grants split: call.splits)
  next
    fix c' k' assume "c' < n" "k' < length (elections (nodes ?s c'))"
    then show "election_ok n ?s c' k'"
      using cluster_invD(5)[OF inv, of c' k'] by (auto simp: election_ok_def Let_def vs els grants)
  qed
qed

lemma timeout_inv:
  assumes inv: "cluster_inv n s" and i: "i < n" "currentTerm (nodes s i) < 2147483647"
    and st: "election_timeout (nodes s i) = Inr (rf', args)"
  shows "cluster_inv n (add_grant i (rv_Term args) i
    (send_calls n i (length (elections (nodes s i))) args (set_node i rf' s)))" (is "cluster_inv n ?s")
proof -
  let ?K = "length (elections (nodes s i))"
  have ni: "me (nodes s i) = int i" "n_peers (nodes s i) = n" "0 \<le> currentTerm (nodes s i)"
    using cluster_invD(1)[OF inv i(1)] by (auto simp: node_ok_def)
  note eff = election_timeout_effect[OF st i(2) ni(3)]
  have els: "elections (nodes ?s c) ! k = elections (nodes s c) ! k"
    if "k < length (elections (nodes s c))" for c k
    using that eff(9) by (auto simp: nth_append)
  have len: "length (elections (nodes ?s c)) = (if c = i then Suc ?K else length (elections (nodes s c)))" for c
    using eff(9) by simp
  have idle: "calls s i ?K v = Idle" for v
    using cluster_invD(4)[OF inv, of i ?K v] by (auto simp: call_ok_def Let_def split: call.splits)
  have vs: "voters ?s c k = (if c = i \<and> k = ?K then {} else voters s c k)" for c k
    by (auto simp: voters_def)
  have fresh: "(i, rv_Term args, c') \<notin> grants s" for c'
    using cluster_invD(2)[OF inv, of "(i, rv_Term args, c')"] eff(7) by (auto simp: grant_ok_def)
  show ?thesis
  proof (rule cluster_invI)
    fix j assume "j < n"
    then show "node_ok n ?s j"
      using cluster_invD(1)[OF inv, of j] eff ni by (auto simp: node_ok_def)
  next
    fix g assume "g \<in> grants ?s"
    then consider "g \<in> grants s" | "g = (i, rv_Term args, i)" by auto
    then show "grant_ok n ?s g"
    proof cases
      case 1
      then show ?thesis using cluster_invD(2)[OF inv 1] eff by (auto simp: grant_ok_def)
    next
      case 2
      then show ?thesis using eff ni i by (auto simp: grant_ok_def)
    qed
  next
    show "grants_once ?s"
      using cluster_invD(3)[OF inv] fresh by (auto simp: grants_once_def)
  next
    fix c k v show "call_ok n ?s c k v"
    proof (cases "c = i \<and> k = ?K")
      case True
      then show ?thesis using i eff ni by (auto simp: call_ok_def Let_def)
    next
      case False
      then show ?thesis
        using cluster_invD(4)[OF inv, of c k v] els[of k c] len[of c]
        by (auto simp: call_ok_def Let_def split: call.splits)
    qed
  next
    fix c k assume ck: "c < n" "k < length (elections (nodes ?s c))"
    show "election_ok n ?s c k"
    proof (cases "c = i \<and> k = ?K")
      case True
      then show ?thesis using eff by (auto simp: election_ok_def Let_def vs has_won_def)
    next
      case False
      then have "k < length (elections (nodes s c))" using ck len[of c] by (auto split: if_splits)
      then show ?thesis
        using cluster_invD(5)[OF inv ck(1)] els[of k c] False by (auto simp: election_ok_def Let_def vs)
    qed
  qed
qed

lemma cluster_step_inv: "cluster_step n s s' \<Longrightarrow> cluster_inv n s \<Longrightarrow> cluster_inv n s'"
proof (induction rule: cluster_step.induct)
  case (timeout i s rf' args)
  then show ?case by (intro timeout_inv)
next
  case (deliver s c k v args rf' reply out)
  then show ?case by (intro deliver_inv)
next
  case (reply s c k v r rf')
  then show ?case by (intro reply_inv)
next
  case (count i k s rf')
  then show ?case by (intro count_inv)
next
  case (quit i k s rf')
  then show ?case by (intro quit_inv)
next
  case (lead i k s rf')
  then show ?case by (intro lead_inv)
next
  case (local i s out rf')
  then show ?case by (intro local_inv)
qed

lemma reachable_inv: "reachable n s \<Longrightarrow> n < 2147483648 \<Longrightarrow> cluster_inv n s"
  by (induction rule: reachable.induct) (auto intro: cluster_inv_init cluster_step_inv)

section \<open>Safety\<close>

text \<open>The votes of a reachable cluster are ballots in the sense of \<open>Quorums\<close>.\<close>

definition ballot :: "nat \<Rightarrow> cluster \<Rightarrow> nat \<Rightarrow> int32 \<Rightarrow> nat \<Rightarrow> bool" where
  "ballot n s v t c \<longleftrightarrow> n < 2147483648 \<and> reachable n s \<and> (v, t, c) \<in> grants s"

interpretation raft_vote: voting "majority n" "ballot n s" for n s
proof unfold_locales
  fix v t c c' assume "ballot n s v t c" "ballot n s v t c'"
  then show "c = c'"
    using cluster_invD(3)[OF reachable_inv] by (auto simp: ballot_def grants_once_def)
qed

lemma elected_majority:
  assumes n: "n < 2147483648" "reachable n s" and c: "c < n" "elected s c t"
  obtains Q where "majority n Q" "\<And>v. v \<in> Q \<Longrightarrow> ballot n s v t c"
proof -
  have inv: "cluster_inv n s" using n by (intro reachable_inv)
  obtain k where k: "k < length (elections (nodes s c))" "has_won (elections (nodes s c) ! k)"
    "el_term (elections (nodes s c) ! k) = t"
    using c(2) by (auto simp: elected_def in_set_conv_nth)
  have ok: "election_ok n s c k" using inv c(1) k(1) by (rule cluster_invD(5))
  have "n div 2 \<le> card (voters s c k)" using ok k by (auto simp: election_ok_def Let_def)
  then have "majority n (insert c (voters s c k))"
    using voters_finite[OF inv, of c k] c(1) by (intro votes_majority) auto
  moreover have "ballot n s v t c" if "v \<in> insert c (voters s c k)" for v
    using that ok k n cluster_invD(4)[OF inv, of c k v]
    by (auto simp: ballot_def election_ok_def Let_def voters_def call_ok_def)
  ultimately show thesis by (rule that)
qed

lemma elected_unique:
  assumes "n < 2147483648" "reachable n s" "c < n" "c' < n" "elected s c t" "elected s c' t"
  shows "c = c'"
proof -
  obtain Q where Q: "majority n Q" "\<And>v. v \<in> Q \<Longrightarrow> ballot n s v t c"
    using elected_majority[OF assms(1-3,5)] by blast
  obtain Q' where Q': "majority n Q'" "\<And>v. v \<in> Q' \<Longrightarrow> ballot n s v t c'"
    using elected_majority[OF assms(1,2,4,6)] by blast
  show ?thesis using Q Q' by (rule raft_vote.winner_by_subset)
qed

text \<open>C1: Election safety: in every reachable state of the cluster, whatever messages arrive and in
  whatever order, at most one server has collected the votes of a majority for a given term.\<close>
theorem election_safety:
  assumes "n < 2147483648" "reachable n s" "c < n" "c' < n" "elected s c t" "elected s c' t"
  shows "c = c'"
  by (rule elected_unique[OF assms])

text \<open>A server gives at most one vote in a term, and the vote of its current term is the one it
  remembers in VotedFor.\<close>
lemma one_vote_per_term:
  assumes "n < 2147483648" "reachable n s" "(v, t, c) \<in> grants s"
  shows "v < n \<and> t \<le> currentTerm (nodes s v)
    \<and> (t = currentTerm (nodes s v) \<longrightarrow> VotedFor (nodes s v) = int c)
    \<and> (\<forall>c'. (v, t, c') \<in> grants s \<longrightarrow> c' = c)"
proof -
  have inv: "cluster_inv n s" using assms by (intro reachable_inv)
  show ?thesis
    using cluster_invD(2)[OF inv assms(3)] cluster_invD(3)[OF inv] assms(3)
    by (auto simp: grant_ok_def grants_once_def)
qed

text \<open>A server that believes it is the leader has won an election, in a term that is not beyond
  its current one.\<close>
lemma leader_was_elected:
  assumes "n < 2147483648" "reachable n s" "i < n" "isLeader (nodes s i)"
  shows "\<exists>t. t \<le> currentTerm (nodes s i) \<and> elected s i t"
proof -
  have inv: "cluster_inv n s" using assms by (intro reachable_inv)
  obtain k where k: "k < length (elections (nodes s i))" "has_won (elections (nodes s i) ! k)"
    using cluster_invD(1)[OF inv assms(3)] assms(4) by (auto simp: node_ok_def in_set_conv_nth)
  let ?t = "el_term (elections (nodes s i) ! k)"
  have "(i, ?t, i) \<in> grants s"
    using cluster_invD(5)[OF inv assms(3) k(1)] by (simp add: election_ok_def Let_def)
  then have "?t \<le> currentTerm (nodes s i)"
    using cluster_invD(2)[OF inv] by (fastforce simp: grant_ok_def)
  moreover have "elected s i ?t" using k by (auto simp: elected_def)
  ultimately show ?thesis by blast
qed

section \<open>A run\<close>

text \<open>
  Three servers. Server 0 is elected in term 1 with the vote of server 1, and appends a
  command to its log; the request to server 2 stays on its way.
\<close>

definition run_vote0 :: request_vote_args where
  "run_vote0 = \<lparr>rv_Term = 1, ID = 0, Log = zero_log\<rparr>"

definition s0_candidate :: raft where
  "s0_candidate = (Make 3 0 MakePersister)\<lparr>currentTerm := 1, VotedFor := 0,
     elections := [\<lparr>el_term = 1, el_lastLog = zero_log, el_commitIdx = 0, votes = 0, votingChnl = [], phase = Counting\<rparr>]\<rparr>"

definition s0_voted :: raft where
  "s0_voted = s0_candidate\<lparr>elections := [\<lparr>el_term = 1, el_lastLog = zero_log, el_commitIdx = 0, votes = 0, votingChnl = [True], phase = Counting\<rparr>]\<rparr>"

definition run_announce :: append_entries_args where
  "run_announce = \<lparr>ae_Term = 1, LeaderID = 0, PrevLog = zero_log, Entries = [], LeaderCommitIdx = 0\<rparr>"

definition s0_leader :: raft where
  "s0_leader = s0_candidate\<lparr>heartBeatTimerReset := [True], isLeader := True, rdyChnl := [[], [run_announce], [run_announce]],
     elections := [\<lparr>el_term = 1, el_lastLog = zero_log, el_commitIdx = 0, votes = 1, votingChnl = [], phase = Announced\<rparr>]\<rparr>"

definition s1_voter :: raft where
  "s1_voter = persist ((Make 3 1 MakePersister)\<lparr>rpcChnl := [OK], currentTerm := 1, VotedFor := 0,
     isLeader := False, heartBeatTimerReset := [False]\<rparr>)"

lemma run_a1: "election_timeout (Make 3 0 MakePersister) = Inr (s0_candidate, run_vote0)"
  by (simp add: election_timeout_def s0_candidate_def run_vote0_def idx_def)

lemma run_b1: "\<exists>out. RequestVote run_vote0 zero_vote_reply (Make 3 1 MakePersister) = Inr (s1_voter, \<lparr>rvr_Term = 1, Voted = True\<rparr>, out)"
  using ex_request_granted by (auto simp: ex_request_def run_vote0_def s1_voter_def)

lemma run_a2: "vote_reply 0 \<lparr>rvr_Term = 1, Voted = True\<rparr> s0_candidate = Inr s0_voted"
  by (simp add: vote_reply_def s0_candidate_def s0_voted_def idx_def chan_send_def)

lemma upt_three: "[0..<3] = [0, 1, 2::nat]"
  by (simp add: upt_rec)

lemma run_a3: "tracker_recv 0 s0_voted = Inr s0_leader"
  by (simp add: tracker_recv_def s0_candidate_def s0_voted_def s0_leader_def run_announce_def idx_def chan_send_def Let_def
      MAX_LOGS_def upt_three numeral_3_eq_3)

lemma run_elected: "\<exists>s. reachable 3 s \<and> nodes s 0 = s0_leader \<and> nodes s 1 = s1_voter \<and> nodes s 2 = Make 3 2 MakePersister
    \<and> calls s 0 0 2 = Sent run_vote0 \<and> elected s 0 1 \<and> (1, 1, 0) \<in> grants s"
proof -
  let ?s0 = "init_cluster 3"
  let ?s1 = "add_grant 0 1 0 (send_calls 3 0 0 run_vote0 (set_node 0 s0_candidate ?s0))"
  let ?s2 = "add_grant 1 1 0 (set_call 0 0 1 (Answered \<lparr>rvr_Term = 1, Voted = True\<rparr>) (set_node 1 s1_voter ?s1))"
  let ?s3 = "set_call 0 0 1 (Done True) (set_node 0 s0_voted ?s2)"
  let ?s4 = "set_node 0 s0_leader ?s3"
  have n0: "nodes ?s0 = (\<lambda>i. Make 3 (int i) MakePersister)" by (simp add: init_cluster_def)
  have "cluster_step 3 ?s0 ?s1"
    using cluster_step.timeout[of 0 3 ?s0 s0_candidate run_vote0] run_a1 by (simp add: n0 run_vote0_def)
  moreover have "cluster_step 3 ?s1 ?s2"
  proof -
    obtain out where "RequestVote run_vote0 zero_vote_reply (nodes ?s1 1) = Inr (s1_voter, \<lparr>rvr_Term = 1, Voted = True\<rparr>, out)"
      using run_b1 by (auto simp: n0 simp del: Make_simps)
    from cluster_step.deliver[of ?s1 0 0 1, OF _ this, of 3] show ?thesis by (simp add: run_vote0_def)
  qed
  moreover have "cluster_step 3 ?s2 ?s3"
    using cluster_step.reply[of ?s2 0 0 1 "\<lparr>rvr_Term = 1, Voted = True\<rparr>" s0_voted 3] run_a2 by simp
  moreover have "cluster_step 3 ?s3 ?s4"
    using cluster_step.count[of 0 3 0 ?s3 s0_leader] run_a3 by simp
  ultimately have "reachable 3 ?s4" by (meson reachable.intros)
  moreover have "elected ?s4 0 1" by (simp add: elected_def s0_leader_def has_won_def)
  ultimately show ?thesis
    by (intro exI[of _ ?s4]) (simp add: n0)
qed

theorem election_safety_witness:
  "\<exists>s. reachable 3 s \<and> elected s 0 1 \<and> (\<forall>c' < 3. elected s c' 1 \<longrightarrow> 0 = c')"
proof -
  obtain s where s: "reachable 3 s" "elected s 0 1" using run_elected by blast
  then show ?thesis using election_safety[of 3 s 0 _ 1] by auto
qed

lemma one_vote_per_term_run:
  "\<exists>s. reachable 3 s \<and> (1, 1, 0) \<in> grants s \<and> (\<forall>c'. (1, 1, c') \<in> grants s \<longrightarrow> c' = 0)"
proof -
  obtain s where s: "reachable 3 s" "(1, 1, 0) \<in> grants s" using run_elected by blast
  then show ?thesis using one_vote_per_term[of 3 s 1 1 0] by auto
qed

lemma leader_was_elected_run:
  "\<exists>s. reachable 3 s \<and> isLeader (nodes s 0) \<and> (\<exists>t. t \<le> currentTerm (nodes s 0) \<and> elected s 0 t)"
proof -
  obtain s where s: "reachable 3 s" "nodes s 0 = s0_leader" using run_elected by blast
  then have "isLeader (nodes s 0)" by (simp add: s0_leader_def)
  then show ?thesis using leader_was_elected[of 3 s 0] s(1) by (intro exI[of _ s]) simp
qed

text \<open>
  The run goes on: server 0 appends a command to its own log only. Server 2, which knows
  nothing of term 1, starts an election in term 1 and then in term 2. Server 0 refuses it,
  its own log being longer, but takes over term 2 and goes on as a leader; server 1 votes
  for server 2.
\<close>

text \<open>The command, as the key/value service's \<open>Op\<close> arrives over JSON.\<close>

definition run_cmd :: gval where
  "run_cmd = GMap [(''ContextId'', GStr ''x:1''), (''Cmd'', GStr ''Put:::k<<>>a'')]"

definition run_job :: raft_log where
  "run_job = \<lparr>Index = 1, Term = 1, Cmd = run_cmd\<rparr>"

definition run_vote2 :: request_vote_args where
  "run_vote2 = \<lparr>rv_Term = 2, ID = 2, Log = zero_log\<rparr>"

definition fresh_election :: "int32 \<Rightarrow> election" where
  "fresh_election t = \<lparr>el_term = t, el_lastLog = zero_log, el_commitIdx = 0, votes = 0, votingChnl = [], phase = Counting\<rparr>"

definition s2_first :: raft where
  "s2_first = (Make 3 2 MakePersister)\<lparr>currentTerm := 1, VotedFor := 2, elections := [fresh_election 1]\<rparr>"

definition s2_second :: raft where
  "s2_second = s2_first\<lparr>currentTerm := 2, elections := [fresh_election 1, fresh_election 2]\<rparr>"

definition s2_voted :: raft where
  "s2_voted = s2_second\<lparr>elections := [fresh_election 1, (fresh_election 2)\<lparr>votingChnl := [True]\<rparr>]\<rparr>"

lemma run_a5: "\<exists>a5. local_step (s0_leader\<lparr>logidx := 1, jobsChnl := [run_job]\<rparr>) [] a5 \<and> isLeader a5 \<and> currentTerm a5 = 1
    \<and> logs a5 = [zero_log, run_job] \<and> rpcChnl a5 = []"
proof -
  let ?a4 = "s0_leader\<lparr>logidx := 1, jobsChnl := [run_job]\<rparr>"
  have "\<exists>a5. job_step ?a4 = Inr a5 \<and> isLeader a5 \<and> currentTerm a5 = 1 \<and> logs a5 = [zero_log, run_job] \<and> rpcChnl a5 = []"
    by (simp add: job_step_def idx_def s0_leader_def s0_candidate_def run_job_def maxEntriesPerBatch_def Let_def upt_three
        chan_send_def MAX_LOGS_def numeral_3_eq_3)
  then show ?thesis using local_step.jobs by blast
qed

lemma run_a4: "local_step s0_leader [] (s0_leader\<lparr>logidx := 1, jobsChnl := [run_job]\<rparr>)"
  by (rule local_step.start[of run_cmd _ _ 1 1 True])
     (simp add: Start_def s0_leader_def s0_candidate_def run_job_def chan_send_def MAX_LOGS_def)

lemma run_a6:
  assumes "isLeader a5" "currentTerm a5 = 1" "logs a5 = [zero_log, run_job]" "rpcChnl a5 = []"
  shows "\<exists>a6. RequestVote run_vote2 zero_vote_reply a5 = Inr (a6, \<lparr>rvr_Term = 2, Voted = False\<rparr>, [])
    \<and> isLeader a6 \<and> currentTerm a6 = 2"
  using assms RequestVote_eq[of a5 run_vote2]
  by (simp add: MAX_LOGS_def run_vote2_def rv_grants_def up_to_date_alt run_job_def)

lemma run_c1: "election_timeout (Make 3 2 MakePersister) = Inr (s2_first, \<lparr>rv_Term = 1, ID = 2, Log = zero_log\<rparr>)"
  by (simp add: election_timeout_def s2_first_def idx_def fresh_election_def)

lemma run_c2: "election_timeout s2_first = Inr (s2_second, run_vote2)"
  by (simp add: election_timeout_def s2_first_def s2_second_def run_vote2_def idx_def fresh_election_def)

lemma run_c3: "vote_reply 1 \<lparr>rvr_Term = 2, Voted = True\<rparr> s2_second = Inr s2_voted"
  by (simp add: vote_reply_def s2_first_def s2_second_def s2_voted_def idx_def fresh_election_def chan_send_def)

lemma run_c4: "\<exists>c4. tracker_recv 1 s2_voted = Inr c4 \<and> isLeader c4 \<and> currentTerm c4 = 2"
  by (simp add: tracker_recv_def s2_first_def s2_second_def s2_voted_def fresh_election_def idx_def chan_send_def Let_def
      MAX_LOGS_def upt_three numeral_3_eq_3)

lemma run_b2: "local_step s1_voter [] (s1_voter\<lparr>heartBeatTimerReset := [], heartbeatTimer := False\<rparr>)"
  by (rule local_step.reset) (simp add: hb_reset_def s1_voter_def)

lemma run_b3: "\<exists>b3 out. RequestVote run_vote2 zero_vote_reply (s1_voter\<lparr>heartBeatTimerReset := [], heartbeatTimer := False\<rparr>)
    = Inr (b3, \<lparr>rvr_Term = 2, Voted = True\<rparr>, out)"
  using RequestVote_eq[of "s1_voter\<lparr>heartBeatTimerReset := [], heartbeatTimer := False\<rparr>" run_vote2]
  by (simp add: MAX_LOGS_def run_vote2_def rv_grants_def rv_eligible_def up_to_date_alt s1_voter_def)

text \<open>A server that refuses a vote of a newer term takes that term and goes on as a leader: two
  servers can hold themselves to be the leader of the same term at the same time.\<close>
lemma two_leaders_in_one_term:
  "\<exists>s. reachable 3 s \<and> isLeader (nodes s 0) \<and> isLeader (nodes s 2)
     \<and> currentTerm (nodes s 0) = 2 \<and> currentTerm (nodes s 2) = 2"
proof -
  obtain s0 where s0: "reachable 3 s0" "nodes s0 0 = s0_leader" "nodes s0 1 = s1_voter" "nodes s0 2 = Make 3 2 MakePersister"
    using run_elected by blast
  obtain a5 where a5: "local_step (s0_leader\<lparr>logidx := 1, jobsChnl := [run_job]\<rparr>) [] a5"
    "isLeader a5" "currentTerm a5 = 1" "logs a5 = [zero_log, run_job]" "rpcChnl a5 = []"
    using run_a5 by blast
  obtain a6 where a6: "RequestVote run_vote2 zero_vote_reply a5 = Inr (a6, \<lparr>rvr_Term = 2, Voted = False\<rparr>, [])"
    "isLeader a6" "currentTerm a6 = 2"
    using run_a6[OF a5(2-5)] by blast
  obtain b3 out where b3: "RequestVote run_vote2 zero_vote_reply (s1_voter\<lparr>heartBeatTimerReset := [], heartbeatTimer := False\<rparr>)
    = Inr (b3, \<lparr>rvr_Term = 2, Voted = True\<rparr>, out)" using run_b3 by blast
  obtain c4 where c4: "tracker_recv 1 s2_voted = Inr c4" "isLeader c4" "currentTerm c4 = 2" using run_c4 by blast
  let ?s1 = "set_node 0 (s0_leader\<lparr>logidx := 1, jobsChnl := [run_job]\<rparr>) s0"
  let ?s2 = "set_node 0 a5 ?s1"
  let ?s3 = "add_grant 2 1 2 (send_calls 3 2 0 \<lparr>rv_Term = 1, ID = 2, Log = zero_log\<rparr> (set_node 2 s2_first ?s2))"
  let ?s4 = "add_grant 2 2 2 (send_calls 3 2 1 run_vote2 (set_node 2 s2_second ?s3))"
  let ?s5 = "set_call 2 1 0 (Answered \<lparr>rvr_Term = 2, Voted = False\<rparr>) (set_node 0 a6 ?s4)"
  let ?s6 = "set_node 1 (s1_voter\<lparr>heartBeatTimerReset := [], heartbeatTimer := False\<rparr>) ?s5"
  let ?s7 = "add_grant 1 2 2 (set_call 2 1 1 (Answered \<lparr>rvr_Term = 2, Voted = True\<rparr>) (set_node 1 b3 ?s6))"
  let ?s8 = "set_call 2 1 1 (Done True) (set_node 2 s2_voted ?s7)"
  let ?s9 = "set_node 2 c4 ?s8"
  have "cluster_step 3 s0 ?s1" using cluster_step.local[of 0 3 s0] run_a4 s0 by simp
  moreover have "cluster_step 3 ?s1 ?s2" using cluster_step.local[of 0 3 ?s1] a5(1) by simp
  moreover have "cluster_step 3 ?s2 ?s3"
    using cluster_step.timeout[of 2 3 ?s2 s2_first] run_c1 s0 by simp
  moreover have "cluster_step 3 ?s3 ?s4"
    using cluster_step.timeout[of 2 3 ?s3 s2_second] run_c2 by (simp add: s2_first_def run_vote2_def)
  moreover have "cluster_step 3 ?s4 ?s5"
    using cluster_step.deliver[of ?s4 2 1 0 run_vote2 a6 "\<lparr>rvr_Term = 2, Voted = False\<rparr>" "[]" 3] a6(1) by simp
  moreover have "cluster_step 3 ?s5 ?s6" using cluster_step.local[of 1 3 ?s5] run_b2 s0 by simp
  moreover have "cluster_step 3 ?s6 ?s7"
    using cluster_step.deliver[of ?s6 2 1 1 run_vote2 b3 "\<lparr>rvr_Term = 2, Voted = True\<rparr>" out 3] b3
    by (simp add: run_vote2_def)
  moreover have "cluster_step 3 ?s7 ?s8"
    using cluster_step.reply[of ?s7 2 1 1 "\<lparr>rvr_Term = 2, Voted = True\<rparr>" s2_voted 3] run_c3 by simp
  moreover have "cluster_step 3 ?s8 ?s9" using cluster_step.count[of 2 3 1 ?s8 c4] c4(1) by simp
  ultimately have "reachable 3 ?s9" using s0(1) by (meson reachable.step)
  then show ?thesis using a6 c4 by (intro exI[of _ ?s9]) simp
qed

end
