(* ===== verification/RaftLeader.thy ===== *)
theory RaftLeader
  imports RaftSteps
begin

text \<open>
  The leader's pipeline. A command enters with \<open>Start\<close>, waits in \<open>jobsChnl\<close>, and the dispatcher
  moves up to 30 of the waiting jobs to the end of the log and to the peers' channels. Seen
  from outside, the leader holds one sequence, the log followed by the queue: \<open>Start\<close> appends
  to it and returns the position, the dispatcher does not change it. That holds while the queue
  continues the log (\<open>jobs_sync\<close>); the last section shows what the dispatcher does when it does
  not. The commit-index updater comes after it: an index is committed only after \<open>len(peers)/2\<close>
  acknowledgements of exactly that index.
\<close>

definition jobs_sync :: "raft \<Rightarrow> bool" where
  "jobs_sync rf \<longleftrightarrow>
     consecutive (int (length (logs rf))) (jobsChnl rf)
     \<and> logidx rf = int (length (logs rf)) + int (length (jobsChnl rf)) - 1
     \<and> length (logs rf) + length (jobsChnl rf) < 2147483647"

definition pending :: "raft \<Rightarrow> raft_log list" where
  "pending rf = logs rf @ jobsChnl rf"

text \<open>Every other peer's channel has room for one message.\<close>

definition rdy_room :: "raft \<Rightarrow> bool" where
  "rdy_room rf \<longleftrightarrow> length (rdyChnl rf) = n_peers rf
     \<and> (\<forall>i < n_peers rf. int i \<noteq> me rf \<longrightarrow> length (rdyChnl rf ! i) < MAX_LOGS)"

definition push_rdy :: "append_entries_args \<Rightarrow> raft \<Rightarrow> append_entries_args list list" where
  "push_rdy a rf = map (\<lambda>i. if int i = me rf then rdyChnl rf ! i else rdyChnl rf ! i @ [a]) [0..<n_peers rf]"

lemma send_rdy_upd:
  assumes "distinct is" "\<And>i. i \<in> set is \<Longrightarrow> i < length chs"
    and "\<And>i. i \<in> set is \<Longrightarrow> int i \<noteq> m \<Longrightarrow> length (chs ! i) < MAX_LOGS"
  shows "\<exists>chs'. send_rdy a m is chs = Inr chs' \<and> length chs' = length chs
    \<and> (\<forall>i < length chs. chs' ! i = (if i \<in> set is \<and> int i \<noteq> m then chs ! i @ [a] else chs ! i))"
  using assms
proof (induction "is" arbitrary: chs)
  case Nil
  then show ?case by simp
next
  case (Cons i "is")
  show ?case
  proof (cases "m = int i")
    case True
    with Cons show ?thesis by fastforce
  next
    case False
    with Cons.prems have "chan_send MAX_LOGS a (chs ! i) = Inr (chs ! i @ [a])"
      by (simp add: chan_send_room)
    moreover obtain chs' where chs': "send_rdy a m is (chs[i := chs ! i @ [a]]) = Inr chs'"
      "length chs' = length chs"
      "\<forall>j < length chs. chs' ! j =
        (if j \<in> set is \<and> int j \<noteq> m then chs[i := chs ! i @ [a]] ! j @ [a] else chs[i := chs ! i @ [a]] ! j)"
    proof -
      have "length (chs[i := chs ! i @ [a]] ! j) < MAX_LOGS" if "j \<in> set is" "int j \<noteq> m" for j
        using Cons.prems that by (cases "j = i") auto
      then show ?thesis using Cons.IH[of "chs[i := chs ! i @ [a]]"] Cons.prems(1,2) that by auto
    qed
    ultimately show ?thesis
      using False Cons.prems(1,2) by (intro exI[of _ chs']) (auto simp: nth_list_update)
  qed
qed

lemma send_rdy_push:
  assumes "rdy_room rf"
  shows "send_rdy a (me rf) [0..<n_peers rf] (rdyChnl rf) = Inr (push_rdy a rf)"
proof -
  obtain chs' where "send_rdy a (me rf) [0..<n_peers rf] (rdyChnl rf) = Inr chs'"
    "length chs' = n_peers rf"
    "\<forall>i < n_peers rf. chs' ! i = (if int i \<noteq> me rf then rdyChnl rf ! i @ [a] else rdyChnl rf ! i)"
    using send_rdy_upd[of "[0..<n_peers rf]" "rdyChnl rf" "me rf" a] assms by (auto simp: rdy_room_def)
  moreover from this have "chs' = push_rdy a rf"
    by (intro nth_equalityI) (auto simp: push_rdy_def)
  ultimately show ?thesis by simp
qed

section \<open>Filling a batch\<close>

lemma fill_entries_consecutive:
  assumes "consecutive (p + 1 + int (length xs)) js" "length js \<le> m"
    and "0 \<le> p" "p + int (length xs) + int m < 2147483647"
  shows "fill_entries p (xs @ replicate m z) js = Inr (xs @ js @ replicate (m - length js) z)"
  using assms
proof (induction js arbitrary: xs m)
  case Nil
  then show ?case by simp
next
  case (Cons j js)
  then obtain m' where m: "m = Suc m'" by (cases m) auto
  have k: "i32 (Index j - p - 1) = int (length xs)" using Cons.prems by simp
  have "fill_entries p ((xs @ [j]) @ replicate m' z) js = Inr ((xs @ [j]) @ js @ replicate (m' - length js) z)"
    using Cons.prems m by (intro Cons.IH) (auto simp: algebra_simps)
  then show ?case
    by (simp add: k m idx_def Let_def list_update_append)
qed

lemma fill_entries_fault:
  assumes "j \<in> set js" "i32 (Index j - p - 1) < 0 \<or> int (length es) \<le> i32 (Index j - p - 1)"
  shows "fill_entries p es js = Inl IndexOutOfRange"
  using assms
proof (induction js arbitrary: es)
  case Nil
  then show ?case by simp
next
  case (Cons j' js)
  show ?case
  proof (cases "0 \<le> i32 (Index j' - p - 1) \<and> i32 (Index j' - p - 1) < int (length es)")
    case True
    then have "j \<in> set js" using Cons.prems by auto
    with True Cons show ?thesis by (simp add: Let_def idx_def)
  next
    case False
    then show ?thesis by (auto simp: Let_def idx_def)
  qed
qed

lemma append_only_next: "es \<noteq> [] \<Longrightarrow> consecutive (int (length ls)) es \<Longrightarrow> append_only ls es = ls @ es"
  by (cases es) auto

section \<open>Start and the dispatcher\<close>

definition batch :: "raft \<Rightarrow> raft_log list" where
  "batch rf = take maxEntriesPerBatch (jobsChnl rf)"

definition job_args :: "raft \<Rightarrow> append_entries_args" where
  "job_args rf = \<lparr>ae_Term = currentTerm rf, LeaderID = me rf, PrevLog = last (logs rf),
     Entries = batch rf, LeaderCommitIdx = commitIdx rf\<rparr>"

lemma job_step_sends:
  assumes wf: "log_wf (logs rf)" "jobs_sync rf" "jobsChnl rf \<noteq> []"
  shows "job_step rf =
    go_bind (if isLeader rf then send_rdy (job_args rf) (me rf) [0..<n_peers rf] (rdyChnl rf) else Inr (rdyChnl rf))
      (\<lambda>chs. Inr (persist (rf\<lparr>jobsChnl := drop maxEntriesPerBatch (jobsChnl rf), rdyChnl := chs,
        logs := logs rf @ batch rf\<rparr>)))"
proof -
  obtain job queue where q: "jobsChnl rf = job # queue" using wf(3) by (cases "jobsChnl rf") auto
  define count where "count = (if length queue + 1 < maxEntriesPerBatch then length queue + 1 else maxEntriesPerBatch)"
  have c1: "1 \<le> count" by (auto simp: count_def maxEntriesPerBatch_def)
  have c2: "length (take (count - 1) queue) = count - 1" by (auto simp: count_def)
  have batch: "batch rf = job # take (count - 1) queue"
    by (auto simp: batch_def q count_def maxEntriesPerBatch_def take_Cons' min_def)
  have drop: "drop (count - Suc 0) queue = drop maxEntriesPerBatch (job # queue)"
    by (auto simp: count_def maxEntriesPerBatch_def drop_Cons')
  have sync: "consecutive (int (length (logs rf))) (job # queue)" "length (logs rf) + length queue + 1 < 2147483647"
    using wf(2) by (auto simp: jobs_sync_def q)
  have n: "0 < length (logs rf)" using log_wfD(1)[OF wf(1)] by simp
  have cnt: "count \<le> length queue + 1" by (auto simp: count_def)
  have rep: "(replicate count zero_log)[0 := job] = [job] @ replicate (count - 1) zero_log"
    using c1 by (cases count) auto
  have "consecutive (int (length (logs rf)) - 1 + 1 + int (length [job])) (take (count - 1) queue)"
    using sync(1) by (auto intro: consecutive_take simp: add.commute)
  then have fill: "fill_entries (Index (last (logs rf))) ((replicate count zero_log)[0 := job]) (take (count - 1) queue)
      = Inr (batch rf)"
    unfolding rep batch log_wf_last[OF wf(1)]
    using fill_entries_consecutive[of "int (length (logs rf)) - 1" "[job]" "take (count - 1) queue" "count - 1" zero_log]
      n sync(2) c1 cnt c2 by simp
  have app: "append_only (logs rf) (batch rf) = logs rf @ batch rf"
    unfolding batch using sync(1) by (intro append_only_next) (auto intro: consecutive_take)
  show ?thesis
    using log_wfD(1)[OF wf(1)] fill app
    unfolding job_step_def q list.case Let_def count_def[symmetric]
    by (simp add: drop q job_args_def)
qed

lemma job_step_sync:
  assumes "log_wf (logs rf)" "jobs_sync rf" "jobsChnl rf \<noteq> []" "isLeader rf \<Longrightarrow> rdy_room rf"
  shows "job_step rf = Inr (persist (rf\<lparr>jobsChnl := drop maxEntriesPerBatch (jobsChnl rf),
      rdyChnl := (if isLeader rf then push_rdy (job_args rf) rf else rdyChnl rf),
      logs := logs rf @ batch rf\<rparr>))"
  using assms by (simp add: job_step_sends send_rdy_push)

lemma pending_batch: "logs rf @ batch rf @ drop maxEntriesPerBatch (jobsChnl rf) = pending rf"
  by (simp add: pending_def batch_def)

text \<open>C21: The dispatcher refines "nothing happens" on the sequence log-then-queue: when the jobs in the queue
  continue the log (\<open>jobs_sync\<close>) and, of a leader, every peer's channel has room (\<open>rdy_room\<close>), it
  never faults, moves the first (up to) 30 waiting jobs to the end of the log, in order, and
  keeps the log well-formed and the rest of the queue in step. Without the first it can panic:
  \<open>job_step_panics_after_cut\<close>.\<close>
theorem job_step_refines:
  assumes "log_wf (logs rf)" "jobs_sync rf" "isLeader rf \<Longrightarrow> rdy_room rf"
  shows "\<exists>rf'. job_step rf = Inr rf' \<and> pending rf' = pending rf \<and> jobs_sync rf' \<and> log_wf (logs rf')
    \<and> logs rf' = logs rf @ take 30 (jobsChnl rf) \<and> jobsChnl rf' = drop 30 (jobsChnl rf)"
proof (cases "jobsChnl rf = []")
  case True
  then show ?thesis using assms by (simp add: job_step_def)
next
  case False
  let ?js = "jobsChnl rf"
  have sync: "consecutive (int (length (logs rf))) ?js" "length (logs rf) + length ?js < 2147483647"
    "logidx rf = int (length (logs rf)) + int (length ?js) - 1"
    using assms(2) by (auto simp: jobs_sync_def)
  have "consecutive (int (length (logs rf)) + int (length (take 30 ?js))) (drop 30 ?js)"
    using sync(1) consecutive_append[of _ "take 30 ?js" "drop 30 ?js"] by simp
  then have "consecutive (int (length (logs rf @ take 30 ?js))) (drop 30 ?js)" by simp
  moreover have "log_wf (logs rf @ take 30 ?js)"
    using assms(1) consecutive_take[OF sync(1)] sync(2) by (intro log_wf_append) auto
  moreover have "length (take 30 ?js) + length (drop 30 ?js) = length ?js" by auto
  ultimately show ?thesis
    using job_step_sync[OF assms(1,2) False assms(3)] sync
    by (auto simp: pending_def jobs_sync_def batch_def maxEntriesPerBatch_def of_nat_add[symmetric] simp del: of_nat_add)
qed

text \<open>Start on a leader appends one entry of the current term to the sequence log-then-queue and
  returns that entry's position; on a server that is no leader it does nothing.\<close>
lemma Start_appends:
  assumes "jobs_sync rf" "length (jobsChnl rf) < MAX_LOGS" "length (pending rf) < 2147483646"
  shows "if isLeader rf
    then \<exists>rf'. Start cmd rf = Inr (rf', int (length (pending rf)), currentTerm rf, True)
      \<and> pending rf' = pending rf @ [\<lparr>Index = int (length (pending rf)), Term = currentTerm rf, Cmd = cmd\<rparr>]
      \<and> jobs_sync rf' \<and> logs rf' = logs rf
    else Start cmd rf = Inr (rf, 0, 0, False)"
  using assms
  by (auto simp: Start_def jobs_sync_def pending_def Let_def chan_send_room)

text \<open>A leader of three servers, with two entries of its term 1 in its log.\<close>

definition ex_leader :: raft where
  "ex_leader = (Make 3 0 MakePersister)\<lparr>isLeader := True, currentTerm := 1, logidx := 2,
     logs := [zero_log, \<lparr>Index = 1, Term = 1, Cmd = GStr ''a''\<rparr>, \<lparr>Index = 2, Term = 1, Cmd = GStr ''b''\<rparr>],
     nextIndex := [3, 3, 3]\<rparr>"

definition ex_job :: raft_log where
  "ex_job = \<lparr>Index = 3, Term = 1, Cmd = GStr ''c''\<rparr>"

lemma ex_leader_simps [simp]:
  "isLeader ex_leader" "currentTerm ex_leader = 1" "logidx ex_leader = 2" "jobsChnl ex_leader = []"
  "n_peers ex_leader = 3" "rdyChnl ex_leader = [[], [], []]" "me ex_leader = 0" "commitIdx ex_leader = 0"
  "logs ex_leader = [zero_log, \<lparr>Index = 1, Term = 1, Cmd = GStr ''a''\<rparr>, \<lparr>Index = 2, Term = 1, Cmd = GStr ''b''\<rparr>]"
  by (simp_all add: ex_leader_def Make_def readPersist_def persister_defs numeral_3_eq_3 i32_def)

lemma ex_leader_wf: "log_wf (logs ex_leader)" "rdy_room (ex_leader\<lparr>jobsChnl := js, logidx := k\<rparr>)"
  by (auto simp: log_wf_def rdy_room_def MAX_LOGS_def less_Suc_eq numeral_3_eq_3)

theorem job_step_refines_witness:
  "\<exists>rf'. job_step (ex_leader\<lparr>jobsChnl := [ex_job], logidx := 3\<rparr>) = Inr rf'
     \<and> logs rf' = logs ex_leader @ [ex_job] \<and> jobsChnl rf' = []"
  using job_step_refines[of "ex_leader\<lparr>jobsChnl := [ex_job], logidx := 3\<rparr>"]
    ex_leader_wf
  by (auto simp: jobs_sync_def ex_job_def)

lemma Start_appends_run:
  "\<exists>rf'. Start (GStr ''c'') ex_leader = Inr (rf', 3, 1, True) \<and> pending rf' = logs ex_leader @ [ex_job]"
  using Start_appends[of ex_leader "GStr ''c''"]
  by (auto simp: jobs_sync_def pending_def MAX_LOGS_def ex_job_def)

section \<open>A queue that no longer continues the log\<close>

text \<open>
  A queue of at least two jobs whose first index is beyond the end of the log makes the
  dispatcher index past its batch.
\<close>

lemma job_step_stale_queue:
  assumes wf: "log_wf (logs rf)" and q: "jobsChnl rf = job # job' # queue"
    and con: "consecutive k (jobsChnl rf)" and k: "int (length (logs rf)) < k" "k < 2147483600"
  shows "job_step rf = Inl IndexOutOfRange"
proof -
  define count where "count = (if length (job' # queue) + 1 < maxEntriesPerBatch then length (job' # queue) + 1 else maxEntriesPerBatch)"
  define ys where "ys = take (count - 1) (job' # queue)"
  have c: "2 \<le> count" "count \<le> 30" "length ys = count - 1"
    by (auto simp: count_def ys_def maxEntriesPerBatch_def)
  have ys: "consecutive (k + 1) ys" using con unfolding q ys_def by (simp del: take_Suc_Cons add: consecutive_take)
  have ys0: "ys \<noteq> []" using c by auto
  have ix: "Index (last ys) = k + int count - 1"
    using consecutive_nth[OF ys, of "count - 2"] c ys0 by (simp add: last_conv_nth numeral_2_eq_2)
  have n: "0 < length (logs rf)" using log_wfD(1)[OF wf] by simp
  have "i32 (Index (last ys) - Index (last (logs rf)) - 1) = k + int count - 1 - int (length (logs rf))"
    using ix c k n log_wf_last[OF wf] by simp
  then have "fill_entries (Index (last (logs rf))) ((replicate count zero_log)[0 := job]) ys = Inl IndexOutOfRange"
    using c k ys0 by (intro fill_entries_fault[of "last ys"]) auto
  then show ?thesis
    using log_wfD(1)[OF wf]
    unfolding job_step_def q list.case Let_def count_def[symmetric] ys_def[symmetric] by simp
qed

text \<open>
  Such a queue arises: two commands accepted by \<open>Start\<close>, then a heartbeat of a newer leader
  that cuts the log, and the dispatcher, which does not look at \<open>isLeader\<close> before it builds
  its batch.
\<close>

theorem job_step_panics_after_cut:
  "\<exists>rf1 rf2 rf3 reply.
     Start (GStr ''c'') ex_leader = Inr (rf1, 3, 1, True)
     \<and> Start (GStr ''d'') rf1 = Inr (rf2, 4, 1, True)
     \<and> HeartBeat \<lparr>ae_Term = 2, LeaderID = 1, PrevLog = \<lparr>Index = 2, Term = 2, Cmd = GNil\<rparr>,
                   Entries = [], LeaderCommitIdx = 0\<rparr> zero_append_reply rf2 = Inr (rf3, reply, [])
     \<and> job_step rf3 = Inl IndexOutOfRange"
  by (simp add: ex_leader_def Make_def readPersist_def persister_defs Start_def HeartBeat_def job_step_def
      MAX_LOGS_def maxEntriesPerBatch_def go_simps idx_def Let_def persist_def numeral_2_eq_2 i32_def)

section \<open>The commit-index updater\<close>

definition acks :: "raft \<Rightarrow> int32 \<Rightarrow> int32" where
  "acks rf i = (case commitTracker rf i of None \<Rightarrow> 0 | Some k \<Rightarrow> k)"

fun applied :: "effect list \<Rightarrow> apply_msg list" where
  "applied [] = []"
| "applied (ApplyCall m # es) = m # applied es"
| "applied (MetricCall _ # es) = applied es"

lemma applied_append [simp]: "applied (xs @ ys) = applied xs @ applied ys"
  by (induction xs rule: applied.induct) auto

lemma applied_metrics [simp]: "applied (SendMetrics a) = []"
  by (simp add: SendMetrics_def)

lemma applied_map [simp]: "applied (map (\<lambda>l. ApplyCall (f l)) xs) = map f xs"
  by (induction xs) auto

definition commit_ok :: "raft \<Rightarrow> bool" where
  "commit_ok rf \<longleftrightarrow> log_wf (logs rf) \<and> 0 \<le> commitIdx rf
     \<and> n_peers rf < 2147483648"

text \<open>One acknowledgement \<open>i\<close>: what the step does on each branch.\<close>

lemma commit_step_cases:
  assumes ok: "commit_ok rf" and ch: "commitIdxChnl rf = i # c"
  obtains (ignored) "commit_step rf = Inr (rf\<lparr>commitIdxChnl := c\<rparr>, [])"
  | (counted) "commit_step rf = Inr (rf\<lparr>commitIdxChnl := c,
        commitTracker := (commitTracker rf)(i \<mapsto> i32 (acks rf i + 1))\<rparr>, [])"
  | (committed) out where "commitIdx rf < i" "i < int (length (logs rf))"
      "i32 (acks rf i + 1) = int (n_peers rf div 2)"
      "commit_step rf = Inr (persist (rf\<lparr>commitIdxChnl := c,
        commitTracker := (commitTracker rf)(i \<mapsto> i32 (acks rf i + 1)), commitIdx := i, lastApplied := i\<rparr>), out)"
      "applied out = map apply_msg_of (drop (nat (commitIdx rf + 1)) (take (nat (i + 1)) (logs rf)))"
proof -
  have n: "int (length (logs rf)) < 2147483648" "int (n_peers rf div 2) < 2147483648"
    "0 \<le> commitIdx rf"
    using ok by (auto simp: commit_ok_def dest: log_wfD(3))
  then have len: "i32 (int (length (logs rf))) = int (length (logs rf))"
    "i32 (int (n_peers rf div 2)) = int (n_peers rf div 2)" by (auto intro!: i32_small)
  show ?thesis
  proof (cases "i \<le> commitIdx rf \<or> int (length (logs rf)) \<le> i")
    case True
    then show ?thesis by (intro ignored) (auto simp: commit_step_def ch Let_def len)
  next
    case False
    then have i: "commitIdx rf < i" "i < int (length (logs rf))" by auto
    then have slice: "reslice (logs rf) (i32 (commitIdx rf + 1)) (i32 (i + 1))
        = Inr (drop (nat (commitIdx rf + 1)) (take (nat (i + 1)) (logs rf)))"
      using n by (subst reslice_in) auto
    note simps = commit_step_def ch Let_def len acks_def[symmetric]
    show ?thesis
    proof (cases "i32 (acks rf i + 1) = int (n_peers rf div 2)")
      case True
      show ?thesis
        by (rule committed[OF i True], use slice i True in \<open>simp add: simps\<close>, simp)
    next
      case False
      then show ?thesis using i by (intro counted) (auto simp: simps)
    qed
  qed
qed

end
