(* ===== verification/RaftCommit.thy ===== *)
theory RaftCommit
  imports RaftLeader
begin

text \<open>
  When a leader commits. A leadership is a run of the leader's own steps: answers of the
  followers, the commit-index updater, new commands, the dispatcher, the senders and the
  heartbeat timer, in any order. Its invariant counts: the acknowledgements of an index that
  were counted or wait in \<open>commitIdxChnl\<close> are at most the followers whose \<open>matchIndex\<close> has
  reached it. The second part follows one server through all its steps, as leader and as
  follower, and shows what it hands to its service.
\<close>

section \<open>Acknowledgements\<close>

inductive lead_step :: "raft \<Rightarrow> raft \<Rightarrow> bool" where
  answer: "peer_reply s args reply rf = Inr (rf', out) \<Longrightarrow> s < n_peers rf \<Longrightarrow> int s \<noteq> me rf \<Longrightarrow> lead_step rf rf'"
| commit: "commit_step rf = Inr (rf', out) \<Longrightarrow> lead_step rf rf'"
| start: "Start cmd rf = Inr (rf', i, t, l) \<Longrightarrow> lead_step rf rf'"
| jobs: "job_step rf = Inr rf' \<Longrightarrow> lead_step rf rf'"
| send: "peer_send fits s rf = Inr (rf', msg) \<Longrightarrow> lead_step rf rf'"
| tick: "hb_tick rf = Inr rf' \<Longrightarrow> lead_step rf rf'"

inductive lead_run :: "raft \<Rightarrow> raft \<Rightarrow> bool" where
  refl: "lead_run rf rf"
| step: "lead_run rf rf' \<Longrightarrow> lead_step rf' rf'' \<Longrightarrow> lead_run rf rf''"

text \<open>The followers known to hold the log up to \<open>i\<close>.\<close>

definition matched :: "raft \<Rightarrow> int32 \<Rightarrow> nat set" where
  "matched rf i = {s. s < n_peers rf \<and> int s \<noteq> me rf \<and> i \<le> matchIndex rf ! s}"

definition ack_count :: "raft \<Rightarrow> int32 \<Rightarrow> int" where
  "ack_count rf i = acks rf i + int (count_list (commitIdxChnl rf) i)"

lemma finite_matched [simp]: "finite (matched rf i)"
  by (simp add: matched_def)

definition lead_inv :: "int32 \<Rightarrow> raft \<Rightarrow> bool" where
  "lead_inv c rf \<longleftrightarrow> length (matchIndex rf) = n_peers rf
     \<and> n_peers rf < 2147483648 \<and> (\<forall>i. in32 (acks rf i))
     \<and> (\<forall>i. ack_count rf i \<le> int (card (matched rf i)))
     \<and> (commitIdx rf = c \<or> n_peers rf div 2 \<le> card (matched rf (commitIdx rf)))"

text \<open>What the counting looks at.\<close>

definition lead_frame :: "raft \<Rightarrow> raft \<Rightarrow> bool" where
  "lead_frame rf rf' \<longleftrightarrow> n_peers rf' = n_peers rf \<and> me rf' = me rf \<and> matchIndex rf' = matchIndex rf
     \<and> commitTracker rf' = commitTracker rf \<and> commitIdxChnl rf' = commitIdxChnl rf \<and> commitIdx rf' = commitIdx rf"

lemma lead_frame_inv: "lead_frame rf rf' \<Longrightarrow> lead_inv c rf \<Longrightarrow> lead_inv c rf'"
  by (simp add: lead_frame_def lead_inv_def ack_count_def acks_def matched_def)

lemma lead_frame_persist [simp]: "lead_frame rf (persist rf') \<longleftrightarrow> lead_frame rf rf'"
  by (simp add: lead_frame_def)

lemma lead_frames:
  "Start cmd rf = Inr (rf', i, t, l) \<Longrightarrow> lead_frame rf rf'"
  "job_step rf = Inr rf' \<Longrightarrow> lead_frame rf rf'"
  "peer_send fits s rf = Inr (rf', msg) \<Longrightarrow> lead_frame rf rf'"
  "hb_tick rf = Inr rf' \<Longrightarrow> lead_frame rf rf'"
  by (auto simp: Start_def job_step_def peer_send_def hb_tick_def Let_def lead_frame_def
      split: if_splits list.splits)

lemma matched_update:
  assumes "s < n_peers rf" "int s \<noteq> me rf" "length (matchIndex rf) = n_peers rf"
    and "matchIndex rf ! s < m"
    and "matchIndex rf' = (matchIndex rf)[s := m]" "n_peers rf' = n_peers rf" "me rf' = me rf"
  shows "matched rf i \<subseteq> matched rf' i" "matchIndex rf ! s < i \<Longrightarrow> i \<le> m \<Longrightarrow> card (matched rf' i) = Suc (card (matched rf i))"
proof -
  show sub: "matched rf i \<subseteq> matched rf' i"
    using assms by (auto simp: matched_def nth_list_update)
  assume i: "matchIndex rf ! s < i" "i \<le> m"
  then have "matched rf' i = insert s (matched rf i)" "s \<notin> matched rf i"
    using assms by (auto simp: matched_def nth_list_update split: if_splits)
  then show "card (matched rf' i) = Suc (card (matched rf i))" by simp
qed

lemma peer_reply_inv:
  assumes inv: "lead_inv c rf" and r: "peer_reply s args reply rf = Inr (rf', out)"
    and s: "s < n_peers rf" "int s \<noteq> me rf"
  shows "lead_inv c rf'"
proof (cases "Success reply \<and> matchIndex rf ! s < Index (LastEntry reply)")
  case False
  then have "lead_frame rf rf'"
    using r by (auto simp: peer_reply_def lead_frame_def Let_def idx_Inr split: if_splits)
  with inv show ?thesis using lead_frame_inv by blast
next
  case True
  let ?m = "Index (LastEntry reply)"
  have len: "length (matchIndex rf) = n_peers rf" using inv by (simp add: lead_inv_def)
  have upd: "matchIndex rf' = (matchIndex rf)[s := ?m]" "n_peers rf' = n_peers rf" "me rf' = me rf"
    "commitTracker rf' = commitTracker rf" "commitIdxChnl rf' = commitIdxChnl rf @ [?m]" "commitIdx rf' = commitIdx rf"
    using r True by (auto simp: peer_reply_def Let_def idx_Inr chan_send_Inr)
  note m = matched_update[OF s len conjunct2[OF True] upd(1-3)]
  have "ack_count rf' i \<le> int (card (matched rf' i))" for i
  proof -
    have "ack_count rf' i = ack_count rf i + (if i = ?m then 1 else 0)"
      using upd by (simp add: ack_count_def acks_def)
    moreover have "ack_count rf i \<le> int (card (matched rf i))" using inv by (simp add: lead_inv_def)
    moreover have "card (matched rf i) \<le> card (matched rf' i)" by (intro card_mono m) simp
    moreover have "i = ?m \<Longrightarrow> card (matched rf' i) = Suc (card (matched rf i))" using m(2) True by simp
    ultimately show ?thesis by auto
  qed
  moreover have "card (matched rf (commitIdx rf)) \<le> card (matched rf' (commitIdx rf))"
    by (intro card_mono m) simp
  ultimately show ?thesis
    using inv upd len by (auto simp: lead_inv_def acks_def)
qed

lemma commit_step_upd:
  assumes r: "commit_step rf = Inr (rf', out)" and ch: "commitIdxChnl rf = i # cs"
    and n: "i32 (int (n_peers rf div 2)) = int (n_peers rf div 2)"
  obtains (ignored) "rf' = rf\<lparr>commitIdxChnl := cs\<rparr>"
    | (counted) "rf' = rf\<lparr>commitIdxChnl := cs, commitTracker := (commitTracker rf)(i \<mapsto> i32 (acks rf i + 1))\<rparr>"
    | (committed) "rf' = persist (rf\<lparr>commitIdxChnl := cs,
          commitTracker := (commitTracker rf)(i \<mapsto> i32 (acks rf i + 1)), commitIdx := i, lastApplied := i\<rparr>)"
        "i32 (acks rf i + 1) = int (n_peers rf div 2)"
proof -
  note eq = r[unfolded commit_step_def ch chan_recv.simps go_bind_simps prod.case Let_def]
  show ?thesis
  proof (cases "i \<le> commitIdx rf \<or> i32 (int (length (logs rf))) \<le> i")
    case True
    with eq ignored show ?thesis by simp
  next
    case False
    show ?thesis
    proof (cases "i32 (acks rf i + 1) = int (n_peers rf div 2)")
      case True
      have "rf' = persist (rf\<lparr>commitIdxChnl := cs,
          commitTracker := (commitTracker rf)(i \<mapsto> i32 (acks rf i + 1)), commitIdx := i, lastApplied := i\<rparr>)"
        using eq False n True by (auto simp: acks_def[symmetric])
      then show ?thesis using committed True by blast
    next
      case F: False
      with eq False n counted show ?thesis by (simp add: acks_def[symmetric])
    qed
  qed
qed

lemma commit_step_inv:
  assumes inv: "lead_inv c rf" and r: "commit_step rf = Inr (rf', out)"
  shows "lead_inv c rf'"
proof -
  obtain i cs where ch: "commitIdxChnl rf = i # cs"
    using r by (auto simp: commit_step_def chan_recv_Inr)
  have n: "i32 (int (n_peers rf div 2)) = int (n_peers rf div 2)"
    using inv by (intro i32_small) (auto simp: lead_inv_def)
  have cnt: "ack_count rf j \<le> int (card (matched rf j))" for j using inv by (simp add: lead_inv_def)
  have wrap: "i32 (acks rf i + 1) \<le> acks rf i + 1"
    using inv i32_succ_le by (simp add: lead_inv_def)
  show ?thesis
  proof (cases rule: commit_step_upd[OF r ch n])
    case ignored: 1
    have "ack_count rf' j \<le> ack_count rf j" for j by (simp add: ignored ack_count_def acks_def ch)
    then show ?thesis using inv order_trans[OF _ cnt]
      by (simp add: lead_inv_def ignored acks_def matched_def)
  next
    case counted: 2
    have "ack_count rf' j \<le> ack_count rf j" for j
      using wrap by (auto simp: counted ack_count_def acks_def ch)
    then show ?thesis using inv order_trans[OF _ cnt]
      by (simp add: lead_inv_def counted acks_def matched_def)
  next
    case committed: 3
    have "ack_count rf' j \<le> ack_count rf j" for j
      using wrap by (auto simp: committed ack_count_def acks_def ch)
    moreover have "int (n_peers rf div 2) \<le> int (card (matched rf i))"
      using wrap cnt[of i] committed(2) by (simp add: ack_count_def ch)
    ultimately show ?thesis using inv order_trans[OF _ cnt]
      by (simp add: lead_inv_def committed(1) acks_def matched_def)
  qed
qed

lemma lead_run_inv: "lead_run rf rf' \<Longrightarrow> lead_inv c rf \<Longrightarrow> lead_inv c rf'"
proof (induction rule: lead_run.induct)
  case (step rf rf' rf'')
  from step.hyps(2) have "lead_inv c rf' \<Longrightarrow> lead_inv c rf''"
    by (cases rule: lead_step.cases) (blast intro: peer_reply_inv commit_step_inv lead_frame_inv lead_frames)+
  with step show ?case by blast
qed

text \<open>C13: A leader that has just initialised \<open>matchIndex\<close> to zeros, with nothing counted in \<open>commitTracker\<close> and
  nothing waiting in \<open>commitIdxChnl\<close> from an earlier leadership, moves its commit index, in any
  sequence of its own steps, only to an index that at least half of the servers (so, with the
  leader, a majority) have acknowledged as followers. Both are needed: \<open>commit_counts_twice\<close>.\<close>
theorem commit_needs_majority:
  assumes "lead_run rf rf'" "matchIndex rf = replicate (n_peers rf) 0"
    and "commitTracker rf = Map.empty" "commitIdxChnl rf = []" "n_peers rf < 2147483648"
    and "commitIdx rf' \<noteq> commitIdx rf"
  shows "n_peers rf' div 2 \<le> card {s. s < n_peers rf' \<and> int s \<noteq> me rf' \<and> commitIdx rf' \<le> matchIndex rf' ! s}"
proof -
  have "lead_inv (commitIdx rf) rf"
    using assms(2-5) by (simp add: lead_inv_def ack_count_def acks_def in32_def)
  then have "lead_inv (commitIdx rf) rf'" using lead_run_inv assms(1) by blast
  then show ?thesis using assms(6) by (simp add: lead_inv_def matched_def)
qed

definition ok_reply :: append_entries_reply where
  "ok_reply = \<lparr>aer_Term = 1, Success = True, LastEntry = \<lparr>Index = 2, Term = 1, Cmd = GStr ''b''\<rparr>\<rparr>"

lemma ex_leader_commit:
  "\<exists>rf1 rf2 out out'. peer_reply 1 ex_args ok_reply ex_leader = Inr (rf1, out)
     \<and> commit_step rf1 = Inr (rf2, out') \<and> commitIdx rf2 = 2
     \<and> matchIndex rf2 = [0, 2, 0] \<and> n_peers rf2 = 3 \<and> me rf2 = 0"
  by (simp add: peer_reply_def ok_reply_def ex_leader_def Make_def readPersist_def persister_defs
      commit_step_def idx_def reslice_def chan_send_def Let_def persist_def i32_def numeral_3_eq_3)

theorem commit_needs_majority_witness:
  "\<exists>rf'. lead_run ex_leader rf' \<and> commitIdx rf' = 2
     \<and> 1 \<le> card {s. s < n_peers rf' \<and> int s \<noteq> me rf' \<and> 2 \<le> matchIndex rf' ! s}"
proof -
  obtain rf1 rf2 out out' where r: "peer_reply 1 ex_args ok_reply ex_leader = Inr (rf1, out)"
    "commit_step rf1 = Inr (rf2, out')" and c: "commitIdx rf2 = 2" "n_peers rf2 = 3"
    using ex_leader_commit by blast
  have run: "lead_run ex_leader rf2"
    using r by (intro lead_run.step[OF lead_run.step[OF lead_run.refl lead_step.answer[OF r(1)]] lead_step.commit[OF r(2)]]) auto
  have "matchIndex ex_leader = replicate (n_peers ex_leader) 0"
    "commitTracker ex_leader = Map.empty" "commitIdxChnl ex_leader = []"
    by (simp_all add: ex_leader_def Make_def readPersist_def persister_defs)
  then have "n_peers rf2 div 2 \<le> card {s. s < n_peers rf2 \<and> int s \<noteq> me rf2 \<and> commitIdx rf2 \<le> matchIndex rf2 ! s}"
    by (intro commit_needs_majority[OF run]) (auto simp: c)
  then show ?thesis using run c by auto
qed

text \<open>
  Nothing empties \<open>commitTracker\<close> when a server becomes leader again. In the run below the
  leader of five servers loses and regains the leadership, after server 1 has acknowledged
  index 2.
\<close>

definition ex_leader5 :: raft where
  "ex_leader5 = (Make 5 0 MakePersister)\<lparr>isLeader := True, currentTerm := 1, logidx := 2, logs := logs ex_leader\<rparr>"

definition re_elected :: "raft go" where
  "re_elected =
     go_bind (peer_reply 1 ex_args ok_reply ex_leader5) (\<lambda>(rf, _).
     go_bind (commit_step rf) (\<lambda>(rf, _).
     go_bind (HeartBeat \<lparr>ae_Term = 2, LeaderID = 4, PrevLog = last (logs ex_leader), Entries = [],
                LeaderCommitIdx = 0\<rparr> zero_append_reply rf) (\<lambda>(rf, _, _).
     go_bind (drain_rpc rf) (\<lambda>rf.
     go_bind (hb_reset rf) (\<lambda>rf.
     go_bind (election_timeout rf) (\<lambda>(rf, _).
     go_bind (vote_reply 0 \<lparr>rvr_Term = 3, Voted = True\<rparr> rf) (\<lambda>rf.
     go_bind (vote_reply 0 \<lparr>rvr_Term = 3, Voted = True\<rparr> rf) (\<lambda>rf.
     go_bind (tracker_recv 0 rf) (\<lambda>rf.
     go_bind (tracker_recv 0 rf) (\<lambda>rf. leader_init 0 rf))))))))))"

text \<open>The acknowledgements of a follower in two leaderships of the same server are counted as two: in
  this run of five servers index 2 is committed although only server 1 has acknowledged it.\<close>
lemma commit_counts_twice:
  "go_bind re_elected (\<lambda>rf.
   go_bind (peer_reply 1 ex_args ok_reply rf) (\<lambda>(rf1, _).
   go_bind (commit_step rf1) (\<lambda>(rf2, _).
   Inr (isLeader rf, currentTerm rf, commitIdx rf, commitIdx rf2, matchIndex rf2))))
   = Inr (True, 3, 0, 2, [0, 2, 0, 0, 0])"
  by (simp add: re_elected_def peer_reply_def ok_reply_def ex_leader5_def Make_def readPersist_def persister_defs
      commit_step_def idx_def reslice_def chan_send_def Let_def persist_def i32_def HeartBeat_def
      MAX_LOGS_def drain_rpc_def hb_reset_def election_timeout_def vote_reply_def tracker_recv_def
      leader_init_def follower_commit_def upt_conv_Cons cong: go_bind_weak_cong)
    (simp add: eval_nat_numeral)

end
