(* ===== verification/RaftNode.thy ===== *)
theory RaftNode
  imports RaftVotes RaftCommit
begin

text \<open>
  One server through all its steps, as follower, candidate and leader. The invariant keeps the
  log well-formed, also through the write into the shared array in \<open>peer_send\<close>, and gives what
  the server's service relies on: the entries handed to it are those of indices 1, 2, 3, ...,
  each once and in order. Messages are the guarantee and the assumption: the AppendEntries a
  server sends are well-formed if those it receives are. The dispatcher is assumed to run on a
  queue in step with the log (\<open>RaftLeader\<close> shows what it does otherwise).
\<close>

inductive node_step :: "raft \<Rightarrow> effect list \<Rightarrow> append_entries_args list \<Rightarrow> raft \<Rightarrow> bool" where
  heartbeat: "args_wf args \<Longrightarrow> HeartBeat args zero_append_reply rf = Inr (rf', reply, out) \<Longrightarrow> node_step rf out [] rf'"
| request: "RequestVote vargs zero_vote_reply rf = Inr (rf', vreply, out) \<Longrightarrow> node_step rf out [] rf'"
| start: "Start cmd rf = Inr (rf', i, t, l) \<Longrightarrow> node_step rf [] [] rf'"
| kill: "Kill rf = Inr rf' \<Longrightarrow> node_step rf [] [] rf'"
| stop: "stop_observed rf = Inr rf' \<Longrightarrow> node_step rf [] [] rf'"
| reset: "hb_reset rf = Inr rf' \<Longrightarrow> node_step rf [] [] rf'"
| tick: "hb_tick rf = Inr rf' \<Longrightarrow> node_step rf [] [] rf'"
| jobs: "jobs_sync rf \<Longrightarrow> job_step rf = Inr rf' \<Longrightarrow> node_step rf [] [] rf'"
| commit: "commit_step rf = Inr (rf', out) \<Longrightarrow> node_step rf out [] rf'"
| send: "peer_send fits server rf = Inr (rf', Some msg) \<Longrightarrow> node_step rf [] [msg] rf'"
| skip: "peer_send fits server rf = Inr (rf', None) \<Longrightarrow> node_step rf [] [] rf'"
| answer: "peer_reply server args reply rf = Inr (rf', out) \<Longrightarrow> node_step rf out [] rf'"
| drain: "drain_rpc rf = Inr rf' \<Longrightarrow> node_step rf [] [] rf'"
| timeout: "election_timeout rf = Inr (rf', vargs) \<Longrightarrow> node_step rf [] [] rf'"
| vote: "vote_reply k vreply rf = Inr rf' \<Longrightarrow> node_step rf [] [] rf'"
| count: "tracker_recv k rf = Inr rf' \<Longrightarrow> node_step rf [] [] rf'"
| give_up: "tracker_timeout k rf = Inr rf' \<Longrightarrow> node_step rf [] [] rf'"
| init: "leader_init k rf = Inr rf' \<Longrightarrow> node_step rf [] [] rf'"

text \<open>A run, with all its effects and all the AppendEntries it sent.\<close>

inductive node_run :: "raft \<Rightarrow> effect list \<Rightarrow> append_entries_args list \<Rightarrow> raft \<Rightarrow> bool" where
  refl: "node_run rf [] [] rf"
| step: "node_run rf out msgs rf' \<Longrightarrow> node_step rf' out' msgs' rf'' \<Longrightarrow> node_run rf (out @ out') (msgs @ msgs') rf''"

definition el_ok :: "election \<Rightarrow> bool" where
  "el_ok e \<longleftrightarrow> 0 \<le> Index (el_lastLog e) \<and> Index (el_lastLog e) < 2147483647"

definition node_inv :: "raft \<Rightarrow> bool" where
  "node_inv rf \<longleftrightarrow> log_wf (logs rf) \<and> 0 \<le> lastApplied rf \<and> commitIdx rf = lastApplied rf
     \<and> n_peers rf < 2147483648 \<and> length (rdyChnl rf) = n_peers rf
     \<and> (\<forall>a \<in> set (concat (rdyChnl rf)). args_wf a) \<and> (\<forall>e \<in> set (elections rf). el_ok e)"

text \<open>A step that touches neither the log nor what was applied.\<close>

definition quiet :: "raft \<Rightarrow> effect list \<Rightarrow> raft \<Rightarrow> bool" where
  "quiet rf out rf' \<longleftrightarrow> logs rf' = logs rf \<and> lastApplied rf' = lastApplied rf \<and> commitIdx rf' = commitIdx rf
     \<and> n_peers rf' = n_peers rf \<and> applied out = []"

definition keeps_chans :: "raft \<Rightarrow> raft \<Rightarrow> bool" where
  "keeps_chans rf rf' \<longleftrightarrow> rdyChnl rf' = rdyChnl rf \<and> elections rf' = elections rf"

lemmas quiet_defs = quiet_def keeps_chans_def

lemma quiet_inv: "quiet rf out rf' \<Longrightarrow> keeps_chans rf rf' \<Longrightarrow> node_inv rf \<Longrightarrow> node_inv rf'"
  by (simp add: quiet_defs node_inv_def)

lemma quiet_steps:
  "RequestVote vargs zero_vote_reply rf = Inr (rf', vreply, out) \<Longrightarrow> quiet rf out rf' \<and> keeps_chans rf rf'"
  "Start cmd rf = Inr (rf', i, t, l) \<Longrightarrow> quiet rf [] rf' \<and> keeps_chans rf rf'"
  "Kill rf = Inr rf' \<Longrightarrow> quiet rf [] rf' \<and> keeps_chans rf rf'"
  "stop_observed rf = Inr rf' \<Longrightarrow> quiet rf [] rf' \<and> keeps_chans rf rf'"
  "hb_reset rf = Inr rf' \<Longrightarrow> quiet rf [] rf' \<and> keeps_chans rf rf'"
  "drain_rpc rf = Inr rf' \<Longrightarrow> quiet rf [] rf' \<and> keeps_chans rf rf'"
  by (auto simp: RequestVote_def Start_def Kill_def stop_observed_def hb_reset_def drain_rpc_def
      quiet_defs Let_def split: if_splits)

lemma peer_reply_quiet:
  "peer_reply server args reply rf = Inr (rf', out) \<Longrightarrow> quiet rf out rf' \<and> keeps_chans rf rf'"
  by (auto simp: peer_reply_def quiet_defs Let_def split: if_splits)

section \<open>Steps that queue or count\<close>

lemma last_args_wf: "log_wf ls \<Longrightarrow> args_wf \<lparr>ae_Term = t, LeaderID = l, PrevLog = last ls, Entries = [], LeaderCommitIdx = c\<rparr>"
  using log_wfD(1,3)[of ls] by (auto simp: args_wf_def Suc_le_eq)

lemma hb_tick_inv:
  assumes "node_inv rf" "hb_tick rf = Inr rf'"
  shows "quiet rf [] rf' \<and> node_inv rf'"
proof -
  have ls: "log_wf (logs rf)" using assms(1) by (simp add: node_inv_def)
  define a where "a = \<lparr>ae_Term = currentTerm rf, LeaderID = me rf, PrevLog = last (logs rf), Entries = [], LeaderCommitIdx = commitIdx rf\<rparr>"
  define ch where "ch i = (if length (rdyChnl rf ! i) \<noteq> 0 \<or> int i = me rf then rdyChnl rf ! i else rdyChnl rf ! i @ [a])" for i
  have rf': "rf' = rf\<lparr>rdyChnl := map ch [0..<n_peers rf]\<rparr>"
    using assms(2) log_wfD(1)[OF ls]
    by (auto simp: hb_tick_def Let_def a_def ch_def split: if_splits)
  have "args_wf b" if "b \<in> set (ch i)" "i < n_peers rf" for b i
    using that assms(1) last_args_wf[OF ls] nth_mem[of i "rdyChnl rf"]
    by (fastforce simp: ch_def a_def node_inv_def split: if_splits)
  then show ?thesis using assms(1) by (auto simp: node_inv_def quiet_def rf')
qed

lemma send_rdy_set:
  "send_rdy a m is chs = Inr chs' \<Longrightarrow> (\<And>i. i \<in> set is \<Longrightarrow> i < length chs) \<Longrightarrow>
   length chs' = length chs \<and> set (concat chs') \<subseteq> insert a (set (concat chs))"
proof (induction "is" arbitrary: chs)
  case Nil
  then show ?case by auto
next
  case (Cons i "is")
  show ?case
  proof (cases "m = int i")
    case True
    with Cons show ?thesis by simp
  next
    case False
    let ?chs = "chs[i := chs ! i @ [a]]"
    have i: "i < length chs" using Cons.prems(2) by simp
    have "send_rdy a m is ?chs = Inr chs'"
      using Cons.prems(1) False by (auto simp: chan_send_Inr)
    then have "length chs' = length chs \<and> set (concat chs') \<subseteq> insert a (set (concat ?chs))"
      using Cons.IH[of ?chs] Cons.prems(2) by simp
    moreover have "set (concat ?chs) \<subseteq> insert a (set (concat chs))"
      using i set_update_subset_insert[of chs i "chs ! i @ [a]"] nth_mem[OF i] by fastforce
    ultimately show ?thesis by blast
  qed
qed

lemma send_rdy_wf:
  assumes "send_rdy a m [0..<length chs] chs = Inr chs'" "args_wf a" "\<forall>b \<in> set (concat chs). args_wf b"
  shows "length chs' = length chs" "\<forall>b \<in> set (concat chs'). args_wf b"
  using send_rdy_set[OF assms(1)] assms(2,3) by auto

text \<open>A step that changes one election, not what the election was started with.\<close>

lemma tally_inv:
  assumes inv: "node_inv rf" and q: "quiet rf out rf'"
    and k: "k < length (elections rf)" "elections rf' = (elections rf)[k := e']" "el_lastLog e' = el_lastLog (elections rf ! k)"
    and chs: "length (rdyChnl rf') = n_peers rf" "\<forall>a \<in> set (concat (rdyChnl rf')). args_wf a"
  shows "node_inv rf'"
proof -
  have "el_ok (elections rf ! k)" using inv k(1) by (simp add: node_inv_def)
  then have "el_ok e'" using k(3) by (simp add: el_ok_def)
  then have "\<forall>e \<in> set (elections rf'). el_ok e"
    using inv set_update_subset_insert[of "elections rf" k e'] unfolding k(2) node_inv_def by blast
  with inv q chs show ?thesis by (simp add: node_inv_def quiet_def)
qed

lemma node_inv_chans: "node_inv rf \<Longrightarrow> length (rdyChnl rf) = n_peers rf \<and> (\<forall>a \<in> set (concat (rdyChnl rf)). args_wf a)"
  by (simp add: node_inv_def)

lemma tally_inv_same:
  assumes "node_inv rf" "k < length (elections rf)" "el_lastLog e' = el_lastLog (elections rf ! k)"
    and rf': "rf' = rf\<lparr>elections := (elections rf)[k := e']\<rparr>"
  shows "quiet rf [] rf' \<and> node_inv rf'"
proof -
  have q: "quiet rf [] rf'" by (simp add: rf' quiet_def)
  moreover have "node_inv rf'"
    by (rule tally_inv[OF assms(1) q assms(2), where e' = e'])
       (use assms(3) node_inv_chans[OF assms(1)] in \<open>simp_all add: rf'\<close>)
  ultimately show ?thesis ..
qed

lemma vote_reply_inv:
  assumes "node_inv rf" "vote_reply k vreply rf = Inr rf'"
  shows "quiet rf [] rf' \<and> node_inv rf'"
proof -
  have "quiet rf [] rf'" "rdyChnl rf' = rdyChnl rf"
    using assms(2) by (auto simp: vote_reply_def Let_def quiet_def split: if_splits)
  then show ?thesis
    using tally_inv[OF assms(1) _ vote_reply_effect(6,7)[OF assms(2)]] node_inv_chans[OF assms(1)] by simp
qed

lemma tracker_timeout_inv:
  assumes "node_inv rf" "tracker_timeout k rf = Inr rf'"
  shows "quiet rf [] rf' \<and> node_inv rf'"
proof -
  note e = tracker_timeout_effect[OF assms(2)]
  show ?thesis by (rule tally_inv_same[OF assms(1) e(1) _ e(3)]) simp
qed

lemma leader_init_inv:
  assumes "node_inv rf" "leader_init k rf = Inr rf'"
  shows "quiet rf [] rf' \<and> node_inv rf'"
proof -
  have "quiet rf [] rf'" "rdyChnl rf' = rdyChnl rf"
    using assms(2) by (auto simp: leader_init_def quiet_def split: if_splits)
  then show ?thesis
    using tally_inv[OF assms(1) _ leader_init_effect(1,8)[OF assms(2)]] node_inv_chans[OF assms(1)] by simp
qed

lemma election_timeout_inv:
  assumes inv: "node_inv rf" and run: "election_timeout rf = Inr (rf', vargs)"
  shows "quiet rf [] rf' \<and> node_inv rf'"
proof -
  have ls: "log_wf (logs rf)" using inv by (simp add: node_inv_def)
  define e where "e = \<lparr>el_term = i32 (currentTerm rf + 1), el_lastLog = last (logs rf), el_commitIdx = commitIdx rf,
    votes = 0, votingChnl = [], phase = Counting\<rparr>"
  have "el_ok e" using last_args_wf[OF ls] by (auto simp: el_ok_def args_wf_def e_def)
  moreover have "rf' = rf\<lparr>currentTerm := i32 (currentTerm rf + 1), VotedFor := me rf, elections := elections rf @ [e]\<rparr>"
    using run log_wfD(1)[OF ls] by (simp add: election_timeout_def Let_def e_def split: if_splits)
  ultimately show ?thesis using inv by (simp add: node_inv_def quiet_def ball_Un)
qed

lemma tracker_recv_inv:
  assumes inv: "node_inv rf" and run: "tracker_recv k rf = Inr rf'"
  shows "quiet rf [] rf' \<and> node_inv rf'"
proof -
  let ?e = "elections rf ! k"
  define a where "a = \<lparr>ae_Term = el_term ?e, LeaderID = me rf, PrevLog = el_lastLog ?e, Entries = [], LeaderCommitIdx = el_commitIdx ?e\<rparr>"
  obtain b c where k: "k < length (elections rf)" "phase ?e = Counting" "votingChnl ?e = b # c"
    using run by (auto simp: tracker_recv_def idx_Inr chan_recv_Inr split: if_splits)
  have a: "args_wf a" using inv k by (simp add: args_wf_def a_def el_ok_def node_inv_def)
  have n: "length (rdyChnl rf) = n_peers rf" using inv by (simp add: node_inv_def)
  note go = run[unfolded tracker_recv_def] k
  consider (win) "b" "votes ?e + 1 = int (n_peers rf div 2)"
    | (more) "b" "votes ?e + 1 \<noteq> int (n_peers rf div 2)" | (refused) "\<not> b" by blast
  then show ?thesis
  proof cases
    case win
    then obtain h chs where chs: "send_rdy a (me rf) [0..<n_peers rf] (rdyChnl rf) = Inr chs"
      and rf': "rf' = rf\<lparr>heartBeatTimerReset := h, isLeader := True, rdyChnl := chs,
        elections := (elections rf)[k := ?e\<lparr>votingChnl := c, votes := votes ?e + 1, phase := Announced\<rparr>]\<rparr>"
      using go by (auto simp: idx_def Let_def a_def)
    have q: "quiet rf [] rf'" by (simp add: rf' quiet_def)
    have wf: "length chs = n_peers rf" "\<forall>b \<in> set (concat chs). args_wf b"
      using send_rdy_wf[OF chs[folded n] a conjunct2[OF node_inv_chans[OF inv]]] unfolding n by blast+
    have "node_inv rf'"
      by (rule tally_inv[OF inv q k(1), where e' = "?e\<lparr>votingChnl := c, votes := votes ?e + 1, phase := Announced\<rparr>"])
         (use wf in \<open>simp_all add: rf'\<close>)
    with q show ?thesis ..
  next
    case more
    then have rf': "rf' = rf\<lparr>elections := (elections rf)[k := ?e\<lparr>votingChnl := c, votes := votes ?e + 1\<rparr>]\<rparr>"
      using go by (simp add: idx_def Let_def)
    then show ?thesis by (intro tally_inv_same[OF inv k(1) _ rf']) simp
  next
    case refused
    then have rf': "rf' = rf\<lparr>elections := (elections rf)[k := ?e\<lparr>votingChnl := c, phase := Quit\<rparr>]\<rparr>"
      using go by (simp add: idx_def Let_def)
    then show ?thesis by (intro tally_inv_same[OF inv k(1) _ rf']) simp
  qed
qed

section \<open>Steps that change the log\<close>

lemma job_step_inv:
  assumes inv: "node_inv rf" and sync: "jobs_sync rf" and run: "job_step rf = Inr rf'"
  shows "node_inv rf' \<and> lastApplied rf' = lastApplied rf"
proof (cases "jobsChnl rf = []")
  case True
  with assms show ?thesis by (simp add: job_step_def)
next
  case False
  have ls: "log_wf (logs rf)" using inv by (simp add: node_inv_def)
  have con: "consecutive (int (length (logs rf))) (batch rf)" "length (logs rf) + length (batch rf) < 2147483647"
    using sync by (auto simp: batch_def jobs_sync_def consecutive_take)
  then have a: "args_wf (job_args rf)" using log_wf_last[OF ls] log_wfD(1)[OF ls] by (auto simp: args_wf_def job_args_def Suc_le_eq)
  have n: "length (rdyChnl rf) = n_peers rf" using inv by (simp add: node_inv_def)
  obtain chs where chs: "(if isLeader rf then send_rdy (job_args rf) (me rf) [0..<n_peers rf] (rdyChnl rf) else Inr (rdyChnl rf)) = Inr chs"
    and rf': "rf' = persist (rf\<lparr>jobsChnl := drop maxEntriesPerBatch (jobsChnl rf), rdyChnl := chs, logs := logs rf @ batch rf\<rparr>)"
    using run unfolding job_step_sends[OF ls sync False] go_bind_Inr by blast
  have "length chs = n_peers rf \<and> (\<forall>b \<in> set (concat chs). args_wf b)"
  proof (cases "isLeader rf")
    case True
    with chs have "send_rdy (job_args rf) (me rf) [0..<n_peers rf] (rdyChnl rf) = Inr chs" by simp
    from send_rdy_wf[OF this[folded n] a conjunct2[OF node_inv_chans[OF inv]]] show ?thesis unfolding n by blast
  next
    case False
    with chs show ?thesis using node_inv_chans[OF inv] by simp
  qed
  moreover have "log_wf (logs rf @ batch rf)" using con by (intro log_wf_append[OF ls]) auto
  ultimately show ?thesis using inv by (simp add: rf' node_inv_def)
qed

lemma log_wf_overwrite:
  assumes "log_wf ls" "consecutive (int h) es" "0 < h" "h \<le> length ls"
  shows "log_wf (overwrite ls h es)"
proof -
  have "consecutive 0 (overwrite ls h es)"
    using assms consecutive_nth[OF assms(2), of "k - h" for k]
    by (intro consecutiveI) (auto simp: nth_overwrite log_wf_Index)
  moreover have "hd (overwrite ls h es) = zero_log"
    using assms log_wfD(1,2)[OF assms(1)] by (cases h; cases ls) (auto simp: overwrite_def)
  ultimately show ?thesis using assms log_wfD[OF assms(1)] by (auto simp: log_wf_def simp flip: length_0_conv)
qed

lemma peer_send_inv:
  assumes inv: "node_inv rf" and run: "peer_send fits server rf = Inr (rf', msg)"
  shows "node_inv rf' \<and> lastApplied rf' = lastApplied rf \<and> (\<forall>a. msg = Some a \<longrightarrow> args_wf a)"
proof -
  have ls: "log_wf (logs rf)" using inv by (simp add: node_inv_def)
  obtain a c where srv: "server < length (rdyChnl rf)" and ch: "rdyChnl rf ! server = a # c"
    using run by (auto simp: peer_send_def idx_Inr chan_recv_Inr)
  let ?rf = "rf\<lparr>rdyChnl := (rdyChnl rf)[server := c]\<rparr>"
  have mem: "set (a # c) \<subseteq> set (concat (rdyChnl rf))" using nth_mem[OF srv] unfolding ch set_concat by (rule Union_upper[OF imageI])
  then have a: "args_wf a" using inv unfolding node_inv_def by auto
  have sub: "set (concat ((rdyChnl rf)[server := c])) \<subseteq> set (concat (rdyChnl rf))"
    using set_update_subset_insert[of "rdyChnl rf" server c] mem by fastforce
  then have chs: "\<forall>b \<in> set (concat ((rdyChnl rf)[server := c])). args_wf b"
    using inv unfolding node_inv_def by blast
  have inv1: "node_inv ?rf" using inv chs by (simp add: node_inv_def)
  let ?p = "Index (PrevLog a)"
  let ?h = "nat (?p + 1)"
  have hi: "i32 (?p + 1) = ?p + 1" "0 \<le> ?p" using args_wfD(1,2)[OF a] by auto
  note go = run[unfolded peer_send_def] srv ch
  show ?thesis
  proof (cases "isLeader rf \<and> nextIndex rf ! server \<le> ?p \<and> server < length (nextIndex rf)")
    case False
    then have "rf' = ?rf" "\<forall>b. msg = Some b \<longrightarrow> b = a"
      using go by (auto simp: idx_def Let_def split: if_splits)
    with inv1 a show ?thesis by auto
  next
    case True
    let ?next = "nextIndex rf ! server"
    define ls' where "ls' = (if fits \<or> ?h + length (Entries a) \<le> length (logs rf)
      then overwrite (logs rf) ?h (Entries a) else logs rf)"
    from go True obtain p where bounds: "0 \<le> ?next" "?next \<le> ?p + 1" "?p + 1 \<le> int (length (logs rf))"
      and p: "idx ls' (i32 (?next - 1)) = Inr p"
      and rf': "rf' = ?rf\<lparr>logs := ls'\<rparr>"
      and msg: "msg = Some (a\<lparr>Entries := drop (nat ?next) (take ?h (logs rf)) @ Entries a, PrevLog := p\<rparr>)"
      unfolding ls'_def by (cases "fits \<or> ?h + length (Entries a) \<le> length (logs rf)")
        (simp_all add: idx_def[of "rdyChnl rf"] idx_def[of "nextIndex rf"] Let_def hi go_bind_Inr reslice_Inr, auto)
    have con: "consecutive (int ?h) (Entries a)" using args_wfD(3)[OF a] hi by (simp add: nat_add_distrib)
    have wf': "log_wf ls'" unfolding ls'_def using ls con hi bounds by (auto intro!: log_wf_overwrite)
    have "i32 (?next - 1) = ?next - 1" using bounds log_wfD(3)[OF ls] by (intro i32_small) auto
    then have nx: "1 \<le> ?next" "p = ls' ! nat (?next - 1)" "nat (?next - 1) < length ls'"
      using p by (auto simp: idx_Inr)
    have "Index p = ?next - 1" using log_wf_Index[OF wf' nx(3)] nx by simp
    moreover have "consecutive ?next (drop (nat ?next) (take ?h (logs rf)))"
      using consecutive_drop[OF consecutive_take[OF log_wfD(4)[OF ls]], of "nat ?next" ?h] bounds by simp
    moreover have "int (length (drop (nat ?next) (take ?h (logs rf)))) = ?p + 1 - ?next"
      using bounds hi by simp
    ultimately have "args_wf (a\<lparr>Entries := drop (nat ?next) (take ?h (logs rf)) @ Entries a, PrevLog := p\<rparr>)"
      using a nx(1) by (auto simp: args_wf_def algebra_simps)
    moreover have "node_inv rf'" using inv1 wf' by (simp add: rf' node_inv_def)
    ultimately show ?thesis by (simp add: msg rf')
  qed
qed

section \<open>What the service is handed\<close>

lemma log_wf_indices:
  assumes "log_wf ls" "0 \<le> a" "b < int (length ls)" "a \<le> b"
  shows "map Index (drop (nat (a + 1)) (take (nat (b + 1)) ls)) = [a + 1..b]"
proof (rule nth_equalityI)
  show "length (map Index (drop (nat (a + 1)) (take (nat (b + 1)) ls))) = length [a + 1..b]"
    using assms by simp
next
  fix i assume "i < length (map Index (drop (nat (a + 1)) (take (nat (b + 1)) ls)))"
  then have i: "nat (a + 1) + i < nat (b + 1)" by simp
  moreover from i assms(3) have "nat (a + 1) + i < length ls" by linarith
  ultimately show "map Index (drop (nat (a + 1)) (take (nat (b + 1)) ls)) ! i = [a + 1..b] ! i"
    using log_wf_Index[OF assms(1), of "nat (a + 1) + i"] assms(2) by simp
qed

lemma msg_Index_apply_msg_of [simp]: "msg_Index \<circ> apply_msg_of = Index"
  by (simp add: apply_msg_of_def fun_eq_iff)

text \<open>A step hands over the entries from the one after \<open>lastApplied\<close> on.\<close>

definition hands_over :: "raft \<Rightarrow> effect list \<Rightarrow> raft \<Rightarrow> bool" where
  "hands_over rf out rf' \<longleftrightarrow> lastApplied rf \<le> lastApplied rf'
     \<and> map msg_Index (applied out) = [lastApplied rf + 1..lastApplied rf']"

lemma quiet_hands_over: "quiet rf out rf' \<Longrightarrow> hands_over rf out rf'"
  by (simp add: quiet_def hands_over_def)

lemma applied_apply_range [simp]: "applied (apply_range ls a b) = map apply_msg_of (drop (nat (a + 1)) (take (nat (b + 1)) ls))"
  by (simp add: apply_range_def)

lemma applied_hb_metric [simp]: "applied (hb_metric args rf) = []"
  by (simp add: hb_metric_def)

lemma commit_step_node:
  assumes inv: "node_inv rf" and run: "commit_step rf = Inr (rf', out)"
  shows "hands_over rf out rf' \<and> node_inv rf'"
proof -
  have ok: "commit_ok rf" and ls: "log_wf (logs rf)" using inv by (auto simp: node_inv_def commit_ok_def)
  obtain i c where ch: "commitIdxChnl rf = i # c"
    using run by (auto simp: commit_step_def chan_recv_Inr)
  show ?thesis
  proof (cases rule: commit_step_cases[OF ok ch])
    case 1
    with run have "quiet rf out rf' \<and> keeps_chans rf rf'" by (auto simp: quiet_defs)
    with inv show ?thesis using quiet_inv quiet_hands_over by blast
  next
    case 2
    with run have "quiet rf out rf' \<and> keeps_chans rf rf'" by (auto simp: quiet_defs)
    with inv show ?thesis using quiet_inv quiet_hands_over by blast
  next
    case (3 out')
    then have "map msg_Index (applied out) = [lastApplied rf + 1..i]"
      using inv run log_wf_indices[OF ls, of "commitIdx rf" i] by (simp add: node_inv_def)
    moreover have "lastApplied rf' = i" "node_inv rf'" "lastApplied rf \<le> i"
      using inv run 3 by (auto simp: node_inv_def)
    ultimately show ?thesis by (simp add: hands_over_def)
  qed
qed

lemma HeartBeat_node:
  assumes inv: "node_inv rf" and a: "args_wf args"
    and run: "HeartBeat args zero_append_reply rf = Inr (rf', reply, out)"
  shows "hands_over rf out rf' \<and> node_inv rf'"
proof -
  have wf: "log_wf (logs rf)" "0 \<le> lastApplied rf" using inv by (auto simp: node_inv_def)
  show ?thesis
    using wf(1) a wf(2)
  proof (cases rule: HeartBeat_branches[where reply = zero_append_reply])
    case blocked
    with run show ?thesis by simp
  next
    case stale
    with run have "quiet rf out rf' \<and> keeps_chans rf rf'"
      using HeartBeat_stale[OF wf(1) stale(2,1)] by (auto simp: quiet_defs)
    with inv show ?thesis using quiet_inv quiet_hands_over by blast
  next
    case missing
    with run have "quiet rf out rf' \<and> keeps_chans rf rf'"
      using HeartBeat_missing[OF wf(1) a missing(2,1,3)] by (auto simp: quiet_defs)
    with inv show ?thesis using quiet_inv quiet_hands_over by blast
  next
    case conflict
    have "log_wf (take (hb_cut args rf) (logs rf))"
      using wf(1) hb_cut_bounds(1)[OF conflict(3) args_wfD(1)[OF a]] by (intro log_wf_take) auto
    with run inv show ?thesis
      using HeartBeat_conflict[OF wf(1) a conflict(2,1,3)] by (auto simp: hands_over_def node_inv_def)
  next
    case accept
    let ?ls = "hb_merged args rf"
    have p: "nat (Index (PrevLog args)) + 1 \<le> length (logs rf)"
      using accept args_wfD(1)[OF a] by (auto simp: hb_missing_def)
    have ls: "log_wf ?ls"
      unfolding hb_merged_def using wf p args_wfD(3,4)[OF a] by (intro merge_ref_wf) auto
    note eq = HeartBeat_accept[OF wf(1) a accept(2) wf(2) accept(1,3,4), of zero_append_reply]
    show ?thesis
    proof (cases "advances args rf (length ?ls)")
      case True
      let ?c = "new_commit args (length ?ls)"
      have c: "lastApplied rf \<le> ?c" "?c < int (length ?ls)" using True by (auto simp: advances_def new_commit_def)
      have "lastApplied rf' = ?c" "map msg_Index (applied out) = [lastApplied rf + 1..?c]"
        using run eq True log_wf_indices[OF ls wf(2) c(2,1)] by (auto simp: Let_def)
      moreover have "node_inv rf'"
        using run eq True inv ls c by (auto simp: Let_def node_inv_def)
      ultimately show ?thesis using c by (simp add: hands_over_def)
    next
      case False
      then show ?thesis using run eq inv ls by (auto simp: Let_def node_inv_def hands_over_def)
    qed
  qed
qed

lemma node_step_inv:
  assumes "node_step rf out msgs rf'" "node_inv rf"
  shows "hands_over rf out rf' \<and> node_inv rf' \<and> (\<forall>a \<in> set msgs. args_wf a)"
proof -
  have quiet: "hands_over rf out rf' \<and> node_inv rf'" if "quiet rf out rf' \<and> keeps_chans rf rf'"
    using that assms(2) quiet_inv quiet_hands_over by blast
  have still: "hands_over rf [] rf'" if "lastApplied rf' = lastApplied rf"
    using that by (simp add: hands_over_def)
  from assms(1) show ?thesis
  proof cases
    case heartbeat
    with HeartBeat_node[OF assms(2)] show ?thesis by simp
  next
    case request
    with quiet quiet_steps(1) show ?thesis by simp
  next
    case start
    with quiet quiet_steps(2) show ?thesis by simp
  next
    case kill
    with quiet quiet_steps(3) show ?thesis by simp
  next
    case stop
    with quiet quiet_steps(4) show ?thesis by simp
  next
    case reset
    with quiet quiet_steps(5) show ?thesis by simp
  next
    case tick
    with hb_tick_inv[OF assms(2)] quiet_hands_over show ?thesis by simp
  next
    case jobs
    with job_step_inv[OF assms(2)] still show ?thesis by simp
  next
    case commit
    with commit_step_node[OF assms(2)] show ?thesis by simp
  next
    case send
    with peer_send_inv[OF assms(2)] still show ?thesis by simp
  next
    case skip
    with peer_send_inv[OF assms(2)] still show ?thesis by simp
  next
    case answer
    with quiet peer_reply_quiet show ?thesis by simp
  next
    case drain
    with quiet quiet_steps(6) show ?thesis by simp
  next
    case timeout
    with election_timeout_inv[OF assms(2)] quiet_hands_over show ?thesis by simp
  next
    case vote
    with vote_reply_inv[OF assms(2)] quiet_hands_over show ?thesis by simp
  next
    case count
    with tracker_recv_inv[OF assms(2)] quiet_hands_over show ?thesis by simp
  next
    case give_up
    with tracker_timeout_inv[OF assms(2)] quiet_hands_over show ?thesis by simp
  next
    case init
    with leader_init_inv[OF assms(2)] quiet_hands_over show ?thesis by simp
  qed
qed

lemma node_run_inv:
  "node_run rf out msgs rf' \<Longrightarrow> node_inv rf \<Longrightarrow>
   hands_over rf out rf' \<and> node_inv rf' \<and> (\<forall>a \<in> set msgs. args_wf a)"
proof (induction rule: node_run.induct)
  case (refl rf)
  then show ?case by (simp add: hands_over_def)
next
  case (step rf out msgs rf' out' msgs' rf'')
  then have 1: "hands_over rf out rf'" "node_inv rf'" and 2: "hands_over rf' out' rf'' \<and> node_inv rf'' \<and> (\<forall>a \<in> set msgs'. args_wf a)"
    using node_step_inv by blast+
  then have "hands_over rf (out @ out') rf''"
    using upto_split2[of "lastApplied rf + 1" "lastApplied rf'" "lastApplied rf''"]
    by (cases "lastApplied rf' = lastApplied rf") (auto simp: hands_over_def)
  with step 2 show ?case by auto
qed

lemma Make_fields:
  "lastApplied (Make n i ps) = 0" "commitIdx (Make n i ps) = 0" "n_peers (Make n i ps) = n"
  "rdyChnl (Make n i ps) = replicate n []" "elections (Make n i ps) = []"
  by (simp_all add: Make_def readPersist_def Let_def split_beta)

lemma node_run_stream:
  assumes "node_run (Make n i ps) out msgs rf" "log_wf (logs (Make n i ps))" "n < 2147483648"
  shows "map msg_Index (applied out) = [1..lastApplied rf] \<and> log_wf (logs rf)
    \<and> commitIdx rf = lastApplied rf \<and> (\<forall>a \<in> set msgs. args_wf a)"
proof -
  have "node_inv (Make n i ps)" "lastApplied (Make n i ps) = 0"
    using assms(2,3) by (simp_all add: node_inv_def Make_fields)
  from node_run_inv[OF assms(1) this(1)] this(2) show ?thesis
    by (simp add: hands_over_def node_inv_def)
qed

text \<open>C11: In a run of a server from (re)start, on well-formed incoming messages and in which the dispatcher runs
  on a queue whose jobs continue the log (\<open>jobs_sync\<close>, which the code does not check: after two
  leaderships two jobs can have one index), the entries handed to its service have the indices 1,
  2, ..., lastApplied, each exactly once and in this order; its log stays well-formed, its
  commit index is lastApplied, and every AppendEntries it sends is well-formed.\<close>
theorem apply_stream:
  assumes "node_run (Make n i ps) out msgs rf" "log_wf (logs (Make n i ps))" "n < 2147483648"
  shows "map msg_Index (applied out) = [1..lastApplied rf] \<and> log_wf (logs rf)
    \<and> commitIdx rf = lastApplied rf \<and> (\<forall>a \<in> set msgs. args_wf a)"
  by (rule node_run_stream[OF assms])

definition ex_first :: append_entries_args where
  "ex_first = \<lparr>ae_Term = 1, LeaderID = 0, PrevLog = zero_log,
     Entries = [\<lparr>Index = 1, Term = 1, Cmd = GStr ''a''\<rparr>], LeaderCommitIdx = 1\<rparr>"

theorem apply_stream_witness:
  "\<exists>rf out. node_run (Make 3 1 MakePersister) out [] rf \<and> lastApplied rf = 1 \<and> map msg_Index (applied out) = [1]"
proof -
  have "\<exists>rf reply out. HeartBeat ex_first zero_append_reply (Make 3 1 MakePersister) = Inr (rf, reply, out) \<and> lastApplied rf = 1"
    by (simp add: ex_first_def HeartBeat_def MAX_LOGS_def chan_send_def idx_def reslice_def follower_commit_def Let_def persist_def
        cong: go_bind_weak_cong)
  then obtain rf reply out where hb: "HeartBeat ex_first zero_append_reply (Make 3 1 MakePersister) = Inr (rf, reply, out)"
    and la: "lastApplied rf = 1" by blast
  have "args_wf ex_first" by (simp add: args_wf_def ex_first_def)
  then have run: "node_run (Make 3 1 MakePersister) out [] rf"
    using node_run.step[OF node_run.refl node_step.heartbeat[OF _ hb]] by simp
  have "log_wf (logs (Make 3 1 MakePersister))" by simp
  from apply_stream[OF run this] have "map msg_Index (applied out) = [1]" by (simp add: la)
  with run la show ?thesis by (intro exI conjI)
qed

end
