(* ===== verification/Network.thy ===== *)
theory Network
  imports Election RaftNode
begin

text \<open>
  The cluster of \<open>Election\<close> with its AppendEntries messages: what a peer sender sends goes into
  the set \<open>net\<close> and may be delivered at any time, any number of times, or never. \<open>hist\<close> is a
  history variable, all the logs a server has ever had. Answers to AppendEntries are arbitrary.

  The code keeps its logs consistent only while a change of leadership meets empty pipelines,
  so three steps carry a condition; what the code does without it is shown by
  \<open>two_leaders_in_one_term\<close>, by \<open>stale_election_leads\<close> and \<open>stale_send_overwrites\<close> at the end of
  \<open>LogMatching\<close>, and by \<open>job_step_panics_after_cut\<close> of \<open>RaftLeader\<close>:
  \<^item> \<open>keeps_term\<close>: a leader that learns of a newer term from a candidate it refuses ends its
    leadership (the code stays leader of a term it was not elected in);
  \<^item> \<open>fresh_win\<close>: an election is announced in its own term (the code does not look), with no
    message of an earlier leadership left in the peers' channels;
  \<^item> \<open>jobs_sync\<close>, as in \<open>RaftNode\<close>: the dispatcher runs on a queue that continues the log.

  The bounds of the model: terms and log indices stay below the largest \<open>int32\<close>. Servers do not
  restart (\<open>RaftRestart\<close> shows what a restart loses).
\<close>

section \<open>Steps\<close>

record network =
  base :: cluster
  net :: "(nat \<times> append_entries_args) set"
  hist :: "raft_log list set"

abbreviation node :: "network \<Rightarrow> nat \<Rightarrow> raft" where
  "node s i \<equiv> nodes (base s) i"

definition init_network :: "nat \<Rightarrow> network" where
  "init_network n = \<lparr>base = init_cluster n, net = {}, hist = {[zero_log]}\<rparr>"

definition put :: "nat \<Rightarrow> raft \<Rightarrow> network \<Rightarrow> network" where
  "put i rf s = s\<lparr>base := set_node i rf (base s), hist := insert (logs rf) (hist s)\<rparr>"

definition post :: "(nat \<times> append_entries_args) list \<Rightarrow> network \<Rightarrow> network" where
  "post ms s = s\<lparr>net := set ms \<union> net s\<rparr>"

lemma network_simps [simp]:
  "base (put i rf s) = set_node i rf (base s)" "net (put i rf s) = net s"
  "hist (put i rf s) = insert (logs rf) (hist s)"
  "base (post ms s) = base s" "net (post ms s) = set ms \<union> net s" "hist (post ms s) = hist s"
  by (simp_all add: put_def post_def)

definition keeps_term :: "raft \<Rightarrow> raft \<Rightarrow> bool" where
  "keeps_term rf rf' \<longleftrightarrow> (isLeader rf' \<longrightarrow> currentTerm rf' = currentTerm rf)"

definition fresh_win :: "nat \<Rightarrow> raft \<Rightarrow> raft \<Rightarrow> bool" where
  "fresh_win k rf rf' \<longleftrightarrow> (phase (elections rf' ! k) = Announced \<longrightarrow>
     el_term (elections rf ! k) = currentTerm rf \<and> concat (rdyChnl rf) = [])"

text \<open>The steps of elections.\<close>

inductive vote_step :: "nat \<Rightarrow> cluster \<Rightarrow> nat \<Rightarrow> raft \<Rightarrow> cluster \<Rightarrow> bool" for n where
  timeout: "i < n \<Longrightarrow> currentTerm (nodes s i) < 2147483647 \<Longrightarrow>
     election_timeout (nodes s i) = Inr (rf', args) \<Longrightarrow>
     vote_step n s i rf' (add_grant i (rv_Term args) i
       (send_calls n i (length (elections (nodes s i))) args (set_node i rf' s)))"
| deliver: "calls s c k v = Sent args \<Longrightarrow>
     RequestVote args zero_vote_reply (nodes s v) = Inr (rf', reply, out) \<Longrightarrow> keeps_term (nodes s v) rf' \<Longrightarrow>
     vote_step n s v rf' ((if Voted reply then add_grant v (rv_Term args) c else id)
       (set_call c k v (Answered reply) (set_node v rf' s)))"
| reply: "calls s c k v = Answered r \<Longrightarrow> vote_reply k r (nodes s c) = Inr rf' \<Longrightarrow>
     vote_step n s c rf' (set_call c k v (Done (Voted r)) (set_node c rf' s))"
| count: "i < n \<Longrightarrow> tracker_recv k (nodes s i) = Inr rf' \<Longrightarrow> fresh_win k (nodes s i) rf' \<Longrightarrow>
     vote_step n s i rf' (set_node i rf' s)"
| quit: "i < n \<Longrightarrow> tracker_timeout k (nodes s i) = Inr rf' \<Longrightarrow> vote_step n s i rf' (set_node i rf' s)"
| lead: "i < n \<Longrightarrow> leader_init k (nodes s i) = Inr rf' \<Longrightarrow> vote_step n s i rf' (set_node i rf' s)"

text \<open>The other steps of one server by itself, with the messages it sends and to whom.\<close>

inductive own_step :: "raft \<Rightarrow> effect list \<Rightarrow> (nat \<times> append_entries_args) list \<Rightarrow> raft \<Rightarrow> bool" where
  start: "Start cmd rf = Inr (rf', i, t, l) \<Longrightarrow> i32 (logidx rf + 1) = logidx rf + 1 \<Longrightarrow> own_step rf [] [] rf'"
| kill: "Kill rf = Inr rf' \<Longrightarrow> own_step rf [] [] rf'"
| stop: "stop_observed rf = Inr rf' \<Longrightarrow> own_step rf [] [] rf'"
| reset: "hb_reset rf = Inr rf' \<Longrightarrow> own_step rf [] [] rf'"
| tick: "hb_tick rf = Inr rf' \<Longrightarrow> own_step rf [] [] rf'"
| jobs: "jobs_sync rf \<Longrightarrow> job_step rf = Inr rf' \<Longrightarrow> own_step rf [] [] rf'"
| commit: "commit_step rf = Inr (rf', out) \<Longrightarrow> own_step rf out [] rf'"
| send: "peer_send fits server rf = Inr (rf', Some msg) \<Longrightarrow> own_step rf [] [(server, msg)] rf'"
| skip: "peer_send fits server rf = Inr (rf', None) \<Longrightarrow> own_step rf [] [] rf'"
| answer: "peer_reply server args reply rf = Inr (rf', out) \<Longrightarrow> own_step rf out [] rf'"
| drain: "drain_rpc rf = Inr rf' \<Longrightarrow> own_step rf [] [] rf'"

inductive net_step :: "nat \<Rightarrow> network \<Rightarrow> network \<Rightarrow> bool" for n where
  vote: "vote_step n (base s) i rf' b \<Longrightarrow> net_step n s (s\<lparr>base := b\<rparr>)"
| heartbeat: "i < n \<Longrightarrow> (i, args) \<in> net s \<Longrightarrow>
     HeartBeat args zero_append_reply (node s i) = Inr (rf', reply, out) \<Longrightarrow> net_step n s (put i rf' s)"
| own: "i < n \<Longrightarrow> own_step (node s i) out ms rf' \<Longrightarrow> net_step n s (post ms (put i rf' s))"

inductive net_reach :: "nat \<Rightarrow> network \<Rightarrow> bool" for n where
  init: "net_reach n (init_network n)"
| step: "net_reach n s \<Longrightarrow> net_step n s s' \<Longrightarrow> net_reach n s'"

section \<open>The network's steps are those of the cluster and of the servers\<close>

lemma vote_step_cluster: "vote_step n s i rf' s' \<Longrightarrow> cluster_step n s s'"
  by (induction rule: vote_step.induct) (blast intro: cluster_step.intros)+

lemma own_step_local: "own_step rf out ms rf' \<Longrightarrow> local_step rf out rf'"
  by (induction rule: own_step.induct) (blast intro: local_step.intros)+

lemma own_step_node: "own_step rf out ms rf' \<Longrightarrow> node_step rf out (map snd ms) rf'"
  by (induction rule: own_step.induct) (auto intro: node_step.intros)

lemma net_step_cluster: "net_step n s s' \<Longrightarrow> cluster_step n (base s) (base s')"
proof (induction rule: net_step.induct)
  case (vote s i rf' b)
  then show ?case by (simp add: vote_step_cluster)
next
  case (heartbeat i args s rf' reply out)
  then show ?case using cluster_step.local[OF heartbeat(1) local_step.heartbeat] by simp
next
  case (own i s out ms rf')
  then show ?case using cluster_step.local[OF own(1) own_step_local] by simp
qed

lemma net_reach_cluster: "net_reach n s \<Longrightarrow> reachable n (base s)"
  by (induction rule: net_reach.induct)
     (auto simp: init_network_def intro: reachable.intros net_step_cluster)

text \<open>A vote step changes one server, as one of its own steps.\<close>

lemma vote_step_node:
  assumes "vote_step n s i rf' s'" "cluster_inv n s"
  shows "i < n \<and> nodes s' = (nodes s)(i := rf') \<and> (\<exists>out. node_step (nodes s i) out [] rf')"
  using assms
proof (induction rule: vote_step.induct)
  case (timeout i s rf' args)
  then show ?case by (auto intro: node_step.timeout)
next
  case (deliver s c k v args rf' reply out)
  then have "v < n" using cluster_invD(4)[of n s c k v] by (auto simp: call_ok_def Let_def)
  then show ?case using node_step.request[OF deliver(2)] by auto
next
  case (reply s c k v r rf')
  then have "c < n" using cluster_invD(4)[of n s c k v] by (auto simp: call_ok_def Let_def)
  with reply show ?case by (auto intro: node_step.vote)
qed (auto intro: node_step.count node_step.give_up node_step.init)

text \<open>A server that has won a term has won it for good.\<close>

lemma elected_frame: "elections (nodes s' c) = elections (nodes s c) \<Longrightarrow> elected s' c t = elected s c t"
  by (simp add: elected_def)

lemma elected_update:
  assumes "elected s c t" "elections (nodes s' c) = (elections (nodes s c))[k := e']"
    "k < length (elections (nodes s c))" "el_term e' = el_term (elections (nodes s c) ! k)"
    "has_won (elections (nodes s c) ! k) \<Longrightarrow> has_won e'"
  shows "elected s' c t"
proof -
  obtain j where j: "j < length (elections (nodes s c))" "has_won (elections (nodes s c) ! j)"
    "el_term (elections (nodes s c) ! j) = t" using assms(1) by (auto simp: elected_def in_set_conv_nth)
  then have "j < length (elections (nodes s' c))" "has_won (elections (nodes s' c) ! j)"
    "el_term (elections (nodes s' c) ! j) = t" using assms(2-5) by (auto simp: nth_list_update)
  then show ?thesis unfolding elected_def using nth_mem by blast
qed

lemma elected_update_node:
  assumes "elected s c t" "elections rf' = (elections (nodes s i))[k := e']" "nodes s' = (nodes s)(i := rf')"
    "k < length (elections (nodes s i))" "el_term e' = el_term (elections (nodes s i) ! k)"
    "has_won (elections (nodes s i) ! k) \<Longrightarrow> has_won e'"
  shows "elected s' c t"
proof (cases "c = i")
  case True
  with assms show ?thesis by (intro elected_update[OF assms(1), where k = k and e' = e']) auto
next
  case False
  then have "elections (nodes s' c) = elections (nodes s c)" using assms(3) by simp
  then show ?thesis using assms(1) elected_frame by blast
qed

lemma vote_step_elected:
  assumes "vote_step n s i rf' s'" "cluster_inv n s" "elected s c t"
  shows "elected s' c t"
  using assms
proof (induction rule: vote_step.induct)
  case (timeout i s rf' args)
  have "0 \<le> currentTerm (nodes s i)" using cluster_invD(1)[OF timeout(4,1)] by (simp add: node_ok_def)
  then show ?case using timeout election_timeout_effect(9)[OF timeout(3,2)] by (auto simp: elected_def)
next
  case (deliver s c' k v args rf' reply out)
  then show ?case using RequestVote_effect(3)[OF deliver(2)] by (auto simp: elected_def)
next
  case (reply s c' k v r rf')
  note e = vote_reply_effect(6,7)[OF reply(2)]
  show ?case by (rule elected_update_node[OF reply(4) e(2) _ e(1)]) (simp_all add: has_won_def)
next
  case (count i k s rf')
  from count(2) obtain e' where e: "k < length (elections (nodes s i))" "phase (elections (nodes s i) ! k) = Counting"
    "elections rf' = (elections (nodes s i))[k := e']" "el_term e' = el_term (elections (nodes s i) ! k)"
    by (rule tracker_recv_effect)
  show ?case by (rule elected_update_node[OF count(5) e(3) _ e(1,4)]) (simp_all add: has_won_def e(2))
next
  case (quit i k s rf')
  note e = tracker_timeout_effect[OF quit(2)]
  have "elections rf' = (elections (nodes s i))[k := (elections (nodes s i) ! k)\<lparr>phase := Quit\<rparr>]"
    unfolding e(3) by simp
  from elected_update_node[OF quit(4) this _ e(1)] show ?case by (simp add: has_won_def e(2))
next
  case (lead i k s rf')
  note e = leader_init_effect(1,2,8)[OF lead(2)]
  show ?case by (rule elected_update_node[OF lead(4) e(3) _ e(1)]) (simp_all add: has_won_def)
qed

end
