(* ===== verification/LogWindows.thy ===== *)
theory LogWindows
  imports Network
begin

text \<open>
  Log matching: two logs that agree on the term of an entry agree on everything up to it. The
  invariant says it of all logs that ever existed (\<open>hist\<close>), with every message in the network or
  in a leader's channels a window into one of them (\<open>window\<close>), and every entry that waits in a
  queue new: its index and term occur in no log yet, since only the leader of its term makes
  entries of that term and \<open>logidx\<close> counts them.
\<close>

section \<open>Logs that match\<close>

definition matches :: "raft_log list \<Rightarrow> raft_log list \<Rightarrow> bool" where
  "matches P Q \<longleftrightarrow> (\<forall>k. k < length P \<longrightarrow> k < length Q \<longrightarrow> Term (P ! k) = Term (Q ! k) \<longrightarrow>
     take (Suc k) P = take (Suc k) Q)"

lemma matches_refl [simp]: "matches P P"
  by (simp add: matches_def)

lemma matches_sym: "matches P Q \<Longrightarrow> matches Q P"
  unfolding matches_def by metis

lemma matches_take: "matches P Q \<Longrightarrow> matches (take c P) Q"
  by (auto simp: matches_def min_absorb1 Suc_le_eq)

text \<open>Appending entries whose index and term the other log does not have.\<close>

lemma matches_append:
  assumes "matches P Q" "log_wf (P @ es)" "log_wf Q" "\<forall>v \<in> set es. \<forall>w \<in> set Q. entry_id v \<noteq> entry_id w"
  shows "matches (P @ es) Q"
  unfolding matches_def
proof (intro allI impI)
  fix k assume k: "k < length (P @ es)" "k < length Q" "Term ((P @ es) ! k) = Term (Q ! k)"
  have "k < length P"
  proof (rule ccontr)
    assume "\<not> k < length P"
    then have "(P @ es) ! k \<in> set es" using k(1) by (simp add: nth_append)
    moreover have "entry_id ((P @ es) ! k) = entry_id (Q ! k)"
      using k log_wf_Index[OF assms(2) k(1)] log_wf_Index[OF assms(3) k(2)] by (simp add: entry_id_def)
    ultimately show False using assms(4) nth_mem[OF k(2)] by blast
  qed
  moreover from this have "take (Suc k) P = take (Suc k) Q"
    using assms(1) k by (simp add: matches_def nth_append)
  ultimately show "take (Suc k) (P @ es) = take (Suc k) Q" by (simp add: Suc_le_eq)
qed

section \<open>Messages as windows\<close>

definition window :: "raft_log list \<Rightarrow> append_entries_args \<Rightarrow> bool" where
  "window P m \<longleftrightarrow>
     (let p = nat (Index (PrevLog m)); es = Entries m in
      0 \<le> Index (PrevLog m) \<and> p + length es < length P \<and> P ! p = PrevLog m
      \<and> take (length es) (drop (Suc p) P) = es)"

lemma window_append: "window P m \<Longrightarrow> window (P @ xs) m"
  by (auto simp: window_def Let_def nth_append)

lemma window_args_wf:
  assumes "window P m" "log_wf P"
  shows "args_wf m"
proof -
  let ?p = "nat (Index (PrevLog m))"
  have w: "0 \<le> Index (PrevLog m)" "?p + length (Entries m) < length P"
    "take (length (Entries m)) (drop (Suc ?p) P) = Entries m"
    using assms(1) by (auto simp: window_def Let_def)
  have "consecutive (int (Suc ?p)) (take (length (Entries m)) (drop (Suc ?p) P))"
    using consecutive_drop[OF log_wfD(4)[OF assms(2)], of "Suc ?p"] w(2) by (intro consecutive_take) simp
  then have "consecutive (Index (PrevLog m) + 1) (Entries m)" unfolding w(3) using w(1) by (simp add: add.commute)
  then show ?thesis using w(1,2) log_wfD(3)[OF assms(2)] by (auto simp: args_wf_def)
qed

lemma window_member:
  assumes "log_wf P" "e \<in> set P" "PrevLog m = e" "Entries m = []"
  shows "window P m"
proof -
  obtain k where "k < length P" "P ! k = e" using assms(2) by (auto simp: in_set_conv_nth)
  then show ?thesis using assms log_wf_Index[OF assms(1), of k] by (auto simp: window_def Let_def)
qed

lemma take_splice:
  assumes "k \<le> l"
  shows "take (a + k) P @ drop k (take l (drop a P)) = take (a + l) P"
proof -
  have "take (a + l) P = take (a + k + (l - k)) P" using assms by simp
  also have "\<dots> = take (a + k) P @ take (l - k) (drop (a + k) P)" by (rule take_add)
  finally show ?thesis by (simp add: drop_take add.commute)
qed

text \<open>Merging a window of a matching log: the result is the old log or a part of the other.\<close>

lemma merge_window:
  assumes m: "matches ls P" and w: "window P a"
    and p: "p = nat (Index (PrevLog a))" "p < length ls" "Term (ls ! p) = Term (PrevLog a)"
  shows "merge_ref ls (Suc p) (Entries a) \<in> {ls, take (Suc p + length (Entries a)) P}"
proof -
  let ?es = "Entries a" and ?k = "common (drop (Suc p) ls) (Entries a)"
  have P: "p + length ?es < length P" "P ! p = PrevLog a" "take (length ?es) (drop (Suc p) P) = ?es"
    using w by (auto simp: window_def Let_def p(1))
  show ?thesis
  proof (cases "?k = length ?es")
    case True
    then show ?thesis by (simp add: merge_ref_def)
  next
    case False
    have k: "?k \<le> length ls - Suc p" "?k \<le> length ?es" using common_le[of "drop (Suc p) ls" ?es] by auto
    have "Term (ls ! (p + ?k)) = Term (P ! (p + ?k))"
    proof (cases ?k)
      case 0
      then show ?thesis using p(3) P(2) by simp
    next
      case (Suc j)
      then have "Term (drop (Suc p) ls ! j) = Term (?es ! j)" by (intro common_Term) simp
      moreover have "take (length ?es) (drop (Suc p) P) ! j = P ! (Suc p + j)"
        using P(1) Suc k(2) by simp
      then have "?es ! j = P ! (Suc p + j)" unfolding P(3) .
      ultimately show ?thesis using Suc k(1) by simp
    qed
    then have "take (Suc p + ?k) ls = take (Suc p + ?k) P"
      using m k p(2) P(1) by (simp add: matches_def)
    then have "merge_ref ls (Suc p) ?es = take (Suc p + ?k) P @ drop ?k (take (length ?es) (drop (Suc p) P))"
      using False unfolding P(3) by (simp add: merge_ref_def Let_def)
    then show ?thesis unfolding take_splice[OF k(2)] by simp
  qed
qed

text \<open>A window opened further back.\<close>

lemma window_back:
  assumes "window P a" "h = Suc (nat (Index (PrevLog a)))" "1 \<le> i" "i \<le> int h"
    and "p = P ! nat (i - 1)" "Index p = i - 1"
  shows "window P (a\<lparr>Entries := drop (nat i) (take h P) @ Entries a, PrevLog := p\<rparr>)"
proof -
  have w: "nat (Index (PrevLog a)) + length (Entries a) < length P" "take (length (Entries a)) (drop h P) = Entries a"
    using assms(1,2) by (auto simp: window_def Let_def)
  have n: "nat i \<le> h" "Suc (nat (i - 1)) = nat i" "h \<le> length P" using assms(3,4) w(1) by (auto simp: assms(2) nat_le_iff)
  have "take (h - nat i + length (Entries a)) (drop (nat i) P)
      = take (h - nat i) (drop (nat i) P) @ take (length (Entries a)) (drop (h - nat i) (drop (nat i) P))"
    by (rule take_add)
  then have "take (h - nat i + length (Entries a)) (drop (nat i) P) = drop (nat i) (take h P) @ Entries a"
    using n(1) w(2) by (simp add: drop_take)
  moreover have "nat (i - 1) + length (drop (nat i) (take h P) @ Entries a) < length P"
    using n by (simp only: length_append length_drop length_take) (use w(1) assms(2) in linarith)
  moreover have "length (drop (nat i) (take h P) @ Entries a) = h - nat i + length (Entries a)" using n by simp
  ultimately show ?thesis using assms(3,5,6) n(2) by (simp add: window_def)
qed

section \<open>What a server does to its log and its queues\<close>

text \<open>The messages in a leader's channels are windows into its own log, of its term.\<close>

definition windows :: "raft \<Rightarrow> bool" where
  "windows rf \<longleftrightarrow> (\<forall>m \<in> set (concat (rdyChnl rf)). window (logs rf) m \<and> ae_Term m = currentTerm rf)"

text \<open>
  A step of server \<open>i\<close> by itself moves entries from its queue to the end of its log and at most
  adds one new entry, behind \<open>logidx\<close> and of the current term, to its queue; what it sends are
  windows into its log.
\<close>

definition moves_log :: "raft \<Rightarrow> raft \<Rightarrow> bool" where
  "moves_log rf rf' \<longleftrightarrow> (\<exists>new rest added. logs rf' = logs rf @ new \<and> jobsChnl rf = new @ rest \<and> jobsChnl rf' = rest @ added
     \<and> (new \<noteq> [] \<longrightarrow> jobs_sync rf)
     \<and> (added = [] \<and> logidx rf' = logidx rf \<or> isLeader rf \<and> logidx rf' = logidx rf + 1
          \<and> (\<exists>cmd. added = [\<lparr>Index = logidx rf + 1, Term = currentTerm rf, Cmd = cmd\<rparr>])))"

definition own_effect :: "nat \<Rightarrow> raft \<Rightarrow> (nat \<times> append_entries_args) list \<Rightarrow> raft \<Rightarrow> bool" where
  "own_effect i rf ms rf' \<longleftrightarrow> moves_log rf rf'
     \<and> (isLeader rf' \<longrightarrow> currentTerm rf' = currentTerm rf \<and> windows rf') \<and> rdyChnl rf' ! i = []
     \<and> (\<forall>(d, m) \<in> set ms. isLeader rf \<and> window (logs rf) m \<and> ae_Term m = currentTerm rf \<and> d \<noteq> i)"

lemma moves_nothing: "logs rf' = logs rf \<Longrightarrow> jobsChnl rf' = jobsChnl rf \<Longrightarrow> logidx rf' = logidx rf \<Longrightarrow> moves_log rf rf'"
  by (auto simp: moves_log_def)

lemma own_effect_quiet:
  assumes "logs rf' = logs rf" "jobsChnl rf' = jobsChnl rf" "logidx rf' = logidx rf" "rdyChnl rf' = rdyChnl rf"
    and "isLeader rf' \<longrightarrow> isLeader rf \<and> currentTerm rf' = currentTerm rf"
    and "isLeader rf \<longrightarrow> windows rf" "rdyChnl rf ! i = []"
  shows "own_effect i rf [] rf'"
  using assms moves_nothing[OF assms(1-3)] by (auto simp: own_effect_def windows_def)

lemma quiet_effects:
  assumes "isLeader rf \<longrightarrow> windows rf" "rdyChnl rf ! i = []"
  shows "Kill rf = Inr rf' \<Longrightarrow> own_effect i rf [] rf'"
    "stop_observed rf = Inr rf' \<Longrightarrow> own_effect i rf [] rf'"
    "hb_reset rf = Inr rf' \<Longrightarrow> own_effect i rf [] rf'"
    "drain_rpc rf = Inr rf' \<Longrightarrow> own_effect i rf [] rf'"
    "commit_step rf = Inr (rf', out) \<Longrightarrow> own_effect i rf [] rf'"
    "peer_reply server args reply rf = Inr (rf', out) \<Longrightarrow> own_effect i rf [] rf'"
  by (rule own_effect_quiet[OF _ _ _ _ _ assms];
      auto simp: Kill_def stop_observed_def hb_reset_def drain_rpc_def commit_step_def peer_reply_def Let_def
        split: if_splits option.splits)+

lemma Start_effect:
  assumes "isLeader rf \<longrightarrow> windows rf" "rdyChnl rf ! i = []"
    and run: "Start cmd rf = Inr (rf', j, t, l)" and "i32 (logidx rf + 1) = logidx rf + 1"
  shows "own_effect i rf [] rf'"
proof (cases "isLeader rf")
  case False
  with run have "rf' = rf" by (simp add: Start_def)
  with assms(1,2) False show ?thesis by (intro own_effect_quiet) auto
next
  case True
  let ?e = "\<lparr>Index = logidx rf + 1, Term = currentTerm rf, Cmd = cmd\<rparr>"
  from True run assms(4) have rf': "rf' = rf\<lparr>logidx := logidx rf + 1, jobsChnl := jobsChnl rf @ [?e]\<rparr>"
    by (auto simp: Start_def Let_def chan_send_Inr)
  have "moves_log rf rf'" unfolding moves_log_def
    by (rule exI[of _ "[]"], rule exI[of _ "jobsChnl rf"], rule exI[of _ "[?e]"]) (use True in \<open>simp add: rf'\<close>)
  with True assms(1,2) show ?thesis by (simp add: own_effect_def windows_def rf')
qed

lemma tick_effect:
  assumes inv: "node_inv rf" and w: "isLeader rf \<longrightarrow> windows rf" "rdyChnl rf ! i = []" and i: "me rf = int i" "i < n_peers rf"
    and run: "hb_tick rf = Inr rf'"
  shows "own_effect i rf [] rf'"
proof -
  have ls: "log_wf (logs rf)" using inv by (simp add: node_inv_def)
  define a where "a = \<lparr>ae_Term = currentTerm rf, LeaderID = me rf, PrevLog = last (logs rf), Entries = [], LeaderCommitIdx = commitIdx rf\<rparr>"
  define ch where "ch j = (if length (rdyChnl rf ! j) \<noteq> 0 \<or> int j = me rf then rdyChnl rf ! j else rdyChnl rf ! j @ [a])" for j
  have rf': "rf' = rf\<lparr>rdyChnl := map ch [0..<n_peers rf]\<rparr>"
    using run log_wfD(1)[OF ls]
    by (auto simp: hb_tick_def Let_def a_def ch_def split: if_splits)
  have a: "window (logs rf) a" "ae_Term a = currentTerm rf"
    using log_wfD(1)[OF ls] by (auto simp: a_def intro!: window_member[OF ls])
  have "window (logs rf) b \<and> ae_Term b = currentTerm rf" if "isLeader rf" "b \<in> set (ch j)" "j < n_peers rf" for b j
  proof (cases "b = a")
    case True
    with a show ?thesis by simp
  next
    case False
    then have "b \<in> set (rdyChnl rf ! j)" using that(2) by (auto simp: ch_def split: if_splits)
    moreover have "j < length (rdyChnl rf)" using that(3) inv by (simp add: node_inv_def)
    ultimately have "b \<in> set (concat (rdyChnl rf))" by (auto intro: nth_mem)
    then show ?thesis using w(1) that(1) unfolding windows_def by blast
  qed
  then have "isLeader rf' \<longrightarrow> windows rf'" by (auto simp: windows_def rf')
  moreover have "rdyChnl rf' ! i = []" using i w(2) by (simp add: rf' ch_def)
  ultimately show ?thesis by (simp add: own_effect_def rf' moves_nothing)
qed

lemma send_rdy_self: "send_rdy a m is chs = Inr chs' \<Longrightarrow> m = int i \<Longrightarrow> chs' ! i = chs ! i"
proof (induction "is" arbitrary: chs)
  case (Cons j "is")
  show ?case
  proof (cases "m = int j")
    case True
    with Cons show ?thesis by simp
  next
    case False
    then obtain c where "send_rdy a m is (chs[j := c]) = Inr chs'" using Cons.prems(1) by (auto simp: go_bind_Inr)
    then have "chs' ! i = chs[j := c] ! i" using Cons.IH Cons.prems(2) by blast
    with False Cons.prems(2) show ?thesis by simp
  qed
qed simp

lemma job_effect:
  assumes inv: "node_inv rf" and w: "isLeader rf \<longrightarrow> windows rf" "rdyChnl rf ! i = []" and i: "me rf = int i"
    and sync: "jobs_sync rf" and run: "job_step rf = Inr rf'"
  shows "own_effect i rf [] rf'"
proof (cases "jobsChnl rf = []")
  case True
  then have "rf' = rf" using run by (simp add: job_step_def)
  with w show ?thesis by (intro own_effect_quiet) auto
next
  case False
  have ls: "log_wf (logs rf)" using inv by (simp add: node_inv_def)
  have con: "consecutive (int (length (logs rf))) (batch rf)" "length (logs rf) + length (batch rf) < 2147483647"
    using sync by (auto simp: batch_def jobs_sync_def consecutive_take)
  have wf: "log_wf (logs rf @ batch rf)" using con by (intro log_wf_append[OF ls]) auto
  obtain chs where chs: "(if isLeader rf then send_rdy (job_args rf) (me rf) [0..<n_peers rf] (rdyChnl rf) else Inr (rdyChnl rf)) = Inr chs"
    and rf': "rf' = persist (rf\<lparr>jobsChnl := drop maxEntriesPerBatch (jobsChnl rf), rdyChnl := chs, logs := logs rf @ batch rf\<rparr>)"
    using run unfolding job_step_sends[OF ls sync False] go_bind_Inr by blast
  have n: "length (rdyChnl rf) = n_peers rf" using inv by (simp add: node_inv_def)
  have ne: "0 < length (logs rf)" using log_wfD(1)[OF ls] by auto
  then have "(logs rf @ batch rf) ! (length (logs rf) - 1) = last (logs rf)"
    by (simp add: nth_append last_conv_nth)
  moreover have "nat (Index (last (logs rf))) = length (logs rf) - 1" "0 \<le> Index (last (logs rf))"
    using ls ne by (auto simp: Suc_le_eq)
  ultimately have a: "window (logs rf @ batch rf) (job_args rf)"
    using ne by (simp add: window_def job_args_def)
  have "windows rf' \<and> rdyChnl rf' ! i = []" if l: "isLeader rf"
  proof -
    from chs l have s: "send_rdy (job_args rf) (me rf) [0..<n_peers rf] (rdyChnl rf) = Inr chs" by simp
    have "set (concat chs) \<subseteq> insert (job_args rf) (set (concat (rdyChnl rf)))"
      using send_rdy_set[OF s] n by simp
    then show ?thesis
      using w l a window_append send_rdy_self[OF s i] by (auto simp: windows_def rf' job_args_def)
  qed
  moreover have "rdyChnl rf' ! i = []" if "\<not> isLeader rf" using chs that w(2) by (simp add: rf')
  moreover have "moves_log rf rf'"
    using sync unfolding moves_log_def
    by (intro exI[of _ "batch rf"] exI[of _ "drop maxEntriesPerBatch (jobsChnl rf)"] exI[of _ "[]"]) (simp add: rf' batch_def)
  ultimately show ?thesis unfolding own_effect_def by (auto simp: rf')
qed

lemma send_effect:
  assumes inv: "node_inv rf" and w: "isLeader rf \<longrightarrow> windows rf" "rdyChnl rf ! i = []"
    and run: "peer_send fits server rf = Inr (rf', msg)"
  shows "own_effect i rf (case msg of None \<Rightarrow> [] | Some m \<Rightarrow> [(server, m)]) rf'"
proof -
  have ls: "log_wf (logs rf)" using inv by (simp add: node_inv_def)
  obtain a c where srv: "server < length (rdyChnl rf)" and ch: "rdyChnl rf ! server = a # c"
    using run by (auto simp: peer_send_def idx_Inr chan_recv_Inr)
  let ?rf = "rf\<lparr>rdyChnl := (rdyChnl rf)[server := c]\<rparr>"
  have mem: "set (a # c) \<subseteq> set (concat (rdyChnl rf))" using nth_mem[OF srv] unfolding ch set_concat by (rule Union_upper[OF imageI])
  have sub: "set (concat ((rdyChnl rf)[server := c])) \<subseteq> set (concat (rdyChnl rf))"
    using set_update_subset_insert[of "rdyChnl rf" server c] mem by fastforce
  have ne: "server \<noteq> i" using ch w(2) by auto
  have w1: "isLeader rf \<longrightarrow> windows ?rf" using w(1) sub by (auto simp: windows_def)
  have e1: "own_effect i rf ms ?rf" if "\<forall>(d, m) \<in> set ms. isLeader rf \<and> window (logs rf) m \<and> ae_Term m = currentTerm rf \<and> d \<noteq> i" for ms
    using that w w1 ne by (auto simp: own_effect_def moves_nothing)
  note go = run[unfolded peer_send_def] srv ch
  show ?thesis
  proof (cases "isLeader rf")
    case False
    then have "rf' = ?rf" "msg = None" using go by (auto simp: idx_def)
    then show ?thesis using e1[of "[]"] by simp
  next
    case lead: True
    then have a: "window (logs rf) a" "ae_Term a = currentTerm rf" using w(1) mem by (auto simp: windows_def)
    let ?p = "Index (PrevLog a)"
    let ?h = "nat (?p + 1)"
    note win = a(1)[unfolded window_def Let_def]
    have hi: "i32 (?p + 1) = ?p + 1" "0 \<le> ?p" "?h = Suc (nat ?p)"
      using win log_wfD(3)[OF ls] by (auto simp: nat_add_distrib)
    have same: "overwrite (logs rf) ?h (Entries a) = logs rf"
    proof (rule overwrite_same)
      show "?h \<le> length (logs rf)" using win hi by auto
      fix k assume k: "k < length (Entries a)" "?h + k < length (logs rf)"
      have "take (length (Entries a)) (drop ?h (logs rf)) ! k = logs rf ! (?h + k)" using k by simp
      then show "Entries a ! k = logs rf ! (?h + k)" using win hi(3) by simp
    qed
    have sn: "server < length (nextIndex rf)" using go lead by (auto simp: idx_def[of "rdyChnl rf"] Let_def go_bind_Inr idx_Inr)
    show ?thesis
    proof (cases "nextIndex rf ! server \<le> ?p")
      case False
      then have "rf' = ?rf" "msg = Some a"
        using go lead sn by (auto simp: idx_def Let_def)
      then show ?thesis using e1[of "[(server, a)]"] lead a ne by simp
    next
      case True
      let ?next = "nextIndex rf ! server"
      from go True lead obtain p where bounds: "0 \<le> ?next" "?next \<le> ?p + 1" "?p + 1 \<le> int (length (logs rf))"
        and p: "idx (logs rf) (i32 (?next - 1)) = Inr p" and rf': "rf' = ?rf"
        and msg: "msg = Some (a\<lparr>Entries := drop (nat ?next) (take ?h (logs rf)) @ Entries a, PrevLog := p\<rparr>)"
        by (cases "fits \<or> ?h + length (Entries a) \<le> length (logs rf)")
          (use sn in \<open>simp_all add: idx_def[of "rdyChnl rf"] idx_def[of "nextIndex rf"] Let_def hi(1) go_bind_Inr reslice_Inr same, auto\<close>)
      have "i32 (?next - 1) = ?next - 1" using bounds log_wfD(3)[OF ls] by (intro i32_small) auto
      then have nx: "1 \<le> ?next" "p = logs rf ! nat (?next - 1)" "nat (?next - 1) < length (logs rf)"
        using p by (auto simp: idx_Inr)
      have ip: "Index p = ?next - 1" using log_wf_Index[OF ls nx(3)] nx by simp
      have "window (logs rf) (a\<lparr>Entries := drop (nat ?next) (take ?h (logs rf)) @ Entries a, PrevLog := p\<rparr>)"
        using ip bounds by (intro window_back[OF a(1) hi(3)]) (simp_all add: nx)
      then show ?thesis using e1[of "[(server, the msg)]"] lead a ne by (simp add: msg rf')
    qed
  qed
qed

lemma own_step_effect:
  assumes "own_step rf out ms rf'" "node_inv rf" "isLeader rf \<longrightarrow> windows rf" "rdyChnl rf ! i = []"
    and "me rf = int i" "i < n_peers rf"
  shows "own_effect i rf ms rf'"
  using assms
proof (induction rule: own_step.induct)
  case (start cmd rf rf' j t l)
  then show ?case by (intro Start_effect)
next
  case (tick rf rf')
  then show ?case by (intro tick_effect)
next
  case (jobs rf rf')
  then show ?case by (intro job_effect)
next
  case (send fits server rf rf' msg)
  then show ?case using send_effect[OF send(2-4,1)] by simp
next
  case (skip fits server rf rf')
  then show ?case using send_effect[OF skip(2-4,1)] by simp
next
  case (kill rf rf')
  show ?case by (rule quiet_effects(1)[OF kill(3,4,1)])
next
  case (stop rf rf')
  show ?case by (rule quiet_effects(2)[OF stop(3,4,1)])
next
  case (reset rf rf')
  show ?case by (rule quiet_effects(3)[OF reset(3,4,1)])
next
  case (drain rf rf')
  show ?case by (rule quiet_effects(4)[OF drain(3,4,1)])
next
  case (commit rf rf' out)
  show ?case by (rule quiet_effects(5)[OF commit(3,4,1)])
next
  case (answer server args reply rf rf' out)
  show ?case by (rule quiet_effects(6)[OF answer(3,4,1)])
qed

text \<open>What a delivered message does to the log.\<close>

lemma HeartBeat_effect:
  assumes inv: "node_inv rf" and P: "log_wf P" "window P args" "matches (logs rf) P"
    and run: "HeartBeat args zero_append_reply rf = Inr (rf', reply, out)"
  shows "jobsChnl rf' = jobsChnl rf \<and> rdyChnl rf' = rdyChnl rf
    \<and> (ae_Term args < currentTerm rf \<and> logs rf' = logs rf \<and> logidx rf' = logidx rf \<and> isLeader rf' = isLeader rf
         \<and> currentTerm rf' = currentTerm rf
       \<or> currentTerm rf \<le> ae_Term args \<and> \<not> isLeader rf' \<and> currentTerm rf' = ae_Term args
         \<and> (\<exists>c. logs rf' = take c (logs rf) \<or> logs rf' = take c P))"
proof -
  have wf: "log_wf (logs rf)" "0 \<le> lastApplied rf" using inv by (auto simp: node_inv_def)
  have a: "args_wf args" using P(2,1) by (rule window_args_wf)
  show ?thesis
    using wf(1) a wf(2)
  proof (cases rule: HeartBeat_branches[where reply = zero_append_reply])
    case blocked
    with run show ?thesis by simp
  next
    case stale
    with run show ?thesis using HeartBeat_stale[OF wf(1) stale(2,1)] by (auto simp: hb_stale_def)
  next
    case conflict
    with run show ?thesis using HeartBeat_conflict[OF wf(1) a conflict(2,1,3)] by (auto simp: hb_stale_def)
  next
    case missing
    with run show ?thesis
      using HeartBeat_missing[OF wf(1) a missing(2,1,3)] by (auto simp: hb_stale_def intro: exI[of _ "length (logs rf)"])
  next
    case accept
    let ?p = "nat (Index (PrevLog args))"
    have p: "?p < length (logs rf)" "Term (logs rf ! ?p) = Term (PrevLog args)"
      using accept(3,4) args_wfD(1)[OF a] by (auto simp: hb_missing_def hb_conflict_def)
    have "hb_merged args rf \<in> {logs rf, take (Suc ?p + length (Entries args)) P}"
      using merge_window[OF P(3,2) HOL.refl p] by (simp add: hb_merged_def)
    then have c: "\<exists>c. hb_merged args rf = take c (logs rf) \<or> hb_merged args rf = take c P"
      by (metis take_all_iff insertE order_refl singletonD)
    moreover have "jobsChnl rf' = jobsChnl rf" "rdyChnl rf' = rdyChnl rf" "\<not> isLeader rf'"
      "currentTerm rf' = ae_Term args" "logs rf' = hb_merged args rf"
      using run unfolding HeartBeat_accept[OF wf(1) a accept(2) wf(2) accept(1,3,4)] by (auto simp: Let_def split: if_splits)
    ultimately show ?thesis using accept(1) by (simp add: hb_stale_def)
  qed
qed

end
