(* ===== verification/LogMatching.thy ===== *)
theory LogMatching
  imports LogWindows
begin

text \<open>
  The invariant of the network, step by step, and log matching. \<open>made\<close> and \<open>queue_ok\<close> say that an
  entry is made by the one server elected in its term and that what waits in a queue is in no log
  yet; \<open>sent_ok\<close> that a message is a window into a log and comes from the server elected in its
  term; \<open>leader_ok\<close> that a leader was elected in its current term, has counted all entries of
  that term with \<open>logidx\<close>, and queues windows into its own log; \<open>candidate_ok\<close> that the last log
  an election was started with is still in the server's log, unless somebody else won the term.
\<close>

definition entries :: "network \<Rightarrow> raft_log set" where
  "entries s = (\<Union>P \<in> hist s. set P)"

definition logs_ok :: "nat \<Rightarrow> network \<Rightarrow> bool" where
  "logs_ok n s \<longleftrightarrow> (\<forall>P \<in> hist s. log_wf P) \<and> (\<forall>P \<in> hist s. \<forall>Q \<in> hist s. matches P Q)
     \<and> (\<forall>i < n. logs (node s i) \<in> hist s)"

definition made :: "nat \<Rightarrow> network \<Rightarrow> raft_log \<Rightarrow> bool" where
  "made n s v \<longleftrightarrow> v = zero_log \<or> (\<exists>c < n. elected (base s) c (Term v))"

definition sent_ok :: "nat \<Rightarrow> network \<Rightarrow> bool" where
  "sent_ok n s \<longleftrightarrow> (\<forall>d m. (d, m) \<in> net s \<longrightarrow>
     (\<exists>P \<in> hist s. window P m) \<and> (\<exists>c < n. c \<noteq> d \<and> elected (base s) c (ae_Term m)))"

definition queue_ok :: "network \<Rightarrow> nat \<Rightarrow> bool" where
  "queue_ok s i \<longleftrightarrow> (\<forall>v \<in> set (jobsChnl (node s i)).
     elected (base s) i (Term v) \<and> (\<forall>w \<in> entries s. entry_id v \<noteq> entry_id w))"

definition counted :: "network \<Rightarrow> nat \<Rightarrow> bool" where
  "counted s i \<longleftrightarrow> (\<forall>v \<in> entries s \<union> set (jobsChnl (node s i)).
     Term v = currentTerm (node s i) \<longrightarrow> Index v \<le> logidx (node s i))"

definition leader_ok :: "network \<Rightarrow> nat \<Rightarrow> bool" where
  "leader_ok s i \<longleftrightarrow> (isLeader (node s i) \<longrightarrow>
     elected (base s) i (currentTerm (node s i)) \<and> counted s i \<and> windows (node s i))"

definition candidate_ok :: "nat \<Rightarrow> network \<Rightarrow> nat \<Rightarrow> bool" where
  "candidate_ok n s i \<longleftrightarrow> rdyChnl (node s i) ! i = [] \<and> distinct (map el_term (elections (node s i)))
     \<and> (\<forall>e \<in> set (elections (node s i)). 1 \<le> el_term e \<and> el_term e \<le> currentTerm (node s i)
          \<and> (phase e = Counting \<and> el_term e = currentTerm (node s i) \<longrightarrow>
               (\<exists>c < n. c \<noteq> i \<and> elected (base s) c (el_term e)) \<or> el_lastLog e \<in> set (logs (node s i))))"

definition net_inv :: "nat \<Rightarrow> network \<Rightarrow> bool" where
  "net_inv n s \<longleftrightarrow> reachable n (base s) \<and> logs_ok n s \<and> sent_ok n s \<and> (\<forall>v \<in> entries s. made n s v)
     \<and> (\<forall>i < n. node_inv (node s i) \<and> queue_ok s i \<and> leader_ok s i \<and> candidate_ok n s i)"

lemma net_invD:
  assumes "net_inv n s"
  shows "reachable n (base s)" "logs_ok n s" "sent_ok n s" "v \<in> entries s \<Longrightarrow> made n s v"
    "i < n \<Longrightarrow> node_inv (node s i)" "i < n \<Longrightarrow> queue_ok s i" "i < n \<Longrightarrow> leader_ok s i"
    "i < n \<Longrightarrow> candidate_ok n s i"
  using assms by (auto simp: net_inv_def)

lemma net_invI:
  assumes "reachable n (base s)" "logs_ok n s" "sent_ok n s" "\<And>v. v \<in> entries s \<Longrightarrow> made n s v"
    "\<And>i. i < n \<Longrightarrow> node_inv (node s i)" "\<And>i. i < n \<Longrightarrow> queue_ok s i" "\<And>i. i < n \<Longrightarrow> leader_ok s i"
    "\<And>i. i < n \<Longrightarrow> candidate_ok n s i"
  shows "net_inv n s"
  using assms by (auto simp: net_inv_def)

lemma node_identity:
  assumes "n < 2147483648" "net_inv n s" "i < n"
  shows "me (node s i) = int i" "n_peers (node s i) = n"
  using cluster_invD(1)[OF reachable_inv[OF net_invD(1)[OF assms(2)] assms(1)] assms(3)] by (simp_all add: node_ok_def)

lemma elected_same: "elections rf' = elections (node s i) \<Longrightarrow> elected (set_node i rf' (base s)) = elected (base s)"
  by (intro ext) (auto simp: elected_def)

section \<open>Delivering a message\<close>

lemma heartbeat_net_inv:
  assumes n: "n < 2147483648" and inv: "net_inv n s" and i: "i < n" and m: "(i, args) \<in> net s"
    and run: "HeartBeat args zero_append_reply (node s i) = Inr (rf', reply, out)"
  shows "net_inv n (put i rf' s)"
proof -
  let ?rf = "node s i" and ?s = "put i rf' s"
  have L: "logs ?rf \<in> hist s" and wf: "\<And>P. P \<in> hist s \<Longrightarrow> log_wf P"
    and mt: "\<And>P Q. P \<in> hist s \<Longrightarrow> Q \<in> hist s \<Longrightarrow> matches P Q"
    using net_invD(2)[OF inv] i by (auto simp: logs_ok_def)
  obtain P where P: "P \<in> hist s" "window P args" using net_invD(3)[OF inv] m by (auto simp: sent_ok_def)
  have a: "args_wf args" using P(2) wf[OF P(1)] by (rule window_args_wf)
  have ninv: "node_inv rf'" using HeartBeat_node[OF net_invD(5)[OF inv i] a run] by simp
  have fr: "vote_frame ?rf rf'" using run by (rule HeartBeat_frame)
  then have els: "elections rf' = elections ?rf" by (simp add: vote_frame_def)
  note el = elected_same[OF els]
  note eff = HeartBeat_effect[OF net_invD(5)[OF inv i] wf[OF P(1)] P(2) mt[OF L P(1)] run]
  obtain c Q where Q: "Q \<in> hist s" "logs rf' = take c Q"
    using eff L P(1) by (metis take_all_iff order_refl)
  have ent: "entries ?s = entries s" using Q set_take_subset[of c Q] by (auto simp: entries_def)
  show ?thesis
  proof (rule net_invI)
    show "reachable n (base ?s)"
      using reachable.step[OF net_invD(1)[OF inv] net_step_cluster[OF net_step.heartbeat[OF i m run]]] .
    have "matches (logs rf') R" if "R \<in> hist s" for R using matches_take[OF mt[OF Q(1) that], of c] Q(2) by simp
    then show "logs_ok n ?s"
      using net_invD(2)[OF inv] ninv by (auto simp: logs_ok_def node_inv_def intro: matches_sym)
    show "sent_ok n ?s" using net_invD(3)[OF inv] by (auto simp: sent_ok_def el)
    show "made n ?s v" if "v \<in> entries ?s" for v
      using net_invD(4)[OF inv] that by (simp add: ent made_def el)
    show "node_inv (node ?s j)" if "j < n" for j using net_invD(5)[OF inv that] ninv by simp
    show "queue_ok ?s j" if "j < n" for j
      using net_invD(6)[OF inv that] eff by (auto simp: queue_ok_def ent el)
    show "leader_ok ?s j" if "j < n" for j
      using net_invD(7)[OF inv that] eff by (auto simp: leader_ok_def counted_def windows_def ent el)
    show "candidate_ok n ?s j" if "j < n" for j
    proof (cases "j = i")
      case False
      with net_invD(8)[OF inv that] show ?thesis by (simp add: candidate_ok_def el)
    next
      case True
      have old: "candidate_ok n s i" by (rule net_invD(8)[OF inv i])
      have won: "\<exists>c < n. c \<noteq> i \<and> elected (base s) c (ae_Term args)"
        using net_invD(3)[OF inv] m by (auto simp: sent_ok_def)
      from eff consider "logs rf' = logs ?rf" "currentTerm rf' = currentTerm ?rf"
        | "currentTerm ?rf \<le> ae_Term args" "currentTerm rf' = ae_Term args" by blast
      then show ?thesis
      proof cases
        case 1
        with old eff show ?thesis by (simp add: candidate_ok_def el els True)
      next
        case 2
        with old eff won show ?thesis by (fastforce simp: candidate_ok_def el els True)
      qed
    qed
  qed
qed

section \<open>A step of one server by itself\<close>

lemma own_net_inv:
  assumes n: "n < 2147483648" and inv: "net_inv n s" and i: "i < n"
    and st: "own_step (node s i) out ms rf'"
  shows "net_inv n (post ms (put i rf' s))"
proof -
  let ?rf = "node s i" and ?s = "post ms (put i rf' s)"
  have L: "logs ?rf \<in> hist s" and wf: "\<And>P. P \<in> hist s \<Longrightarrow> log_wf P"
    and mt: "\<And>P Q. P \<in> hist s \<Longrightarrow> Q \<in> hist s \<Longrightarrow> matches P Q"
    using net_invD(2)[OF inv] i by (auto simp: logs_ok_def)
  note me = node_identity[OF n inv i]
  have q: "queue_ok s i" and l: "leader_ok s i" and cand: "candidate_ok n s i"
    using net_invD(6-8)[OF inv i] by auto
  have lw: "isLeader ?rf \<longrightarrow> windows ?rf" using l by (simp add: leader_ok_def)
  have rd: "rdyChnl ?rf ! i = []" using cand by (simp add: candidate_ok_def)
  have eff: "own_effect i ?rf ms rf'"
    using own_step_effect[OF st net_invD(5)[OF inv i] lw rd me(1)] me(2) i by simp
  have ninv: "node_inv rf'" using node_step_inv[OF own_step_node[OF st] net_invD(5)[OF inv i]] by simp
  have fr: "vote_frame ?rf rf'" using own_step_local[OF st] by (rule local_step_frame)
  then have els: "elections rf' = elections ?rf" "currentTerm ?rf \<le> currentTerm rf'" "isLeader rf' \<Longrightarrow> isLeader ?rf"
    by (auto simp: vote_frame_def)
  note el = elected_same[OF els(1)]
  have uniq: "elected (base s) j t \<Longrightarrow> elected (base s) j' t \<Longrightarrow> j < n \<Longrightarrow> j' < n \<Longrightarrow> j = j'" for j j' t
    using elected_unique[OF n net_invD(1)[OF inv]] by blast
  obtain new rest added where mv: "logs rf' = logs ?rf @ new" "jobsChnl ?rf = new @ rest" "jobsChnl rf' = rest @ added"
    "new \<noteq> [] \<longrightarrow> jobs_sync ?rf" and ad: "added = [] \<and> logidx rf' = logidx ?rf \<or> isLeader ?rf \<and> logidx rf' = logidx ?rf + 1
          \<and> (\<exists>cmd. added = [\<lparr>Index = logidx ?rf + 1, Term = currentTerm ?rf, Cmd = cmd\<rparr>])"
    using eff by (auto simp: own_effect_def moves_log_def)
  have win: "isLeader rf' \<Longrightarrow> currentTerm rf' = currentTerm ?rf \<and> windows rf'" "rdyChnl rf' ! i = []"
    and sent: "(d, m) \<in> set ms \<Longrightarrow> isLeader ?rf \<and> window (logs ?rf) m \<and> ae_Term m = currentTerm ?rf \<and> d \<noteq> i" for d m
    using eff by (auto simp: own_effect_def)
  have ent: "entries ?s = entries s \<union> set new" using L by (auto simp: entries_def mv(1))
  have fresh: "elected (base s) i (Term v)" "w \<in> entries s \<Longrightarrow> entry_id v \<noteq> entry_id w" if "v \<in> set (jobsChnl ?rf)" for v w
    using q that by (auto simp: queue_ok_def)
  have wf': "log_wf (logs rf')" using ninv by (simp add: node_inv_def)
  have mt': "matches (logs rf') Q" if "Q \<in> hist s" for Q
    using matches_append[OF mt[OF L that]] wf' wf[OF that] fresh(2) that unfolding mv(1) mv(2)
    by (auto simp: entries_def)
  have apart: "entry_id v \<noteq> entry_id w" if "v \<in> set rest" "w \<in> set new" for v w
  proof -
    from that(2) mv(4) have "consecutive (int (length (logs ?rf))) (new @ rest)" by (auto simp: jobs_sync_def mv(2))
    from consecutive_nth[OF this] have ix: "Index (new ! k) = int (length (logs ?rf)) + int k" if "k < length new" for k
      using that by (metis length_append nth_append trans_less_add1)
    from \<open>consecutive _ (new @ rest)\<close> have "consecutive (int (length (logs ?rf)) + int (length new)) rest" by simp
    from consecutive_nth[OF this] ix that show ?thesis by (auto simp: entry_id_def in_set_conv_nth)
  qed
  have count: "isLeader ?rf \<Longrightarrow> v \<in> entries s \<union> set (jobsChnl ?rf) \<Longrightarrow> Term v = currentTerm ?rf \<Longrightarrow> Index v \<le> logidx ?rf" for v
    using l by (auto simp: leader_ok_def counted_def)
  show ?thesis
  proof (rule net_invI)
    show "reachable n (base ?s)"
      using reachable.step[OF net_invD(1)[OF inv] net_step_cluster[OF net_step.own[OF i st]]] .
    show "logs_ok n ?s"
      using net_invD(2)[OF inv] mt' wf' by (auto simp: logs_ok_def intro: matches_sym)
    have "\<exists>c < n. c \<noteq> d \<and> elected (base s) c (ae_Term m)" if "(d, m) \<in> set ms" for d m
      using sent[OF that] l i by (auto simp: leader_ok_def)
    then show "sent_ok n ?s" using net_invD(3)[OF inv] sent L by (fastforce simp: sent_ok_def el)
    show "made n ?s v" if "v \<in> entries ?s" for v
      using that net_invD(4)[OF inv] fresh(1)[of v] i by (auto simp: ent made_def el mv(2))
    show "node_inv (node ?s j)" if "j < n" for j using net_invD(5)[OF inv that] ninv by simp
    show "queue_ok ?s j" if j: "j < n" for j
    proof (cases "j = i")
      case False
      have "entry_id v \<noteq> entry_id w" if "v \<in> set (jobsChnl (node s j))" "w \<in> set new" for v w
      proof -
        have "elected (base s) j (Term v)" using net_invD(6)[OF inv j] that(1) by (simp add: queue_ok_def)
        moreover have "elected (base s) i (Term w)" using fresh(1)[of w] that(2) by (simp add: mv(2))
        ultimately show ?thesis using uniq[OF _ _ j i] False by (auto simp: entry_id_def)
      qed
      with net_invD(6)[OF inv j] False show ?thesis by (auto simp: queue_ok_def ent el)
    next
      case True
      have "elected (base s) i (Term v) \<and> (\<forall>w \<in> entries s \<union> set new. entry_id v \<noteq> entry_id w)" if "v \<in> set added" for v
        using ad that count l by (fastforce simp: leader_ok_def entry_id_def mv(2))
      then show ?thesis using True fresh apart by (auto simp: queue_ok_def ent el mv(2,3))
    qed
    show "leader_ok ?s j" if j: "j < n" for j
    proof (cases "j = i")
      case False
      have "Index v \<le> logidx (node s j)" if "isLeader (node s j)" "v \<in> set new" "Term v = currentTerm (node s j)" for v
        using net_invD(7)[OF inv j] that fresh(1)[of v] uniq[OF _ _ j i] False by (auto simp: leader_ok_def mv(2))
      with net_invD(7)[OF inv j] False show ?thesis by (auto simp: leader_ok_def counted_def ent el)
    next
      case True
      have "Index v \<le> logidx rf'" if "isLeader ?rf" "v \<in> entries s \<union> set new \<union> set (rest @ added)" "Term v = currentTerm ?rf" for v
        using that count[of v] ad by (auto simp: mv(2))
      then show ?thesis using l els(3) win(1) by (auto simp: leader_ok_def counted_def ent el mv(3) True)
    qed
    show "candidate_ok n ?s j" if "j < n" for j
    proof (cases "j = i")
      case False
      with net_invD(8)[OF inv that] show ?thesis by (simp add: candidate_ok_def el)
    next
      case True
      with cand els(2) win(2) show ?thesis by (fastforce simp: candidate_ok_def el els(1) mv(1))
    qed
  qed
qed

section \<open>A step of an election\<close>

definition same_log :: "raft \<Rightarrow> raft \<Rightarrow> bool" where
  "same_log rf rf' \<longleftrightarrow> logs rf' = logs rf \<and> jobsChnl rf' = jobsChnl rf \<and> logidx rf' = logidx rf"

lemma vote_same_log: "vote_step n b i rf' b' \<Longrightarrow> same_log (nodes b i) rf'"
  by (induction rule: vote_step.induct)
     (auto simp: same_log_def election_timeout_def RequestVote_def vote_reply_def tracker_recv_def tracker_timeout_def
       leader_init_def Let_def split: if_splits)

text \<open>What remains to be shown of a vote step is about the server that takes it.\<close>

lemma vote_net_inv_core:
  assumes n: "n < 2147483648" and inv: "net_inv n s" and st: "vote_step n (base s) i rf' b"
    and lead: "leader_ok (s\<lparr>base := b\<rparr>) i" and cand: "candidate_ok n (s\<lparr>base := b\<rparr>) i"
  shows "net_inv n (s\<lparr>base := b\<rparr>)"
proof -
  let ?s = "s\<lparr>base := b\<rparr>"
  have cinv: "cluster_inv n (base s)" by (rule reachable_inv[OF net_invD(1)[OF inv] n])
  obtain out where i: "i < n" and nodes: "nodes b = (nodes (base s))(i := rf')"
    and nst: "node_step (node s i) out [] rf'" using vote_step_node[OF st cinv] by blast
  have mono: "elected (base s) c t \<Longrightarrow> elected b c t" for c t by (rule vote_step_elected[OF st cinv])
  note same = vote_same_log[OF st, unfolded same_log_def]
  have ent: "entries ?s = entries s" by (simp add: entries_def)
  show ?thesis
  proof (rule net_invI)
    show "reachable n (base ?s)"
      using reachable.step[OF net_invD(1)[OF inv] vote_step_cluster[OF st]] by simp
    show "logs_ok n ?s" using net_invD(2)[OF inv] same by (auto simp: logs_ok_def nodes)
    show "sent_ok n ?s" using net_invD(3)[OF inv] mono by (fastforce simp: sent_ok_def)
    show "made n ?s v" if "v \<in> entries ?s" for v
      using net_invD(4)[OF inv] that mono by (auto simp: ent made_def)
    show "node_inv (node ?s j)" if "j < n" for j
      using net_invD(5)[OF inv that] node_step_inv[OF nst] by (cases "j = i") (simp_all add: nodes)
    show "queue_ok ?s j" if "j < n" for j
      using net_invD(6)[OF inv that] same mono by (auto simp: queue_ok_def ent nodes)
    show "leader_ok ?s j" if "j < n" for j
      using net_invD(7)[OF inv that] lead mono by (cases "j = i") (auto simp: leader_ok_def counted_def ent nodes)
    show "candidate_ok n ?s j" if "j < n" for j
      using net_invD(8)[OF inv that] cand mono by (cases "j = i") (fastforce simp: candidate_ok_def nodes)+
  qed
qed

text \<open>Most of them leave the leader alone or end its leadership.\<close>

lemma vote_leader_ok:
  assumes inv: "net_inv n s" and i: "i < n" and b: "node (s\<lparr>base := b\<rparr>) i = rf'"
    and mono: "\<forall>c t. elected (base s) c t \<longrightarrow> elected b c t" and same: "same_log (node s i) rf'"
    and lead: "isLeader rf' \<longrightarrow> isLeader (node s i) \<and> currentTerm rf' = currentTerm (node s i) \<and> rdyChnl rf' = rdyChnl (node s i)"
  shows "leader_ok (s\<lparr>base := b\<rparr>) i"
  using net_invD(7)[OF inv i] b mono same lead
  by (auto simp: leader_ok_def counted_def windows_def entries_def same_log_def)

text \<open>And most of them leave the elections alone but for the progress of one.\<close>

lemma vote_candidate_ok:
  assumes inv: "net_inv n s" and i: "i < n" and b: "node (s\<lparr>base := b\<rparr>) i = rf'"
    and mono: "\<forall>c t. elected (base s) c t \<longrightarrow> elected b c t" and same: "same_log (node s i) rf'"
    and fr: "currentTerm (node s i) \<le> currentTerm rf'" "rdyChnl rf' ! i = []"
    and els: "elections rf' = (elections (node s i))[k := e']"
    and e': "k < length (elections (node s i)) \<Longrightarrow> el_term e' = el_term (elections (node s i) ! k)
      \<and> el_lastLog e' = el_lastLog (elections (node s i) ! k)
      \<and> (phase e' = Counting \<longrightarrow> phase (elections (node s i) ! k) = Counting)"
  shows "candidate_ok n (s\<lparr>base := b\<rparr>) i"
proof -
  have old: "candidate_ok n s i" by (rule net_invD(8)[OF inv i])
  have terms: "map el_term (elections rf') = map el_term (elections (node s i))"
  proof (rule nth_equalityI)
    fix j assume "j < length (map el_term (elections rf'))"
    then show "map el_term (elections rf') ! j = map el_term (elections (node s i)) ! j"
      using e' by (cases "j = k") (simp_all add: els)
  qed (simp add: els)
  have "\<exists>d \<in> set (elections (node s i)). el_term e = el_term d \<and> el_lastLog e = el_lastLog d
      \<and> (phase e = Counting \<longrightarrow> phase d = Counting)" if e: "e \<in> set (elections rf')" for e
  proof -
    from e obtain j where j: "j < length (elections (node s i))" "e = elections rf' ! j"
      by (auto simp: in_set_conv_nth els)
    then show ?thesis
      using e' by (cases "j = k") (auto simp: els intro!: bexI[of _ "elections (node s i) ! j"])
  qed
  then show ?thesis using old terms fr mono same b unfolding candidate_ok_def same_log_def
    by simp (metis order_antisym order_trans)
qed

text \<open>The announcement of a leader.\<close>

lemma announce_net_inv:
  assumes n: "n < 2147483648" and inv: "net_inv n s" and i: "i < n"
    and run: "tracker_recv k (node s i) = Inr rf'" and fw: "fresh_win k (node s i) rf'"
    and win: "phase (elections rf' ! k) = Announced" "k < length (elections (node s i))"
      "phase (elections (node s i) ! k) = Counting"
  shows "leader_ok (s\<lparr>base := set_node i rf' (base s)\<rparr>) i"
proof -
  let ?rf = "node s i" and ?b = "set_node i rf' (base s)"
  let ?e = "elections ?rf ! k"
  let ?T = "currentTerm ?rf"
  have st: "vote_step n (base s) i rf' ?b" by (rule vote_step.count[OF i run fw])
  have cinv: "cluster_inv n (base s)" by (rule reachable_inv[OF net_invD(1)[OF inv] n])
  have T: "el_term ?e = ?T" and empty: "concat (rdyChnl ?rf) = []" using fw win(1) by (auto simp: fresh_win_def)
  define a where "a = \<lparr>ae_Term = el_term ?e, LeaderID = me ?rf, PrevLog = el_lastLog ?e, Entries = [], LeaderCommitIdx = el_commitIdx ?e\<rparr>"
  obtain c where vc: "votingChnl ?e = True # c" and v: "votes ?e + 1 = int (n_peers ?rf div 2)"
    using run win(2,3,1) by (auto simp: tracker_recv_def idx_def chan_recv_Inr Let_def split: if_splits)
  obtain h chs where chs: "send_rdy a (me ?rf) [0..<n_peers ?rf] (rdyChnl ?rf) = Inr chs"
    and rf': "rf' = ?rf\<lparr>heartBeatTimerReset := h, isLeader := True, rdyChnl := chs,
        elections := (elections ?rf)[k := ?e\<lparr>votingChnl := c, votes := votes ?e + 1, phase := Announced\<rparr>]\<rparr>"
    using run win(2,3) vc v by (auto simp: tracker_recv_def idx_def Let_def a_def)
  have won: "elected ?b i ?T"
    unfolding elected_def using win(2) T
    by (auto simp: rf' has_won_def intro!: bexI[OF _ set_update_memI])
  have mono: "elected (base s) c t \<Longrightarrow> elected ?b c t" for c t by (rule vote_step_elected[OF st cinv])
  have only: "c = i" if "c < n" "elected ?b c ?T" for c
    using elected_unique[OF n reachable.step[OF net_invD(1)[OF inv] vote_step_cluster[OF st]] that(1) i that(2) won] .
  have cand: "candidate_ok n s i" by (rule net_invD(8)[OF inv i])
  have nobody: "\<not> elected (base s) c ?T" if "c < n" for c
  proof
    assume w: "elected (base s) c ?T"
    then have "c = i" using only[OF that mono] by simp
    with w obtain e where e: "e \<in> set (elections ?rf)" "has_won e" "el_term e = ?T" by (auto simp: elected_def)
    then obtain j where j: "j < length (elections ?rf)" "e = elections ?rf ! j" by (auto simp: in_set_conv_nth)
    have "distinct (map el_term (elections ?rf))" using cand by (simp add: candidate_ok_def)
    then have "j = k" using j e(3) T win(2) by (simp add: distinct_conv_nth) (metis nth_map length_map)
    with e(2) j win(3) show False by (simp add: has_won_def)
  qed
  have "?e \<in> set (elections ?rf)" using win(2) by simp
  then have "el_lastLog ?e \<in> set (logs ?rf)"
    using cand nobody win(3) T unfolding candidate_ok_def by metis
  then have "window (logs ?rf) a"
    using net_invD(5)[OF inv i] by (intro window_member[where e = "el_lastLog ?e"]) (simp_all add: a_def node_inv_def)
  moreover have "set (concat chs) \<subseteq> {a}"
    using send_rdy_set[OF chs] net_invD(5)[OF inv i] empty by (simp add: node_inv_def)
  ultimately have "windows rf'" using T by (auto simp: windows_def rf' a_def)
  moreover have "Term v \<noteq> ?T" if "v \<in> entries s \<union> set (jobsChnl ?rf)" for v
  proof -
    have "1 \<le> ?T" using cand win(2) T unfolding candidate_ok_def by (metis nth_mem)
    then show ?thesis
      using that net_invD(4)[OF inv] net_invD(6)[OF inv i] nobody i by (fastforce simp: made_def queue_ok_def)
  qed
  ultimately show ?thesis using won by (auto simp: leader_ok_def counted_def entries_def rf')
qed

lemma quiet_votes:
  "election_timeout rf = Inr (rf', vargs) \<Longrightarrow> \<not> isLeader rf' \<and> rdyChnl rf' = rdyChnl rf"
  "RequestVote args zero_vote_reply rf = Inr (rf', r, out) \<Longrightarrow> keeps_term rf rf' \<Longrightarrow>
     (isLeader rf' \<longrightarrow> isLeader rf \<and> currentTerm rf' = currentTerm rf) \<and> rdyChnl rf' = rdyChnl rf"
  "vote_reply k r' rf = Inr rf' \<Longrightarrow>
     (isLeader rf' \<longrightarrow> isLeader rf \<and> currentTerm rf' = currentTerm rf) \<and> rdyChnl rf' = rdyChnl rf"
  "tracker_timeout k rf = Inr rf' \<Longrightarrow> isLeader rf' = isLeader rf \<and> currentTerm rf' = currentTerm rf \<and> rdyChnl rf' = rdyChnl rf"
  "leader_init k rf = Inr rf' \<Longrightarrow> isLeader rf' = isLeader rf \<and> currentTerm rf' = currentTerm rf \<and> rdyChnl rf' = rdyChnl rf"
  by (auto simp: election_timeout_def RequestVote_def keeps_term_def vote_reply_def tracker_timeout_def leader_init_def
      Let_def split: if_splits)

text \<open>One vote counted: either nothing but the count changes, or the server announces itself.\<close>

lemma count_cases:
  assumes "tracker_recv k rf = Inr rf'"
  obtains (counts) "isLeader rf' = isLeader rf" "rdyChnl rf' = rdyChnl rf"
  | (wins) "phase (elections rf' ! k) = Announced"
proof -
  let ?e = "elections rf ! k"
  from assms obtain b c where 1: "k < length (elections rf)" "phase ?e = Counting" "votingChnl ?e = b # c"
    by (auto simp: tracker_recv_def idx_Inr chan_recv_Inr split: if_splits)
  show thesis
  proof (cases "b \<and> votes ?e + 1 = int (n_peers rf div 2)")
    case True
    then have "phase (elections rf' ! k) = Announced"
      using assms 1 by (auto simp: tracker_recv_def idx_def Let_def)
    then show thesis by (rule wins)
  next
    case False
    then have "isLeader rf' = isLeader rf \<and> rdyChnl rf' = rdyChnl rf"
      using assms 1 by (auto simp: tracker_recv_def idx_def Let_def split: if_splits)
    then show thesis using counts by blast
  qed
qed

lemma tracker_lastLog:
  assumes "tracker_recv k rf = Inr rf'"
  shows "el_lastLog (elections rf' ! k) = el_lastLog (elections rf ! k)"
  using assms by (auto simp: tracker_recv_def idx_Inr Let_def split: if_splits)

lemmas send_rdy_me = send_rdy_self[where m = "int i" and i = i for i, OF _ HOL.refl]

lemma tracker_self: "tracker_recv k rf = Inr rf' \<Longrightarrow> me rf = int i \<Longrightarrow> rdyChnl rf' ! i = rdyChnl rf ! i"
  by (auto simp: tracker_recv_def Let_def split: if_splits dest!: send_rdy_me)

lemma vote_step_net_inv:
  assumes n: "n < 2147483648" and inv: "net_inv n s" and st: "vote_step n (base s) i rf' b"
  shows "net_inv n (s\<lparr>base := b\<rparr>)"
proof (rule vote_net_inv_core[OF n inv st])
  have cinv: "cluster_inv n (base s)" by (rule reachable_inv[OF net_invD(1)[OF inv] n])
  have i: "i < n" and nodes: "nodes b = (nodes (base s))(i := rf')" using vote_step_node[OF st cinv] by auto
  have b: "node (s\<lparr>base := b\<rparr>) i = rf'" by (simp add: nodes)
  have mono: "\<forall>c t. elected (base s) c t \<longrightarrow> elected b c t" using vote_step_elected[OF st cinv] by blast
  note same = vote_same_log[OF st]
  have cand: "candidate_ok n s i" by (rule net_invD(8)[OF inv i])
  have rd: "rdyChnl (node s i) ! i = []" using cand by (simp add: candidate_ok_def)
  have pos: "0 \<le> currentTerm (node s i)" using cluster_invD(1)[OF cinv i] by (simp add: node_ok_def)
  note lead = vote_leader_ok[OF inv i b mono same] and cok = vote_candidate_ok[OF inv i b mono same]
  have keep: "elections rf' = elections (node s i) \<Longrightarrow> elections rf' = (elections (node s i))[length (elections (node s i)) := undefined]"
    by (simp add: list_update_beyond)
  have "leader_ok (s\<lparr>base := b\<rparr>) i \<and> candidate_ok n (s\<lparr>base := b\<rparr>) i"
    using st
  proof (cases rule: vote_step.cases)
    case (timeout args)
    note eff = election_timeout_effect[OF timeout(4,3) pos]
    have "el_lastLog e \<in> set (logs rf')" if "e \<in> set (elections rf')" "el_term e = currentTerm rf'" for e
    proof -
      have "e \<notin> set (elections (node s i))" using that(2) eff(5) cand by (auto simp: candidate_ok_def)
      then have "el_lastLog e = Log args" using that(1) eff(9) by auto
      moreover have "logs (node s i) \<noteq> []" using net_invD(5)[OF inv i] log_wfD(1) by (auto simp: node_inv_def)
      moreover from this have "Log args = last (logs (node s i))"
        using timeout(4) by (auto simp: election_timeout_def Let_def split: if_splits)
      ultimately show ?thesis using same by (simp add: same_log_def)
    qed
    then have "candidate_ok n (s\<lparr>base := b\<rparr>) i"
      using cand eff pos quiet_votes(1)[OF timeout(4)] unfolding candidate_ok_def b by fastforce
    then show ?thesis using lead quiet_votes(1)[OF timeout(4)] by blast
  next
    case (deliver c k args reply out)
    note q = quiet_votes(2)[OF deliver(3,4)] and eff = RequestVote_effect(3,4)[OF deliver(3)]
    show ?thesis using lead cok[OF eff(2) _ keep[OF eff(1)]] q rd by simp
  next
    case (reply k v r)
    note q = quiet_votes(3)[OF reply(3)] and eff = vote_reply_effect[OF reply(3)]
    show ?thesis using lead cok[OF eff(3) _ eff(7)] q rd by simp
  next
    case (count k)
    from count(3) obtain e' where e: "k < length (elections (node s i))" "phase (elections (node s i) ! k) = Counting"
      "elections rf' = (elections (node s i))[k := e']" "el_term e' = el_term (elections (node s i) ! k)"
      "currentTerm rf' = currentTerm (node s i)"
      by (rule tracker_recv_effect)
    have "el_lastLog e' = el_lastLog (elections (node s i) ! k)" using tracker_lastLog[OF count(3)] e(1,3) by simp
    then have c: "candidate_ok n (s\<lparr>base := b\<rparr>) i"
      using tracker_self[OF count(3) node_identity(1)[OF n inv i]] rd e by (intro cok[OF _ _ e(3)]) simp_all
    show ?thesis using count(3)
    proof (cases rule: count_cases)
      case counts
      then show ?thesis using c lead e(5) by simp
    next
      case wins
      then show ?thesis using c announce_net_inv[OF n inv i count(3,4) wins e(1,2)] count(1) by simp
    qed
  next
    case (quit k)
    note q = quiet_votes(4)[OF quit(3)] and eff = tracker_timeout_effect[OF quit(3)]
    have "elections rf' = (elections (node s i))[k := (elections (node s i) ! k)\<lparr>phase := Quit\<rparr>]" unfolding eff(3) by simp
    then show ?thesis using lead cok[where k = k and e' = "(elections (node s i) ! k)\<lparr>phase := Quit\<rparr>"] q rd by simp
  next
    case (lead k)
    note q = quiet_votes(5)[OF lead(3)] and eff = leader_init_effect[OF lead(3)]
    show ?thesis using vote_leader_ok[OF inv i b mono same] cok[OF _ _ eff(8)] q rd by simp
  qed
  then show "leader_ok (s\<lparr>base := b\<rparr>) i" "candidate_ok n (s\<lparr>base := b\<rparr>) i" by blast+
qed

lemma net_step_inv: "net_step n s s' \<Longrightarrow> n < 2147483648 \<Longrightarrow> net_inv n s \<Longrightarrow> net_inv n s'"
proof (induction rule: net_step.induct)
  case (vote s i rf' b)
  then show ?case by (intro vote_step_net_inv)
next
  case (heartbeat i args s rf' reply out)
  then show ?case by (intro heartbeat_net_inv)
next
  case (own i s out ms rf')
  then show ?case by (intro own_net_inv)
qed

lemma net_init_inv:
  assumes "n < 2147483648"
  shows "net_inv n (init_network n)"
proof -
  let ?s = "init_network n"
  have nd: "node ?s i = Make n (int i) MakePersister" for i by (simp only: init_network_def init_cluster_def network.simps cluster.simps)
  have ent: "entries ?s = {zero_log}" by (simp add: init_network_def entries_def)
  show ?thesis
  proof (rule net_invI)
    show "reachable n (base ?s)" by (rule net_reach_cluster[OF net_reach.init])
    show "logs_ok n ?s" unfolding logs_ok_def nd by (simp add: init_network_def)
    show "sent_ok n ?s" by (simp add: init_network_def sent_ok_def)
    show "made n ?s v" if "v \<in> entries ?s" for v using that by (simp add: ent made_def)
    show "node_inv (node ?s i)" if "i < n" for i using assms that unfolding nd by (simp add: node_inv_def)
    show "queue_ok ?s i" for i unfolding queue_ok_def nd by simp
    show "leader_ok ?s i" for i unfolding leader_ok_def nd by simp
    show "candidate_ok n ?s i" if "i < n" for i using that unfolding candidate_ok_def nd by simp
  qed
qed

lemma net_reach_inv: "net_reach n s \<Longrightarrow> n < 2147483648 \<Longrightarrow> net_inv n s"
proof (induction rule: net_reach.induct)
  case init
  then show ?case by (rule net_init_inv)
next
  case (step s s')
  then show ?case by (intro net_step_inv[OF step(2)])
qed

section \<open>Log matching\<close>

lemma net_reach_matches:
  assumes "n < 2147483648" "net_reach n s"
  shows "i < n \<Longrightarrow> logs (node s i) \<in> hist s" "P \<in> hist s \<Longrightarrow> log_wf P"
    "P \<in> hist s \<Longrightarrow> Q \<in> hist s \<Longrightarrow> matches P Q"
  using net_invD(2)[OF net_reach_inv[OF assms(2,1)]] by (simp_all add: logs_ok_def)

text \<open>C3: Log matching: when the logs of two servers have entries of the same term at the same index, they are
  the same up to and including that index; this holds of any two logs that any servers ever
  had. For every run of the cluster without restarts in which a leader that refuses a candidate of
  a newer term ends its leadership (\<open>keeps_term\<close>), an election is announced in its own term and to
  empty channels (\<open>fresh_win\<close>), the dispatcher runs on a queue that continues the log
  (\<open>jobs_sync\<close>), and terms and log indices stay below the 32-bit limit. The code enforces none of
  these (\<open>two_leaders_in_one_term\<close>, \<open>stale_election_leads\<close>).\<close>
theorem log_matching:
  assumes "n < 2147483648" "net_reach n s"
  shows "(\<forall>i < n. logs (node s i) \<in> hist s)
    \<and> (\<forall>P \<in> hist s. \<forall>Q \<in> hist s. \<forall>k. k < length P \<longrightarrow> k < length Q \<longrightarrow> Term (P ! k) = Term (Q ! k) \<longrightarrow>
         take (Suc k) P = take (Suc k) Q)"
  using net_reach_matches[OF assms] by (simp only: matches_def) blast

section \<open>A run\<close>

text \<open>Server 0 is elected in term 1, appends a command and sends it; server 1 takes it over.\<close>

definition s0_ready :: raft where
  "s0_ready = s0_leader\<lparr>nextIndex := [1, 1, 1], matchIndex := [0, 0, 0],
     elections := [\<lparr>el_term = 1, el_lastLog = zero_log, el_commitIdx = 0, votes = 1, votingChnl = [], phase = Won\<rparr>]\<rparr>"

lemma run_init: "leader_init 0 s0_leader = Inr s0_ready"
  by (simp add: leader_init_def s0_leader_def s0_candidate_def s0_ready_def idx_def numeral_3_eq_3)

definition run_append :: append_entries_args where
  "run_append = \<lparr>ae_Term = 1, LeaderID = 0, PrevLog = zero_log, Entries = [run_job], LeaderCommitIdx = 0\<rparr>"

lemma run_start: "own_step s0_ready [] [] (s0_ready\<lparr>logidx := 1, jobsChnl := [run_job]\<rparr>)"
  by (rule own_step.start[of run_cmd _ _ 1 1 True])
     (simp_all add: Start_def s0_ready_def s0_leader_def s0_candidate_def run_job_def chan_send_def MAX_LOGS_def)

lemma run_dispatch: "\<exists>a. own_step (s0_ready\<lparr>logidx := 1, jobsChnl := [run_job]\<rparr>) [] [] a \<and> isLeader a \<and> nextIndex a = [1, 1, 1]
    \<and> logs a = [zero_log, run_job] \<and> rdyChnl a = [[], [run_announce, run_append], [run_announce, run_append]]"
proof -
  let ?a = "s0_ready\<lparr>logidx := 1, jobsChnl := [run_job]\<rparr>"
  have "jobs_sync ?a" by (simp add: jobs_sync_def s0_ready_def s0_leader_def s0_candidate_def run_job_def)
  moreover have "\<exists>a. job_step ?a = Inr a \<and> isLeader a \<and> nextIndex a = [1, 1, 1]
    \<and> logs a = [zero_log, run_job] \<and> rdyChnl a = [[], [run_announce, run_append], [run_announce, run_append]]"
    by (simp add: job_step_def idx_def s0_ready_def s0_leader_def s0_candidate_def run_job_def run_append_def run_announce_def
        maxEntriesPerBatch_def Let_def upt_three chan_send_def MAX_LOGS_def numeral_3_eq_3)
  ultimately show ?thesis using own_step.jobs by blast
qed

lemma run_send:
  assumes "isLeader a" "nextIndex a = [1, 1, 1]" "rdyChnl a = [[], m # ms, c]" "Index (PrevLog m) = 0"
  shows "own_step a [] [(1, m)] (a\<lparr>rdyChnl := [[], ms, c]\<rparr>)"
  by (rule own_step.send[where fits = False]) (use assms in \<open>simp add: peer_send_def idx_def Let_def\<close>)

lemma run_receive: "\<exists>b r out. HeartBeat run_append zero_append_reply (s1_voter\<lparr>heartBeatTimerReset := [], heartbeatTimer := False\<rparr>) = Inr (b, r, out)
    \<and> logs b = [zero_log, run_job]"
  by (simp add: HeartBeat_def s1_voter_def run_append_def run_job_def MAX_LOGS_def chan_send_def idx_def reslice_def
      follower_commit_def Let_def cong: go_bind_weak_cong)

lemma run_replicated: "\<exists>s. net_reach 3 s \<and> logs (node s 0) = [zero_log, run_job] \<and> logs (node s 1) = [zero_log, run_job]"
proof -
  obtain out1 where v1: "RequestVote run_vote0 zero_vote_reply (Make 3 1 MakePersister) = Inr (s1_voter, \<lparr>rvr_Term = 1, Voted = True\<rparr>, out1)"
    using run_b1 by blast
  obtain a where a: "own_step (s0_ready\<lparr>logidx := 1, jobsChnl := [run_job]\<rparr>) [] [] a" "isLeader a" "nextIndex a = [1, 1, 1]"
    "logs a = [zero_log, run_job]" "rdyChnl a = [[], [run_announce, run_append], [run_announce, run_append]]"
    using run_dispatch by blast
  obtain b r out where b: "HeartBeat run_append zero_append_reply (s1_voter\<lparr>heartBeatTimerReset := [], heartbeatTimer := False\<rparr>) = Inr (b, r, out)"
    "logs b = [zero_log, run_job]" using run_receive by blast
  let ?b0 = "init_cluster 3" and ?s0 = "init_network 3"
  let ?b1 = "add_grant 0 1 0 (send_calls 3 0 0 run_vote0 (set_node 0 s0_candidate ?b0))"
  let ?b2 = "add_grant 1 1 0 (set_call 0 0 1 (Answered \<lparr>rvr_Term = 1, Voted = True\<rparr>) (set_node 1 s1_voter ?b1))"
  let ?b3 = "set_call 0 0 1 (Done True) (set_node 0 s0_voted ?b2)"
  let ?b4 = "set_node 0 s0_leader ?b3" and ?b5 = "set_node 0 s0_ready (set_node 0 s0_leader ?b3)"
  have n0: "nodes ?b0 = (\<lambda>i. Make 3 (int i) MakePersister)" by (simp add: init_cluster_def)
  have base: "base ?s0 = ?b0" by (simp add: init_network_def)
  have "vote_step 3 ?b0 0 s0_candidate ?b1"
    using vote_step.timeout[of 0 3 ?b0 s0_candidate run_vote0] run_a1 by (simp add: n0 run_vote0_def)
  then have "net_step 3 ?s0 (?s0\<lparr>base := ?b1\<rparr>)" by (intro net_step.vote) (simp only: base)
  moreover have "vote_step 3 ?b1 1 s1_voter ?b2"
    using vote_step.deliver[of ?b1 0 0 1 run_vote0 s1_voter "\<lparr>rvr_Term = 1, Voted = True\<rparr>" out1 3] v1
    by (simp add: n0 run_vote0_def keeps_term_def s1_voter_def del: Make_simps)
  then have "net_step 3 (?s0\<lparr>base := ?b1\<rparr>) (?s0\<lparr>base := ?b2\<rparr>)" using net_step.vote[of 3 "?s0\<lparr>base := ?b1\<rparr>"] by simp
  moreover have "vote_step 3 ?b2 0 s0_voted ?b3"
    using vote_step.reply[of ?b2 0 0 1 "\<lparr>rvr_Term = 1, Voted = True\<rparr>" s0_voted 3] run_a2 by simp
  then have "net_step 3 (?s0\<lparr>base := ?b2\<rparr>) (?s0\<lparr>base := ?b3\<rparr>)" using net_step.vote[of 3 "?s0\<lparr>base := ?b2\<rparr>"] by simp
  moreover have "vote_step 3 ?b3 0 s0_leader ?b4"
    using vote_step.count[where i = 0 and n = 3 and s = ?b3 and k = 0 and rf' = s0_leader] run_a3
    by (simp add: fresh_win_def s0_voted_def s0_candidate_def numeral_3_eq_3)
  then have "net_step 3 (?s0\<lparr>base := ?b3\<rparr>) (?s0\<lparr>base := ?b4\<rparr>)" using net_step.vote[of 3 "?s0\<lparr>base := ?b3\<rparr>"] by simp
  moreover have "vote_step 3 ?b4 0 s0_ready ?b5"
    using vote_step.lead[where i = 0 and n = 3 and s = ?b4 and k = 0 and rf' = s0_ready] run_init by simp
  then have "net_step 3 (?s0\<lparr>base := ?b4\<rparr>) (?s0\<lparr>base := ?b5\<rparr>)" using net_step.vote[of 3 "?s0\<lparr>base := ?b4\<rparr>"] by simp
  ultimately have "net_reach 3 (?s0\<lparr>base := ?b5\<rparr>)" by (meson net_reach.intros)
  then obtain s5 where s5: "net_reach 3 s5" "node s5 0 = s0_ready" "node s5 1 = s1_voter" by (intro that[of "?s0\<lparr>base := ?b5\<rparr>"]) simp_all
  let ?s6 = "post [] (put 0 (s0_ready\<lparr>logidx := 1, jobsChnl := [run_job]\<rparr>) s5)"
  let ?s7 = "post [] (put 0 a ?s6)"
  let ?s8 = "post [(1, run_announce)] (put 0 (a\<lparr>rdyChnl := [[], [run_append], [run_announce, run_append]]\<rparr>) ?s7)"
  let ?s9 = "post [(1, run_append)] (put 0 (a\<lparr>rdyChnl := [[], [], [run_announce, run_append]]\<rparr>) ?s8)"
  let ?s10 = "post [] (put 1 (s1_voter\<lparr>heartBeatTimerReset := [], heartbeatTimer := False\<rparr>) ?s9)"
  let ?s11 = "put 1 b ?s10"
  have "net_step 3 s5 ?s6" using net_step.own[of 0 3 s5] run_start s5(2) by simp
  moreover have "net_step 3 ?s6 ?s7" using net_step.own[of 0 3 ?s6] a(1) by simp
  moreover have "own_step a [] [(1, run_announce)] (a\<lparr>rdyChnl := [[], [run_append], [run_announce, run_append]]\<rparr>)"
    by (rule run_send[OF a(2,3,5)]) (simp add: run_announce_def)
  then have "net_step 3 ?s7 ?s8" using net_step.own[of 0 3 ?s7] by simp
  moreover have "own_step (a\<lparr>rdyChnl := [[], [run_append], [run_announce, run_append]]\<rparr>) [] [(1, run_append)]
      (a\<lparr>rdyChnl := [[], [], [run_announce, run_append]]\<rparr>)"
    using run_send[of "a\<lparr>rdyChnl := [[], [run_append], [run_announce, run_append]]\<rparr>" run_append "[]" "[run_announce, run_append]"] a(2,3)
    by (simp add: run_append_def)
  then have "net_step 3 ?s8 ?s9" using net_step.own[of 0 3 ?s8] by simp
  moreover have "own_step s1_voter [] [] (s1_voter\<lparr>heartBeatTimerReset := [], heartbeatTimer := False\<rparr>)"
    by (rule own_step.reset) (simp add: hb_reset_def s1_voter_def)
  then have "net_step 3 ?s9 ?s10" using net_step.own[of 1 3 ?s9] s5(3) by simp
  moreover have "net_step 3 ?s10 ?s11"
    using net_step.heartbeat[of 1 3 run_append ?s10 b r out] b(1) by simp
  ultimately have "net_reach 3 ?s11" using s5(1) by (meson net_reach.step)
  then show ?thesis using a(4) b(2) by (intro exI[of _ ?s11]) simp
qed

theorem log_matching_witness:
  "\<exists>s. net_reach 3 s \<and> length (logs (node s 0)) = 2 \<and> length (logs (node s 1)) = 2
     \<and> take 2 (logs (node s 0)) = take 2 (logs (node s 1))"
proof -
  obtain s where s: "net_reach 3 s" "logs (node s 0) = [zero_log, run_job]" "logs (node s 1) = [zero_log, run_job]"
    using run_replicated by blast
  have n: "(3::nat) < 2147483648" by simp
  note lm = log_matching[OF n s(1)]
  have "logs (node s 0) \<in> hist s" "logs (node s 1) \<in> hist s" using conjunct1[OF lm] by simp_all
  with conjunct2[OF lm, THEN bspec, THEN bspec, THEN spec, of "logs (node s 0)" "logs (node s 1)" 1]
  have "take (Suc 1) (logs (node s 0)) = take (Suc 1) (logs (node s 1))" using s(2,3) by simp
  with s show ?thesis by (intro exI[of _ s]) simp
qed

text \<open>A leader that is not yet through with \<open>leader_init\<close> has \<open>nextIndex\<close> 0 from \<open>Make\<close>: the sender that is
  faster than that takes \<open>rf.logs[-1]\<close> and panics.\<close>

lemma send_before_init_panics: "peer_send fits 1 s0_leader = Inl IndexOutOfRange"
  by (simp add: peer_send_def s0_leader_def s0_candidate_def run_announce_def idx_def reslice_def Let_def)

text \<open>A server queued an entry of term 1 for server 1, lost its leadership and is elected again in term 3, with
  another entry at that index. The sender appends the old entry to \<open>rf.logs[nextIdx:...]\<close>, in the log's
  own array: the leader's log has the old entry again, and the new one is lost.\<close>

definition s0_again :: raft where
  "s0_again = s0_ready\<lparr>currentTerm := 3, logidx := 2,
     logs := [zero_log, run_job, \<lparr>Index = 2, Term = 3, Cmd = GStr ''c''\<rparr>],
     rdyChnl := [[], [\<lparr>ae_Term = 1, LeaderID = 0, PrevLog = run_job,
       Entries = [\<lparr>Index = 2, Term = 1, Cmd = GStr ''b''\<rparr>], LeaderCommitIdx = 0\<rparr>], []]\<rparr>"

lemma stale_send_overwrites:
  "peer_send fits 1 s0_again = Inr
     (s0_again\<lparr>rdyChnl := [[], [], []], logs := [zero_log, run_job, \<lparr>Index = 2, Term = 1, Cmd = GStr ''b''\<rparr>]\<rparr>,
      Some \<lparr>ae_Term = 1, LeaderID = 0, PrevLog = zero_log,
        Entries = [run_job, \<lparr>Index = 2, Term = 1, Cmd = GStr ''b''\<rparr>], LeaderCommitIdx = 0\<rparr>)"
  by (simp add: peer_send_def s0_again_def s0_ready_def s0_leader_def s0_candidate_def run_job_def idx_def reslice_def
      overwrite_def Let_def)

text \<open>The vote that makes the majority of term 1 comes when the server has given its vote to a candidate of
  term 2: it takes the leadership all the same, and appends to its log in term 2 what it was not elected for.\<close>

lemma stale_election_leads:
  "tracker_recv 0 (s0_voted\<lparr>currentTerm := 2, VotedFor := 1\<rparr>) = Inr (s0_leader\<lparr>currentTerm := 2, VotedFor := 1\<rparr>)"
  "\<exists>rf'. Start cmd (s0_leader\<lparr>currentTerm := 2, VotedFor := 1\<rparr>) = Inr (rf', 1, 2, True)"
  using run_a3
  by (simp_all add: tracker_recv_def s0_candidate_def s0_voted_def s0_leader_def run_announce_def idx_def chan_send_def Let_def
      MAX_LOGS_def upt_three numeral_3_eq_3 Start_def)

end
