(* ===== verification/NetworkNodes.thy ===== *)
theory NetworkNodes
  imports LogMatching
begin

text \<open>
  What the servers of a network do by themselves: every server's part of a run of the network is
  a run of \<open>RaftNode\<close>, whose assumption on the messages it receives is discharged here by what
  the other servers send; so everything proved of one server holds of each server of the cluster.
\<close>

text \<open>One step of the network is at most one step of each server.\<close>

lemma node_run_snoc: "node_run rf out msgs rf' \<Longrightarrow> node_step rf' out' msgs' rf'' \<Longrightarrow> \<exists>out msgs. node_run rf out msgs rf''"
  by (blast intro: node_run.step)

lemma net_step_node:
  assumes "net_step n s s'" "net_inv n s" "n < 2147483648"
  shows "node s' i = node s i \<or> (\<exists>out msgs. node_step (node s i) out msgs (node s' i))"
  using assms
proof (induction rule: net_step.induct)
  case (vote s j rf' b)
  have "cluster_inv n (base s)" using net_invD(1)[OF vote(2)] vote(3) by (intro reachable_inv)
  then show ?case using vote_step_node[OF vote(1)] by (cases "i = j") auto
next
  case (heartbeat j args s rf' reply out)
  obtain P where P: "P \<in> hist s" "window P args" using net_invD(3)[OF heartbeat(4)] heartbeat(2) by (auto simp: sent_ok_def)
  have "log_wf P" using net_invD(2)[OF heartbeat(4)] P(1) by (simp add: logs_ok_def)
  then have "args_wf args" using window_args_wf[OF P(2)] by blast
  from node_step.heartbeat[OF this heartbeat(3)] show ?case by (cases "i = j") auto
next
  case (own j s out ms rf')
  from own_step_node[OF own(2)] show ?case by (cases "i = j") auto
qed

lemma net_reach_node_run:
  assumes "net_reach n s" "n < 2147483648"
  shows "\<exists>out msgs. node_run (Make n (int i) MakePersister) out msgs (node s i)"
  using assms
proof (induction rule: net_reach.induct)
  case init
  have "node (init_network n) i = Make n (int i) MakePersister"
    by (simp only: init_network_def init_cluster_def network.simps cluster.simps)
  then show ?case by (metis node_run.refl)
next
  case (step s s')
  from net_step_node[OF step(2) net_reach_inv[OF step(1,4)] step(4), of i] show ?case
    using step(3)[OF step(4)] by (metis node_run_snoc)
qed

section \<open>Messages are signed by the leader that sends them\<close>

text \<open>What is new in the channels of a server names it as the leader, and what it sends names whom the
  message in the channel did.\<close>

definition signs :: "raft \<Rightarrow> raft \<Rightarrow> bool" where
  "signs rf rf' \<longleftrightarrow> (\<forall>a \<in> set (concat (rdyChnl rf')). a \<in> set (concat (rdyChnl rf)) \<or> LeaderID a = me rf)"

definition copies :: "raft \<Rightarrow> (nat \<times> append_entries_args) list \<Rightarrow> bool" where
  "copies rf ms \<longleftrightarrow> (\<forall>(d, m) \<in> set ms. \<exists>a \<in> set (concat (rdyChnl rf)). LeaderID m = LeaderID a)"

lemma signs_same: "rdyChnl rf' = rdyChnl rf \<Longrightarrow> signs rf rf' \<and> copies rf []"
  by (simp add: signs_def copies_def)

lemma send_rdy_signs:
  assumes "send_rdy a (me rf) [0..<n_peers rf] (rdyChnl rf) = Inr chs" "length (rdyChnl rf) = n_peers rf"
    "LeaderID a = me rf" "rdyChnl rf' = chs"
  shows "signs rf rf'"
  using send_rdy_set[OF assms(1)] assms(2-4) by (auto simp: signs_def)

lemma job_step_signs:
  assumes "node_inv rf" "jobs_sync rf" "job_step rf = Inr rf'"
  shows "signs rf rf'"
proof (cases "jobsChnl rf = []")
  case True
  then show ?thesis using assms(3) by (simp add: job_step_def signs_def)
next
  case False
  have ls: "log_wf (logs rf)" "length (rdyChnl rf) = n_peers rf" using assms(1) by (simp_all add: node_inv_def)
  have "isLeader rf \<Longrightarrow> send_rdy (job_args rf) (me rf) [0..<n_peers rf] (rdyChnl rf) = Inr (rdyChnl rf')"
    "\<not> isLeader rf \<Longrightarrow> rdyChnl rf' = rdyChnl rf"
    using assms(3) unfolding job_step_sends[OF ls(1) assms(2) False] go_bind_Inr by auto
  then show ?thesis using send_rdy_signs[OF _ ls(2)] signs_same by (cases "isLeader rf") (auto simp: job_args_def)
qed

lemma peer_send_signs:
  assumes "peer_send fits server rf = Inr (rf', msg)"
  shows "signs rf rf' \<and> copies rf (case msg of None \<Rightarrow> [] | Some m \<Rightarrow> [(server, m)])"
proof -
  obtain a c where srv: "server < length (rdyChnl rf)" and ch: "rdyChnl rf ! server = a # c"
    using assms by (auto simp: peer_send_def idx_Inr chan_recv_Inr)
  have mem: "set (a # c) \<subseteq> set (concat (rdyChnl rf))" using nth_mem[OF srv] unfolding ch set_concat by (rule Union_upper[OF imageI])
  have "rdyChnl rf' = (rdyChnl rf)[server := c]" and m: "\<And>m. msg = Some m \<Longrightarrow> LeaderID m = LeaderID a"
    using assms srv ch by (auto simp: peer_send_def idx_def Let_def split: if_splits)
  then have "signs rf rf'"
    using set_update_subset_insert[of "rdyChnl rf" server c] mem by (fastforce simp: signs_def)
  then show ?thesis using m mem by (auto simp: copies_def split: option.split intro!: bexI[of _ a])
qed

lemma hb_tick_signs:
  assumes "node_inv rf" "hb_tick rf = Inr rf'"
  shows "signs rf rf'"
proof -
  have "length (rdyChnl rf) = n_peers rf" using assms(1) by (simp add: node_inv_def)
  then show ?thesis
    using assms(2) nth_mem[of _ "rdyChnl rf"] by (fastforce simp: hb_tick_def Let_def signs_def split: if_splits)
qed

lemma own_step_signs:
  assumes "own_step rf out ms rf'" "node_inv rf"
  shows "signs rf rf' \<and> copies rf ms"
  using assms
proof (induction rule: own_step.induct)
  case (tick rf rf')
  then show ?case using hb_tick_signs by (simp add: copies_def)
next
  case (jobs rf rf')
  then show ?case using job_step_signs by (simp add: copies_def)
next
  case (send fits server rf rf' msg)
  then show ?case using peer_send_signs[OF send(1)] by simp
next
  case (skip fits server rf rf')
  then show ?case using peer_send_signs[OF skip(1)] by simp
next
  case (commit rf rf' out)
  then show ?case by (intro signs_same) (auto simp: commit_step_def Let_def split: if_splits)
next
  case (answer server args reply rf rf' out)
  then show ?case using peer_reply_quiet signs_same unfolding keeps_chans_def by blast
qed (use quiet_steps(2-6) signs_same in \<open>unfold keeps_chans_def, blast\<close>)+

lemma vote_step_signs:
  assumes "vote_step n b i rf' b'" "node_inv (nodes b i)"
  shows "signs (nodes b i) rf'"
  using assms
proof (induction rule: vote_step.induct)
  case (count i k s rf')
  have "length (rdyChnl (nodes s i)) = n_peers (nodes s i)" using count(4) by (simp add: node_inv_def)
  from count(2) send_rdy_signs[OF _ this] show ?case
    by (auto simp: tracker_recv_def Let_def signs_same split: if_splits)
qed (auto simp: quiet_votes signs_same)

definition signed :: "nat \<Rightarrow> network \<Rightarrow> bool" where
  "signed n s \<longleftrightarrow> (\<forall>i < n. \<forall>a \<in> set (concat (rdyChnl (node s i))). LeaderID a = int i)
     \<and> (\<forall>(d, m) \<in> net s. \<exists>c < n. c \<noteq> d \<and> LeaderID m = int c \<and> elected (base s) c (ae_Term m))"

lemma signed_step:
  assumes "net_step n s s'" "n < 2147483648" "net_inv n s" "signed n s"
  shows "signed n s'"
  using assms
proof (induction rule: net_step.induct)
  case (vote s i rf' b)
  have "cluster_inv n (base s)" using net_invD(1)[OF vote(3)] vote(2) by (intro reachable_inv)
  note b = vote_step_node[OF vote(1) this] vote_step_elected[OF vote(1) this]
  have "signs (node s i) rf'" using vote_step_signs[OF vote(1)] net_invD(5)[OF vote(3)] b(1) by blast
  then show ?case
    using vote(4) b node_identity(1)[OF vote(2,3)] by (fastforce simp: signed_def signs_def)
next
  case (heartbeat i args s rf' reply out)
  obtain P where P: "P \<in> hist s" "window P args" using net_invD(3)[OF heartbeat(5)] heartbeat(2) by (auto simp: sent_ok_def)
  have wf: "log_wf P" "matches (logs (node s i)) P" using net_invD(2)[OF heartbeat(5)] P(1) heartbeat(1) by (auto simp: logs_ok_def)
  have "rdyChnl rf' = rdyChnl (node s i)"
    using HeartBeat_effect[OF net_invD(5)[OF heartbeat(5,1)] wf(1) P(2) wf(2) heartbeat(3)] by simp
  moreover have "elections rf' = elections (node s i)" using HeartBeat_frame[OF heartbeat(3)] by (simp add: vote_frame_def)
  ultimately show ?case using heartbeat(6) by (auto simp: signed_def elected_same)
next
  case (own i s out ms rf')
  have inv: "node_inv (node s i)" and l: "leader_ok s i" and c: "candidate_ok n s i" using net_invD[OF own(4)] own(1) by auto
  note me = node_identity[OF own(3,4,1)] and sg = own_step_signs[OF own(2) inv]
  have "vote_frame (node s i) rf'" using own_step_local[OF own(2)] by (rule local_step_frame)
  then have el: "elected (set_node i rf' (base s)) = elected (base s)" by (intro elected_same) (simp add: vote_frame_def)
  have eff: "own_effect i (node s i) ms rf'"
    using own_step_effect[OF own(2) inv _ _ me(1)] l c me(2) own(1) by (simp add: leader_ok_def candidate_ok_def)
  have "d \<noteq> i \<and> LeaderID m = int i \<and> elected (base s) i (ae_Term m)" if m: "(d, m) \<in> set ms" for d m
  proof -
    obtain a where "a \<in> set (concat (rdyChnl (node s i)))" "LeaderID m = LeaderID a" using sg m unfolding copies_def by blast
    moreover from this have "LeaderID a = int i" using own(1,5) unfolding signed_def by blast
    moreover have "isLeader (node s i) \<and> ae_Term m = currentTerm (node s i) \<and> d \<noteq> i" using eff m unfolding own_effect_def by blast
    ultimately show ?thesis using l by (simp add: leader_ok_def)
  qed
  then have "\<exists>c < n. c \<noteq> d \<and> LeaderID m = int c \<and> elected (base s) c (ae_Term m)" if "(d, m) \<in> set ms \<union> net s" for d m
    using that own(1,5) unfolding signed_def by blast
  moreover have "\<forall>a \<in> set (concat (rdyChnl rf')). LeaderID a = int i" using sg own(1,5) me(1) unfolding signs_def signed_def by metis
  ultimately show ?case using own(5) by (auto simp: signed_def el)
qed

lemma net_reach_signed: "net_reach n s \<Longrightarrow> n < 2147483648 \<Longrightarrow> signed n s"
proof (induction rule: net_reach.induct)
  case init
  have "node (init_network n) i = Make n (int i) MakePersister" for i
    by (simp only: init_network_def init_cluster_def network.simps cluster.simps)
  moreover have "net (init_network n) = {}" by (simp add: init_network_def)
  ultimately show ?case by (simp add: signed_def)
next
  case (step s s')
  then show ?case using signed_step net_reach_inv by blast
qed

text \<open>C12: In a run of a cluster every server's log is well-formed (the sentinel first, each entry at the
  position its \<open>Index\<close> says), what it applied is what it committed, and every AppendEntries on the
  wire carries consecutive entries from its previous one on and names as \<open>LeaderID\<close> a server, not
  the receiver, that was elected in the message's term. For every run without restarts in which a
  leader that refuses a candidate of a newer term steps down (\<open>keeps_term\<close>), an election is
  announced in its own term and to empty channels (\<open>fresh_win\<close>), and the dispatcher runs on a
  queue that continues the log (\<open>jobs_sync\<close>).\<close>
theorem network_wellformed:
  assumes "n < 2147483648" "net_reach n s"
  shows "(\<forall>i < n. log_wf (logs (node s i)) \<and> 0 \<le> lastApplied (node s i) \<and> commitIdx (node s i) = lastApplied (node s i))
    \<and> (\<forall>d m. (d, m) \<in> net s \<longrightarrow> args_wf m \<and> (\<exists>c < n. c \<noteq> d \<and> LeaderID m = int c \<and> elected (base s) c (ae_Term m)))"
proof -
  note inv = net_reach_inv[OF assms(2,1)]
  have P: "\<exists>P \<in> hist s. window P m" if "(d, m) \<in> net s" for d m
    using net_invD(3)[OF inv] that unfolding sent_ok_def by blast
  have wf: "\<forall>P \<in> hist s. log_wf P" using net_invD(2)[OF inv] by (simp add: logs_ok_def)
  have "args_wf m" if "(d, m) \<in> net s" for d m using P[OF that] wf window_args_wf by blast
  moreover have "\<exists>c < n. c \<noteq> d \<and> LeaderID m = int c \<and> elected (base s) c (ae_Term m)" if "(d, m) \<in> net s" for d m
    using net_reach_signed[OF assms(2,1)] that unfolding signed_def by blast
  moreover have "node_inv (node s i)" if "i < n" for i using net_invD(5)[OF inv that] .
  ultimately show ?thesis unfolding node_inv_def by blast
qed

theorem network_wellformed_witness:
  "\<exists>s. net_reach 3 s \<and> length (logs (node s 1)) = 2 \<and> log_wf (logs (node s 1)) \<and> commitIdx (node s 1) = lastApplied (node s 1)"
proof -
  obtain s where s: "net_reach 3 s" "logs (node s 1) = [zero_log, run_job]" using run_replicated by blast
  have n: "(3::nat) < 2147483648" "(1::nat) < 3" by simp_all
  from network_wellformed[OF n(1) s(1)] n(2) have "log_wf (logs (node s 1))" "commitIdx (node s 1) = lastApplied (node s 1)" by blast+
  then show ?thesis using s by (intro exI[of _ s]) simp
qed

end
