(* ===== verification/RaftRestart.thy ===== *)
theory RaftRestart
  imports RaftVotes
begin

text \<open>
  Crash and restart: \<open>Make\<close> on the persister a server left behind. What \<open>persist\<close> saved comes
  back, provided every command in the log has a type that \<open>encoding/gob\<close> can encode; a vote
  that was granted to a candidate is therefore kept across a crash. The vote a candidate gives
  itself is not saved.
\<close>

definition restart :: "raft \<Rightarrow> raft" where
  "restart rf = Make (n_peers rf) (me rf) (persister rf)"

definition storable :: "raft_log list \<Rightarrow> bool" where
  "storable ls \<longleftrightarrow> list_all (\<lambda>e. gob_registered (Cmd e)) ls"

lemma persister_persist:
  "ReadRaftState (persister (persist rf)) =
     [GobInt32 (currentTerm rf), GobInt32 (VotedFor rf)] @ (if storable (logs rf) then [GobLogs (logs rf)] else [])"
  by (simp add: persist_def persister_defs gob_Encode_int32_def gob_Encode_logs_def storable_def)

text \<open>What persist saves, Make restores: term, vote, log and log index come back as they were, and
  the rest of the server starts from its initial values, as a follower that has applied nothing.\<close>
lemma persist_restart:
  assumes "storable (logs rf)" "log_wf (logs rf)" "in32 (me rf)"
  shows "let rf' = restart (persist rf) in
     currentTerm rf' = currentTerm rf \<and> VotedFor rf' = VotedFor rf \<and> logs rf' = logs rf
     \<and> logidx rf' = Index (last (logs rf)) \<and> me rf' = me rf \<and> n_peers rf' = n_peers rf
     \<and> \<not> isLeader rf' \<and> lastApplied rf' = 0 \<and> commitIdx rf' = 0 \<and> elections rf' = []
     \<and> persister rf' = persister (persist rf)"
  using assms persister_persist[of rf] log_wfD(3)[OF assms(2)] log_wfD(1)[OF assms(2)]
  by (simp add: restart_def Make_def readPersist_def i32_id)

lemma persist_restart_run:
  "logs (restart (persist ex_follower)) = ex_log \<and> currentTerm (restart (persist ex_follower)) = 1
     \<and> logidx (restart (persist ex_follower)) = 2"
proof -
  have "storable (logs ex_follower)" "in32 (me ex_follower)"
    by (simp_all add: storable_def ex_follower_def ex_log_def in32_def)
  from persist_restart[OF this(1) ex_facts(1) this(2)] show ?thesis
    by (simp add: Let_def ex_facts(6)) (simp add: ex_follower_def ex_log_def)
qed

text \<open>A log with a command that cannot be encoded is not saved at all: the restarted server has the
  term and the vote, and an empty log.\<close>

lemma unstorable_log_lost:
  "\<not> storable (logs rf) \<Longrightarrow> logs (restart (persist rf)) = [zero_log]
     \<and> currentTerm (restart (persist rf)) = currentTerm rf \<and> VotedFor (restart (persist rf)) = VotedFor rf"
  using persister_persist[of rf] by (simp add: restart_def Make_def readPersist_def)

text \<open>The persister holds the current term, vote and log.\<close>

definition saved :: "raft \<Rightarrow> bool" where
  "saved rf \<longleftrightarrow> ReadRaftState (persister rf) =
     [GobInt32 (currentTerm rf), GobInt32 (VotedFor rf)] @ (if storable (logs rf) then [GobLogs (logs rf)] else [])"

lemma saved_persist [simp]: "saved (persist rf)"
  by (simp add: saved_def persister_persist)

lemma RequestVote_saves:
  "RequestVote args zero_vote_reply rf = Inr (rf', r, out) \<Longrightarrow> saved rf' \<and> logs rf' = logs rf"
  by (auto simp: RequestVote_def Let_def split: if_splits)

lemma HeartBeat_saves: "HeartBeat args reply rf = Inr (rf', r, out) \<Longrightarrow> saved rf'"
  by (auto simp: HeartBeat_def Let_def split: if_splits option.splits)

lemma restart_saved:
  assumes "saved rf"
  shows "currentTerm (restart rf) = currentTerm rf" "VotedFor (restart rf) = VotedFor rf"
    "logs (restart rf) = (if storable (logs rf) then logs rf else [zero_log])" "rpcChnl (restart rf) = []"
  using assms by (auto simp: saved_def restart_def Make_def readPersist_def)

text \<open>C23: What a crash leaves of a follower: when it has answered a HeartBeat or a vote request and
  restarts on its persister, it has the term and the vote it answered with, it is no leader and
  has applied and committed nothing; and it has every entry of its log, the acknowledged ones in
  particular, when gob can encode the command of every entry, else none of them.\<close>
theorem crash_keeps:
  assumes "(\<exists>args reply out. HeartBeat args zero_append_reply rf = Inr (rf', reply, out))
    \<or> (\<exists>args reply out. RequestVote args zero_vote_reply rf = Inr (rf', reply, out))"
  shows "currentTerm (restart rf') = currentTerm rf' \<and> VotedFor (restart rf') = VotedFor rf'
    \<and> logs (restart rf') = (if \<forall>e \<in> set (logs rf'). gob_registered (Cmd e) then logs rf' else [zero_log])
    \<and> \<not> isLeader (restart rf') \<and> lastApplied (restart rf') = 0 \<and> commitIdx (restart rf') = 0"
proof -
  have "saved rf'" using assms HeartBeat_saves RequestVote_saves by blast
  from restart_saved[OF this] show ?thesis
    by (simp add: storable_def list_all_iff) (simp add: restart_def Make_def readPersist_def Let_def split: prod.split)
qed

theorem crash_keeps_witness:
  "\<exists>rf' r out. HeartBeat ex_args zero_append_reply ex_follower = Inr (rf', r, out) \<and> Success r
     \<and> logs (restart rf') = [zero_log, \<lparr>Index = 1, Term = 1, Cmd = GStr ''a''\<rparr>, \<lparr>Index = 2, Term = 2, Cmd = GStr ''c''\<rparr>]"
proof -
  obtain rf' r out where hb: "HeartBeat ex_args zero_append_reply ex_follower = Inr (rf', r, out)" "Success r"
    and ls: "logs rf' = [zero_log, \<lparr>Index = 1, Term = 1, Cmd = GStr ''a''\<rparr>, \<lparr>Index = 2, Term = 2, Cmd = GStr ''c''\<rparr>]"
    using ex_accept by blast
  have "logs (restart rf') = (if \<forall>e \<in> set (logs rf'). gob_registered (Cmd e) then logs rf' else [zero_log])"
    using crash_keeps[of ex_follower rf'] hb(1) by blast
  with hb ls show ?thesis by auto
qed

text \<open>C22: A server that granted its vote does not vote for anyone again in that term, or an older one,
  also when it crashes and restarts in between.\<close>
theorem vote_survives_restart:
  assumes "RequestVote args zero_vote_reply rf = Inr (rf1, r1, out1)" "Voted r1" "ID args \<noteq> -1"
    and "RequestVote args' zero_vote_reply (restart rf1) = Inr (rf2, r2, out2)"
    and "rv_Term args' \<le> rv_Term args"
  shows "\<not> Voted r2"
proof -
  note e1 = RequestVote_effect[OF assms(1)] and e2 = RequestVote_effect[OF assms(4)]
  note r = restart_saved[OF conjunct1[OF RequestVote_saves[OF assms(1)]]]
  have "\<not> rv_eligible args' (restart rf1)"
    using e1(6) assms(2,3,5) by (auto simp: rv_eligible_def r)
  then show ?thesis using e2(6) by blast
qed

theorem vote_survives_restart_witness:
  "\<exists>rf1 out1 rf2 r2 out2.
     RequestVote ex_request zero_vote_reply (Make 3 1 MakePersister) = Inr (rf1, \<lparr>rvr_Term = 1, Voted = True\<rparr>, out1)
     \<and> RequestVote (ex_request\<lparr>ID := 2\<rparr>) zero_vote_reply (restart rf1) = Inr (rf2, r2, out2) \<and> \<not> Voted r2"
proof -
  obtain rf1 out1 where 1: "RequestVote ex_request zero_vote_reply (Make 3 1 MakePersister) = Inr (rf1, \<lparr>rvr_Term = 1, Voted = True\<rparr>, out1)"
    using ex_request_granted by blast
  note r = restart_saved[OF conjunct1[OF RequestVote_saves[OF 1]]]
  have "\<exists>rf2 r2 out2. RequestVote (ex_request\<lparr>ID := 2\<rparr>) zero_vote_reply (restart rf1) = Inr (rf2, r2, out2)"
    using RequestVote_effect(6)[OF 1] RequestVote_saves[OF 1]
      RequestVote_eq[of "restart rf1" "ex_request\<lparr>ID := 2\<rparr>"]
    by (auto simp: r rv_grants_def rv_eligible_def ex_request_def MAX_LOGS_def storable_def)
  then obtain rf2 r2 out2 where 2: "RequestVote (ex_request\<lparr>ID := 2\<rparr>) zero_vote_reply (restart rf1) = Inr (rf2, r2, out2)"
    by blast
  have "\<not> Voted r2"
    by (rule vote_survives_restart[OF 1 _ _ 2]) (simp_all add: ex_request_def)
  with 1 2 show ?thesis by blast
qed

text \<open>
  The vote a candidate gives itself is not persisted: crashing as a candidate of term 1 and
  restarting, server 1 votes for server 0 in the same term.
\<close>

theorem self_vote_lost:
  "go_bind (election_timeout (Make 3 1 MakePersister)) (\<lambda>(rf, args).
   go_bind (RequestVote ex_request zero_vote_reply (restart rf)) (\<lambda>(rf', r, _).
   Inr (currentTerm rf, VotedFor rf, rv_Term args, r, VotedFor rf')))
   = Inr (1, 1, 1, \<lparr>rvr_Term = 1, Voted = True\<rparr>, 0)"
  by (simp add: election_timeout_def RequestVote_def restart_def ex_request_def chan_send_def MAX_LOGS_def idx_def
      Make_def readPersist_def persister_defs Let_def cong: go_bind_weak_cong)

end
