(* ===== verification/Goroutines.thy ===== *)
theory Goroutines
  imports RaftNode
begin

text \<open>
  The loops of the goroutines that \<open>Make\<close> starts, each with its \<open>select\<close>: one function per
  goroutine and one call per turn of its loop. Where several cases of a \<open>select\<close> are ready Go
  takes any, so the case taken is an argument; a case that is not ready is \<open>Blocked\<close>. The main
  loop is different: each of its three \<open>select\<close>s has a default, so it looks at the stop value,
  the RPC notices, the leadership and the timer in this order and never waits. A turn that talks
  to another server takes the answer as an argument; it is the two steps of \<open>RaftLoops\<close> with
  nothing in between. The Boolean of a result says whether the loop goes on.

  The second part is about waiting: the channels between the goroutines are bounded, and each of
  them may have to wait until another one makes room.
\<close>

section \<open>The loops\<close>

datatype timer_case = Timer_stop | Timer_reset | Timer_tick

fun timer_loop :: "timer_case \<Rightarrow> raft \<Rightarrow> (raft \<times> bool) go" where
  "timer_loop Timer_stop rf = go_bind (stop_observed rf) (\<lambda>rf. Inr (rf, False))"
| "timer_loop Timer_reset rf = go_bind (hb_reset rf) (\<lambda>rf. Inr (rf, True))"
| "timer_loop Timer_tick rf = go_bind (hb_tick rf) (\<lambda>rf. Inr (rf, True))"

text \<open>The dispatcher: \<open>polled\<close> is the case of the poll timer.\<close>

definition dispatcher_loop :: "bool \<Rightarrow> raft \<Rightarrow> (raft \<times> bool) go" where
  "dispatcher_loop polled rf =
     (if polled then go_bind (job_step rf) (\<lambda>rf. Inr (rf, True))
      else go_bind (stop_observed rf) (\<lambda>rf. Inr (rf, False)))"

definition updater_loop :: "bool \<Rightarrow> raft \<Rightarrow> (raft \<times> effect list \<times> bool) go" where
  "updater_loop received rf =
     (if received then go_bind (commit_step rf) (\<lambda>(rf, out). Inr (rf, out, True))
      else go_bind (stop_observed rf) (\<lambda>rf. Inr (rf, [], False)))"

text \<open>A peer's sender: \<open>call\<close> is the server behind the connection, with no answer in time as \<open>None\<close>.\<close>

definition sender_turn ::
  "bool \<Rightarrow> nat \<Rightarrow> (append_entries_args \<Rightarrow> bool option \<times> append_entries_reply) \<Rightarrow> raft \<Rightarrow> (raft \<times> effect list \<times> append_entries_args list) go" where
  "sender_turn fits server call rf =
     go_bind (peer_send fits server rf) (\<lambda>(rf, msg).
     case msg of
       None \<Rightarrow> Inr (rf, [], [])
     | Some a \<Rightarrow>
         let (answer, reply) = call a in
         if \<not> sendHeartBeat answer then Inr (rf, [], [a])
         else go_bind (peer_reply server a reply rf) (\<lambda>(rf, out). Inr (rf, out, [a])))"

definition sender_loop ::
  "bool \<Rightarrow> bool \<Rightarrow> nat \<Rightarrow> (append_entries_args \<Rightarrow> bool option \<times> append_entries_reply) \<Rightarrow> raft
   \<Rightarrow> (raft \<times> effect list \<times> append_entries_args list \<times> bool) go" where
  "sender_loop received fits server call rf =
     (if received then go_bind (sender_turn fits server call rf) (\<lambda>(rf, out, msgs). Inr (rf, out, msgs, True))
      else go_bind (stop_observed rf) (\<lambda>rf. Inr (rf, [], [], False)))"

text \<open>The main loop; \<open>fired\<close> says whether the election timer has fired.\<close>

definition main_loop :: "bool \<Rightarrow> raft \<Rightarrow> (raft \<times> request_vote_args option \<times> bool) go" where
  "main_loop fired rf =
     (if stopChnl rf \<noteq> [] then go_bind (stop_observed rf) (\<lambda>rf. Inr (rf, None, False))
      else if rpcChnl rf \<noteq> [] then go_bind (drain_rpc rf) (\<lambda>rf. Inr (rf, None, True))
      else if isLeader rf then Inr (rf, None, True)
      else if fired then go_bind (election_timeout rf) (\<lambda>(rf, args). Inr (rf, Some args, True))
      else Inr (rf, None, True))"

text \<open>The goroutine that counts the votes of election \<open>k\<close>; when it stops, its election is over.\<close>

datatype counter_case = Counter_stop | Counter_timer | Counter_vote

fun counter_loop :: "counter_case \<Rightarrow> nat \<Rightarrow> raft \<Rightarrow> (raft \<times> bool) go" where
  "counter_loop Counter_stop k rf = go_bind (stop_observed rf) (\<lambda>rf. go_bind (tracker_timeout k rf) (\<lambda>rf. Inr (rf, False)))"
| "counter_loop Counter_timer k rf = go_bind (tracker_timeout k rf) (\<lambda>rf. Inr (rf, False))"
| "counter_loop Counter_vote k rf =
     go_bind (tracker_recv k rf) (\<lambda>rf.
     go_bind (idx (elections rf) (int k)) (\<lambda>e.
     if phase e = Announced then go_bind (leader_init k rf) (\<lambda>rf. Inr (rf, False))
     else Inr (rf, phase e = Counting)))"

text \<open>The goroutine of one vote request.\<close>

definition vote_call :: "nat \<Rightarrow> bool option \<Rightarrow> request_vote_reply \<Rightarrow> raft \<Rightarrow> raft go" where
  "vote_call k answer reply rf = (if \<not> sendRequestVote answer then Inr rf else vote_reply k reply rf)"

section \<open>A turn is a run of the server's steps\<close>

inductive turn :: "raft \<Rightarrow> effect list \<Rightarrow> append_entries_args list \<Rightarrow> raft \<Rightarrow> bool" where
  timer: "timer_loop c rf = Inr (rf', on) \<Longrightarrow> turn rf [] [] rf'"
| dispatcher: "jobs_sync rf \<Longrightarrow> dispatcher_loop c' rf = Inr (rf', on) \<Longrightarrow> turn rf [] [] rf'"
| updater: "updater_loop c' rf = Inr (rf', out, on) \<Longrightarrow> turn rf out [] rf'"
| sender: "sender_loop c' fits server call rf = Inr (rf', out, msgs, on) \<Longrightarrow> turn rf out msgs rf'"
| main: "main_loop c' rf = Inr (rf', req, on) \<Longrightarrow> turn rf [] [] rf'"
| counter: "counter_loop c'' k rf = Inr (rf', on) \<Longrightarrow> turn rf [] [] rf'"
| voting: "vote_call k answer reply rf = Inr rf' \<Longrightarrow> turn rf [] [] rf'"

lemma node_run_one: "node_step rf out msgs rf' \<Longrightarrow> node_run rf out msgs rf'"
  using node_run.step[OF node_run.refl] by simp

lemma node_run_two: "node_step rf out msgs rf1 \<Longrightarrow> node_step rf1 out' msgs' rf' \<Longrightarrow> node_run rf (out @ out') (msgs @ msgs') rf'"
  using node_run.step[OF node_run_one] by simp

lemma sender_run:
  assumes "sender_turn fits server call rf = Inr (rf', out, msgs)"
  shows "node_run rf out msgs rf'"
proof -
  obtain rf1 msg where send: "peer_send fits server rf = Inr (rf1, msg)"
    and rest: "(case msg of None \<Rightarrow> Inr (rf1, [], [])
     | Some a \<Rightarrow> let (answer, reply) = call a in if \<not> sendHeartBeat answer then Inr (rf1, [], [a])
         else go_bind (peer_reply server a reply rf1) (\<lambda>(rf, out). Inr (rf, out, [a]))) = Inr (rf', out, msgs)"
    using assms by (auto simp: sender_turn_def elim!: go_bind_InrE)
  show ?thesis
  proof (cases msg)
    case None
    then show ?thesis using send rest by (auto intro: node_run_one node_step.skip)
  next
    case (Some a)
    obtain answer reply where c: "call a = (answer, reply)" by fastforce
    show ?thesis
    proof (cases "sendHeartBeat answer")
      case False
      then show ?thesis using send rest Some c by (auto intro: node_run_one node_step.send)
    next
      case True
      then obtain out' where "peer_reply server a reply rf1 = Inr (rf', out')" "out = out'" "msgs = [a]"
        using rest Some c by (auto simp: Let_def elim!: go_bind_InrE)
      then show ?thesis
        using node_run_two[OF node_step.send node_step.answer] send Some by fastforce
    qed
  qed
qed

lemma counter_run:
  assumes "counter_loop c k rf = Inr (rf', on)"
  shows "node_run rf [] [] rf'"
proof (cases c)
  case Counter_stop
  then obtain rf1 where "stop_observed rf = Inr rf1" "tracker_timeout k rf1 = Inr rf'"
    using assms by (auto elim!: go_bind_InrE)
  then show ?thesis using node_run_two[OF node_step.stop node_step.give_up] by fastforce
next
  case Counter_timer
  then show ?thesis using assms by (auto elim!: go_bind_InrE intro: node_run_one node_step.give_up)
next
  case Counter_vote
  then obtain rf1 e where r: "tracker_recv k rf = Inr rf1" "idx (elections rf1) (int k) = Inr e"
    "(if phase e = Announced then go_bind (leader_init k rf1) (\<lambda>rf. Inr (rf, False)) else Inr (rf1, phase e = Counting)) = Inr (rf', on)"
    using assms by (auto elim!: go_bind_InrE)
  show ?thesis
  proof (cases "phase e = Announced")
    case True
    then have "leader_init k rf1 = Inr rf'" using r(3) by (auto elim!: go_bind_InrE)
    then show ?thesis using node_run_two[OF node_step.count[OF r(1)] node_step.init] by fastforce
  next
    case False
    then show ?thesis using r(1,3) by (auto intro: node_run_one node_step.count)
  qed
qed

lemma turn_run: "turn rf out msgs rf' \<Longrightarrow> node_run rf out msgs rf'"
proof (induction rule: turn.induct)
  case (timer c rf rf' on)
  then show ?case
    by (cases c) (auto elim!: go_bind_InrE intro: node_run_one node_step.stop node_step.reset node_step.tick)
next
  case (dispatcher rf c' rf' on)
  then show ?case
    by (auto simp: dispatcher_loop_def split: if_splits elim!: go_bind_InrE intro: node_run_one node_step.stop node_step.jobs)
next
  case (updater c' rf rf' out on)
  then show ?case
    by (auto simp: updater_loop_def split: if_splits elim!: go_bind_InrE intro: node_run_one node_step.stop node_step.commit)
next
  case (sender c' fits server call rf rf' out msgs on)
  then show ?case
    by (auto simp: sender_loop_def split: if_splits elim!: go_bind_InrE intro: node_run_one node_step.stop sender_run)
next
  case (main c' rf rf' req on)
  then show ?case
    by (auto simp: main_loop_def split: if_splits elim!: go_bind_InrE
        intro: node_run_one node_run.refl node_step.stop node_step.drain node_step.timeout)
next
  case (counter c'' k rf rf' on)
  then show ?case by (rule counter_run)
next
  case (voting k answer reply rf rf')
  then show ?case by (auto simp: vote_call_def split: if_splits intro: node_run_one node_run.refl node_step.vote)
qed

section \<open>Waiting\<close>

text \<open>
  The bounded channels of a server with the goroutine that receives from each: the main loop, the
  heartbeat timer, the dispatcher, the sender of a peer, the updater. \<open>Take ch\<close> is its receive.
\<close>

datatype channel = Rpc | Reset | Jobs | Rdy nat | Commits

fun load :: "channel \<Rightarrow> raft \<Rightarrow> nat" where
  "load Rpc rf = length (rpcChnl rf)"
| "load Reset rf = length (heartBeatTimerReset rf)"
| "load Jobs rf = length (jobsChnl rf)"
| "load (Rdy i) rf = length (rdyChnl rf ! i)"
| "load Commits rf = length (commitIdxChnl rf)"

fun capacity :: "channel \<Rightarrow> nat" where
  "capacity Reset = 1"
| "capacity Commits = 512"
| "capacity _ = MAX_LOGS"

datatype operation =
    Take channel
  | Tick
  | Heartbeat append_entries_args append_entries_reply
  | Request request_vote_args request_vote_reply
  | Command gval
  | Answer nat append_entries_args append_entries_reply
  | Voted_reply nat request_vote_reply
  | Count nat

fun attempt :: "bool \<Rightarrow> operation \<Rightarrow> raft \<Rightarrow> raft go" where
  "attempt fits (Take Rpc) rf = drain_rpc rf"
| "attempt fits (Take Reset) rf = hb_reset rf"
| "attempt fits (Take Jobs) rf = job_step rf"
| "attempt fits (Take (Rdy i)) rf = go_bind (peer_send fits i rf) (\<lambda>(rf, _). Inr rf)"
| "attempt fits (Take Commits) rf = go_bind (commit_step rf) (\<lambda>(rf, _). Inr rf)"
| "attempt fits Tick rf = hb_tick rf"
| "attempt fits (Heartbeat a r) rf = go_bind (HeartBeat a r rf) (\<lambda>(rf, _). Inr rf)"
| "attempt fits (Request a r) rf = go_bind (RequestVote a r rf) (\<lambda>(rf, _). Inr rf)"
| "attempt fits (Command cmd) rf = go_bind (Start cmd rf) (\<lambda>(rf, _). Inr rf)"
| "attempt fits (Answer s a r) rf = go_bind (peer_reply s a r rf) (\<lambda>(rf, _). Inr rf)"
| "attempt fits (Voted_reply k r) rf = vote_reply k r rf"
| "attempt fits (Count k) rf = tracker_recv k rf"

text \<open>What an operation needs to begin: a value to receive, the ticker running, a vote to count; an
  election's channel has room for one answer of every other peer.\<close>

fun has_input :: "operation \<Rightarrow> raft \<Rightarrow> bool" where
  "has_input (Take (Rdy i)) rf \<longleftrightarrow> i < n_peers rf \<and> int i \<noteq> me rf \<and> rdyChnl rf ! i \<noteq> []"
| "has_input (Take ch) rf \<longleftrightarrow> 0 < load ch rf"
| "has_input Tick rf \<longleftrightarrow> heartbeatTimer rf"
| "has_input (Voted_reply k r) rf \<longleftrightarrow> k < length (elections rf) \<and> length (votingChnl (elections rf ! k)) < n_peers rf - 1"
| "has_input (Count k) rf \<longleftrightarrow> k < length (elections rf) \<and> phase (elections rf ! k) = Counting \<and> votingChnl (elections rf ! k) \<noteq> []"
| "has_input _ rf \<longleftrightarrow> True"

definition full :: "channel \<Rightarrow> raft \<Rightarrow> bool" where
  "full ch rf \<longleftrightarrow> capacity ch \<le> load ch rf \<and> has_input (Take ch) rf"

lemma never_wait [simp]: "idx xs i \<noteq> Inl Blocked" "reslice xs a b \<noteq> Inl Blocked"
  by (simp_all add: idx_def reslice_def)

lemma merge_entries_never_waits [simp]: "merge_entries ls n lst vs \<noteq> Inl Blocked"
  by (induction vs) (auto simp: go_bind_Inl)

lemma follower_commit_never_waits [simp]: "follower_commit args e rf \<noteq> Inl Blocked"
  by (auto simp: follower_commit_def go_bind_Inl Let_def)

lemma fill_entries_never_waits [simp]: "fill_entries p es js \<noteq> Inl Blocked"
  by (induction js arbitrary: es) (auto simp: go_bind_Inl Let_def)

lemma skip_back_never_waits [simp]: "skip_back ls t i \<noteq> Inl Blocked"
  by (induction i) auto

lemma send_rdy_waits:
  assumes "send_rdy a m is chs = Inl Blocked" "distinct is" "\<forall>i \<in> set is. i < length chs"
  shows "\<exists>i \<in> set is. int i \<noteq> m \<and> MAX_LOGS \<le> length (chs ! i)"
  using assms
proof (induction "is" arbitrary: chs)
  case Nil
  then show ?case by simp
next
  case (Cons i "is")
  show ?case
  proof (cases "m = int i \<or> MAX_LOGS \<le> length (chs ! i)")
    case True
    then show ?thesis using Cons by (cases "m = int i") auto
  next
    case False
    then have "send_rdy a m is (chs[i := chs ! i @ [a]]) = Inl Blocked"
      using Cons.prems(1) by (simp add: chan_send_room)
    then obtain j where j: "j \<in> set is" "int j \<noteq> m" "MAX_LOGS \<le> length (chs[i := chs ! i @ [a]] ! j)"
      using Cons.IH[of "chs[i := chs ! i @ [a]]"] Cons.prems(2,3) by auto
    moreover have "j \<noteq> i" using j(1) Cons.prems(2) by auto
    ultimately show ?thesis by auto
  qed
qed

lemmas waits_simps = go_bind_Inl chan_send_Inl chan_recv_Inl Let_def

text \<open>Whatever waits, waits for a full channel.\<close>

lemma HeartBeat_waits: "HeartBeat a r rf = Inl Blocked \<Longrightarrow> MAX_LOGS \<le> length (rpcChnl rf) \<or> 1 \<le> length (heartBeatTimerReset rf)"
  by (auto simp: HeartBeat_def waits_simps split: if_splits option.splits)

lemma RequestVote_waits: "RequestVote a r rf = Inl Blocked \<Longrightarrow> MAX_LOGS \<le> length (rpcChnl rf) \<or> 1 \<le> length (heartBeatTimerReset rf)"
  by (auto simp: RequestVote_def waits_simps split: if_splits)

lemma peer_reply_waits: "peer_reply s a r rf = Inl Blocked \<Longrightarrow> 512 \<le> length (commitIdxChnl rf) \<or> 1 \<le> length (heartBeatTimerReset rf)"
  by (auto simp: peer_reply_def waits_simps split: if_splits)

lemma job_step_waits:
  assumes "job_step rf = Inl Blocked" "length (rdyChnl rf) = n_peers rf"
  shows "\<exists>i < n_peers rf. int i \<noteq> me rf \<and> MAX_LOGS \<le> length (rdyChnl rf ! i)"
proof -
  obtain a where "send_rdy a (me rf) [0..<n_peers rf] (rdyChnl rf) = Inl Blocked"
    using assms(1) by (auto simp: job_step_def waits_simps split: list.splits if_splits)
  from send_rdy_waits[OF this] assms(2) show ?thesis by auto
qed

lemma vote_reply_waits:
  assumes "vote_reply k r rf = Inl Blocked" "k < length (elections rf)" "length (votingChnl (elections rf ! k)) < n_peers rf - 1"
  shows "1 \<le> length (heartBeatTimerReset rf)"
  using assms by (auto simp: vote_reply_def waits_simps idx_def split: if_splits)

lemma tracker_recv_waits:
  assumes "tracker_recv k rf = Inl Blocked" "k < length (elections rf)" "phase (elections rf ! k) = Counting"
    "votingChnl (elections rf ! k) \<noteq> []" "length (rdyChnl rf) = n_peers rf"
  shows "1 \<le> length (heartBeatTimerReset rf) \<or> (\<exists>i < n_peers rf. int i \<noteq> me rf \<and> MAX_LOGS \<le> length (rdyChnl rf ! i))"
proof (cases "1 \<le> length (heartBeatTimerReset rf)")
  case False
  then obtain a where "send_rdy a (me rf) [0..<n_peers rf] (rdyChnl rf) = Inl Blocked"
    using assms(1-4) by (auto simp: tracker_recv_def waits_simps idx_def split: if_splits)
  from send_rdy_waits[OF this] assms(5) show ?thesis by auto
qed simp

text \<open>The main loop, the timer, the senders and the updater never wait for room.\<close>

definition makes_room :: "bool \<Rightarrow> channel \<Rightarrow> raft \<Rightarrow> bool" where
  "makes_room fits ch rf \<longleftrightarrow> attempt fits (Take ch) rf \<noteq> Inl Blocked
     \<and> (\<forall>rf'. attempt fits (Take ch) rf = Inr rf' \<longrightarrow> load ch rf' < load ch rf)"

lemma peer_send_takes:
  assumes "i < length (rdyChnl rf)" "rdyChnl rf ! i \<noteq> []"
  shows "peer_send fits i rf \<noteq> Inl Blocked"
    and "peer_send fits i rf = Inr (rf', msg) \<Longrightarrow> length (rdyChnl rf' ! i) < length (rdyChnl rf ! i)"
  using assms
  by (auto simp: peer_send_def waits_simps idx_def chan_recv_Inr Let_def split: if_splits elim!: go_bind_InrE)

lemma commit_step_takes:
  assumes "commitIdxChnl rf \<noteq> []"
  shows "commit_step rf \<noteq> Inl Blocked"
    and "commit_step rf = Inr (rf', out) \<Longrightarrow> length (commitIdxChnl rf') < length (commitIdxChnl rf)"
  using assms by (auto simp: commit_step_def waits_simps chan_recv_Inr split: if_splits elim!: go_bind_InrE)

lemma receivers_move:
  assumes "has_input (Take ch) rf" "ch \<noteq> Jobs" "length (rdyChnl rf) = n_peers rf"
  shows "makes_room fits ch rf"
proof (cases ch)
  case Rpc
  then show ?thesis using assms(1) by (cases "rpcChnl rf") (auto simp: makes_room_def drain_rpc_def)
next
  case Reset
  then show ?thesis using assms(1) by (cases "heartBeatTimerReset rf") (auto simp: makes_room_def hb_reset_def Let_def)
next
  case (Rdy i)
  then have i: "i < length (rdyChnl rf)" "rdyChnl rf ! i \<noteq> []" using assms(1,3) by auto
  show ?thesis
    unfolding makes_room_def using peer_send_takes[OF i, of fits] by (auto simp: Rdy go_bind_Inl elim!: go_bind_InrE)
next
  case Commits
  then have c: "commitIdxChnl rf \<noteq> []" using assms(1) by simp
  show ?thesis
    unfolding makes_room_def using commit_step_takes[OF c] by (auto simp: Commits go_bind_Inl elim!: go_bind_InrE)
qed (use assms(2) in simp)

lemma job_step_takes:
  assumes "job_step rf = Inr rf'" "jobsChnl rf \<noteq> []"
  shows "length (jobsChnl rf') < length (jobsChnl rf)"
  using assms by (auto simp: job_step_def Let_def split: list.splits elim!: go_bind_InrE)

lemma rdy_full: "i < n_peers rf \<Longrightarrow> int i \<noteq> me rf \<Longrightarrow> MAX_LOGS \<le> length (rdyChnl rf ! i) \<Longrightarrow> full (Rdy i) rf"
  by (auto simp: full_def MAX_LOGS_def)

text \<open>
  The goroutines and what each of them does: the five kinds that \<open>Make\<close> starts, and \<open>Passing\<close> for
  the handlers, the vote requests and the vote counters, of which there may be any number.
\<close>

datatype goroutine = Main | Timer | Dispatcher | Updater | Sender nat | Passing nat

fun owner :: "channel \<Rightarrow> goroutine" where
  "owner Rpc = Main"
| "owner Reset = Timer"
| "owner Jobs = Dispatcher"
| "owner (Rdy i) = Sender i"
| "owner Commits = Updater"

fun does :: "goroutine \<Rightarrow> operation \<Rightarrow> bool" where
  "does g (Take ch) \<longleftrightarrow> g = owner ch"
| "does g Tick \<longleftrightarrow> g = Timer"
| "does g (Answer s a r) \<longleftrightarrow> g = Sender s"
| "does g _ \<longleftrightarrow> (\<exists>k. g = Passing k)"

text \<open>\<open>busy g\<close> is the operation \<open>g\<close> has begun, \<open>None\<close> when it is at its \<open>select\<close>.\<close>

definition begun :: "(goroutine \<Rightarrow> operation option) \<Rightarrow> raft \<Rightarrow> bool" where
  "begun busy rf \<longleftrightarrow> (\<forall>g op. busy g = Some op \<longrightarrow> does g op \<and> has_input op rf)"

text \<open>The goroutine that receives from \<open>ch\<close> does not wait: it finishes what it has begun, or takes a value.\<close>

definition goes_on :: "bool \<Rightarrow> (goroutine \<Rightarrow> operation option) \<Rightarrow> channel \<Rightarrow> raft \<Rightarrow> bool" where
  "goes_on fits busy ch rf \<longleftrightarrow> (case busy (owner ch) of
     Some op \<Rightarrow> attempt fits op rf \<noteq> Inl Blocked
   | None \<Rightarrow> makes_room fits ch rf)"

lemma owner_inj [simp]: "owner ch = owner ch' \<longleftrightarrow> ch = ch'" "owner ch \<noteq> Passing k"
  by (cases ch; cases ch'; simp) (cases ch; simp)

lemma does_owner:
  "does (owner ch) op \<longleftrightarrow> op = Take ch \<or> ch = Reset \<and> op = Tick \<or> (\<exists>i a r. ch = Rdy i \<and> op = Answer i a r)"
proof (cases op)
  case (Take c)
  then show ?thesis by auto
qed (cases ch; auto)+

lemma hb_tick_never_waits: "heartbeatTimer rf \<Longrightarrow> hb_tick rf \<noteq> Inl Blocked"
  by (auto simp: hb_tick_def waits_simps)

lemma makes_room_unblocked: "makes_room fits ch rf \<Longrightarrow> attempt fits (Take ch) rf \<noteq> Inl Blocked"
  by (simp add: makes_room_def)

text \<open>The main loop, the timer and the updater always go on, the senders unless one of these has to take something,
  and the dispatcher unless a sender has to.\<close>

lemma first_rank_goes_on:
  assumes "full ch rf" "begun busy rf" "length (rdyChnl rf) = n_peers rf" "ch \<in> {Rpc, Reset, Commits}"
  shows "goes_on fits busy ch rf"
proof -
  have room: "makes_room fits ch rf" using receivers_move[of ch rf] assms by (auto simp: full_def)
  show ?thesis
  proof (cases "busy (owner ch)")
    case (Some op)
    then have "does (owner ch) op" "has_input op rf" using assms(2) by (auto simp: begun_def)
    then show ?thesis
      using assms(4) Some makes_room_unblocked[OF room] hb_tick_never_waits by (auto simp: goes_on_def does_owner)
  qed (simp add: goes_on_def room)
qed

lemma sender_goes_on:
  assumes "full (Rdy i) rf" "begun busy rf" "length (rdyChnl rf) = n_peers rf"
  shows "\<exists>ch. full ch rf \<and> goes_on fits busy ch rf"
proof -
  have room: "makes_room fits (Rdy i) rf" using receivers_move[of "Rdy i" rf] assms by (auto simp: full_def)
  show ?thesis
  proof (cases "\<exists>op. busy (owner (Rdy i)) = Some op \<and> attempt fits op rf = Inl Blocked")
    case False
    with room assms(1) show ?thesis by (intro exI[of _ "Rdy i"]) (auto simp: goes_on_def split: option.split)
  next
    case True
    then obtain op where op: "busy (owner (Rdy i)) = Some op" "attempt fits op rf = Inl Blocked" by blast
    then have "does (owner (Rdy i)) op" using assms(2) by (auto simp: begun_def)
    then obtain a r where "op = Answer i a r" using op(2) makes_room_unblocked[OF room] unfolding does_owner by auto
    then have "512 \<le> length (commitIdxChnl rf) \<or> 1 \<le> length (heartBeatTimerReset rf)"
      using op(2) peer_reply_waits by (auto simp: go_bind_Inl)
    then have "full Commits rf \<or> full Reset rf" by (auto simp: full_def)
    then show ?thesis using first_rank_goes_on[OF _ assms(2,3)] by blast
  qed
qed

lemma dispatcher_goes_on:
  assumes "full Jobs rf" "begun busy rf" "length (rdyChnl rf) = n_peers rf"
  shows "\<exists>ch. full ch rf \<and> goes_on fits busy ch rf"
proof (cases "job_step rf = Inl Blocked")
  case False
  have "jobsChnl rf \<noteq> []" using assms(1) by (simp add: full_def)
  with False have room: "makes_room fits Jobs rf" using job_step_takes by (auto simp: makes_room_def)
  have "op = Take Jobs" if "busy (owner Jobs) = Some op" for op
    using that assms(2) does_owner[of Jobs op] by (auto simp: begun_def)
  with room False assms(1) show ?thesis by (intro exI[of _ Jobs]) (auto simp: goes_on_def split: option.split)
next
  case True
  obtain i where "i < n_peers rf" "int i \<noteq> me rf" "MAX_LOGS \<le> length (rdyChnl rf ! i)"
    using job_step_waits[OF True assms(3)] by blast
  then show ?thesis by (intro sender_goes_on[OF rdy_full assms(2,3)])
qed

lemma full_goes_on:
  assumes "full ch rf" "begun busy rf" "length (rdyChnl rf) = n_peers rf"
  shows "\<exists>ch. full ch rf \<and> goes_on fits busy ch rf"
  using first_rank_goes_on[OF assms] sender_goes_on[OF _ assms(2,3)] dispatcher_goes_on[OF _ assms(2,3)] assms(1)
  by (cases ch) blast+

lemma waits_for_full:
  assumes "attempt fits op rf = Inl Blocked" "has_input op rf" "length (rdyChnl rf) = n_peers rf"
  shows "\<exists>ch. full ch rf"
proof -
  have reset: "\<exists>ch. full ch rf" if "1 \<le> length (heartBeatTimerReset rf)"
    using that by (intro exI[of _ Reset]) (auto simp: full_def)
  have rpc: "\<exists>ch. full ch rf" if "MAX_LOGS \<le> length (rpcChnl rf)"
    using that by (intro exI[of _ Rpc]) (auto simp: full_def MAX_LOGS_def)
  have rdy: "\<exists>i < n_peers rf. int i \<noteq> me rf \<and> MAX_LOGS \<le> length (rdyChnl rf ! i) \<Longrightarrow> \<exists>ch. full ch rf"
    using rdy_full by blast
  show ?thesis
  proof (cases op)
    case (Take ch)
    then show ?thesis
      using assms receivers_move[of ch rf fits] job_step_waits rdy by (cases "ch = Jobs") (auto simp: makes_room_def)
  next
    case Tick
    then show ?thesis using assms by (auto simp: hb_tick_def waits_simps)
  next
    case (Heartbeat a r)
    then show ?thesis using assms HeartBeat_waits rpc reset by (auto simp: go_bind_Inl)
  next
    case (Request a r)
    then show ?thesis using assms RequestVote_waits rpc reset by (auto simp: go_bind_Inl)
  next
    case (Command cmd)
    then have "MAX_LOGS \<le> length (jobsChnl rf)" using assms by (auto simp: Start_def waits_simps split: if_splits)
    then show ?thesis by (intro exI[of _ Jobs]) (auto simp: full_def MAX_LOGS_def)
  next
    case (Answer s a r)
    then have "512 \<le> length (commitIdxChnl rf) \<or> 1 \<le> length (heartBeatTimerReset rf)"
      using assms peer_reply_waits by (auto simp: go_bind_Inl)
    then show ?thesis
    proof
      assume "512 \<le> length (commitIdxChnl rf)"
      then show ?thesis by (intro exI[of _ Commits]) (auto simp: full_def)
    qed (rule reset)
  next
    case (Voted_reply k r)
    then show ?thesis using assms vote_reply_waits reset by auto
  next
    case (Count k)
    then show ?thesis using assms tracker_recv_waits[of k rf] reset rdy by auto
  qed
qed

text \<open>C25: No deadlock among the goroutines and handlers of a server, each of which may be in the middle of an
  operation: when one of them waits, there is a full channel whose receiving goroutine does not
  wait, but finishes what it has begun, or takes a value from the channel.\<close>
theorem no_deadlock:
  assumes "\<forall>g op. busy g = Some op \<longrightarrow> does g op \<and> has_input op rf" "length (rdyChnl rf) = n_peers rf"
    and "busy g = Some op" "attempt fits op rf = Inl Blocked"
  shows "\<exists>ch. capacity ch \<le> load ch rf \<and> (case busy (owner ch) of
      Some op' \<Rightarrow> attempt fits op' rf \<noteq> Inl Blocked
    | None \<Rightarrow> attempt fits (Take ch) rf \<noteq> Inl Blocked
        \<and> (\<forall>rf'. attempt fits (Take ch) rf = Inr rf' \<longrightarrow> load ch rf' < load ch rf))"
proof -
  have b: "begun busy rf" using assms(1) by (simp add: begun_def)
  obtain ch where "full ch rf" using waits_for_full[OF assms(4) _ assms(2)] assms(1,3) by blast
  from full_goes_on[OF this b assms(2)] show ?thesis
    unfolding full_def goes_on_def makes_room_def by blast
qed

text \<open>A HeartBeat arrives while the timer's channel is full and the timer is about to tick.\<close>

theorem no_deadlock_witness:
  "\<exists>rf busy. busy (Passing 0) = Some (Heartbeat ex_args zero_append_reply) \<and> busy Timer = Some Tick
     \<and> attempt False (Heartbeat ex_args zero_append_reply) rf = Inl Blocked
     \<and> (\<exists>ch. capacity ch \<le> load ch rf)"
proof -
  define rf where "rf = (Make 3 0 MakePersister)\<lparr>heartBeatTimerReset := [False], heartbeatTimer := True\<rparr>"
  define busy where "busy = [Passing 0 \<mapsto> Heartbeat ex_args zero_append_reply, Timer \<mapsto> Tick]"
  have h: "attempt False (Heartbeat ex_args zero_append_reply) rf = Inl Blocked"
    by (simp add: rf_def HeartBeat_def ex_args_def MAX_LOGS_def chan_send_def idx_def Make_def readPersist_def persister_defs Let_def)
  have len: "length (rdyChnl rf) = n_peers rf" by (simp add: rf_def Make_def readPersist_def persister_defs)
  have begun: "\<forall>g op. busy g = Some op \<longrightarrow> does g op \<and> has_input op rf" by (auto simp: busy_def rf_def split: if_splits)
  have busy: "busy (Passing 0) = Some (Heartbeat ex_args zero_append_reply)" "busy Timer = Some Tick" by (simp_all add: busy_def)
  from no_deadlock[OF begun len busy(1) h] have "\<exists>ch. capacity ch \<le> load ch rf" by blast
  with h busy show ?thesis by blast
qed

end
