(* ===== verification/RaftRepair.thy ===== *)
theory RaftRepair
  imports RaftLeader
begin

text \<open>
  Log repair: a leader whose follower has another log. One round is a heartbeat tick, and then the
  sender of that follower, its \<open>HeartBeat\<close>, and the leader's treatment of the answer (\<open>exchange\<close>). A refused
  round lowers \<open>nextIndex\<close>, so a successful one comes after at most \<open>nextIndex\<close> rounds, and then
  the follower has the leader's log.
\<close>

definition settle :: "raft \<Rightarrow> raft go" where
  "settle F = go_bind (drain_rpc F) hb_reset"

definition exchange :: "nat \<Rightarrow> raft \<times> raft \<Rightarrow> (bool \<times> raft \<times> raft) go" where
  "exchange s LF =
     (let (L, F) = LF in
      go_bind (peer_send False s L) (\<lambda>(L, msg).
      case msg of
        None \<Rightarrow> Inr (False, L, F)
      | Some a \<Rightarrow>
          go_bind (HeartBeat a zero_append_reply F) (\<lambda>(F, r, _).
          go_bind (settle F) (\<lambda>F.
          go_bind (peer_reply s a r L) (\<lambda>(L, _). Inr (Success r, L, F))))))"

definition repair_round :: "nat \<Rightarrow> raft \<times> raft \<Rightarrow> (bool \<times> raft \<times> raft) go" where
  "repair_round s LF = (let (L, F) = LF in go_bind (hb_tick L) (\<lambda>L. exchange s (L, F)))"

text \<open>Rounds until the first success, at most \<open>k\<close> of them.\<close>

fun repair :: "nat \<Rightarrow> nat \<Rightarrow> raft \<times> raft \<Rightarrow> (bool \<times> raft \<times> raft) go" where
  "repair s 0 LF = Inr (False, LF)"
| "repair s (Suc k) LF =
     go_bind (repair_round s LF) (\<lambda>(ok, LF'). if ok then Inr (True, LF') else repair s k LF')"

section \<open>Backing up\<close>

lemma skip_back_result:
  assumes "Term (ls ! 0) < t"
  shows "\<exists>r \<le> i. skip_back ls t i = Inr r \<and> Term (ls ! r) < t \<and> (\<forall>j. r < j \<and> j \<le> i \<longrightarrow> t \<le> Term (ls ! j))"
proof (induction i)
  case 0
  with assms show ?case by simp
next
  case (Suc i)
  show ?case
  proof (cases "t \<le> Term (ls ! Suc i)")
    case True
    with Suc obtain r where "r \<le> i" "skip_back ls t i = Inr r" "Term (ls ! r) < t"
      "\<forall>j. r < j \<and> j \<le> i \<longrightarrow> t \<le> Term (ls ! j)" by blast
    with True show ?thesis by (intro exI[of _ r]) (auto simp: le_Suc_eq)
  next
    case False
    then show ?thesis by (intro exI[of _ "Suc i"]) auto
  qed
qed

text \<open>
  What waits for a peer: nothing, or one message that carries the log from some position on, a
  heartbeat of the ticker (from the end) or a batch of the dispatcher.
\<close>

definition tail_msg :: "raft \<Rightarrow> nat \<Rightarrow> int32 \<Rightarrow> append_entries_args" where
  "tail_msg L p c = \<lparr>ae_Term = currentTerm L, LeaderID = me L, PrevLog = logs L ! p,
     Entries = drop (p + 1) (logs L), LeaderCommitIdx = c\<rparr>"

definition queued :: "nat \<Rightarrow> raft \<Rightarrow> bool" where
  "queued s L \<longleftrightarrow> rdyChnl L ! s = [] \<or> (\<exists>p c. p < length (logs L) \<and> rdyChnl L ! s = [tail_msg L p c])"

text \<open>The leader's side, for one peer, and the follower's.\<close>

definition leads :: "nat \<Rightarrow> raft \<Rightarrow> bool" where
  "leads s L \<longleftrightarrow>
     isLeader L \<and> heartbeatTimer L \<and> s < n_peers L \<and> int s \<noteq> me L
     \<and> length (rdyChnl L) = n_peers L \<and> queued s L
     \<and> length (nextIndex L) = n_peers L \<and> length (matchIndex L) = n_peers L
     \<and> 1 \<le> nextIndex L ! s \<and> length (commitIdxChnl L) < 512
     \<and> log_wf (logs L) \<and> length (logs L) < 2147483647 \<and> 1 \<le> currentTerm L"

definition ready :: "int32 \<Rightarrow> raft \<Rightarrow> bool" where
  "ready t F \<longleftrightarrow> log_wf (logs F) \<and> length (logs F) < 2147483647 \<and> 0 \<le> lastApplied F
     \<and> rpcChnl F = [] \<and> heartBeatTimerReset F = [] \<and> currentTerm F \<le> t"

definition repair_inv :: "nat \<Rightarrow> raft \<Rightarrow> raft \<Rightarrow> bool" where
  "repair_inv s L F \<longleftrightarrow> leads s L \<and> ready (currentTerm L) F"

lemmas repair_defs = repair_inv_def leads_def ready_def

text \<open>The entry the leader tries to connect to, and the message of the round.\<close>

definition round_prev :: "nat \<Rightarrow> raft \<Rightarrow> nat" where
  "round_prev s L = (case rdyChnl L ! s of [] \<Rightarrow> length (logs L) - 1 | a # _ \<Rightarrow> nat (Index (PrevLog a)))"

definition round_commit :: "nat \<Rightarrow> raft \<Rightarrow> int32" where
  "round_commit s L = (case rdyChnl L ! s of [] \<Rightarrow> commitIdx L | a # _ \<Rightarrow> LeaderCommitIdx a)"

definition link :: "nat \<Rightarrow> raft \<Rightarrow> nat" where
  "link s L = (if nextIndex L ! s \<le> int (round_prev s L) then nat (nextIndex L ! s) - 1 else round_prev s L)"

definition round_msg :: "nat \<Rightarrow> raft \<Rightarrow> append_entries_args" where
  "round_msg s L = tail_msg L (link s L) (round_commit s L)"

lemma round_prev_bound:
  assumes "leads s L"
  shows "round_prev s L < length (logs L)"
  using assms log_wfD(1)[of "logs L"] log_wf_Index[of "logs L"]
  by (auto simp: round_prev_def leads_def queued_def tail_msg_def)

lemma link_bounds:
  assumes "leads s L"
  shows "link s L < length (logs L)" "int (link s L) < nextIndex L ! s"
  using assms round_prev_bound[of s L] by (auto simp: link_def leads_def)

lemma repair_leads: "repair_inv s L F \<Longrightarrow> leads s L"
  by (simp add: repair_inv_def)

lemma round_msg_wf:
  assumes "repair_inv s L F"
  shows "args_wf (round_msg s L)" "Index (PrevLog (round_msg s L)) = int (link s L)"
proof -
  have ls: "log_wf (logs L)" "length (logs L) < 2147483647" using assms by (auto simp: repair_defs)
  note b = link_bounds(1)[OF repair_leads[OF assms]]
  show i: "Index (PrevLog (round_msg s L)) = int (link s L)"
    using log_wf_Index[OF ls(1) b] by (simp add: round_msg_def tail_msg_def)
  have "consecutive (0 + int (link s L + 1)) (drop (link s L + 1) (logs L))"
    using log_wfD(4)[OF ls(1)] b by (intro consecutive_drop) auto
  then show "args_wf (round_msg s L)"
    using i b ls(2) by (auto simp: args_wf_def round_msg_def tail_msg_def algebra_simps)
qed

lemma tail_msg_upd [simp]:
  "tail_msg (L\<lparr>rdyChnl := chs\<rparr>) p c = tail_msg L p c" "tail_msg (L\<lparr>nextIndex := ns\<rparr>) p c = tail_msg L p c"
  by (simp_all add: tail_msg_def)

lemma queued_rdyChnl:
  assumes "queued t L" "logs L \<noteq> []"
    and "chs ! t = rdyChnl L ! t \<or> (\<exists>c. chs ! t = [tail_msg L (length (logs L) - 1) c])"
  shows "queued t (L\<lparr>rdyChnl := chs\<rparr>)"
proof -
  have "length (logs L) - 1 < length (logs L)" using assms(2) by simp
  then show ?thesis using assms(1,3) by (simp add: queued_def) metis
qed

lemma slice_rest: "n \<le> m \<Longrightarrow> m \<le> length xs \<Longrightarrow> drop n (take m xs) @ drop m xs = drop n xs"
  using drop_append[of n "take m xs" "drop m xs"] by simp

text \<open>The sender takes the message, and a tick before it makes sure that there is one.\<close>

lemma sender_sends:
  assumes "leads s L" "rdyChnl L ! s \<noteq> []"
  shows "peer_send False s L = Inr (L\<lparr>rdyChnl := (rdyChnl L)[s := []]\<rparr>, Some (round_msg s L))"
proof -
  have ls: "log_wf (logs L)" "logs L \<noteq> []" and L: "isLeader L" "s < n_peers L"
    "length (rdyChnl L) = n_peers L" "queued s L" "length (nextIndex L) = n_peers L" "1 \<le> nextIndex L ! s"
    "length (logs L) < 2147483647"
    using assms(1) by (auto simp: leads_def dest: log_wfD(1))
  let ?p = "round_prev s L"
  have p: "?p < length (logs L)" "Index (logs L ! ?p) = int ?p"
    using round_prev_bound[OF assms(1)] log_wf_Index[OF ls(1)] by auto
  have ch: "rdyChnl L ! s = [tail_msg L ?p (round_commit s L)]"
    using L assms(2) log_wf_Index[OF ls(1)] by (auto simp: queued_def round_commit_def round_prev_def tail_msg_def)
  show ?thesis
  proof (cases "nextIndex L ! s \<le> int ?p")
    case True
    then have n: "reslice (logs L) (nextIndex L ! s) (i32 (int ?p + 1)) = Inr (drop (nat (nextIndex L ! s)) (take (?p + 1) (logs L)))"
      "idx (logs L) (i32 (nextIndex L ! s - 1)) = Inr (logs L ! (nat (nextIndex L ! s) - 1))" "nat (i32 (int ?p + 1)) = ?p + 1"
      using L p by (auto simp: reslice_def idx_def nat_diff_distrib nat_add_distrib)
    have "overwrite (logs L) (?p + 1) (drop (?p + 1) (logs L)) = logs L"
      using p by (intro overwrite_same) auto
    moreover have "drop (nat (nextIndex L ! s)) (take (?p + 1) (logs L)) @ drop (?p + 1) (logs L) = drop (nat (nextIndex L ! s)) (logs L)"
      using True p(1) by (intro slice_rest) auto
    ultimately show ?thesis
      using True L ch p n
      by (simp add: peer_send_def idx_def[of "rdyChnl L"] idx_def[of "nextIndex L"] Let_def round_msg_def link_def tail_msg_def)
  next
    case False
    with L ch p ls show ?thesis
      by (simp add: peer_send_def idx_def[of "rdyChnl L"] idx_def[of "nextIndex L"] Let_def round_msg_def link_def tail_msg_def)
  qed
qed

lemma round_send:
  assumes lead: "leads s L"
  shows "\<exists>L1 chs. hb_tick L = Inr L1 \<and> peer_send False s L1 = Inr (L\<lparr>rdyChnl := chs\<rparr>, Some (round_msg s L))
    \<and> length chs = n_peers L \<and> chs ! s = [] \<and> (\<forall>t < n_peers L. queued t L \<longrightarrow> queued t (L\<lparr>rdyChnl := chs\<rparr>))"
proof -
  have ls: "log_wf (logs L)" "logs L \<noteq> []" and L: "heartbeatTimer L" "s < n_peers L" "int s \<noteq> me L"
    "length (rdyChnl L) = n_peers L" "queued s L"
    using lead by (auto simp: leads_def dest: log_wfD(1))
  let ?beat = "tail_msg L (length (logs L) - 1) (commitIdx L)"
  define chs where "chs = map (\<lambda>i. let ch = rdyChnl L ! i in if length ch \<noteq> 0 \<or> int i = me L then ch else ch @ [?beat]) [0..<n_peers L]"
  let ?L = "L\<lparr>rdyChnl := chs\<rparr>"
  have tick: "hb_tick L = Inr ?L"
    using L ls by (simp add: hb_tick_def chs_def tail_msg_def last_conv_nth Let_def)
  have chs: "length chs = n_peers L" "chs ! t = rdyChnl L ! t \<or> chs ! t = [?beat]" if "t < n_peers L" for t
    using that by (auto simp: chs_def Let_def)
  have q: "queued t (L\<lparr>rdyChnl := chs[s := []]\<rparr>)" "queued t ?L" if "t < n_peers L" "queued t L" for t
  proof -
    show "queued t ?L" using that chs ls(2) by (intro queued_rdyChnl) auto
    then show "queued t (L\<lparr>rdyChnl := chs[s := []]\<rparr>)" using chs(1)[OF that(1)] L(2) by (cases "t = s") (auto simp: queued_def)
  qed
  have s: "chs ! s \<noteq> []" "rdyChnl L ! s = [] \<Longrightarrow> chs ! s = [?beat]" "rdyChnl L ! s \<noteq> [] \<Longrightarrow> chs ! s = rdyChnl L ! s"
    using L by (auto simp: chs_def Let_def)
  have "leads s ?L" using lead q(2)[OF L(2,5)] chs(1)[OF L(2)] by (simp add: leads_def)
  from sender_sends[OF this] s(1)
  have send: "peer_send False s ?L = Inr (?L\<lparr>rdyChnl := chs[s := []]\<rparr>, Some (round_msg s ?L))" by simp
  have "round_prev s ?L = round_prev s L \<and> round_commit s ?L = round_commit s L"
  proof (cases "rdyChnl L ! s = []")
    case True
    have "nat (Index (logs L ! (length (logs L) - 1))) = length (logs L) - 1" using log_wf_Index[OF ls(1)] ls(2) by simp
    then show ?thesis by (simp add: round_prev_def round_commit_def s(2)[OF True] True) (simp add: tail_msg_def)
  next
    case False
    then show ?thesis by (simp add: round_prev_def round_commit_def s(3) split: list.split)
  qed
  then have "round_msg s ?L = round_msg s L" by (simp add: round_msg_def link_def)
  with send have "peer_send False s ?L = Inr (L\<lparr>rdyChnl := chs[s := []]\<rparr>, Some (round_msg s L))" by simp
  moreover have "length (chs[s := []]) = n_peers L" "chs[s := []] ! s = []" using chs(1)[OF L(2)] L(2) by simp_all
  moreover have "\<forall>t < n_peers L. queued t L \<longrightarrow> queued t (L\<lparr>rdyChnl := chs[s := []]\<rparr>)" using q(1) by blast
  ultimately show ?thesis using tick by blast
qed

section \<open>The answer\<close>

lemma refused_reply:
  assumes inv: "repair_inv s L F" and r: "\<not> Success r" "aer_Term r \<le> currentTerm L"
    and q: "0 \<le> Index (LastEntry r)" "Index (LastEntry r) < int (link s L)"
  shows "\<exists>m out. peer_reply s (round_msg s L) r (L\<lparr>rdyChnl := chs\<rparr>)
      = Inr (L\<lparr>rdyChnl := chs, nextIndex := (nextIndex L)[s := m]\<rparr>, out)
    \<and> 1 \<le> m \<and> m \<le> Index (LastEntry r) + 1"
proof -
  let ?q = "Index (LastEntry r)"
  have ls: "log_wf (logs L)" "1 \<le> currentTerm L" "length (logs L) < 2147483647" using inv by (auto simp: repair_defs)
  have b: "?q < int (length (logs L))" using q link_bounds(1)[OF repair_leads[OF inv]] by simp
  then have i: "idx (logs L) ?q = Inr (logs L ! nat ?q)" "i32 (?q + 1) = ?q + 1" using q ls by (auto simp: idx_def)
  have p: "Index (PrevLog (round_msg s L)) = int (link s L)" "ae_Term (round_msg s L) = currentTerm L"
    using round_msg_wf(2)[OF inv] by (simp_all add: round_msg_def tail_msg_def)
  have "Term (logs L ! 0) < currentTerm L" using log_wfD(2)[OF ls(1)] ls(2) by simp
  then obtain j where j: "j \<le> nat ?q" "skip_back (logs L) (currentTerm L) (nat ?q) = Inr j"
    using skip_back_result by blast
  then have ij: "i32 (int j + 1) = int j + 1" using b ls by (intro i32_small) auto
  show ?thesis
  proof (cases "1 < ?q \<and> Term (logs L ! nat ?q) \<noteq> Term (LastEntry r)")
    case True
    then show ?thesis
      using r q b i p j ij by (intro exI[of _ "int j + 1"]) (auto simp: peer_reply_def Let_def)
  next
    case False
    then show ?thesis
      using r q b i p by (intro exI[of _ "?q + 1"]) (auto simp: peer_reply_def Let_def)
  qed
qed

text \<open>An answer that the follower's log reaches up to \<open>m\<close>, at the leader.\<close>

definition acked :: "nat \<Rightarrow> int32 \<Rightarrow> raft \<Rightarrow> raft" where
  "acked s m L = (if matchIndex L ! s < m
     then L\<lparr>nextIndex := (nextIndex L)[s := i32 (m + 1)], matchIndex := (matchIndex L)[s := m], commitIdxChnl := commitIdxChnl L @ [m]\<rparr>
     else L\<lparr>nextIndex := (nextIndex L)[s := i32 (m + 1)]\<rparr>)"

lemma accepted_reply:
  assumes inv: "repair_inv s L F" and r: "Success r"
  shows "\<exists>out. peer_reply s (round_msg s L) r (L\<lparr>rdyChnl := chs\<rparr>) = Inr (acked s (Index (LastEntry r)) (L\<lparr>rdyChnl := chs\<rparr>), out)"
  using inv r by (auto simp: repair_defs peer_reply_def acked_def Let_def idx_def chan_send_def)

text \<open>What a successful round leaves, and what a refused one.\<close>

definition accepted_round :: "nat \<Rightarrow> raft \<Rightarrow> raft \<Rightarrow> raft \<Rightarrow> bool" where
  "accepted_round s L F F' \<longleftrightarrow>
     link s L < length (logs F) \<and> Term (logs F ! link s L) = Term (logs L ! link s L)
     \<and> logs F' = merge_ref (logs F) (link s L + 1) (drop (link s L + 1) (logs L))
     \<and> (if advances (round_msg s L) F (length (logs F'))
        then commitIdx F' = new_commit (round_msg s L) (length (logs F')) \<and> lastApplied F' = commitIdx F'
        else commitIdx F' = commitIdx F \<and> lastApplied F' = lastApplied F)"

definition refused_round :: "nat \<Rightarrow> raft \<Rightarrow> raft \<Rightarrow> int32 \<Rightarrow> raft \<Rightarrow> bool" where
  "refused_round s L F m F' \<longleftrightarrow> (length (logs F) \<le> link s L \<or> Term (logs F ! link s L) \<noteq> Term (logs L ! link s L))
     \<and> 1 \<le> m \<and> m < nextIndex L ! s \<and> (\<exists>n. logs F' = take n (logs F))
     \<and> commitIdx F' = commitIdx F \<and> lastApplied F' = lastApplied F"

text \<open>The follower's part of a round.\<close>

lemma settle_frame:
  assumes "rpcChnl F = [OK]" "heartBeatTimerReset F = [False]"
  shows "settle F = Inr (F\<lparr>rpcChnl := [], heartBeatTimerReset := [], heartbeatTimer := False\<rparr>)"
  using assms by (simp add: settle_def drain_rpc_def hb_reset_def Let_def)

lemma round_follower:
  assumes inv: "repair_inv s L F"
  shows "\<exists>F1 r out. HeartBeat (round_msg s L) zero_append_reply F = Inr (F1, r, out)
    \<and> rpcChnl F1 = [OK] \<and> heartBeatTimerReset F1 = [False] \<and> currentTerm F1 = currentTerm L
    \<and> log_wf (logs F1) \<and> 0 \<le> lastApplied F1 \<and> length (logs F1) < 2147483647 \<and> aer_Term r \<le> currentTerm L
    \<and> (if Success r then accepted_round s L F F1 \<and> LastEntry r = last (logs F1)
       else commitIdx F1 = commitIdx F \<and> lastApplied F1 = lastApplied F \<and> (\<exists>n. logs F1 = take n (logs F))
         \<and> (length (logs F) \<le> link s L \<or> Term (logs F ! link s L) \<noteq> Term (logs L ! link s L))
         \<and> 0 \<le> Index (LastEntry r) \<and> Index (LastEntry r) < int (link s L))"
proof -
  let ?a = "round_msg s L"
  have F: "log_wf (logs F)" "0 \<le> lastApplied F" "length (logs F) < 2147483647" "rpcChnl F = []"
    "heartBeatTimerReset F = []" "currentTerm F \<le> currentTerm L" and L: "log_wf (logs L)" "length (logs L) < 2147483647"
    using inv by (auto simp: repair_defs)
  note a = round_msg_wf[OF inv]
  have sel: "ae_Term ?a = currentTerm L" "Term (PrevLog ?a) = Term (logs L ! link s L)" "Entries ?a = drop (link s L + 1) (logs L)"
    by (simp_all add: round_msg_def tail_msg_def)
  have room: "hb_room F" "\<not> hb_stale ?a F" using F sel by (simp_all add: hb_room_def MAX_LOGS_def hb_stale_def)
  consider (missing) "hb_missing ?a F" | (conflict) "hb_conflict ?a F" | (accept) "\<not> hb_missing ?a F" "\<not> hb_conflict ?a F" by blast
  then show ?thesis
  proof cases
    case missing
    have "length (logs F) \<le> link s L" "logs F \<noteq> []" using missing a(2) log_wfD(1)[OF F(1)] by (auto simp: hb_missing_def)
    then have "int (length (logs F)) - 1 < int (link s L)" "0 < length (logs F)" by auto
    then show ?thesis
      using HeartBeat_missing[OF F(1) a(1) room missing, of zero_append_reply] F sel
      by (auto simp: hb_follow_def intro: exI[of _ "length (logs F)"])
  next
    case conflict
    note cut = hb_cut_bounds[OF conflict, unfolded a(2)]
    have "0 < link s L"
    proof (rule ccontr)
      assume "\<not> 0 < link s L"
      with conflict a(2) sel(2) log_wfD(2)[OF F(1)] log_wfD(2)[OF L(1)] show False by (auto simp: hb_conflict_def)
    qed
    then have "int (hb_cut ?a F) \<le> int (link s L)" using cut(3) by simp
    moreover have "Index (logs F ! (hb_cut ?a F - 1)) = int (hb_cut ?a F) - 1"
      using cut log_wf_Index[OF F(1), of "hb_cut ?a F - 1"] by auto
    moreover have "log_wf (take (hb_cut ?a F) (logs F))" using cut F(1) by (intro log_wf_take) auto
    moreover have "Term (logs F ! link s L) \<noteq> Term (logs L ! link s L)" using conflict a(2) sel(2) by (simp add: hb_conflict_def)
    ultimately show ?thesis
      using HeartBeat_conflict[OF F(1) a(1) room conflict, of zero_append_reply] F sel cut
      by (auto simp: hb_follow_def)
  next
    case accept
    let ?ls = "merge_ref (logs F) (link s L + 1) (drop (link s L + 1) (logs L))"
    have m: "hb_merged ?a F = ?ls" using a(2) sel by (simp add: hb_merged_def)
    have k: "link s L < length (logs F)" "Term (logs F ! link s L) = Term (logs L ! link s L)"
      using accept a(2) sel by (auto simp: hb_tests)
    have len: "length ?ls < 2147483647"
      using length_merge_ref_le[of "logs F" "link s L + 1" "drop (link s L + 1) (logs L)"] F(3) L(2) link_bounds(1)[OF repair_leads[OF inv]] by auto
    have wf: "log_wf ?ls"
      using F(1) args_wfD(3,4)[OF a(1)] k(1) a(2) sel by (intro merge_ref_wf) auto
    define F1 where "F1 = persist (if advances ?a F (length ?ls)
        then (hb_follow ?a F)\<lparr>logs := ?ls, logidx := int (length ?ls) - 1, lastApplied := new_commit ?a (length ?ls), commitIdx := new_commit ?a (length ?ls)\<rparr>
        else (hb_follow ?a F)\<lparr>logs := ?ls, logidx := int (length ?ls) - 1\<rparr>)"
    define r where "r = \<lparr>aer_Term = currentTerm F, Success = True, LastEntry = last ?ls\<rparr>"
    obtain out where "HeartBeat ?a zero_append_reply F = Inr (F1, r, out)"
      using HeartBeat_accept[OF F(1) a(1) room(1) F(2) room(2) accept, of zero_append_reply]
      by (simp add: m Let_def F1_def r_def)
    moreover have "0 \<le> lastApplied F1" "rpcChnl F1 = [OK]" "heartBeatTimerReset F1 = [False]"
      "currentTerm F1 = currentTerm L" "logs F1 = ?ls"
      using F sel by (simp_all add: F1_def hb_follow_def advances_def)
    moreover have "if advances ?a F (length ?ls) then commitIdx F1 = new_commit ?a (length ?ls) \<and> lastApplied F1 = commitIdx F1
        else commitIdx F1 = commitIdx F \<and> lastApplied F1 = lastApplied F"
      by (simp add: F1_def)
    moreover have "Success r" "aer_Term r = currentTerm F" "LastEntry r = last ?ls" by (simp_all add: r_def)
    ultimately show ?thesis using F(6) k len wf by (intro exI[of _ F1] exI[of _ r] exI[of _ out]) (simp add: accepted_round_def)
  qed
qed

section \<open>Rounds\<close>

lemma exchange_cases:
  assumes inv: "repair_inv s L F" and send: "peer_send False s L1 = Inr (L\<lparr>rdyChnl := chs\<rparr>, Some (round_msg s L))"
  obtains (accepted) F' where
      "exchange s (L1, F) = Inr (True, acked s (int (length (logs F')) - 1) (L\<lparr>rdyChnl := chs\<rparr>), F')"
      "ready (currentTerm L) F'" "accepted_round s L F F'"
  | (refused) m F' where
      "exchange s (L1, F) = Inr (False, L\<lparr>rdyChnl := chs, nextIndex := (nextIndex L)[s := m]\<rparr>, F')"
      "ready (currentTerm L) F'" "refused_round s L F m F'"
proof -
  obtain F1 r out where hb: "HeartBeat (round_msg s L) zero_append_reply F = Inr (F1, r, out)"
    and f1: "rpcChnl F1 = [OK]" "heartBeatTimerReset F1 = [False]" "currentTerm F1 = currentTerm L" "log_wf (logs F1)"
      "0 \<le> lastApplied F1" "length (logs F1) < 2147483647" "aer_Term r \<le> currentTerm L"
    and branch: "if Success r then accepted_round s L F F1 \<and> LastEntry r = last (logs F1)
       else commitIdx F1 = commitIdx F \<and> lastApplied F1 = lastApplied F \<and> (\<exists>n. logs F1 = take n (logs F))
         \<and> (length (logs F) \<le> link s L \<or> Term (logs F ! link s L) \<noteq> Term (logs L ! link s L))
         \<and> 0 \<le> Index (LastEntry r) \<and> Index (LastEntry r) < int (link s L)"
    using round_follower[OF inv] by blast
  let ?F = "F1\<lparr>rpcChnl := [], heartBeatTimerReset := [], heartbeatTimer := False\<rparr>"
  have ready: "ready (currentTerm L) ?F" using f1 by (simp add: ready_def)
  have round: "exchange s (L1, F) =
      go_bind (peer_reply s (round_msg s L) r (L\<lparr>rdyChnl := chs\<rparr>)) (\<lambda>(L, _). Inr (Success r, L, ?F))"
    by (simp add: exchange_def send hb settle_frame[OF f1(1,2)] del: zero_replies)
  show thesis
  proof (cases "Success r")
    case True
    then have b: "accepted_round s L F ?F" "Index (LastEntry r) = int (length (logs F1)) - 1"
      using branch f1(4) by (simp_all add: accepted_round_def)
    from accepted_reply[OF inv True] obtain out'
      where "peer_reply s (round_msg s L) r (L\<lparr>rdyChnl := chs\<rparr>) = Inr (acked s (Index (LastEntry r)) (L\<lparr>rdyChnl := chs\<rparr>), out')"
      by blast
    then show thesis using round True b by (intro accepted[OF _ ready b(1)]) simp
  next
    case False
    then have q: "0 \<le> Index (LastEntry r)" "Index (LastEntry r) < int (link s L)" "\<exists>n. logs F1 = take n (logs F)"
      "length (logs F) \<le> link s L \<or> Term (logs F ! link s L) \<noteq> Term (logs L ! link s L)"
      and same: "commitIdx F1 = commitIdx F" "lastApplied F1 = lastApplied F"
      using branch by auto
    obtain m out' where m: "peer_reply s (round_msg s L) r (L\<lparr>rdyChnl := chs\<rparr>)
        = Inr (L\<lparr>rdyChnl := chs, nextIndex := (nextIndex L)[s := m]\<rparr>, out')" "1 \<le> m" "m \<le> Index (LastEntry r) + 1"
      using refused_reply[OF inv False f1(7) q(1,2)] by blast
    have "refused_round s L F m ?F"
      using m(2,3) q link_bounds(2)[OF repair_leads[OF inv]] same by (simp add: refused_round_def)
    then show thesis using round m(1) False by (intro refused[OF _ ready]) simp
  qed
qed

lemma repair_round_cases:
  assumes inv: "repair_inv s L F"
  obtains (accepted) chs F' where
      "repair_round s (L, F) = Inr (True, acked s (int (length (logs F')) - 1) (L\<lparr>rdyChnl := chs\<rparr>), F')"
      "length chs = n_peers L" "chs ! s = []" "\<forall>t < n_peers L. queued t L \<longrightarrow> queued t (L\<lparr>rdyChnl := chs\<rparr>)"
      "ready (currentTerm L) F'" "accepted_round s L F F'"
  | (refused) chs m F' where
      "repair_round s (L, F) = Inr (False, L\<lparr>rdyChnl := chs, nextIndex := (nextIndex L)[s := m]\<rparr>, F')"
      "length chs = n_peers L" "chs ! s = []" "\<forall>t < n_peers L. queued t L \<longrightarrow> queued t (L\<lparr>rdyChnl := chs\<rparr>)"
      "ready (currentTerm L) F'" "refused_round s L F m F'"
proof -
  obtain L1 chs where tick: "hb_tick L = Inr L1" and send: "peer_send False s L1 = Inr (L\<lparr>rdyChnl := chs\<rparr>, Some (round_msg s L))"
    and chs: "length chs = n_peers L" "chs ! s = []" "\<forall>t < n_peers L. queued t L \<longrightarrow> queued t (L\<lparr>rdyChnl := chs\<rparr>)"
    using round_send[OF repair_leads[OF inv]] by (elim exE conjE) (rule that)
  show thesis
  proof (rule exchange_cases[OF inv send])
    fix F' assume r: "exchange s (L1, F) = Inr (True, acked s (int (length (logs F')) - 1) (L\<lparr>rdyChnl := chs\<rparr>), F')"
      "ready (currentTerm L) F'" "accepted_round s L F F'"
    show thesis by (rule accepted[OF _ chs r(2,3)]) (simp add: repair_round_def tick r(1))
  next
    fix m F' assume r: "exchange s (L1, F) = Inr (False, L\<lparr>rdyChnl := chs, nextIndex := (nextIndex L)[s := m]\<rparr>, F')"
      "ready (currentTerm L) F'" "refused_round s L F m F'"
    show thesis by (rule refused[OF _ chs r(2,3)]) (simp add: repair_round_def tick r(1))
  qed
qed

text \<open>A refused round keeps the conditions of the next one.\<close>

lemma refused_inv:
  assumes "repair_inv s L F" "length chs = n_peers L" "chs ! s = []" "ready (currentTerm L) F'" "refused_round s L F m F'"
  shows "repair_inv s (L\<lparr>rdyChnl := chs, nextIndex := (nextIndex L)[s := m]\<rparr>) F'"
  using assms by (simp add: repair_inv_def leads_def refused_round_def queued_def)

text \<open>Raft's log matching: two entries of the same index and term have the same history.\<close>

definition log_matching :: "raft_log list \<Rightarrow> raft_log list \<Rightarrow> bool" where
  "log_matching xs ys \<longleftrightarrow> (\<forall>i < min (length xs) (length ys). Term (xs ! i) = Term (ys ! i) \<longrightarrow>
     (\<forall>j \<le> i. Term (xs ! j) = Term (ys ! j)))"

lemma log_matching_take: "log_matching xs ys \<Longrightarrow> log_matching xs (take n ys)"
  by (auto simp: log_matching_def)

lemma accepted_logs:
  assumes inv: "repair_inv s L F" and m: "log_matching (logs L) (logs F)" and a: "accepted_round s L F F'" and r: "ready t F'"
  shows "length (logs L) \<le> length (logs F')"
    and "length (logs F) \<le> length (logs L) \<Longrightarrow> length (logs F') = length (logs L)"
    and "\<forall>i < length (logs L). entry_id (logs F' ! i) = entry_id (logs L ! i)"
proof -
  let ?k = "link s L" and ?es = "drop (link s L + 1) (logs L)"
  have ls: "log_wf (logs L)" "?k < length (logs L)" "log_wf (logs F')"
    using inv r link_bounds(1)[OF repair_leads[OF inv]] by (auto simp: repair_defs)
  have f: "?k + 1 \<le> length (logs F)" "logs F' = merge_ref (logs F) (?k + 1) ?es"
    "Term (logs F ! ?k) = Term (logs L ! ?k)" using a by (auto simp: accepted_round_def)
  show len: "length (logs L) \<le> length (logs F')"
    using merge_ref_length[OF f(1), of ?es] ls(2) unfolding f(2) by simp
  show "length (logs F') = length (logs L)" if "length (logs F) \<le> length (logs L)"
    using length_merge_ref_le[of "logs F" "?k + 1" ?es] that len ls(2) unfolding f(2) by auto
  have "Term (logs F' ! i) = Term (logs L ! i)" if "i < length (logs L)" for i
  proof (cases "i \<le> ?k")
    case True
    then have "Term (logs F ! i) = Term (logs L ! i)"
      using m f(1,3) ls(2) unfolding log_matching_def by (metis Suc_eq_plus1 Suc_le_eq min_less_iff_conj)
    moreover have "logs F' ! i = logs F ! i"
      using take_nth_eq[of "?k + 1" "logs F'" "logs F" i] merge_ref_prefix[OF f(1)] f(2) True len ls(2) by simp
    ultimately show ?thesis by simp
  next
    case False
    then show ?thesis
      using merge_ref_Term[OF f(1), of "i - (?k + 1)" ?es] that unfolding f(2) by simp
  qed
  then show "\<forall>i < length (logs L). entry_id (logs F' ! i) = entry_id (logs L ! i)"
    using len ls by (simp add: entry_id_def log_wf_Index)
qed

text \<open>The leader after a repair of peer \<open>s\<close>, and the follower.\<close>

definition leader_after :: "nat \<Rightarrow> int32 \<Rightarrow> raft \<Rightarrow> raft \<Rightarrow> bool" where
  "leader_after s m L L' \<longleftrightarrow> (\<exists>ns chs.
     L' = acked s m (L\<lparr>rdyChnl := chs, nextIndex := ns\<rparr>)
     \<and> length ns = n_peers L \<and> (\<forall>t. t \<noteq> s \<longrightarrow> ns ! t = nextIndex L ! t)
     \<and> length chs = n_peers L \<and> chs ! s = [] \<and> (\<forall>t < n_peers L. queued t L \<longrightarrow> queued t (L\<lparr>rdyChnl := chs\<rparr>)))"

definition repaired :: "nat \<Rightarrow> raft \<Rightarrow> raft \<Rightarrow> raft \<Rightarrow> raft \<Rightarrow> bool" where
  "repaired s L F L' F' \<longleftrightarrow> leader_after s (int (length (logs F')) - 1) L L' \<and> ready (currentTerm L) F' \<and> (commitIdx F = lastApplied F \<longrightarrow> commitIdx F' = lastApplied F')
   \<and> length (logs L) \<le> length (logs F')
   \<and> (length (logs F) \<le> length (logs L) \<longrightarrow> length (logs F') = length (logs L))
   \<and> (\<forall>i < length (logs L). entry_id (logs F' ! i) = entry_id (logs L ! i))"

lemma queued_nextIndex [simp]:
  "queued t (L\<lparr>nextIndex := ns\<rparr>) = queued t L"
  "queued t (L\<lparr>rdyChnl := chs, nextIndex := ns\<rparr>) = queued t (L\<lparr>rdyChnl := chs\<rparr>)"
  "queued t (L\<lparr>nextIndex := ns, rdyChnl := chs\<rparr>) = queued t (L\<lparr>rdyChnl := chs\<rparr>)"
  by (simp_all add: queued_def tail_msg_def)

lemma leader_after_later:
  assumes "leader_after s m (L\<lparr>rdyChnl := chs, nextIndex := (nextIndex L)[s := i]\<rparr>) L'"
    and "\<forall>t < n_peers L. queued t L \<longrightarrow> queued t (L\<lparr>rdyChnl := chs\<rparr>)"
  shows "leader_after s m L L'"
proof -
  obtain ns chs' where L': "L' = acked s m (L\<lparr>rdyChnl := chs', nextIndex := ns\<rparr>)" "length ns = n_peers L"
    "\<forall>t. t \<noteq> s \<longrightarrow> ns ! t = nextIndex L ! t" "length chs' = n_peers L" "chs' ! s = []"
    and q: "\<forall>t < n_peers L. queued t (L\<lparr>rdyChnl := chs\<rparr>) \<longrightarrow> queued t (L\<lparr>rdyChnl := chs'\<rparr>)"
    using assms(1) unfolding leader_after_def by auto
  have "\<forall>t < n_peers L. queued t L \<longrightarrow> queued t (L\<lparr>rdyChnl := chs'\<rparr>)" using q assms(2) by simp
  with L' show ?thesis unfolding leader_after_def by blast
qed

lemma repair_runs:
  assumes "repair_inv s L F" "log_matching (logs L) (logs F)" "nextIndex L ! s \<le> int k"
  shows "\<exists>L' F'. repair s k (L, F) = Inr (True, L', F') \<and> repaired s L F L' F'"
  using assms
proof (induction k arbitrary: L F)
  case 0
  then show ?case by (simp add: repair_defs)
next
  case (Suc k)
  have n: "length (nextIndex L) = n_peers L" "s < n_peers L" using Suc.prems(1) by (auto simp: repair_defs)
  from Suc.prems(1) show ?case
  proof (cases rule: repair_round_cases)
    case (accepted chs F')
    have "commitIdx F = lastApplied F \<longrightarrow> commitIdx F' = lastApplied F'"
      using accepted(6) by (auto simp: accepted_round_def split: if_splits)
    moreover have "leader_after s (int (length (logs F')) - 1) L (acked s (int (length (logs F')) - 1) (L\<lparr>rdyChnl := chs\<rparr>))"
      unfolding leader_after_def using accepted(2-4) n by (intro exI[of _ "nextIndex L"] exI[of _ chs]) simp
    ultimately have "repaired s L F (acked s (int (length (logs F')) - 1) (L\<lparr>rdyChnl := chs\<rparr>)) F'"
      unfolding repaired_def using accepted(5) accepted_logs[OF Suc.prems(1,2) accepted(6,5)] by blast
    with accepted(1) show ?thesis by simp
  next
    case (refused chs m F')
    let ?L = "L\<lparr>rdyChnl := chs, nextIndex := (nextIndex L)[s := m]\<rparr>"
    have m: "m \<le> int k" "\<exists>n. logs F' = take n (logs F)" "commitIdx F' = commitIdx F" "lastApplied F' = lastApplied F"
      using refused(6) Suc.prems(3) by (auto simp: refused_round_def)
    have "log_matching (logs ?L) (logs F')" "nextIndex ?L ! s \<le> int k"
      using m(1,2) Suc.prems(2) n log_matching_take by auto
    then obtain L' F'' where r: "repair s k (?L, F') = Inr (True, L', F'')" "repaired s ?L F' L' F''"
      using Suc.IH[OF refused_inv[OF Suc.prems(1) refused(2,3,5,6)]] by blast
    have "length (logs F) \<le> length (logs L) \<longrightarrow> length (logs F') \<le> length (logs L)" using m(2) by auto
    moreover have "leader_after s (int (length (logs F'')) - 1) L L'"
      by (rule leader_after_later[OF _ refused(4)]) (use r(2) in \<open>unfold repaired_def, blast\<close>)
    ultimately have "repaired s L F L' F''"
      using r(2) m(3,4) by (simp add: repaired_def)
    with refused(1) r(1) show ?thesis by simp
  qed
qed

text \<open>C14: Log repair: from any follower log that satisfies log matching with the leader's, at most
  nextIndex rounds of heartbeat, refusal and backing up end in an accepted one; then every entry
  of the leader's log is in the follower's, with its term, and the leader knows it (matchIndex).\<close>
theorem repair_converges:
  assumes "repair_inv s L F" "log_matching (logs L) (logs F)" "nextIndex L ! s \<le> int k"
  shows "\<exists>L' F'. repair s k (L, F) = Inr (True, L', F') \<and> logs L' = logs L
    \<and> length (logs L) \<le> length (logs F') \<and> int (length (logs L)) - 1 \<le> matchIndex L' ! s
    \<and> (\<forall>i < length (logs L). entry_id (logs F' ! i) = entry_id (logs L ! i))"
proof -
  obtain L' F' where r: "repair s k (L, F) = Inr (True, L', F')" "repaired s L F L' F'"
    using repair_runs[OF assms] by blast
  have "logs L' = logs L" using r(2) by (auto simp: repaired_def leader_after_def acked_def)
  moreover have "int (length (logs L)) - 1 \<le> matchIndex L' ! s"
    using r(2) assms(1) by (auto simp: repaired_def leader_after_def acked_def repair_defs)
  ultimately show ?thesis using r by (intro exI[of _ L'] exI[of _ F']) (simp add: repaired_def)
qed

text \<open>A leader of term 3 and a follower that still holds two entries of term 2.\<close>

definition rx_leader :: raft where
  "rx_leader = (Make 3 0 MakePersister)\<lparr>isLeader := True, heartbeatTimer := True, currentTerm := 3,
     logs := [zero_log, \<lparr>Index = 1, Term = 1, Cmd = GStr ''a''\<rparr>, \<lparr>Index = 2, Term = 3, Cmd = GStr ''b''\<rparr>],
     nextIndex := [3, 3, 3]\<rparr>"

definition rx_follower :: raft where
  "rx_follower = (Make 3 1 MakePersister)\<lparr>currentTerm := 2,
     logs := [zero_log, \<lparr>Index = 1, Term = 2, Cmd = GStr ''x''\<rparr>, \<lparr>Index = 2, Term = 2, Cmd = GStr ''y''\<rparr>]\<rparr>"

theorem repair_converges_witness:
  "\<exists>L' F'. repair 1 3 (rx_leader, rx_follower) = Inr (True, L', F') \<and> 2 \<le> matchIndex L' ! 1
     \<and> entry_id (logs F' ! 2) = (2, 3)"
proof -
  have inv: "repair_inv 1 rx_leader rx_follower"
    by (simp add: repair_defs queued_def rx_leader_def rx_follower_def log_wf_def nth_Cons')
  have lm: "log_matching (logs rx_leader) (logs rx_follower)"
    by (auto simp: log_matching_def rx_leader_def rx_follower_def nth_Cons' less_Suc_eq numeral_3_eq_3)
  have ls: "length (logs rx_leader) = 3" "entry_id (logs rx_leader ! 2) = (2, 3)" "nextIndex rx_leader ! 1 \<le> int 3"
    by (simp_all add: rx_leader_def entry_id_def)
  from repair_converges[OF inv lm ls(3)] show ?thesis
    unfolding ls(1) using ls(2) by (elim exE conjE) (intro exI conjI, assumption, auto)
qed

end
