(* ===== verification/RaftProgress.thy ===== *)
theory RaftProgress
  imports RaftRepair RaftNode
begin

text \<open>
  A leader that half of the other servers answer commits its log. One server after the other is
  brought to the leader's log by the rounds of \<open>RaftRepair\<close>, the commit-index updater counts each
  acknowledgement, and the last of them moves the commit index to the end of the log and hands
  the entries to the service; two further rounds with each of the followers hand them to theirs.
  The servers outside the half are never heard of.

  A follower whose log reaches beyond the leader's is not covered: it acknowledges the end of its
  own log, and what the leader makes of that is \<open>stale_match_blocks_commit\<close>.
\<close>

definition commit_acks :: "raft \<Rightarrow> (raft \<times> effect list) go" where
  "commit_acks L = (if commitIdxChnl L = [] then Inr (L, []) else commit_step L)"

fun gather :: "nat \<Rightarrow> nat list \<Rightarrow> raft \<times> (nat \<Rightarrow> raft) \<Rightarrow> (raft \<times> (nat \<Rightarrow> raft) \<times> effect list) go" where
  "gather k [] (L, Fs) = Inr (L, Fs, [])"
| "gather k (s # ss) (L, Fs) =
     go_bind (repair s k (L, Fs s)) (\<lambda>(_, L, F).
     go_bind (commit_acks L) (\<lambda>(L, out).
     go_bind (gather k ss (L, Fs(s := F))) (\<lambda>(L, Fs, out'). Inr (L, Fs, out @ out'))))"

text \<open>Two rounds for each: the first may find a heartbeat that carries an old commit index.\<close>

fun announce :: "nat list \<Rightarrow> raft \<times> (nat \<Rightarrow> raft) \<Rightarrow> (raft \<times> (nat \<Rightarrow> raft)) go" where
  "announce [] LF = Inr LF"
| "announce (s # ss) (L, Fs) =
     go_bind (repair_round s (L, Fs s)) (\<lambda>(_, L, F).
     go_bind (repair_round s (L, F)) (\<lambda>(_, L, F). announce ss (L, Fs(s := F))))"

definition caught_up :: "raft_log list \<Rightarrow> raft \<Rightarrow> bool" where
  "caught_up ls F \<longleftrightarrow> map entry_id (logs F) = map entry_id ls"

lemma caught_upI:
  "length (logs F) = length ls \<Longrightarrow> \<forall>i < length ls. entry_id (logs F ! i) = entry_id (ls ! i) \<Longrightarrow> caught_up ls F"
  by (auto simp: caught_up_def intro: nth_equalityI)

text \<open>The index of a log's last entry.\<close>

abbreviation end_of :: "raft \<Rightarrow> int" where
  "end_of rf \<equiv> int (length (logs rf)) - 1"

section \<open>One acknowledgement\<close>

text \<open>The leader after work with peer \<open>s\<close>: \<open>s\<close> is known to have the log, and the others are as before.\<close>

definition served_peer :: "nat \<Rightarrow> raft \<Rightarrow> raft \<Rightarrow> bool" where
  "served_peer s L L' \<longleftrightarrow> logs L' = logs L \<and> n_peers L' = n_peers L \<and> me L' = me L \<and> currentTerm L' = currentTerm L
     \<and> logidx L' = logidx L \<and> jobsChnl L' = jobsChnl L \<and> (\<forall>j. j \<noteq> end_of L \<longrightarrow> commitTracker L' j = commitTracker L j)
     \<and> leads s L' \<and> nextIndex L' ! s = end_of L + 1 \<and> matchIndex L' ! s = end_of L
     \<and> (\<forall>t. t \<noteq> s \<longrightarrow> leads t L \<longrightarrow> leads t L' \<and> nextIndex L' ! t = nextIndex L ! t \<and> matchIndex L' ! t = matchIndex L ! t)"

lemma acked_served:
  assumes "leads s L" "leader_after s (end_of L) L L1" "matchIndex L ! s \<le> end_of L" "commitIdxChnl L = []"
  shows "served_peer s L (L1\<lparr>commitIdxChnl := []\<rparr>)"
    and "commitIdxChnl L1 = (if matchIndex L ! s < end_of L then [end_of L] else [])"
proof -
  obtain ns chs where L1: "L1 = acked s (end_of L) (L\<lparr>rdyChnl := chs, nextIndex := ns\<rparr>)"
    and ns: "length ns = n_peers L" "\<forall>t. t \<noteq> s \<longrightarrow> ns ! t = nextIndex L ! t"
    and chs: "length chs = n_peers L" "chs ! s = []" "\<forall>t < n_peers L. queued t L \<longrightarrow> queued t (L\<lparr>rdyChnl := chs\<rparr>)"
    using assms(2) unfolding leader_after_def by blast
  have len: "i32 (end_of L + 1) = end_of L + 1" "1 \<le> end_of L + 1" "s < n_peers L"
    using assms(1) log_wfD(1)[of "logs L"] by (auto simp: leads_def Suc_le_eq intro!: i32_small)
  define L2 where "L2 = L1\<lparr>commitIdxChnl := []\<rparr>"
  have f: "logs L2 = logs L" "n_peers L2 = n_peers L" "me L2 = me L" "currentTerm L2 = currentTerm L" "isLeader L2 = isLeader L"
    "heartbeatTimer L2 = heartbeatTimer L" "rdyChnl L2 = chs" "nextIndex L2 = ns[s := end_of L + 1]"
    "matchIndex L2 = (if matchIndex L ! s < end_of L then (matchIndex L)[s := end_of L] else matchIndex L)" "commitIdxChnl L2 = []" "logidx L2 = logidx L" "jobsChnl L2 = jobsChnl L" "commitTracker L2 = commitTracker L"
    using len by (simp_all add: L2_def L1 acked_def)
  have q: "queued t L2 = queued t (L\<lparr>rdyChnl := chs\<rparr>)" for t by (simp add: queued_def tail_msg_def f)
  have "leads t L2" if "leads t L" for t
    using that q chs ns f len by (cases "t = s") (auto simp: leads_def)
  moreover have "nextIndex L2 ! s = end_of L + 1" "matchIndex L2 ! s = end_of L"
    using assms(1,3) f(8,9) ns(1) len(3) by (auto simp: leads_def)
  moreover have "nextIndex L2 ! t = nextIndex L ! t" "matchIndex L2 ! t = matchIndex L ! t" if "t \<noteq> s" for t
    using that f(8,9) ns(2) by auto
  ultimately show "served_peer s L (L1\<lparr>commitIdxChnl := []\<rparr>)"
    using assms(1) f(1-4,11-13) unfolding L2_def[symmetric] served_peer_def by simp
  show "commitIdxChnl L1 = (if matchIndex L ! s < end_of L then [end_of L] else [])"
    using assms(4) by (simp add: L1 acked_def)
qed

text \<open>The updater on an acknowledgement of the log's last entry.\<close>

lemma commit_step_ack:
  assumes ok: "commit_ok rf" "length (logs rf) < 2147483647" and ch: "commitIdxChnl rf = [end_of rf]"
    and i: "commitIdx rf < end_of rf" and a: "0 \<le> acks rf (end_of rf)" "acks rf (end_of rf) < int (n_peers rf div 2)"
  obtains (counted) "commit_step rf = Inr (rf\<lparr>commitIdxChnl := [],
        commitTracker := (commitTracker rf)(end_of rf \<mapsto> acks rf (end_of rf) + 1)\<rparr>, [])"
      "acks rf (end_of rf) + 1 \<noteq> int (n_peers rf div 2)"
  | (committed) out where "commit_step rf = Inr (persist (rf\<lparr>commitIdxChnl := [],
        commitTracker := (commitTracker rf)(end_of rf \<mapsto> acks rf (end_of rf) + 1), commitIdx := end_of rf, lastApplied := end_of rf\<rparr>), out)"
      "acks rf (end_of rf) + 1 = int (n_peers rf div 2)"
      "applied out = map apply_msg_of (drop (nat (commitIdx rf + 1)) (logs rf))"
proof -
  let ?e = "end_of rf"
  have n: "i32 (int (length (logs rf))) = int (length (logs rf))" "i32 (int (n_peers rf div 2)) = int (n_peers rf div 2)"
    "i32 (acks rf ?e + 1) = acks rf ?e + 1"
    using ok a by (auto simp: commit_ok_def intro!: i32_small)
  have slice: "reslice (logs rf) (i32 (commitIdx rf + 1)) (i32 (?e + 1)) = Inr (drop (nat (commitIdx rf + 1)) (logs rf))"
    using ok i by (subst reslice_in) (auto simp: commit_ok_def)
  note simps = commit_step_def ch Let_def n acks_def[symmetric]
  show thesis
  proof (cases "acks rf ?e + 1 = int (n_peers rf div 2)")
    case True
    show thesis
      by (rule committed[OF _ True], use slice i True n in \<open>simp add: simps\<close>, simp)
  next
    case False
    then show thesis using i n by (intro counted) (auto simp: simps)
  qed
qed

lemma served_peer_upd:
  assumes "served_peer s L (L'\<lparr>commitIdxChnl := []\<rparr>)" "\<forall>j. j \<noteq> end_of L \<longrightarrow> f j = commitTracker L' j"
  shows "served_peer s L (L'\<lparr>commitIdxChnl := [], commitTracker := f\<rparr>)"
    and "served_peer s L (persist (L'\<lparr>commitIdxChnl := [], commitTracker := f, commitIdx := i, lastApplied := j\<rparr>))"
proof -
  have "leads t (L'\<lparr>commitIdxChnl := [], commitTracker := f\<rparr>) = leads t (L'\<lparr>commitIdxChnl := []\<rparr>)"
    "leads t (persist (L'\<lparr>commitIdxChnl := [], commitTracker := f, commitIdx := i, lastApplied := j\<rparr>)) = leads t (L'\<lparr>commitIdxChnl := []\<rparr>)" for t
    by (simp_all add: leads_def queued_def tail_msg_def)
  then show "served_peer s L (L'\<lparr>commitIdxChnl := [], commitTracker := f\<rparr>)"
    and "served_peer s L (persist (L'\<lparr>commitIdxChnl := [], commitTracker := f, commitIdx := i, lastApplied := j\<rparr>))"
    using assms by (simp_all add: served_peer_def)
qed

text \<open>The conditions on a leader whose last entry is to be committed.\<close>

definition collecting :: "raft \<Rightarrow> bool" where
  "collecting L \<longleftrightarrow> commitIdxChnl L = [] \<and> 0 \<le> commitIdx L \<and> commitIdx L < end_of L \<and> n_peers L < 2147483648
     \<and> 0 \<le> acks L (end_of L)"

text \<open>The conditions on a follower.\<close>

definition reachable_peer :: "nat \<Rightarrow> raft \<Rightarrow> nat \<Rightarrow> raft \<Rightarrow> bool" where
  "reachable_peer k L s F \<longleftrightarrow> repair_inv s L F \<and> log_matching (logs L) (logs F) \<and> length (logs F) \<le> length (logs L)
     \<and> nextIndex L ! s \<le> int k \<and> matchIndex L ! s < end_of L \<and> commitIdx F = lastApplied F"

definition at_end :: "raft \<Rightarrow> raft \<Rightarrow> bool" where
  "at_end L F \<longleftrightarrow> ready (currentTerm L) F \<and> caught_up (logs L) F \<and> commitIdx F = lastApplied F"

definition commits_end :: "raft \<Rightarrow> raft \<Rightarrow> effect list \<Rightarrow> bool" where
  "commits_end L L' out \<longleftrightarrow> commitIdx L' = end_of L \<and> lastApplied L' = end_of L
     \<and> applied out = map apply_msg_of (drop (nat (commitIdx L + 1)) (logs L))"

lemma gather_one:
  assumes L: "collecting L" "acks L (end_of L) < int (n_peers L div 2)" and F: "reachable_peer k L s F"
  obtains L1 L' F' out where "repair s k (L, F) = Inr (True, L1, F')" "commit_acks L1 = Inr (L', out)"
    "at_end L F'" "served_peer s L L'" "commitIdxChnl L' = []" "acks L' (end_of L) = acks L (end_of L) + 1"
    "if acks L (end_of L) + 1 = int (n_peers L div 2) then commits_end L L' out
     else commitIdx L' = commitIdx L \<and> lastApplied L' = lastApplied L \<and> out = []"
proof -
  have inv: "repair_inv s L F" "leads s L" and F': "log_matching (logs L) (logs F)" "length (logs F) \<le> length (logs L)"
    "nextIndex L ! s \<le> int k" "matchIndex L ! s < end_of L" "commitIdx F = lastApplied F"
    using F by (auto simp: reachable_peer_def repair_inv_def)
  obtain L1 F1 where r: "repair s k (L, F) = Inr (True, L1, F1)" "repaired s L F L1 F1"
    using repair_runs[OF inv(1) F'(1,3)] by blast
  have len: "length (logs F1) = length (logs L)" using r(2) F'(2) by (auto simp: repaired_def)
  then have after: "leader_after s (end_of L) L L1" and at: "at_end L F1"
    using r(2) F'(5) by (auto simp: repaired_def at_end_def intro: caught_upI)
  have ch: "commitIdxChnl L = []" "matchIndex L ! s \<le> end_of L" using L F' by (auto simp: collecting_def)
  note served = acked_served[OF inv(2) after ch(2,1)]
  have f: "logs L1 = logs L" "n_peers L1 = n_peers L" "commitIdx L1 = commitIdx L" "lastApplied L1 = lastApplied L"
    "commitTracker L1 = commitTracker L"
    using after by (auto simp: leader_after_def acked_def)
  have a: "acks L1 = acks L" by (simp add: acks_def f fun_eq_iff)
  have "commit_ok L1" "length (logs L1) < 2147483647" using L(1) inv(2) f by (auto simp: commit_ok_def collecting_def leads_def)
  moreover have c: "commitIdxChnl L1 = [end_of L1]" using served(2) F'(4) f by simp
  moreover have "commitIdx L1 < end_of L1" "0 \<le> acks L1 (end_of L1)" "acks L1 (end_of L1) < int (n_peers L1 div 2)"
    using L by (auto simp: collecting_def f a)
  ultimately show thesis
  proof (cases rule: commit_step_ack)
    case counted
    then have cs: "commit_acks L1 = Inr (L1\<lparr>commitIdxChnl := [], commitTracker := (commitTracker L1)(end_of L1 \<mapsto> acks L1 (end_of L1) + 1)\<rparr>, [])"
      using c by (simp add: commit_acks_def)
    show thesis
      by (rule that[OF r(1) cs at]) (use counted(2) served_peer_upd(1)[OF served(1)] in \<open>simp_all add: acks_def f\<close>)
  next
    case (committed out)
    then have cs: "commit_acks L1 = Inr (persist (L1\<lparr>commitIdxChnl := [],
        commitTracker := (commitTracker L1)(end_of L1 \<mapsto> acks L1 (end_of L1) + 1), commitIdx := end_of L1, lastApplied := end_of L1\<rparr>), out)"
      using c by (simp add: commit_acks_def)
    show thesis
      by (rule that[OF r(1) cs at])
         (use committed(2,3) served_peer_upd(2)[OF served(1)] in \<open>simp_all add: commits_end_def acks_def f\<close>)
  qed
qed

section \<open>Half of the servers\<close>

text \<open>The leader after work with all of \<open>ss\<close>.\<close>

definition served_all :: "nat list \<Rightarrow> raft \<Rightarrow> raft \<Rightarrow> bool" where
  "served_all ss L L' \<longleftrightarrow> logs L' = logs L \<and> n_peers L' = n_peers L \<and> me L' = me L \<and> currentTerm L' = currentTerm L
     \<and> logidx L' = logidx L \<and> jobsChnl L' = jobsChnl L \<and> (\<forall>j. j \<noteq> end_of L \<longrightarrow> commitTracker L' j = commitTracker L j)
     \<and> (\<forall>s \<in> set ss. leads s L' \<and> nextIndex L' ! s = end_of L + 1 \<and> matchIndex L' ! s = end_of L)
     \<and> (\<forall>t. t \<notin> set ss \<longrightarrow> leads t L \<longrightarrow> leads t L' \<and> nextIndex L' ! t = nextIndex L ! t \<and> matchIndex L' ! t = matchIndex L ! t)"

lemma served_all_Cons: "served_peer s L L1 \<Longrightarrow> served_all ss L1 L2 \<Longrightarrow> s \<notin> set ss \<Longrightarrow> served_all (s # ss) L L2"
  unfolding served_all_def served_peer_def by auto

lemma served_peer_reachable:
  "served_peer s L L' \<Longrightarrow> reachable_peer k L t F \<Longrightarrow> t \<noteq> s \<Longrightarrow> reachable_peer k L' t F"
  by (auto simp: served_peer_def reachable_peer_def repair_inv_def)

lemma gather_commits:
  assumes "ss \<noteq> []" "distinct ss" "collecting L" "acks L (end_of L) + int (length ss) = int (n_peers L div 2)"
    and "\<forall>s \<in> set ss. reachable_peer k L s (Fs s)"
  shows "\<exists>L' Fs' out. gather k ss (L, Fs) = Inr (L', Fs', out) \<and> commits_end L L' out \<and> served_all ss L L'
    \<and> commitIdxChnl L' = [] \<and> (\<forall>s \<in> set ss. at_end L (Fs' s)) \<and> (\<forall>s. s \<notin> set ss \<longrightarrow> Fs' s = Fs s)"
  using assms
proof (induction ss arbitrary: L Fs)
  case Nil
  then show ?case by simp
next
  case (Cons s ss)
  have lt: "acks L (end_of L) < int (n_peers L div 2)" and F: "reachable_peer k L s (Fs s)" using Cons.prems by auto
  obtain L1 L' F' out where r: "repair s k (L, Fs s) = Inr (True, L1, F')" "commit_acks L1 = Inr (L', out)"
    and at: "at_end L F'" and served: "served_peer s L L'" and ch: "commitIdxChnl L' = []"
    and a: "acks L' (end_of L) = acks L (end_of L) + 1"
    and commit: "if acks L (end_of L) + 1 = int (n_peers L div 2) then commits_end L L' out
     else commitIdx L' = commitIdx L \<and> lastApplied L' = lastApplied L \<and> out = []"
    by (rule gather_one[OF Cons.prems(3) lt F])
  have f: "logs L' = logs L" "n_peers L' = n_peers L" "currentTerm L' = currentTerm L" using served by (auto simp: served_peer_def)
  show ?case
  proof (cases ss)
    case Nil
    then have "commits_end L L' out" using commit Cons.prems(4) by simp
    moreover have "served_all [s] L L'" using served by (auto simp: served_peer_def served_all_def)
    ultimately show ?thesis using r at ch Nil by (intro exI[of _ L'] exI[of _ "Fs(s := F')"] exI[of _ out]) (simp add: fun_upd_def)
  next
    case (Cons u us)
    then have same: "commitIdx L' = commitIdx L" "lastApplied L' = lastApplied L" "out = []"
      using commit Cons.prems(4) by (auto split: if_splits)
    have d: "ss \<noteq> []" "distinct ss" using Cons Cons.prems(2) by simp_all
    have "collecting L'" using Cons.prems(3) ch same f a by (auto simp: collecting_def)
    moreover have "acks L' (end_of L') + int (length ss) = int (n_peers L' div 2)" using Cons.prems(4) f a by simp
    moreover have "\<forall>t \<in> set ss. reachable_peer k L' t ((Fs(s := F')) t)"
      using Cons.prems(2,5) served_peer_reachable[OF served] by auto
    ultimately have "\<exists>L2 Fs' out'. gather k ss (L', Fs(s := F')) = Inr (L2, Fs', out') \<and> commits_end L' L2 out' \<and> served_all ss L' L2
      \<and> commitIdxChnl L2 = [] \<and> (\<forall>t \<in> set ss. at_end L' (Fs' t)) \<and> (\<forall>t. t \<notin> set ss \<longrightarrow> Fs' t = (Fs(s := F')) t)"
      by (rule Cons.IH[OF d])
    then obtain L2 Fs' out' where g: "gather k ss (L', Fs(s := F')) = Inr (L2, Fs', out')" "commits_end L' L2 out'"
      "served_all ss L' L2" "commitIdxChnl L2 = []" "\<forall>t \<in> set ss. at_end L' (Fs' t)" "\<forall>t. t \<notin> set ss \<longrightarrow> Fs' t = (Fs(s := F')) t"
      by (elim exE conjE)
    have "commits_end L L2 out'" using g(2) same f by (simp add: commits_end_def)
    moreover have "served_all (s # ss) L L2" using served_all_Cons[OF served g(3)] Cons.prems(2) by simp
    moreover have "at_end L (Fs' t)" if "t \<in> set (s # ss)" for t
      using that g(5,6) at f Cons.prems(2) by (cases "t = s") (auto simp: at_end_def)
    ultimately show ?thesis using r g same by (intro exI[of _ L2] exI[of _ Fs'] exI[of _ out']) simp
  qed
qed

section \<open>The followers learn of the commit\<close>

text \<open>A follower that has the log accepts every message.\<close>

lemma at_end_accepts:
  assumes "leads s L" "at_end L F"
  shows "\<not> refused_round s L F m F'"
    and "accepted_round s L F F' \<Longrightarrow> ready (currentTerm L) F' \<Longrightarrow> length (logs F') = length (logs L) \<and> at_end L F'"
proof -
  have inv: "repair_inv s L F" using assms by (simp add: repair_inv_def at_end_def)
  have ids: "map entry_id (logs F) = map entry_id (logs L)" using assms(2) by (simp add: at_end_def caught_up_def)
  have len: "length (logs F) = length (logs L)" using map_eq_imp_length_eq[OF ids] .
  have k: "link s L < length (logs L)" using link_bounds(1)[OF assms(1)] .
  have terms: "Term (logs F ! i) = Term (logs L ! i)" if "i < length (logs L)" for i
    using arg_cong[OF ids, of "\<lambda>xs. xs ! i"] that len by (simp add: entry_id_def)
  have m: "log_matching (logs L) (logs F)" using terms len by (simp add: log_matching_def)
  show "\<not> refused_round s L F m F'" using terms[OF k] k len by (simp add: refused_round_def)
  assume a: "accepted_round s L F F'" "ready (currentTerm L) F'"
  have "length (logs F') = length (logs L)" "caught_up (logs L) F'"
    using accepted_logs[OF inv m a] len by (auto intro: caught_upI)
  then show "length (logs F') = length (logs L) \<and> at_end L F'"
    using assms(2) a by (auto simp: at_end_def accepted_round_def split: if_splits)
qed

lemma announce_round:
  assumes L: "leads s L" "nextIndex L ! s = end_of L + 1" "matchIndex L ! s = end_of L" "commitIdxChnl L = []" and F: "at_end L F"
  shows "\<exists>L' F'. repair_round s (L, F) = Inr (True, L', F') \<and> at_end L F' \<and> served_peer s L L'
    \<and> commitIdxChnl L' = [] \<and> commitIdx L' = commitIdx L \<and> rdyChnl L' ! s = []
    \<and> (round_commit s L = end_of L \<longrightarrow> end_of L \<le> lastApplied F')"
proof -
  have inv: "repair_inv s L F" using L(1) F by (simp add: repair_inv_def at_end_def)
  from inv show ?thesis
  proof (cases rule: repair_round_cases)
    case (refused chs m F')
    then show ?thesis using at_end_accepts(1)[OF L(1) F] by blast
  next
    case (accepted chs F')
    have at: "length (logs F') = length (logs L)" "at_end L F'" using at_end_accepts(2)[OF L(1) F accepted(6,5)] by simp_all
    let ?L = "acked s (end_of L) (L\<lparr>rdyChnl := chs\<rparr>)"
    have "leader_after s (end_of L) L ?L"
      unfolding leader_after_def using accepted(2-4) L(1) by (intro exI[of _ "nextIndex L"] exI[of _ chs]) (simp add: leads_def)
    from acked_served[OF L(1) this _ L(4)] L(3)
    have "served_peer s L (?L\<lparr>commitIdxChnl := []\<rparr>)" "commitIdxChnl ?L = []" by simp_all
    moreover from this(2) have "?L\<lparr>commitIdxChnl := []\<rparr> = ?L" by (cases ?L) simp
    moreover have "end_of L \<le> lastApplied F'" if "round_commit s L = end_of L"
      using that accepted(6) F at(1)
      by (auto simp: accepted_round_def at_end_def advances_def new_commit_def round_msg_def tail_msg_def split: if_splits)
    moreover have "commitIdx ?L = commitIdx L" "rdyChnl ?L ! s = []" using accepted(3) by (simp_all add: acked_def)
    ultimately show ?thesis using accepted(1) at by (intro exI[of _ ?L] exI[of _ F']) simp
  qed
qed

lemma announce_reaches:
  assumes "distinct ss" "commitIdx L = end_of L" "commitIdxChnl L = []"
    and "\<forall>s \<in> set ss. leads s L \<and> nextIndex L ! s = end_of L + 1 \<and> matchIndex L ! s = end_of L \<and> at_end L (Fs s)"
  shows "\<exists>L' Fs'. announce ss (L, Fs) = Inr (L', Fs') \<and> (\<forall>s. s \<notin> set ss \<longrightarrow> Fs' s = Fs s)
    \<and> (\<forall>s \<in> set ss. at_end L (Fs' s) \<and> end_of L \<le> lastApplied (Fs' s))"
  using assms
proof (induction ss arbitrary: L Fs)
  case Nil
  then show ?case by simp
next
  case (Cons s ss)
  have L: "leads s L" "nextIndex L ! s = end_of L + 1" "matchIndex L ! s = end_of L" "at_end L (Fs s)"
    using Cons.prems(4) by simp_all
  obtain L1 F1 where 1: "repair_round s (L, Fs s) = Inr (True, L1, F1)" "at_end L F1" "served_peer s L L1"
    "commitIdxChnl L1 = []" "commitIdx L1 = commitIdx L" "rdyChnl L1 ! s = []"
    using announce_round[OF L(1-3) Cons.prems(3) L(4)] by blast
  have f1: "logs L1 = logs L" "currentTerm L1 = currentTerm L" and s1: "leads s L1" "nextIndex L1 ! s = end_of L1 + 1" "matchIndex L1 ! s = end_of L1"
    using 1(3) by (simp_all add: served_peer_def)
  have "at_end L1 F1" using 1(2) f1 by (simp add: at_end_def)
  from announce_round[OF s1 1(4) this] obtain L2 F2 where 2: "repair_round s (L1, F1) = Inr (True, L2, F2)" "at_end L1 F2"
    "served_peer s L1 L2" "commitIdxChnl L2 = []" "commitIdx L2 = commitIdx L1"
    "round_commit s L1 = end_of L1 \<longrightarrow> end_of L1 \<le> lastApplied F2"
    by blast
  have "round_commit s L1 = end_of L1" using 1(5,6) Cons.prems(2) f1 by (simp add: round_commit_def)
  then have s2: "at_end L F2 \<and> end_of L \<le> lastApplied F2" using 2(2,6) f1 by (simp add: at_end_def)
  have f2: "logs L2 = logs L" "currentTerm L2 = currentTerm L" using 2(3) f1 by (simp_all add: served_peer_def)
  have d: "distinct ss" "s \<notin> set ss" "commitIdx L2 = end_of L2" using Cons.prems(1,2) 1(5) 2(5) f2 by simp_all
  have "leads t L2 \<and> nextIndex L2 ! t = end_of L2 + 1 \<and> matchIndex L2 ! t = end_of L2 \<and> at_end L2 ((Fs(s := F2)) t)"
    if "t \<in> set ss" for t
    using that Cons.prems(4) d(2) 1(3) 2(3) f2 by (auto simp: served_peer_def at_end_def)
  then have "\<forall>t \<in> set ss. leads t L2 \<and> nextIndex L2 ! t = end_of L2 + 1 \<and> matchIndex L2 ! t = end_of L2 \<and> at_end L2 ((Fs(s := F2)) t)"
    by blast
  from Cons.IH[OF d(1,3) 2(4) this] obtain L' Fs' where a: "announce ss (L2, Fs(s := F2)) = Inr (L', Fs')"
    "\<forall>t. t \<notin> set ss \<longrightarrow> Fs' t = (Fs(s := F2)) t" "\<forall>t \<in> set ss. at_end L2 (Fs' t) \<and> end_of L2 \<le> lastApplied (Fs' t)"
    by (elim exE conjE)
  have "at_end L (Fs' t) \<and> end_of L \<le> lastApplied (Fs' t)" if "t \<in> set (s # ss)" for t
    using that a(2,3) s2 d(2) f2 by (cases "t = s") (auto simp: at_end_def)
  then show ?case using 1(1) 2(1) a(1,2) by (intro exI[of _ L'] exI[of _ Fs']) simp
qed

text \<open>Both together: the leader commits its log, and the followers hand it over.\<close>

lemma half_commits:
  assumes "ss \<noteq> []" "distinct ss" "length ss = n_peers L div 2" "n_peers L < 2147483648"
    and "\<forall>s \<in> set ss. reachable_peer k L s (Fs s)"
    and "commitIdxChnl L = []" "0 \<le> commitIdx L" "commitIdx L < end_of L" "commitTracker L (end_of L) = None"
  shows "\<exists>L' Fs' out Ll Ff. gather k ss (L, Fs) = Inr (L', Fs', out) \<and> logs L' = logs L \<and> commits_end L L' out
    \<and> announce ss (L', Fs') = Inr (Ll, Ff)
    \<and> (\<forall>s \<in> set ss. map entry_id (logs (Ff s)) = map entry_id (logs L) \<and> end_of L \<le> lastApplied (Ff s))"
proof -
  have c: "collecting L" "acks L (end_of L) + int (length ss) = int (n_peers L div 2)"
    using assms(3,4,6-9) by (simp_all add: collecting_def acks_def)
  obtain L' Fs' out where g: "gather k ss (L, Fs) = Inr (L', Fs', out)" "commits_end L L' out" "served_all ss L L'"
    "commitIdxChnl L' = []" "\<forall>s \<in> set ss. at_end L (Fs' s)"
    using gather_commits[OF assms(1,2) c assms(5)] by (elim exE conjE) (rule that)
  have f: "logs L' = logs L" "currentTerm L' = currentTerm L" using g(3) by (simp_all add: served_all_def)
  have "commitIdx L' = end_of L'" using g(2) f by (simp add: commits_end_def)
  moreover have "\<forall>s \<in> set ss. leads s L' \<and> nextIndex L' ! s = end_of L' + 1 \<and> matchIndex L' ! s = end_of L' \<and> at_end L' (Fs' s)"
    using g(3,5) f by (simp add: served_all_def at_end_def)
  ultimately obtain Ll Ff where "announce ss (L', Fs') = Inr (Ll, Ff)"
    "\<forall>s \<in> set ss. at_end L' (Ff s) \<and> end_of L' \<le> lastApplied (Ff s)"
    using announce_reaches[OF assms(2) _ g(4)] by blast
  with g(1,2) f show ?thesis
    by (intro exI[of _ L'] exI[of _ Fs'] exI[of _ out] exI[of _ Ll] exI[of _ Ff]) (simp add: at_end_def caught_up_def)
qed

section \<open>A new command\<close>

text \<open>A leader with nothing under way, and a follower it can repair.\<close>

definition idle_leader :: "raft \<Rightarrow> bool" where
  "idle_leader L \<longleftrightarrow> isLeader L \<and> log_wf (logs L) \<and> length (logs L) < 2147483646 \<and> logidx L = end_of L \<and> rdy_room L \<and> jobsChnl L = []
     \<and> commitIdxChnl L = [] \<and> 0 \<le> commitIdx L \<and> commitIdx L \<le> end_of L \<and> commitTracker L (end_of L + 1) = None"

definition idle_peer :: "nat \<Rightarrow> raft \<Rightarrow> nat \<Rightarrow> raft \<Rightarrow> bool" where
  "idle_peer k L s F \<longleftrightarrow> repair_inv s L F \<and> rdyChnl L ! s = [] \<and> log_matching (logs L) (logs F) \<and> length (logs F) \<le> length (logs L)
     \<and> nextIndex L ! s \<le> int k \<and> matchIndex L ! s \<le> end_of L \<and> commitIdx F = lastApplied F"

abbreviation new_entry :: "gval \<Rightarrow> raft \<Rightarrow> raft_log" where
  "new_entry cmd L \<equiv> \<lparr>Index = end_of L + 1, Term = currentTerm L, Cmd = cmd\<rparr>"

text \<open>The leader once the dispatcher has taken the command.\<close>

definition dispatched :: "gval \<Rightarrow> raft \<Rightarrow> raft" where
  "dispatched cmd L = persist (L\<lparr>logidx := end_of L + 1, logs := logs L @ [new_entry cmd L],
     rdyChnl := push_rdy \<lparr>ae_Term = currentTerm L, LeaderID = me L, PrevLog = last (logs L), Entries = [new_entry cmd L],
        LeaderCommitIdx = commitIdx L\<rparr> L\<rparr>)"

lemma command_dispatched:
  assumes "idle_leader L"
  shows "go_bind (Start cmd L) (\<lambda>(L, i, t, l). go_bind (job_step L) (\<lambda>L. Inr (L, i, t, l)))
    = Inr (dispatched cmd L, end_of L + 1, currentTerm L, True)"
proof -
  let ?L = "L\<lparr>logidx := end_of L + 1, jobsChnl := [new_entry cmd L]\<rparr>"
  have L: "isLeader L" "log_wf (logs L)" "length (logs L) < 2147483646" "logidx L = end_of L" "rdy_room L" "jobsChnl L = []"
    using assms by (auto simp: idle_leader_def)
  have start: "Start cmd L = Inr (?L, end_of L + 1, currentTerm L, True)"
    using L by (simp add: Start_def chan_send_def MAX_LOGS_def Let_def)
  have "log_wf (logs ?L)" "jobs_sync ?L" "jobsChnl ?L \<noteq> []" using L by (simp_all add: jobs_sync_def)
  from job_step_sends[OF this] L(1)
  have "job_step ?L = go_bind (send_rdy (job_args ?L) (me ?L) [0..<n_peers ?L] (rdyChnl ?L))
      (\<lambda>chs. Inr (persist (?L\<lparr>jobsChnl := drop maxEntriesPerBatch (jobsChnl ?L), rdyChnl := chs, logs := logs ?L @ batch ?L\<rparr>)))"
    by simp
  also have "send_rdy (job_args ?L) (me ?L) [0..<n_peers ?L] (rdyChnl ?L) = Inr (push_rdy (job_args ?L) ?L)"
    using L(5) by (intro send_rdy_push) (simp add: rdy_room_def)
  finally have "job_step ?L = Inr (dispatched cmd L)"
    using L(6) by (simp add: dispatched_def job_args_def batch_def maxEntriesPerBatch_def push_rdy_def persist_def)
  with start show ?thesis by simp
qed

lemma dispatched_fields:
  "logs (dispatched cmd L) = logs L @ [new_entry cmd L]" "n_peers (dispatched cmd L) = n_peers L"
  "nextIndex (dispatched cmd L) = nextIndex L" "matchIndex (dispatched cmd L) = matchIndex L"
  "commitIdx (dispatched cmd L) = commitIdx L" "commitIdxChnl (dispatched cmd L) = commitIdxChnl L"
  "commitTracker (dispatched cmd L) = commitTracker L" "currentTerm (dispatched cmd L) = currentTerm L" "me (dispatched cmd L) = me L"
  "isLeader (dispatched cmd L) = isLeader L" "heartbeatTimer (dispatched cmd L) = heartbeatTimer L"
  by (simp_all add: dispatched_def)

lemma dispatched_leads:
  assumes "idle_leader L" "leads s L" "rdyChnl L ! s = []"
  shows "leads s (dispatched cmd L)"
proof -
  have s: "s < n_peers L" "int s \<noteq> me L" "logs L \<noteq> []" using assms(2) log_wfD(1) by (auto simp: leads_def)
  have "rdyChnl (dispatched cmd L) ! s = [tail_msg (dispatched cmd L) (length (logs L) - 1) (commitIdx L)]"
    using s assms(3) by (simp add: dispatched_def push_rdy_def tail_msg_def nth_append last_conv_nth)
  then have "queued s (dispatched cmd L)"
    unfolding queued_def dispatched_fields by (intro disjI2 exI[of _ "length (logs L) - 1"] exI[of _ "commitIdx L"]) simp
  moreover have "length (rdyChnl (dispatched cmd L)) = n_peers L" by (simp add: dispatched_def push_rdy_def)
  moreover have "log_wf (logs L @ [new_entry cmd L])"
    using assms(1) log_wf_append[of "logs L" "[new_entry cmd L]"] by (auto simp: idle_leader_def)
  ultimately show ?thesis using assms(1,2) by (simp add: leads_def dispatched_fields idle_leader_def)
qed

lemma log_matching_extend:
  assumes "log_matching xs ys" "length ys \<le> length xs"
  shows "log_matching (xs @ zs) ys"
proof -
  have "(xs @ zs) ! i = xs ! i" if "i < length ys" for i using that assms(2) by (simp add: nth_append)
  then show ?thesis using assms by (simp add: log_matching_def)
qed

lemma dispatched_reachable:
  assumes "idle_leader L" "idle_peer k L s F"
  shows "reachable_peer k (dispatched cmd L) s F"
proof -
  have "log_matching (logs L @ [new_entry cmd L]) (logs F)"
    using assms(2) by (intro log_matching_extend) (simp_all add: idle_peer_def)
  then show ?thesis
    using assms dispatched_leads[of L s cmd] by (auto simp: idle_peer_def reachable_peer_def repair_inv_def dispatched_fields)
qed

text \<open>C9: A command that a leader accepts is committed as soon as half of the other servers answer: at the
  index \<open>Start\<close> returned, after at most nextIndex rounds with each of them, the leader hands it to
  its service, and after two more rounds so has each of them. Their logs may lack any part of the
  leader's and differ from it in any entries, as long as log matching holds and they are not
  longer than the leader's (\<open>stale_match_blocks_commit\<close>: a longer one can keep the command from
  being committed); leader and followers have nothing under way (their channels are empty, the
  leader has counted nothing for the new index), no follower is in a newer term, and the leader
  knows no match beyond its log (\<open>idle_leader\<close>, \<open>idle_peer\<close>).\<close>
theorem command_commits:
  assumes "idle_leader L" "ss \<noteq> []" "distinct ss" "length ss = n_peers L div 2" "n_peers L < 2147483648"
    and "\<forall>s \<in> set ss. idle_peer k L s (Fs s)"
  shows "\<exists>L1 i t L' Fs' out Ll Ff. go_bind (Start cmd L) (\<lambda>(L, i, t, l). go_bind (job_step L) (\<lambda>L. Inr (L, i, t, l))) = Inr (L1, i, t, True)
    \<and> gather k ss (L1, Fs) = Inr (L', Fs', out) \<and> commitIdx L' = i \<and> lastApplied L' = i
    \<and> last (applied out) = apply_msg_of \<lparr>Index = i, Term = t, Cmd = cmd\<rparr>
    \<and> map msg_Index (applied out) = [commitIdx L + 1..i]
    \<and> announce ss (L', Fs') = Inr (Ll, Ff)
    \<and> (\<forall>s \<in> set ss. map entry_id (logs (Ff s)) = map entry_id (logs L) @ [(i, t)] \<and> i \<le> lastApplied (Ff s))"
proof -
  let ?L = "dispatched cmd L" and ?e = "new_entry cmd L"
  have c: "0 \<le> commitIdx L" "commitIdx L \<le> end_of L" "commitIdxChnl L = []" "commitTracker L (end_of L + 1) = None" "log_wf (logs L)"
    using assms(1) by (auto simp: idle_leader_def)
  have e: "end_of ?L = end_of L + 1" by (simp add: dispatched_fields)
  have "\<exists>L' Fs' out Ll Ff. gather k ss (?L, Fs) = Inr (L', Fs', out) \<and> logs L' = logs ?L \<and> commits_end ?L L' out
    \<and> announce ss (L', Fs') = Inr (Ll, Ff)
    \<and> (\<forall>s \<in> set ss. map entry_id (logs (Ff s)) = map entry_id (logs ?L) \<and> end_of ?L \<le> lastApplied (Ff s))"
    using assms(2-5) c dispatched_reachable[OF assms(1)] assms(6) e
    by (intro half_commits) (auto simp: dispatched_fields)
  then obtain L' Fs' out Ll Ff where g: "gather k ss (?L, Fs) = Inr (L', Fs', out)" "commits_end ?L L' out"
    "announce ss (L', Fs') = Inr (Ll, Ff)"
    "\<forall>s \<in> set ss. map entry_id (logs (Ff s)) = map entry_id (logs ?L) \<and> end_of ?L \<le> lastApplied (Ff s)"
    by blast
  have a: "applied out = map apply_msg_of (drop (nat (commitIdx L + 1)) (logs L @ [?e]))"
    using g(2) by (simp add: commits_end_def dispatched_fields)
  have wf: "log_wf (logs L @ [?e])" using c(5) assms(1) log_wf_append[of "logs L" "[?e]"] by (auto simp: idle_leader_def)
  have "map msg_Index (applied out) = [commitIdx L + 1..end_of L + 1]"
    unfolding a using log_wf_indices[OF wf, of "commitIdx L" "end_of L + 1"] c by (simp add: apply_msg_of_def comp_def)
  moreover have "last (applied out) = apply_msg_of ?e" using c(1,2) unfolding a by (simp add: last_map)
  ultimately show ?thesis
    using g command_dispatched[OF assms(1), of cmd] e
    by (intro exI[of _ ?L] exI[of _ "end_of L + 1"] exI[of _ "currentTerm L"] exI[of _ L'] exI[of _ Fs'] exI[of _ out] exI[of _ Ll] exI[of _ Ff])
       (simp add: commits_end_def dispatched_fields entry_id_def)
qed

theorem command_commits_witness:
  "\<exists>L1 i t L' Fs' out Ll Ff. go_bind (Start (GStr ''c'') (rx_leader\<lparr>logidx := 2\<rparr>)) (\<lambda>(L, i, t, l). go_bind (job_step L) (\<lambda>L. Inr (L, i, t, l)))
       = Inr (L1, i, t, True)
     \<and> gather 3 [1] (L1, \<lambda>_. rx_follower) = Inr (L', Fs', out) \<and> i = 3 \<and> commitIdx L' = 3 \<and> map msg_Index (applied out) = [1, 2, 3]
     \<and> announce [1] (L', Fs') = Inr (Ll, Ff) \<and> 3 \<le> lastApplied (Ff 1)"
proof -
  let ?L = "rx_leader\<lparr>logidx := 2\<rparr>"
  have f: "length (logs rx_leader) = 3" "length (logs rx_follower) = 3" "n_peers rx_leader = 3" "nextIndex rx_leader ! Suc 0 = 3"
    "matchIndex rx_leader ! Suc 0 = 0" "commitIdx rx_follower = 0" "lastApplied rx_follower = 0" "commitIdxChnl rx_leader = []"
    "commitIdx rx_leader = 0" "commitTracker rx_leader = Map.empty" "jobsChnl rx_leader = []" "isLeader rx_leader"
    "rdyChnl rx_leader = replicate 3 []" "me rx_leader = 0"
    by (simp_all add: rx_leader_def rx_follower_def Make_def readPersist_def persister_defs)
  have wf: "log_wf (logs rx_leader)" by (simp add: rx_leader_def log_wf_def nth_Cons')
  have inv: "repair_inv 1 ?L rx_follower"
    by (simp add: repair_defs queued_def rx_leader_def rx_follower_def log_wf_def nth_Cons')
  have lm: "log_matching (logs rx_leader) (logs rx_follower)"
    by (auto simp: log_matching_def rx_leader_def rx_follower_def nth_Cons' less_Suc_eq numeral_3_eq_3)
  have "idle_leader ?L" using wf by (simp add: idle_leader_def f rdy_room_def MAX_LOGS_def)
  moreover have "\<forall>s \<in> set [1]. idle_peer 3 ?L s ((\<lambda>_. rx_follower) s)" using inv lm by (simp add: idle_peer_def f)
  moreover have "length [1 :: nat] = n_peers ?L div 2" "n_peers ?L < 2147483648" by (simp_all add: f)
  ultimately obtain L1 i t L' Fs' out Ll Ff where r:
    "go_bind (Start (GStr ''c'') ?L) (\<lambda>(L, i, t, l). go_bind (job_step L) (\<lambda>L. Inr (L, i, t, l))) = Inr (L1, i, t, True)"
    "gather 3 [1] (L1, \<lambda>_. rx_follower) = Inr (L', Fs', out)" "commitIdx L' = i" "map msg_Index (applied out) = [commitIdx ?L + 1..i]"
    "announce [1] (L', Fs') = Inr (Ll, Ff)" "\<forall>s \<in> set [1]. map entry_id (logs (Ff s)) = map entry_id (logs ?L) @ [(i, t)] \<and> i \<le> lastApplied (Ff s)"
    using command_commits[of ?L "[1]" 3 "\<lambda>_. rx_follower" "GStr ''c''"] by auto
  have "i = 3" using r(1) command_dispatched[OF \<open>idle_leader ?L\<close>, of "GStr ''c''"] f(1) by simp
  moreover have "[1..3] = [1, 2, 3 :: int]" by (simp add: upto.simps)
  ultimately show ?thesis using r f(9) by (intro exI conjI) (assumption | simp)+
qed

section \<open>A follower that is ahead\<close>

text \<open>
  The leader's log ends at index 1, the follower has two more entries of another leader. It
  acknowledges index 3, which \<open>matchIndex\<close> keeps and the updater ignores; when the leader's next
  command replaces those entries the follower acknowledges index 2, which is no progress over 3
  and is not passed on to the updater: the command is not committed, though a majority has it.
\<close>

definition sx_leader :: raft where
  "sx_leader = (Make 3 0 MakePersister)\<lparr>isLeader := True, heartbeatTimer := True, currentTerm := 3, logidx := 1,
     logs := [zero_log, \<lparr>Index = 1, Term = 1, Cmd = GStr ''a''\<rparr>], nextIndex := [2, 2, 2]\<rparr>"

definition sx_follower :: raft where
  "sx_follower = (Make 3 1 MakePersister)\<lparr>currentTerm := 2, logs := [zero_log, \<lparr>Index = 1, Term = 1, Cmd = GStr ''a''\<rparr>,
     \<lparr>Index = 2, Term = 2, Cmd = GStr ''x''\<rparr>, \<lparr>Index = 3, Term = 2, Cmd = GStr ''y''\<rparr>]\<rparr>"

definition ahead_run :: "(raft \<times> raft) go" where
  "ahead_run =
     go_bind (repair_round 1 (sx_leader, sx_follower)) (\<lambda>(_, L, F).
     go_bind (commit_step L) (\<lambda>(L, _).
     go_bind (Start (GStr ''c'') L) (\<lambda>(L, _).
     go_bind (job_step L) (\<lambda>L.
     go_bind (repair_round 1 (L, F)) (\<lambda>(_, L, F).
     go_bind (repair_round 1 (L, F)) (\<lambda>(_, L, F). Inr (L, F)))))))"

lemma stale_match_blocks_commit:
  "go_bind ahead_run (\<lambda>(L, F). Inr (map entry_id (logs L), map entry_id (logs F), matchIndex L ! 1, commitIdxChnl L, commitIdx L))
   = Inr ([(0, 0), (1, 1), (2, 3)], [(0, 0), (1, 1), (2, 3)], 3, [], 0)"
  by (simp add: ahead_run_def repair_round_def exchange_def settle_def sx_leader_def sx_follower_def Make_def readPersist_def persister_defs
      hb_tick_def peer_send_def HeartBeat_def MAX_LOGS_def follower_commit_def drain_rpc_def hb_reset_def peer_reply_def
      commit_step_def Start_def job_step_def maxEntriesPerBatch_def persist_def idx_def reslice_def chan_send_def entry_id_def
      Let_def i32_def upt_conv_Cons nth_Cons' cong: go_bind_weak_cong)

end
