(* ===== verification/Campaign.thy ===== *)
theory Campaign
  imports RaftProgress RaftVotes
begin



section \<open>A vote\<close>




section \<open>Counting\<close>






section \<open>The campaign\<close>














end
