(* ===== verification/Shutdown.thy ===== *)
theory Shutdown
  imports RaftLoops
begin

text \<open>
  How a Raft server stops: \<open>Kill\<close> puts a value into \<open>stopChnl\<close>, which has room for one, and each
  goroutine that \<open>Make\<close> started, and each vote counter, takes it at the head of its loop, puts it
  back for the next one, and returns. Taking and putting back are two steps here, with the others
  in between. Whatever else the goroutines do leaves \<open>stopChnl\<close> alone and is one kind of step
  (\<open>work\<close>); a goroutine that waits for good elsewhere never comes back to the head of its loop and
  is not covered.
\<close>

datatype goroutine = HeartbeatTimer | Dispatcher | CommitUpdater | PeerSender nat | ElectionLoop | VoteCounter

text \<open>At the head of its loop or at work; between taking and putting back; returned.\<close>

datatype phase = Looping | Passing | Returned

record process =
  server :: raft
  threads :: "(goroutine \<times> phase) list"

definition started :: "nat \<Rightarrow> nat \<Rightarrow> raft \<Rightarrow> process" where
  "started n i rf = \<lparr>server = rf, threads = map (\<lambda>x. (x, Looping))
     ([HeartbeatTimer, Dispatcher, CommitUpdater] @ map PeerSender (filter (\<lambda>p. p \<noteq> i) [0..<n]) @ [ElectionLoop])\<rparr>"

definition take_stop :: "nat \<Rightarrow> process \<Rightarrow> process go" where
  "take_stop k p = go_bind (chan_recv (stopChnl (server p))) (\<lambda>(_, c).
     Inr (p\<lparr>server := (server p)\<lparr>stopChnl := c\<rparr>, threads := (threads p)[k := (fst (threads p ! k), Passing)]\<rparr>))"

definition pass_stop :: "nat \<Rightarrow> process \<Rightarrow> process go" where
  "pass_stop k p = go_bind (chan_send 1 True (stopChnl (server p))) (\<lambda>c.
     Inr (p\<lparr>server := (server p)\<lparr>stopChnl := c\<rparr>, threads := (threads p)[k := (fst (threads p ! k), Returned)]\<rparr>))"

inductive stop_step :: "process \<Rightarrow> process \<Rightarrow> bool" where
  take: "k < length (threads p) \<Longrightarrow> snd (threads p ! k) = Looping \<Longrightarrow> take_stop k p = Inr p' \<Longrightarrow> stop_step p p'"
| pass: "k < length (threads p) \<Longrightarrow> snd (threads p ! k) = Passing \<Longrightarrow> pass_stop k p = Inr p' \<Longrightarrow> stop_step p p'"

inductive other_step :: "process \<Rightarrow> process \<Rightarrow> bool" where
  work: "stopChnl rf = stopChnl (server p) \<Longrightarrow> other_step p (p\<lparr>server := rf\<rparr>)"
| elect: "(ElectionLoop, Looping) \<in> set (threads p) \<Longrightarrow> other_step p (p\<lparr>threads := threads p @ [(VoteCounter, Looping)]\<rparr>)"
| counted: "k < length (threads p) \<Longrightarrow> threads p ! k = (VoteCounter, Looping) \<Longrightarrow>
    other_step p (p\<lparr>threads := (threads p)[k := (VoteCounter, Returned)]\<rparr>)"

text \<open>A process in which \<open>Kill\<close> has been called once.\<close>

inductive killed_once :: "process \<Rightarrow> bool" where
  kill: "stopChnl (server p) = [] \<Longrightarrow> list_all (\<lambda>t. snd t \<noteq> Passing) (threads p) \<Longrightarrow> Kill (server p) = Inr rf
    \<Longrightarrow> killed_once (p\<lparr>server := rf\<rparr>)"
| stop: "killed_once p \<Longrightarrow> stop_step p p' \<Longrightarrow> killed_once p'"
| other: "killed_once p \<Longrightarrow> other_step p p' \<Longrightarrow> killed_once p'"

text \<open>Undisturbed, the two steps are \<open>stop_observed\<close> of \<open>RaftLoops\<close>.\<close>

lemma take_pass:
  assumes "k < length (threads p)"
  shows "go_bind (take_stop k p) (pass_stop k)
    = go_bind (stop_observed (server p)) (\<lambda>rf. Inr (p\<lparr>server := rf, threads := (threads p)[k := (fst (threads p ! k), Returned)]\<rparr>))"
  using assms
  by (cases "stopChnl (server p)") (simp_all add: take_stop_def pass_stop_def stop_observed_def chan_send_def)

section \<open>Every goroutine returns\<close>

definition weight :: "(phase \<Rightarrow> nat) \<Rightarrow> process \<Rightarrow> nat" where
  "weight f p = sum_list (map (f \<circ> snd) (threads p))"

fun holding :: "phase \<Rightarrow> nat" where
  "holding Passing = 1"
| "holding _ = 0"

fun ahead :: "phase \<Rightarrow> nat" where
  "ahead Looping = 2"
| "ahead Passing = 1"
| "ahead Returned = 0"

lemma holding_zero: "holding s = 0 \<longleftrightarrow> s \<noteq> Passing"
  by (cases s) simp_all

abbreviation passing :: "process \<Rightarrow> nat" where
  "passing \<equiv> weight holding"

text \<open>The steps a goroutine still has to take.\<close>

abbreviation steps_left :: "process \<Rightarrow> nat" where
  "steps_left \<equiv> weight ahead"

lemma weight_set:
  assumes "k < length (threads p)"
  shows "weight f (p\<lparr>server := rf, threads := (threads p)[k := (x, s)]\<rparr>) + f (snd (threads p ! k)) = weight f p + f s"
proof -
  have "k < length (map (f \<circ> snd) (threads p))" using assms by simp
  moreover from this have "map (f \<circ> snd) (threads p) ! k \<le> sum_list (map (f \<circ> snd) (threads p))" by (rule elem_le_sum_list)
  ultimately show ?thesis
    using sum_list_update[of k "map (f \<circ> snd) (threads p)" "f s"] assms by (simp add: weight_def map_update)
qed

text \<open>After one \<open>Kill\<close> there is one value: in the channel, or in the hands of one goroutine.\<close>

definition one_token :: "process \<Rightarrow> bool" where
  "one_token p \<longleftrightarrow> length (stopChnl (server p)) + passing p = 1"

lemma stop_step_cases:
  assumes "stop_step p p'"
  obtains (take) k x c where "k < length (threads p)" "snd (threads p ! k) = Looping" "stopChnl (server p) = x # c"
      "p' = p\<lparr>server := (server p)\<lparr>stopChnl := c\<rparr>, threads := (threads p)[k := (fst (threads p ! k), Passing)]\<rparr>"
  | (pass) k where "k < length (threads p)" "snd (threads p ! k) = Passing" "stopChnl (server p) = []"
      "p' = p\<lparr>server := (server p)\<lparr>stopChnl := [True]\<rparr>, threads := (threads p)[k := (fst (threads p ! k), Returned)]\<rparr>"
  using assms
proof cases
  case (take k)
  then obtain x c where "stopChnl (server p) = x # c"
    "p' = p\<lparr>server := (server p)\<lparr>stopChnl := c\<rparr>, threads := (threads p)[k := (fst (threads p ! k), Passing)]\<rparr>"
    by (cases "stopChnl (server p)") (simp_all add: take_stop_def)
  with take(1,2) show thesis by (rule that(1))
next
  case (pass k)
  then have "stopChnl (server p) = []"
    "p' = p\<lparr>server := (server p)\<lparr>stopChnl := [True]\<rparr>, threads := (threads p)[k := (fst (threads p ! k), Returned)]\<rparr>"
    by (auto simp: pass_stop_def chan_send_def split: if_splits)
  with pass(1,2) show thesis by (rule that(2))
qed

lemma stop_step_token: "stop_step p p' \<Longrightarrow> one_token p \<Longrightarrow> one_token p' \<and> Suc (steps_left p') = steps_left p"
proof (elim stop_step_cases, goal_cases)
  case (1 k x c)
  then show ?case
    using weight_set[OF 1(2), where f = "holding" and rf = "(server p)\<lparr>stopChnl := c\<rparr>" and x = "fst (threads p ! k)" and s = Passing]
      weight_set[OF 1(2), where f = "ahead" and rf = "(server p)\<lparr>stopChnl := c\<rparr>" and x = "fst (threads p ! k)" and s = Passing]
    by (simp add: one_token_def)
next
  case (2 k)
  then show ?case
    using weight_set[OF 2(2), where f = "holding" and rf = "(server p)\<lparr>stopChnl := [True]\<rparr>" and x = "fst (threads p ! k)" and s = Returned]
      weight_set[OF 2(2), where f = "ahead" and rf = "(server p)\<lparr>stopChnl := [True]\<rparr>" and x = "fst (threads p ! k)" and s = Returned]
    by (simp add: one_token_def)
qed

lemma other_step_token:
  assumes "other_step p p'" "one_token p"
  shows "one_token p'"
  using assms
proof cases
  case (counted k)
  then show ?thesis
    using weight_set[OF counted(2), where f = "holding" and rf = "server p" and x = VoteCounter and s = Returned] assms(2)
    by (simp add: one_token_def)
qed (simp_all add: one_token_def weight_def)

lemma killed_once_token: "killed_once p \<Longrightarrow> one_token p"
proof (induction rule: killed_once.induct)
  case (kill p rf)
  have "map (holding \<circ> snd) (threads p) = map (\<lambda>_. 0 :: nat) (threads p)"
    using kill(2) by (auto simp: list_all_iff holding_zero)
  then show ?case using kill(1,3) by (auto simp: one_token_def weight_def Kill_def chan_send_Inr)
qed (auto dest: stop_step_token other_step_token)

lemma stop_step_exists:
  assumes "one_token p" "\<exists>t \<in> set (threads p). snd t \<noteq> Returned"
  shows "\<exists>p'. stop_step p p'"
proof (cases "stopChnl (server p)")
  case Nil
  then have "passing p \<noteq> 0" using assms(1) by (simp add: one_token_def)
  then have "\<exists>t \<in> set (threads p). snd t = Passing" by (auto simp: weight_def holding_zero)
  then obtain k where k: "k < length (threads p)" "snd (threads p ! k) = Passing" by (auto simp: in_set_conv_nth)
  from Nil show ?thesis by (intro exI, intro stop_step.pass[OF k]) (simp add: pass_stop_def chan_send_def)
next
  case (Cons x c)
  then have "passing p = 0" using assms(1) by (simp add: one_token_def)
  then have none: "\<forall>t \<in> set (threads p). snd t \<noteq> Passing" by (auto simp: weight_def holding_zero)
  obtain t where t: "t \<in> set (threads p)" "snd t \<noteq> Returned" using assms(2) by blast
  then have "snd t = Looping" using none by (cases "snd t") auto
  then obtain k where k: "k < length (threads p)" "snd (threads p ! k) = Looping" using t by (auto simp: in_set_conv_nth)
  from Cons show ?thesis by (intro exI, intro stop_step.take[OF k]) (simp add: take_stop_def)
qed

inductive stop_run :: "process \<Rightarrow> nat \<Rightarrow> process \<Rightarrow> bool" where
  none: "stop_run p 0 p"
| more: "stop_run p m q \<Longrightarrow> stop_step q r \<Longrightarrow> stop_run p (Suc m) r"

lemma stop_run_token: "stop_run p m q \<Longrightarrow> one_token p \<Longrightarrow> one_token q \<and> m + steps_left q = steps_left p"
  by (induction rule: stop_run.induct) (auto dest!: stop_step_token)

lemma steps_left_le: "steps_left p \<le> 2 * length (threads p)"
proof -
  have "sum_list (map (ahead \<circ> snd) xs) \<le> 2 * length xs" for xs :: "(goroutine \<times> phase) list"
  proof (induction xs)
    case (Cons x xs)
    have "ahead (snd x) \<le> 2" by (cases "snd x") simp_all
    with Cons show ?case by simp
  qed simp
  then show ?thesis by (simp add: weight_def)
qed

lemma stop_step_keeps: "stop_step p p' \<Longrightarrow> length (threads p') = length (threads p)"
  by (elim stop_step_cases) simp_all

text \<open>C24: After one call of \<open>Kill\<close>, whatever the goroutines did since: putting the value back never waits, as
  long as a goroutine has not returned one of them can take the value or put it back, and after
  at most two such steps of each, in any order, all have returned. The value then stays in the
  channel, and a second call of \<open>Kill\<close> waits for good.\<close>
theorem kill_ends_goroutines:
  assumes "killed_once p"
  shows "(\<forall>k. snd (threads p ! k) = Passing \<and> k < length (threads p) \<longrightarrow> (\<exists>p'. pass_stop k p = Inr p'))
    \<and> (\<forall>m q. stop_run p m q \<longrightarrow> m \<le> 2 * length (threads p)
        \<and> ((\<exists>t \<in> set (threads q). snd t \<noteq> Returned) \<longrightarrow> (\<exists>r. stop_step q r))
        \<and> ((\<forall>t \<in> set (threads q). snd t = Returned) \<longrightarrow> stopChnl (server q) \<noteq> [] \<and> Kill (server q) = Inl Blocked))"
proof (intro conjI allI impI)
  have one: "one_token p" by (rule killed_once_token[OF assms])
  show "\<exists>p'. pass_stop k p = Inr p'" if k: "snd (threads p ! k) = Passing \<and> k < length (threads p)" for k
  proof -
    have "threads p ! k \<in> set (threads p)" using k by simp
    then have "passing p \<noteq> 0" using k by (auto simp: weight_def holding_zero)
    then have "stopChnl (server p) = []" using one by (cases "stopChnl (server p)") (auto simp: one_token_def)
    then show ?thesis by (simp add: pass_stop_def chan_send_def)
  qed
  fix m q assume run: "stop_run p m q"
  note tok = stop_run_token[OF run one]
  show "m \<le> 2 * length (threads p)" using tok steps_left_le[of p] by linarith
  show "\<exists>r. stop_step q r" if "\<exists>t \<in> set (threads q). snd t \<noteq> Returned" using stop_step_exists tok that by blast
  assume "\<forall>t \<in> set (threads q). snd t = Returned"
  then have "passing q = 0" by (auto simp: weight_def holding_zero)
  then have "length (stopChnl (server q)) = 1" using tok by (simp add: one_token_def)
  then show "stopChnl (server q) \<noteq> []" "Kill (server q) = Inl Blocked" by (auto simp: Kill_def chan_send_def)
qed

text \<open>A second \<open>Kill\<close> between the two steps of a goroutine: if it is the last one, it never returns.\<close>

lemma two_kills_stuck:
  assumes "take_stop 0 p = Inr q" "threads p = [(x, Looping)]" "Kill (server q) = Inr rf"
  shows "threads (q\<lparr>server := rf\<rparr>) = [(x, Passing)] \<and> pass_stop 0 (q\<lparr>server := rf\<rparr>) = Inl Blocked"
proof -
  have q: "threads q = [(x, Passing)]" using assms(1,2) by (cases "stopChnl (server p)") (auto simp: take_stop_def)
  have "stopChnl rf = stopChnl (server q) @ [True]" using assms(3) by (auto simp: Kill_def chan_send_Inr)
  with q show ?thesis by (simp add: pass_stop_def chan_send_def)
qed

definition ex_process :: process where
  "ex_process = started 3 0 (Make 3 0 MakePersister)"

theorem kill_ends_goroutines_witness:
  "\<exists>rf p q. Kill (server ex_process) = Inr rf \<and> killed_once (ex_process\<lparr>server := rf\<rparr>)
     \<and> take_stop 3 (ex_process\<lparr>server := rf\<rparr>) = Inr p \<and> threads p ! 3 = (PeerSender 1, Passing) \<and> pass_stop 3 p = Inr q"
proof -
  let ?rf = "(server ex_process)\<lparr>stopChnl := [True]\<rparr>"
  let ?p = "ex_process\<lparr>server := ?rf\<rparr>"
  have e: "stopChnl (server ex_process) = []" "length (threads ex_process) = 6"
    "threads ex_process ! 3 = (PeerSender 1, Looping)" "list_all (\<lambda>t. snd t \<noteq> Passing) (threads ex_process)"
    by (simp_all add: ex_process_def started_def Make_def readPersist_def persister_defs upt_rec)
  have k: "Kill (server ex_process) = Inr ?rf" using e(1) by (simp add: Kill_def chan_send_def)
  have p: "killed_once ?p" by (rule killed_once.kill[OF e(1,4) k])
  obtain q where q: "take_stop 3 ?p = Inr q" "threads q ! 3 = (PeerSender 1, Passing)" "length (threads q) = 6"
    using e by (simp add: take_stop_def)
  have "stop_step ?p q" by (rule stop_step.take[OF _ _ q(1)]) (use e in simp_all)
  then have "killed_once q" by (rule killed_once.stop[OF p])
  from conjunct1[OF kill_ends_goroutines[OF this], rule_format, of 3] obtain q' where "pass_stop 3 q = Inr q'" using q(2,3) by auto
  with k p q show ?thesis by blast
qed

end
