(* ===== verification/ServerEffects.thy ===== *)
theory ServerEffects
  imports NetworkNodes
begin

text \<open>
  What the steps of a server do beyond \<open>LogWindows\<close>: which entries a HeartBeat can take out of a
  log, what a server hands to its service, entry by entry, and how far the messages in a
  leader's channels reach (\<open>msg_end\<close>) against the commit index they carry. \<open>has t k L\<close>: the log
  \<open>L\<close> has an entry of term \<open>t\<close> at position \<open>k\<close>; by log matching that determines all before it.
\<close>

section \<open>Entries of a log\<close>

definition has :: "int32 \<Rightarrow> nat \<Rightarrow> raft_log list \<Rightarrow> bool" where
  "has t k L \<longleftrightarrow> k < length L \<and> Term (L ! k) = t"

lemma has_length: "has t k L \<Longrightarrow> k < length L"
  by (simp add: has_def)

lemma has_take [simp]: "has t k (take c L) \<longleftrightarrow> k < c \<and> has t k L"
  by (auto simp: has_def)

lemma has_append_old [simp]: "k < length L \<Longrightarrow> has t k (L @ M) \<longleftrightarrow> has t k L"
  by (simp add: has_def nth_append)

lemma has_appendI: "has t k L \<Longrightarrow> has t k (L @ M)"
  by (simp add: has_def nth_append)

lemma has_append_new: "has t k (L @ M) \<Longrightarrow> \<not> k < length L \<Longrightarrow> \<exists>v \<in> set M. Term v = t"
  by (auto simp: has_def nth_append intro!: bexI[of _ "M ! (k - length L)"])

lemma has_unique: "has t k L \<Longrightarrow> has u k L \<Longrightarrow> t = u"
  by (simp add: has_def)

lemma matches_upto: "matches P Q \<Longrightarrow> has t k P \<Longrightarrow> has t k Q \<Longrightarrow> take (Suc k) P = take (Suc k) Q"
  by (simp add: matches_def has_def)

lemma take_nth_same: "take c P = take c Q \<Longrightarrow> q < c \<Longrightarrow> q < length P \<Longrightarrow> q < length Q \<Longrightarrow> P ! q = Q ! q"
  by (metis nth_take)

lemma has_same: "take (Suc k) P = take (Suc k) Q \<Longrightarrow> has t k P \<longleftrightarrow> has t k Q"
proof -
  assume eq: "take (Suc k) P = take (Suc k) Q"
  have "has t k P \<longleftrightarrow> has t k (take (Suc k) P)" by simp
  also have "\<dots> \<longleftrightarrow> has t k Q" unfolding eq by simp
  finally show ?thesis .
qed

text \<open>The log \<open>E\<close> is a first part of \<open>P\<close>.\<close>

definition starts_with :: "raft_log list \<Rightarrow> raft_log list \<Rightarrow> bool" where
  "starts_with P E \<longleftrightarrow> take (length E) P = E"

lemma starts_with_refl [simp]: "starts_with P P"
  by (simp add: starts_with_def)

lemma starts_with_append: "starts_with P E \<Longrightarrow> starts_with (P @ xs) E"
  by (auto simp: starts_with_def) (metis append_take_drop_id append_Nil2 diff_is_0_eq' length_take min_def nat_le_linear take_all_iff take_eq_Nil)

lemma starts_with_length: "starts_with P E \<Longrightarrow> length E \<le> length P"
  by (metis length_take min.absorb_iff2 min.commute starts_with_def)

lemma starts_with_nth: "starts_with P E \<Longrightarrow> q < length E \<Longrightarrow> P ! q = E ! q"
  by (metis nth_take starts_with_def)

lemma starts_with_has: "starts_with P E \<Longrightarrow> has t k E \<Longrightarrow> has t k P"
  using starts_with_length[of P E] starts_with_nth[of P E k] by (simp add: has_def)

lemma starts_with_take: "starts_with P E \<Longrightarrow> length E \<le> c \<Longrightarrow> starts_with (take c P) E"
  by (simp add: starts_with_def min_def)

lemma after_start: "starts_with P E \<Longrightarrow> q < length P \<Longrightarrow> \<not> q < length E \<Longrightarrow> P ! q \<in> set (drop (length E) P)"
  by (auto simp: in_set_conv_nth intro!: exI[of _ "q - length E"])

section \<open>What a HeartBeat removes\<close>

text \<open>The search for the conflicting term stops no earlier than the logs part. The code does not
  see to that: \<open>HeartBeat_drops_committed\<close>.\<close>

definition honest_cut :: "raft_log list set \<Rightarrow> append_entries_args \<Rightarrow> raft \<Rightarrow> raft \<Rightarrow> bool" where
  "honest_cut H args rf rf' \<longleftrightarrow> (hb_conflict args rf \<longrightarrow>
     (\<forall>P \<in> H. window P args \<longrightarrow> (\<forall>j. take j (logs rf) = take j P \<longrightarrow> take j (logs rf') = take j (logs rf))))"

lemma first_difference:
  assumes "take (Suc k) xs \<noteq> take (Suc k) ys" "k < length xs" "p < length ys" "p < length xs" "xs ! p \<noteq> ys ! p"
  shows "\<exists>q \<le> k. q < length ys \<and> ys ! q \<noteq> xs ! q"
proof (rule ccontr)
  assume "\<not> ?thesis"
  then have same: "\<And>q. q \<le> k \<Longrightarrow> q < length ys \<Longrightarrow> ys ! q = xs ! q" by auto
  then have "k < p" using assms(3,5) by (metis not_le_imp_less)
  then have "take (Suc k) xs = take (Suc k) ys" using assms(2,3) same by (intro nth_equalityI) auto
  with assms(1) show False by simp
qed

lemma window_nth:
  assumes "window P a" "j < length (Entries a)"
  shows "Suc (nat (Index (PrevLog a))) + j < length P \<and> P ! (Suc (nat (Index (PrevLog a))) + j) = Entries a ! j"
proof -
  have w: "nat (Index (PrevLog a)) + length (Entries a) < length P"
    "take (length (Entries a)) (drop (Suc (nat (Index (PrevLog a)))) P) = Entries a"
    using assms(1) by (auto simp: window_def Let_def)
  have "take (length (Entries a)) (drop (Suc (nat (Index (PrevLog a)))) P) ! j = P ! (Suc (nat (Index (PrevLog a))) + j)"
    using assms(2) w(1) by simp
  with w assms(2) show ?thesis by simp
qed

lemma HeartBeat_loses:
  assumes inv: "node_inv rf" and P: "log_wf P" "window P args" "P \<in> H" and cut: "honest_cut H args rf rf'"
    and run: "HeartBeat args zero_append_reply rf = Inr (rf', reply, out)"
    and k: "has t k (logs rf)" "\<not> has t k (logs rf')"
  shows "\<exists>q \<le> k. q < length P \<and> P ! q \<noteq> logs rf ! q"
proof -
  have wf: "log_wf (logs rf)" "0 \<le> lastApplied rf" using inv by (auto simp: node_inv_def)
  have a: "args_wf args" using P(2,1) by (rule window_args_wf)
  let ?p = "nat (Index (PrevLog args))"
  have prev: "?p < length P" "P ! ?p = PrevLog args" "0 \<le> Index (PrevLog args)" using P(2) by (auto simp: window_def Let_def)
  show ?thesis
    using wf(1) a wf(2)
  proof (cases rule: HeartBeat_branches[where reply = zero_append_reply])
    case blocked
    with run show ?thesis by simp
  next
    case stale
    with run k show ?thesis using HeartBeat_stale[OF wf(1) stale(2,1)] by auto
  next
    case missing
    with run k show ?thesis using HeartBeat_missing[OF wf(1) a missing(2,1,3)] by auto
  next
    case conflict
    have "?p < length (logs rf)" "logs rf ! ?p \<noteq> P ! ?p"
      using conflict(3) prev by (auto simp: hb_conflict_def)
    moreover have "take (Suc k) (logs rf) \<noteq> take (Suc k) P"
      using cut conflict(3) P(2,3) k has_same unfolding honest_cut_def by blast
    ultimately show ?thesis using first_difference has_length[OF k(1)] prev(1) by blast
  next
    case accept
    have "logs rf' = hb_merged args rf"
      using run unfolding HeartBeat_accept[OF wf(1) a accept(2) wf(2) accept(1,3,4)] by (auto simp: Let_def split: if_splits)
    moreover have "Suc ?p \<le> length (logs rf)" using accept(3) prev(3) by (auto simp: hb_missing_def)
    ultimately obtain j where j: "j < length (Entries args)" "Suc ?p + j \<le> k" "Term (Entries args ! j) \<noteq> Term (logs rf ! (Suc ?p + j))"
      using merge_ref_keeps[of "Suc ?p" "logs rf" k "Entries args"] k has_same[of k "logs rf'" "logs rf" t] has_length[OF k(1)]
      by (auto simp: hb_merged_def)
    then show ?thesis using window_nth[OF P(2) j(1)] by (intro exI[of _ "Suc ?p + j"]) auto
  qed
qed

section \<open>What a server hands to its service\<close>

text \<open>The position behind the last entry of a message.\<close>

definition msg_end :: "append_entries_args \<Rightarrow> nat" where
  "msg_end m = Suc (nat (Index (PrevLog m))) + length (Entries m)"

lemma window_end: "window P m \<Longrightarrow> msg_end m \<le> length P"
  by (auto simp: window_def Let_def msg_end_def)

definition hands_log :: "raft \<Rightarrow> effect list \<Rightarrow> raft \<Rightarrow> bool" where
  "hands_log rf out rf' \<longleftrightarrow> lastApplied rf \<le> lastApplied rf'
     \<and> applied out = map apply_msg_of (drop (nat (lastApplied rf + 1)) (take (nat (lastApplied rf' + 1)) (logs rf')))
     \<and> (lastApplied rf < lastApplied rf' \<longrightarrow> lastApplied rf' < int (length (logs rf')))"

lemma hands_nothing: "lastApplied rf' = lastApplied rf \<Longrightarrow> applied out = [] \<Longrightarrow> hands_log rf out rf'"
  by (simp add: hands_log_def)

lemma quiet_hands_log: "quiet rf out rf' \<Longrightarrow> hands_log rf out rf'"
  by (simp add: quiet_def hands_nothing)

text \<open>After a message was accepted the log agrees with the sender's up to the message's end.\<close>

lemma merge_window_agrees:
  assumes m: "matches ls P" and w: "window P a"
    and p: "p = nat (Index (PrevLog a))" "p < length ls" "Term (ls ! p) = Term (PrevLog a)"
  shows "take (msg_end a) (merge_ref ls (Suc p) (Entries a)) = take (msg_end a) P"
proof (cases "merge_ref ls (Suc p) (Entries a) = take (msg_end a) P")
  case False
  then have same: "merge_ref ls (Suc p) (Entries a) = ls"
    using merge_window[OF m w p] by (auto simp: msg_end_def p(1))
  let ?n = "length (Entries a)"
  have P: "p + ?n < length P" "P ! p = PrevLog a" using w by (auto simp: window_def Let_def p(1))
  have len: "Suc p + ?n \<le> length ls" using merge_ref_length[of "Suc p" ls "Entries a"] p(2) by (simp add: same)
  have "Term (ls ! (p + ?n)) = Term (P ! (p + ?n))"
  proof (cases ?n)
    case 0
    then show ?thesis using p(3) P(2) by simp
  next
    case (Suc j)
    have "Term (ls ! (Suc p + j)) = Term (Entries a ! j)"
      using merge_ref_Term[of "Suc p" ls j "Entries a"] Suc p(2) unfolding same by simp
    then show ?thesis using window_nth[OF w, of j] Suc by (simp add: p(1))
  qed
  then have "take (Suc (p + ?n)) ls = take (Suc (p + ?n)) P" using m len P(1) by (simp add: matches_def)
  then show ?thesis unfolding same by (simp add: msg_end_def p(1))
qed simp

lemma HeartBeat_applies:
  assumes inv: "node_inv rf" and P: "log_wf P" "window P args" "matches (logs rf) P"
    and run: "HeartBeat args zero_append_reply rf = Inr (rf', reply, out)"
  shows "hands_log rf out rf' \<and> (lastApplied rf' \<noteq> lastApplied rf \<longrightarrow>
    lastApplied rf' \<le> LeaderCommitIdx args \<and> take (msg_end args) (logs rf') = take (msg_end args) P)"
proof -
  have wf: "log_wf (logs rf)" "0 \<le> lastApplied rf" using inv by (auto simp: node_inv_def)
  have a: "args_wf args" using P(2,1) by (rule window_args_wf)
  show ?thesis
    using wf(1) a wf(2)
  proof (cases rule: HeartBeat_branches[where reply = zero_append_reply])
    case blocked
    with run show ?thesis by simp
  next
    case stale
    with run show ?thesis using HeartBeat_stale[OF wf(1) stale(2,1)] by (auto simp: hands_nothing)
  next
    case missing
    with run show ?thesis using HeartBeat_missing[OF wf(1) a missing(2,1,3)] by (auto simp: hands_nothing)
  next
    case conflict
    with run show ?thesis using HeartBeat_conflict[OF wf(1) a conflict(2,1,3)] by (auto simp: hands_nothing)
  next
    case accept
    let ?p = "nat (Index (PrevLog args))" and ?ls = "hb_merged args rf"
    have p: "?p < length (logs rf)" "Term (logs rf ! ?p) = Term (PrevLog args)"
      using accept(3,4) args_wfD(1)[OF a] by (auto simp: hb_missing_def hb_conflict_def)
    have agree: "take (msg_end args) ?ls = take (msg_end args) P"
      using merge_window_agrees[OF P(3,2) HOL.refl p] by (simp add: hb_merged_def)
    show ?thesis
      using run agree unfolding HeartBeat_accept[OF wf(1) a accept(2) wf(2) accept(1,3,4)]
      by (auto simp: Let_def hands_log_def advances_def new_commit_def split: if_splits)
  qed
qed

text \<open>Of its own accord a server hands over only what \<open>commit_step\<close> commits.\<close>

lemma own_applies:
  assumes "own_step rf out ms rf'" "node_inv rf"
  shows "hands_log rf out rf'"
  using assms
proof (induction rule: own_step.induct)
  case (commit rf rf' out)
  have ok: "commit_ok rf" "commitIdx rf = lastApplied rf" using commit(2) by (auto simp: node_inv_def commit_ok_def)
  obtain i c where ch: "commitIdxChnl rf = i # c"
    using commit(1) by (auto simp: commit_step_def chan_recv_Inr)
  show ?case
  proof (cases rule: commit_step_cases[OF ok(1) ch])
    case 1
    with commit(1) show ?thesis by (auto intro: hands_nothing)
  next
    case 2
    with commit(1) show ?thesis by (auto intro: hands_nothing)
  next
    case (3 out')
    with commit(1) ok(2) show ?thesis by (auto simp: hands_log_def)
  qed
next
  case (start cmd rf rf' i t l)
  then show ?case using quiet_steps(2) quiet_hands_log by blast
next
  case (kill rf rf')
  then show ?case using quiet_steps(3) quiet_hands_log by blast
next
  case (stop rf rf')
  then show ?case using quiet_steps(4) quiet_hands_log by blast
next
  case (reset rf rf')
  then show ?case using quiet_steps(5) quiet_hands_log by blast
next
  case (tick rf rf')
  then show ?case using hb_tick_inv quiet_hands_log by blast
next
  case (jobs rf rf')
  then show ?case using job_step_inv[OF jobs(3,1,2)] by (simp add: hands_nothing)
next
  case (send fits server rf rf' msg)
  then show ?case using peer_send_inv[OF send(2,1)] by (simp add: hands_nothing)
next
  case (skip fits server rf rf')
  then show ?case using peer_send_inv[OF skip(2,1)] by (simp add: hands_nothing)
next
  case (answer server args reply rf rf' out)
  then show ?case using peer_reply_quiet quiet_hands_log by blast
next
  case (drain rf rf')
  then show ?case using quiet_steps(6) quiet_hands_log by blast
qed

section \<open>Messages and the commit index they carry\<close>

text \<open>What is new in the channels reaches to the end of the log and carries the server's commit index;
  a message that is sent reaches as far as it did in its channel.\<close>

definition queue :: "raft \<Rightarrow> append_entries_args set" where
  "queue rf = set (concat (rdyChnl rf))"

definition queues :: "raft \<Rightarrow> raft \<Rightarrow> bool" where
  "queues rf rf' \<longleftrightarrow> (\<forall>m \<in> queue rf'. m \<in> queue rf
     \<or> msg_end m = length (logs rf') \<and> LeaderCommitIdx m = lastApplied rf)"

definition sends :: "raft \<Rightarrow> (nat \<times> append_entries_args) list \<Rightarrow> bool" where
  "sends rf ms \<longleftrightarrow> (\<forall>(d, m) \<in> set ms. \<exists>a \<in> queue rf. msg_end m = msg_end a \<and> LeaderCommitIdx m = LeaderCommitIdx a)"

lemma queues_same: "rdyChnl rf' = rdyChnl rf \<Longrightarrow> queues rf rf' \<and> sends rf []"
  by (simp add: queues_def queue_def sends_def)

lemma quiet_queues: "quiet rf out rf' \<and> keeps_chans rf rf' \<Longrightarrow> queues rf rf' \<and> sends rf []"
  by (simp add: quiet_defs queues_same)

lemma last_end: "log_wf ls \<Longrightarrow> Suc (nat (Index (last ls))) = length ls"
  using log_wfD(1)[of ls] log_wf_last[of ls] by (cases ls) auto

lemma tick_queues:
  assumes inv: "node_inv rf" and run: "hb_tick rf = Inr rf'"
  shows "queues rf rf'"
proof -
  have ls: "log_wf (logs rf)" "commitIdx rf = lastApplied rf" "length (rdyChnl rf) = n_peers rf"
    using inv by (simp_all add: node_inv_def)
  define a where "a = \<lparr>ae_Term = currentTerm rf, LeaderID = me rf, PrevLog = last (logs rf), Entries = [], LeaderCommitIdx = commitIdx rf\<rparr>"
  define ch where "ch j = (if length (rdyChnl rf ! j) \<noteq> 0 \<or> int j = me rf then rdyChnl rf ! j else rdyChnl rf ! j @ [a])" for j
  have rf': "rf' = rf\<lparr>rdyChnl := map ch [0..<n_peers rf]\<rparr>"
    using run log_wfD(1)[OF ls(1)] by (auto simp: hb_tick_def Let_def a_def ch_def split: if_splits)
  have "m \<in> queue rf \<or> m = a" if "m \<in> queue rf'" for m
    using that ls(3) nth_mem[of _ "rdyChnl rf"] by (fastforce simp: queue_def rf' ch_def split: if_splits)
  moreover have "msg_end a = length (logs rf')" using last_end[OF ls(1)] by (simp add: a_def msg_end_def rf')
  moreover have "LeaderCommitIdx a = lastApplied rf" using ls(2) by (simp add: a_def)
  ultimately show ?thesis unfolding queues_def by metis
qed

lemma job_queues:
  assumes inv: "node_inv rf" and sync: "jobs_sync rf" and run: "job_step rf = Inr rf'"
  shows "queues rf rf'"
proof (cases "jobsChnl rf = []")
  case True
  then have "rf' = rf" using run by (simp add: job_step_def)
  then show ?thesis using queues_same by simp
next
  case False
  have ls: "log_wf (logs rf)" "commitIdx rf = lastApplied rf" "length (rdyChnl rf) = n_peers rf"
    using inv by (simp_all add: node_inv_def)
  obtain chs where chs: "(if isLeader rf then send_rdy (job_args rf) (me rf) [0..<n_peers rf] (rdyChnl rf) else Inr (rdyChnl rf)) = Inr chs"
    and rf': "rf' = persist (rf\<lparr>jobsChnl := drop maxEntriesPerBatch (jobsChnl rf), rdyChnl := chs, logs := logs rf @ batch rf\<rparr>)"
    using run unfolding job_step_sends[OF ls(1) sync False] go_bind_Inr by blast
  have "set (concat chs) \<subseteq> insert (job_args rf) (queue rf)"
  proof (cases "isLeader rf")
    case True
    then have "send_rdy (job_args rf) (me rf) [0..<n_peers rf] (rdyChnl rf) = Inr chs" using chs by simp
    from send_rdy_set[OF this] ls(3) show ?thesis by (simp add: queue_def)
  next
    case False
    with chs show ?thesis by (auto simp: queue_def)
  qed
  then have "m = job_args rf \<or> m \<in> queue rf" if "m \<in> queue rf'" for m using that by (auto simp: queue_def rf')
  moreover have "msg_end (job_args rf) = length (logs rf')" using last_end[OF ls(1)] by (simp add: job_args_def msg_end_def rf')
  moreover have "LeaderCommitIdx (job_args rf) = lastApplied rf" using ls(2) by (simp add: job_args_def)
  ultimately show ?thesis unfolding queues_def by metis
qed

lemma send_queues:
  assumes inv: "node_inv rf" and run: "peer_send fits server rf = Inr (rf', msg)"
  shows "queues rf rf' \<and> sends rf (case msg of None \<Rightarrow> [] | Some m \<Rightarrow> [(server, m)])"
proof -
  obtain a c where srv: "server < length (rdyChnl rf)" and ch: "rdyChnl rf ! server = a # c"
    using run by (auto simp: peer_send_def idx_Inr chan_recv_Inr)
  have mem: "set (a # c) \<subseteq> queue rf"
    using nth_mem[OF srv] unfolding ch queue_def set_concat by (rule Union_upper[OF imageI])
  have "rdyChnl rf' = (rdyChnl rf)[server := c]"
    using run srv ch by (auto simp: peer_send_def idx_def Let_def split: if_splits)
  then have "queue rf' \<subseteq> queue rf"
    using set_update_subset_insert[of "rdyChnl rf" server c] mem by (fastforce simp: queue_def)
  then have q: "queues rf rf'" by (auto simp: queues_def)
  have ls: "log_wf (logs rf)" and a: "args_wf a" using inv mem by (auto simp: node_inv_def queue_def)
  have hi: "i32 (Index (PrevLog a) + 1) = Index (PrevLog a) + 1" "0 \<le> Index (PrevLog a)" using args_wfD(1,2)[OF a] by auto
  have "LeaderCommitIdx m = LeaderCommitIdx a \<and> msg_end m = msg_end a" if m: "msg = Some m" for m
  proof (cases "nextIndex rf ! server \<le> Index (PrevLog a) \<and> server < length (nextIndex rf)")
    case False
    then have "m = a" using run m srv ch by (auto simp: peer_send_def idx_def Let_def split: if_splits)
    then show ?thesis by simp
  next
    case True
    let ?next = "nextIndex rf ! server" and ?h = "nat (Index (PrevLog a) + 1)"
    define ls' where "ls' = (if fits \<or> ?h + length (Entries a) \<le> length (logs rf)
      then overwrite (logs rf) ?h (Entries a) else logs rf)"
    have lead: "isLeader rf" using run m srv ch by (auto simp: peer_send_def idx_def Let_def split: if_splits)
    from run True lead m obtain p where bounds: "0 \<le> ?next" "?next \<le> Index (PrevLog a) + 1" "Index (PrevLog a) + 1 \<le> int (length (logs rf))"
      and p: "idx ls' (i32 (?next - 1)) = Inr p"
      and m': "m = a\<lparr>Entries := drop (nat ?next) (take ?h (logs rf)) @ Entries a, PrevLog := p\<rparr>"
      unfolding ls'_def peer_send_def using srv ch
      by (cases "fits \<or> ?h + length (Entries a) \<le> length (logs rf)")
        (simp_all add: idx_def[of "rdyChnl rf"] idx_def[of "nextIndex rf"] Let_def hi go_bind_Inr reslice_Inr, auto)
    have con: "consecutive (int ?h) (Entries a)" using args_wfD(3)[OF a] hi by (simp add: nat_add_distrib)
    have wf': "log_wf ls'" unfolding ls'_def using ls con hi bounds by (auto intro!: log_wf_overwrite)
    have "i32 (?next - 1) = ?next - 1" using bounds log_wfD(3)[OF ls] by (intro i32_small) auto
    then have nx: "1 \<le> ?next" "p = ls' ! nat (?next - 1)" "nat (?next - 1) < length ls'"
      using p by (auto simp: idx_Inr)
    have "Index p = ?next - 1" using log_wf_Index[OF wf' nx(3)] nx by simp
    moreover have "length (drop (nat ?next) (take ?h (logs rf))) = ?h - nat ?next" using bounds by simp
    ultimately show ?thesis using nx(1) bounds hi(2) by (simp add: m' msg_end_def nat_diff_distrib')
  qed
  then have "sends rf (case msg of None \<Rightarrow> [] | Some m \<Rightarrow> [(server, m)])"
    using mem by (auto simp: sends_def split: option.split intro!: bexI[of _ a])
  with q show ?thesis ..
qed

lemma own_queues:
  assumes "own_step rf out ms rf'" "node_inv rf"
  shows "queues rf rf' \<and> sends rf ms"
  using assms
proof (induction rule: own_step.induct)
  case (tick rf rf')
  then show ?case using tick_queues by (simp add: sends_def)
next
  case (jobs rf rf')
  then show ?case using job_queues by (simp add: sends_def)
next
  case (send fits server rf rf' msg)
  then show ?case using send_queues[OF send(2,1)] by simp
next
  case (skip fits server rf rf')
  then show ?case using send_queues[OF skip(2,1)] by simp
next
  case (commit rf rf' out)
  then have "rdyChnl rf' = rdyChnl rf" by (auto simp: commit_step_def Let_def split: if_splits)
  then show ?case by (rule queues_same)
next
  case (start cmd rf rf' i t l)
  then show ?case using quiet_steps(2) quiet_queues by blast
next
  case (kill rf rf')
  then show ?case using quiet_steps(3) quiet_queues by blast
next
  case (stop rf rf')
  then show ?case using quiet_steps(4) quiet_queues by blast
next
  case (reset rf rf')
  then show ?case using quiet_steps(5) quiet_queues by blast
next
  case (answer server args reply rf rf' out)
  then show ?case using peer_reply_quiet quiet_queues by blast
next
  case (drain rf rf')
  then show ?case using quiet_steps(6) quiet_queues by blast
qed

end
