(* ===== verification/AuditedRuns.thy ===== *)
theory AuditedRuns
  imports ServerEffects
begin

text \<open>
  Runs of the network with a record kept beside it (\<open>audit\<close>): the log each election was started
  with (\<open>cands\<close>), which server had an entry while its current term was the entry's (\<open>held\<close>), the
  votes given before the candidate had won (\<open>early\<close>), and what each server handed to its service
  (\<open>streams\<close>). An entry is \<open>chosen\<close> when a majority held it.

  The steps are those of \<open>Network\<close> under two more conditions, each of which the code leaves to
  chance:
  \<^item> \<open>honest_cut\<close>: a follower that finds a conflict does not go back beyond the entries it has in
    common with the sender (\<open>HeartBeat_drops_committed\<close>: the code may);
  \<^item> \<open>fresh_entries\<close>: the dispatcher appends only a leader's commands of its current term
    (it does not look, so commands left from an earlier leadership get in).

  Answers to AppendEntries are still arbitrary, and so is what a leader commits; \<open>CountedRuns\<close>
  looks at those.

  The invariant of this theory is about the logs: terms never decrease along a log, every log with
  an entry of a term starts with the log its leader was elected with, and has the leader's
  entries of that term without a gap.
\<close>

section \<open>The record and the steps\<close>

record audit =
  cands :: "(nat \<times> int32 \<times> raft_log list) set"
  held :: "(nat \<times> int32 \<times> nat) set"
  early :: "(nat \<times> int32 \<times> nat) set"
  streams :: "nat \<Rightarrow> apply_msg list"

definition init_audit :: audit where
  "init_audit = \<lparr>cands = {}, held = {}, early = {}, streams = (\<lambda>_. [])\<rparr>"

definition noted :: "nat \<Rightarrow> effect list \<Rightarrow> network \<Rightarrow> network \<Rightarrow> audit \<Rightarrow> audit" where
  "noted i out s s' g =
     \<lparr>cands = cands g \<union> {(i, el_term e, logs (node s' i)) |e. e \<in> set (drop (length (elections (node s i))) (elections (node s' i)))},
      held = held g \<union> {(i, currentTerm (node s' i), k) |k. has (currentTerm (node s' i)) k (logs (node s' i))},
      early = early g \<union> {(v, t, c). (v, t, c) \<in> grants (base s') \<and> \<not> elected (base s) c t},
      streams = (streams g)(i := streams g i @ applied out)\<rparr>"

definition chosen :: "nat \<Rightarrow> audit \<Rightarrow> int32 \<Rightarrow> nat \<Rightarrow> bool" where
  "chosen n g t k \<longleftrightarrow> (\<exists>Q. majority n Q \<and> (\<forall>v \<in> Q. (v, t, k) \<in> held g))"

definition fresh_entries :: "raft \<Rightarrow> raft \<Rightarrow> bool" where
  "fresh_entries rf rf' \<longleftrightarrow> (logs rf' \<noteq> logs rf \<longrightarrow>
     isLeader rf \<and> (\<forall>v \<in> set (drop (length (logs rf)) (logs rf')). Term v = currentTerm rf))"

inductive safe_step :: "nat \<Rightarrow> network \<Rightarrow> audit \<Rightarrow> network \<Rightarrow> audit \<Rightarrow> bool" for n where
  vote: "vote_step n (base s) i rf' b \<Longrightarrow> safe_step n s g (s\<lparr>base := b\<rparr>) (noted i [] s (s\<lparr>base := b\<rparr>) g)"
| heartbeat: "i < n \<Longrightarrow> (i, args) \<in> net s \<Longrightarrow>
     HeartBeat args zero_append_reply (node s i) = Inr (rf', reply, out) \<Longrightarrow>
     honest_cut (hist s) args (node s i) rf' \<Longrightarrow>
     safe_step n s g (put i rf' s) (noted i out s (put i rf' s) g)"
| own: "i < n \<Longrightarrow> own_step (node s i) out ms rf' \<Longrightarrow> fresh_entries (node s i) rf' \<Longrightarrow>
     safe_step n s g (post ms (put i rf' s)) (noted i out s (post ms (put i rf' s)) g)"

inductive safe_reach :: "nat \<Rightarrow> network \<Rightarrow> audit \<Rightarrow> bool" for n where
  init: "safe_reach n (init_network n) init_audit"
| step: "safe_reach n s g \<Longrightarrow> safe_step n s g s' g' \<Longrightarrow> safe_reach n s' g'"

lemma safe_step_net: "safe_step n s g s' g' \<Longrightarrow> net_step n s s'"
  by (induction rule: safe_step.induct) (auto intro: net_step.intros)

lemma safe_reach_net: "safe_reach n s g \<Longrightarrow> net_reach n s"
  by (induction rule: safe_reach.induct) (auto intro: net_reach.intros safe_step_net)

lemma safe_reach_inv: "safe_reach n s g \<Longrightarrow> n < 2147483648 \<Longrightarrow> net_inv n s"
  using net_reach_inv safe_reach_net by blast

section \<open>The kinds of steps\<close>

text \<open>A step is one server's; it works on (at most appending to its log), starts an election, wins one,
  or hears of a leader.\<close>

abbreviation cur :: "network \<Rightarrow> nat \<Rightarrow> int32" where
  "cur s i \<equiv> currentTerm (node s i)"

abbreviation lg :: "network \<Rightarrow> nat \<Rightarrow> raft_log list" where
  "lg s i \<equiv> logs (node s i)"

definition acts :: "nat \<Rightarrow> network \<Rightarrow> nat \<Rightarrow> network \<Rightarrow> bool" where
  "acts n s i s' \<longleftrightarrow> i < n \<and> (\<forall>j. j \<noteq> i \<longrightarrow> node s' j = node s j)
     \<and> (\<forall>c t. elected (base s) c t \<longrightarrow> elected (base s') c t) \<and> cur s i \<le> cur s' i
     \<and> hist s' = insert (lg s' i) (hist s)"

definition kept_elections :: "raft \<Rightarrow> raft \<Rightarrow> bool" where
  "kept_elections rf rf' \<longleftrightarrow> length (elections rf') = length (elections rf)
     \<and> (\<forall>e' \<in> set (elections rf'). \<exists>e \<in> set (elections rf). el_term e' = el_term e \<and> el_lastLog e' = el_lastLog e
          \<and> el_commitIdx e' = el_commitIdx e \<and> (phase e' = Counting \<longrightarrow> phase e = Counting))"

definition works :: "network \<Rightarrow> nat \<Rightarrow> network \<Rightarrow> bool" where
  "works s i s' \<longleftrightarrow> kept_elections (node s i) (node s' i)
     \<and> (\<exists>new. lg s' i = lg s i @ new \<and> (new \<noteq> [] \<longrightarrow> isLeader (node s i) \<and> (\<forall>v \<in> set new. Term v = cur s i)))
     \<and> (isLeader (node s' i) \<longrightarrow> isLeader (node s i) \<and> cur s' i = cur s i)
     \<and> (\<forall>(d, m) \<in> net s' - net s. isLeader (node s i) \<and> window (lg s i) m \<and> ae_Term m = cur s i)"

definition starts :: "network \<Rightarrow> nat \<Rightarrow> network \<Rightarrow> bool" where
  "starts s i s' \<longleftrightarrow> lg s' i = lg s i \<and> cur s' i = cur s i + 1 \<and> \<not> isLeader (node s' i) \<and> net s' = net s
     \<and> (\<exists>e. elections (node s' i) = elections (node s i) @ [e] \<and> el_term e = cur s' i \<and> el_lastLog e = last (lg s i)
          \<and> el_commitIdx e = commitIdx (node s i))"

definition wins :: "nat \<Rightarrow> network \<Rightarrow> nat \<Rightarrow> network \<Rightarrow> bool" where
  "wins n s i s' \<longleftrightarrow> kept_elections (node s i) (node s' i) \<and> lg s' i = lg s i \<and> cur s' i = cur s i \<and> net s' = net s
     \<and> elected (base s') i (cur s i) \<and> (\<forall>c < n. \<not> elected (base s) c (cur s i))
     \<and> (\<exists>e \<in> set (elections (node s i)). phase e = Counting \<and> el_term e = cur s i
          \<and> (\<forall>m \<in> queue (node s' i). PrevLog m = el_lastLog e \<and> Entries m = [] \<and> LeaderCommitIdx m = el_commitIdx e))"

definition hears :: "network \<Rightarrow> nat \<Rightarrow> effect list \<Rightarrow> network \<Rightarrow> bool" where
  "hears s i out s' \<longleftrightarrow> (\<exists>args reply. (i, args) \<in> net s \<and> s' = put i (node s' i) s
     \<and> HeartBeat args zero_append_reply (node s i) = Inr (node s' i, reply, out)
     \<and> honest_cut (hist s) args (node s i) (node s' i))"

text \<open>What such a step hands over and sends: \<open>passes\<close> goes with the first kind, \<open>rests\<close> with elections.\<close>

definition passes :: "network \<Rightarrow> nat \<Rightarrow> effect list \<Rightarrow> network \<Rightarrow> bool" where
  "passes s i out s' \<longleftrightarrow> hands_log (node s i) out (node s' i)
     \<and> queues (node s i) (node s' i)
     \<and> (\<forall>(d, m) \<in> net s' - net s. \<exists>a \<in> queue (node s i). msg_end m = msg_end a \<and> LeaderCommitIdx m = LeaderCommitIdx a)"

definition rests :: "network \<Rightarrow> nat \<Rightarrow> effect list \<Rightarrow> network \<Rightarrow> bool" where
  "rests s i out s' \<longleftrightarrow> lastApplied (node s' i) = lastApplied (node s i) \<and> out = []"

lemma kept_same: "elections rf' = elections rf \<Longrightarrow> kept_elections rf rf'"
  by (auto simp: kept_elections_def)

lemma kept_update:
  assumes "elections rf' = (elections rf)[k := e']" "k < length (elections rf)"
    "el_term e' = el_term (elections rf ! k)" "el_lastLog e' = el_lastLog (elections rf ! k)"
    "el_commitIdx e' = el_commitIdx (elections rf ! k)" "phase e' = Counting \<Longrightarrow> phase (elections rf ! k) = Counting"
  shows "kept_elections rf rf'"
  using assms unfolding kept_elections_def
  by (auto dest!: set_update_subset_insert[THEN subsetD] intro: bexI[of _ "elections rf ! k"])

lemma tracker_kept:
  assumes "tracker_recv k rf = Inr rf'"
  shows "kept_elections rf rf' \<and> currentTerm rf' = currentTerm rf"
proof -
  let ?e = "elections rf ! k"
  obtain e' where "k < length (elections rf)" "elections rf' = (elections rf)[k := e']" "el_term e' = el_term ?e"
    "el_lastLog e' = el_lastLog ?e" "el_commitIdx e' = el_commitIdx ?e" "phase ?e = Counting" "currentTerm rf' = currentTerm rf"
    using assms by (auto simp: tracker_recv_def idx_Inr chan_recv_Inr Let_def split: if_splits)
  then show ?thesis by (simp add: kept_update)
qed

text \<open>An announcement goes to channels that are empty.\<close>

lemma announce_wins:
  assumes n: "n < 2147483648" and inv: "net_inv n s" and i: "i < n"
    and run: "tracker_recv k (node s i) = Inr rf'" and fw: "fresh_win k (node s i) rf'"
    and ann: "phase (elections rf' ! k) = Announced"
  shows "wins n s i (s\<lparr>base := set_node i rf' (base s)\<rparr>)"
proof -
  let ?rf = "node s i" and ?b = "set_node i rf' (base s)"
  let ?e = "elections ?rf ! k"
  have k: "k < length (elections ?rf)" "phase ?e = Counting"
    using run by (auto simp: tracker_recv_def idx_Inr split: if_splits)
  have st: "vote_step n (base s) i rf' ?b" by (rule vote_step.count[OF i run fw])
  have T: "el_term ?e = cur s i" and empty: "concat (rdyChnl ?rf) = []" using fw ann by (auto simp: fresh_win_def)
  define a where "a = \<lparr>ae_Term = el_term ?e, LeaderID = me ?rf, PrevLog = el_lastLog ?e, Entries = [], LeaderCommitIdx = el_commitIdx ?e\<rparr>"
  obtain c where vc: "votingChnl ?e = True # c" and v: "votes ?e + 1 = int (n_peers ?rf div 2)"
    using run k ann by (auto simp: tracker_recv_def idx_def chan_recv_Inr Let_def split: if_splits)
  obtain h chs where chs: "send_rdy a (me ?rf) [0..<n_peers ?rf] (rdyChnl ?rf) = Inr chs"
    and rf': "rf' = ?rf\<lparr>heartBeatTimerReset := h, isLeader := True, rdyChnl := chs,
        elections := (elections ?rf)[k := ?e\<lparr>votingChnl := c, votes := votes ?e + 1, phase := Announced\<rparr>]\<rparr>"
    using run k vc v by (auto simp: tracker_recv_def idx_def Let_def a_def)
  have won: "elected ?b i (cur s i)"
    unfolding elected_def using k(1) T by (auto simp: rf' has_won_def intro!: bexI[OF _ set_update_memI])
  have mono: "elected (base s) c t \<Longrightarrow> elected ?b c t" for c t
    by (rule vote_step_elected[OF st reachable_inv[OF net_invD(1)[OF inv] n]])
  have only: "c = i" if "c < n" "elected ?b c (cur s i)" for c
    using elected_unique[OF n reachable.step[OF net_invD(1)[OF inv] vote_step_cluster[OF st]] that(1) i that(2) won] .
  have "\<not> elected (base s) c (cur s i)" if "c < n" for c
  proof
    assume w: "elected (base s) c (cur s i)"
    then have "c = i" using only[OF that mono] by simp
    with w obtain e where e: "e \<in> set (elections ?rf)" "has_won e" "el_term e = cur s i" by (auto simp: elected_def)
    then obtain j where j: "j < length (elections ?rf)" "e = elections ?rf ! j" by (auto simp: in_set_conv_nth)
    have "distinct (map el_term (elections ?rf))" using net_invD(8)[OF inv i] by (simp add: candidate_ok_def)
    then have "j = k" using j e(3) T k(1) by (simp add: distinct_conv_nth) (metis nth_map length_map)
    with e(2) j k(2) show False by (simp add: has_won_def)
  qed
  moreover have "queue rf' \<subseteq> {a}"
    using send_rdy_set[OF chs] net_invD(5)[OF inv i] empty by (simp add: node_inv_def queue_def rf')
  ultimately show ?thesis
    using won k T tracker_kept[OF run] unfolding wins_def by (auto simp: rf' a_def intro!: bexI[of _ ?e])
qed

lemma vote_acts:
  assumes n: "n < 2147483648" and inv: "net_inv n s" and st: "vote_step n (base s) i rf' b"
  shows "acts n s i (s\<lparr>base := b\<rparr>) \<and> node (s\<lparr>base := b\<rparr>) i = rf'"
proof -
  have cinv: "cluster_inv n (base s)" by (rule reachable_inv[OF net_invD(1)[OF inv] n])
  have i: "i < n" "nodes b = (nodes (base s))(i := rf')" using vote_step_node[OF st cinv] by auto
  have "lg s i \<in> hist s" using net_invD(2)[OF inv] i(1) by (simp add: logs_ok_def)
  moreover have "cur s i \<le> currentTerm rf'"
    using st by (cases rule: vote_step.cases) (use i(1) cluster_invD(1)[OF cinv] in
      \<open>auto simp: node_ok_def RequestVote_effect(4) vote_reply_effect(3) election_timeout_effect(5) tracker_kept
        quiet_votes(4) leader_init_effect(5)\<close>)
  ultimately show ?thesis
    using i vote_same_log[OF st] vote_step_elected[OF st cinv] by (auto simp: acts_def same_log_def)
qed

lemma vote_kinds:
  assumes n: "n < 2147483648" and inv: "net_inv n s" and st: "vote_step n (base s) i rf' b"
  shows "works s i (s\<lparr>base := b\<rparr>) \<and> rdyChnl rf' = rdyChnl (node s i) \<or> starts s i (s\<lparr>base := b\<rparr>)
    \<or> wins n s i (s\<lparr>base := b\<rparr>)"
proof -
  let ?s = "s\<lparr>base := b\<rparr>"
  have rf': "node ?s i = rf'" and i: "i < n" using vote_acts[OF assms] by (auto simp: acts_def)
  have cinv: "cluster_inv n (base s)" by (rule reachable_inv[OF net_invD(1)[OF inv] n])
  have same: "lg ?s i = lg s i" using vote_same_log[OF st] rf' by (simp add: same_log_def)
  have works: "works s i ?s" if "kept_elections (node s i) rf'"
    "isLeader rf' \<longrightarrow> isLeader (node s i) \<and> currentTerm rf' = cur s i"
    using that same rf' by (auto simp: works_def)
  from st show ?thesis
  proof (cases rule: vote_step.cases)
    case (timeout args)
    have "0 \<le> cur s i" using cluster_invD(1)[OF cinv i] by (simp add: node_ok_def)
    note e = election_timeout_effect[OF timeout(4,3) this]
    have "lg s i \<noteq> []" using net_invD(5)[OF inv i] log_wfD(1) by (auto simp: node_inv_def)
    then have "Log args = last (lg s i)" using timeout(4) by (auto simp: election_timeout_def Let_def split: if_splits)
    then have "starts s i ?s" using e same rf' by (simp add: starts_def)
    then show ?thesis by blast
  next
    case (deliver c k args reply out)
    show ?thesis
      using works[OF kept_same[OF RequestVote_effect(3)[OF deliver(3)]]] quiet_votes(2)[OF deliver(3,4)] by simp
  next
    case (reply k v r)
    note e = vote_reply_effect[OF reply(3)]
    show ?thesis using works[OF kept_update[OF e(7,6)]] quiet_votes(3)[OF reply(3)] by simp
  next
    case (count k)
    from count(3) show ?thesis
    proof (cases rule: count_cases)
      case counts
      then show ?thesis using works tracker_kept[OF count(3)] by simp
    next
      case wins
      then show ?thesis using announce_wins[OF n inv i count(3,4)] count(1) by simp
    qed
  next
    case (quit k)
    note e = tracker_timeout_effect[OF quit(3)]
    have "kept_elections (node s i) rf'"
      by (rule kept_update[where k = k and e' = "(elections (node s i) ! k)\<lparr>phase := Quit\<rparr>"])
        (use e in \<open>simp_all\<close>)
    then show ?thesis using works quiet_votes(4)[OF quit(3)] by simp
  next
    case (lead k)
    note e = leader_init_effect[OF lead(3)]
    show ?thesis using works[OF kept_update[OF e(8,1)]] quiet_votes(5)[OF lead(3)] by simp
  qed
qed

lemma own_works:
  assumes n: "n < 2147483648" and inv: "net_inv n s" and i: "i < n"
    and st: "own_step (node s i) out ms rf'" and fresh: "fresh_entries (node s i) rf'"
  shows "works s i (post ms (put i rf' s))"
proof -
  let ?rf = "node s i"
  note me = node_identity[OF n inv i]
  have lw: "isLeader ?rf \<longrightarrow> windows ?rf" using net_invD(7)[OF inv i] by (simp add: leader_ok_def)
  have rd: "rdyChnl ?rf ! i = []" using net_invD(8)[OF inv i] by (simp add: candidate_ok_def)
  have eff: "own_effect i ?rf ms rf'"
    using own_step_effect[OF st net_invD(5)[OF inv i] lw rd me(1)] me(2) i by simp
  have fr: "vote_frame ?rf rf'" using own_step_local[OF st] by (rule local_step_frame)
  obtain new where new: "logs rf' = logs ?rf @ new" using eff by (auto simp: own_effect_def moves_log_def)
  then have "new \<noteq> [] \<longrightarrow> isLeader ?rf \<and> (\<forall>v \<in> set new. Term v = cur s i)"
    using fresh by (auto simp: fresh_entries_def)
  then show ?thesis
    using new eff fr by (auto simp: works_def own_effect_def vote_frame_def intro!: kept_same)
qed

lemma put_acts:
  assumes inv: "net_inv n s" and i: "i < n" and fr: "vote_frame (node s i) rf'"
  shows "acts n s i (post ms (put i rf' s))"
proof -
  have "elected (set_node i rf' (base s)) = elected (base s)"
    using fr by (intro elected_same) (simp add: vote_frame_def)
  with i fr show ?thesis by (simp add: acts_def vote_frame_def)
qed

lemma vote_applied: "vote_step n b i rf' b' \<Longrightarrow> lastApplied rf' = lastApplied (nodes b i)"
  by (induction rule: vote_step.induct)
     (auto simp: election_timeout_def RequestVote_def vote_reply_def tracker_recv_def tracker_timeout_def
       leader_init_def Let_def split: if_splits)

text \<open>Each step of a safe run is of one of the four kinds.\<close>

lemma safe_kinds:
  assumes "safe_step n s g s' g'" "n < 2147483648" "net_inv n s"
  obtains i out where "acts n s i s'" "g' = noted i out s s' g"
    "works s i s' \<and> passes s i out s' \<or> starts s i s' \<and> rests s i out s' \<or> wins n s i s' \<and> rests s i out s'
     \<or> hears s i out s'"
  using assms
proof (induction rule: safe_step.induct)
  case (vote s i rf' b g)
  let ?s = "s\<lparr>base := b\<rparr>"
  have act: "acts n s i ?s" "node ?s i = rf'" using vote_acts[OF vote(3,4,1)] by auto
  have la: "lastApplied rf' = lastApplied (node s i)" using vote_applied[OF vote(1)] .
  have "rdyChnl rf' = rdyChnl (node s i) \<Longrightarrow> passes s i [] ?s"
    using act(2) la queues_same by (simp add: passes_def hands_nothing)
  moreover have "rests s i [] ?s" using act(2) la by (simp add: rests_def)
  ultimately show ?case using vote_kinds[OF vote(3,4,1)] act(1) vote(2) by blast
next
  case (heartbeat i args s rf' reply out g)
  have "acts n s i (put i rf' s)"
    using put_acts[OF heartbeat(7,1) HeartBeat_frame[OF heartbeat(3)], of "[]"] by (simp add: post_def put_def)
  moreover have "hears s i out (put i rf' s)" using heartbeat(2-4) by (auto simp: hears_def)
  ultimately show ?case using heartbeat(5) by blast
next
  case (own i s out ms rf' g)
  have fr: "vote_frame (node s i) rf'" using own_step_local[OF own(2)] by (rule local_step_frame)
  have inv: "node_inv (node s i)" using net_invD(5)[OF own(6,1)] .
  have "passes s i out (post ms (put i rf' s))"
    using own_applies[OF own(2) inv] own_queues[OF own(2) inv] by (auto simp: passes_def sends_def)
  then show ?case using put_acts[OF own(6,1) fr] own_works[OF own(5,6,1,2,3)] own(4) by blast
qed

section \<open>Elections and logs\<close>

text \<open>\<open>rooted t L\<close>: \<open>L\<close> starts with the log that the leader of \<open>t\<close> was elected with. \<open>lead_log t P\<close>: \<open>P\<close> is
  a log of the leader of \<open>t\<close>, that is, what it was elected with and entries of \<open>t\<close>.\<close>

definition rooted :: "nat \<Rightarrow> network \<Rightarrow> audit \<Rightarrow> int32 \<Rightarrow> raft_log list \<Rightarrow> bool" where
  "rooted n s g t L \<longleftrightarrow> (\<exists>c EL. c < n \<and> elected (base s) c t \<and> (c, t, EL) \<in> cands g \<and> starts_with L EL)"

definition lead_log :: "nat \<Rightarrow> network \<Rightarrow> audit \<Rightarrow> int32 \<Rightarrow> raft_log list \<Rightarrow> bool" where
  "lead_log n s g t P \<longleftrightarrow> (\<exists>c EL. c < n \<and> elected (base s) c t \<and> (c, t, EL) \<in> cands g \<and> starts_with P EL
     \<and> (\<forall>v \<in> set P. Term v \<le> t) \<and> (\<forall>v \<in> set (drop (length EL) P). Term v = t))"

definition full :: "raft_log list set \<Rightarrow> int32 \<Rightarrow> raft_log list \<Rightarrow> bool" where
  "full H t L \<longleftrightarrow> (\<forall>L' \<in> H. \<forall>k j. has t k L' \<longrightarrow> has t j L \<longrightarrow> k \<le> j \<longrightarrow> has t k L)"

definition logs_inv :: "nat \<Rightarrow> network \<Rightarrow> audit \<Rightarrow> bool" where
  "logs_inv n s g \<longleftrightarrow> (\<forall>L \<in> hist s. sorted (map Term L) \<and> (\<forall>t. full (hist s) t L)
     \<and> (\<forall>t k. 0 < t \<longrightarrow> has t k L \<longrightarrow> rooted n s g t L))"

definition cands_inv :: "nat \<Rightarrow> network \<Rightarrow> audit \<Rightarrow> bool" where
  "cands_inv n s g \<longleftrightarrow> (\<forall>(c, t, L) \<in> cands g. c < n \<and> L \<in> hist s \<and> 0 < t \<and> t \<le> cur s c \<and> (\<forall>v \<in> set L. Term v < t)
     \<and> (\<forall>L'. (c, t, L') \<in> cands g \<longrightarrow> L' = L))"

definition leads_inv :: "nat \<Rightarrow> network \<Rightarrow> audit \<Rightarrow> nat \<Rightarrow> bool" where
  "leads_inv n s g i \<longleftrightarrow> (\<forall>v \<in> set (lg s i). Term v \<le> cur s i)
     \<and> (isLeader (node s i) \<longrightarrow> lead_log n s g (cur s i) (lg s i)
          \<and> (\<forall>L \<in> hist s. \<forall>k. has (cur s i) k L \<longrightarrow> has (cur s i) k (lg s i)))"

definition stands_inv :: "nat \<Rightarrow> network \<Rightarrow> audit \<Rightarrow> nat \<Rightarrow> bool" where
  "stands_inv n s g i \<longleftrightarrow> (\<forall>e \<in> set (elections (node s i)).
     (\<exists>L. (i, el_term e, L) \<in> cands g \<and> last L = el_lastLog e)
     \<and> (phase e = Counting \<and> el_term e = cur s i \<longrightarrow>
          (\<exists>c < n. c \<noteq> i \<and> elected (base s) c (el_term e)) \<or> (i, el_term e, lg s i) \<in> cands g))"

definition wire_inv :: "nat \<Rightarrow> network \<Rightarrow> audit \<Rightarrow> bool" where
  "wire_inv n s g \<longleftrightarrow> (\<forall>d m. (d, m) \<in> net s \<longrightarrow> (\<exists>P \<in> hist s. window P m \<and> lead_log n s g (ae_Term m) P))"

definition audit_inv :: "nat \<Rightarrow> network \<Rightarrow> audit \<Rightarrow> bool" where
  "audit_inv n s g \<longleftrightarrow> logs_inv n s g \<and> cands_inv n s g \<and> wire_inv n s g
     \<and> (\<forall>i < n. leads_inv n s g i \<and> stands_inv n s g i)"

lemma audit_invD:
  assumes "audit_inv n s g"
  shows "logs_inv n s g" "cands_inv n s g" "wire_inv n s g" "i < n \<Longrightarrow> leads_inv n s g i" "i < n \<Longrightarrow> stands_inv n s g i"
  using assms by (auto simp: audit_inv_def)

lemma logs_invD:
  assumes "logs_inv n s g" "L \<in> hist s"
  shows "sorted (map Term L)" "full (hist s) t L" "0 < t \<Longrightarrow> has t k L \<Longrightarrow> rooted n s g t L"
  using assms by (auto simp: logs_inv_def)

lemma fullD: "full H t L \<Longrightarrow> L' \<in> H \<Longrightarrow> has t k L' \<Longrightarrow> has t j L \<Longrightarrow> k \<le> j \<Longrightarrow> has t k L"
  by (auto simp: full_def)

lemma cands_invD:
  assumes "cands_inv n s g" "(c, t, L) \<in> cands g"
  shows "c < n" "L \<in> hist s" "0 < t" "t \<le> cur s c" "v \<in> set L \<Longrightarrow> Term v < t" "(c, t, L') \<in> cands g \<Longrightarrow> L' = L"
  using assms by (auto simp: cands_inv_def)

lemma cands_invI:
  assumes "\<And>c t L. (c, t, L) \<in> cands g \<Longrightarrow> c < n \<and> L \<in> hist s \<and> 0 < t \<and> t \<le> cur s c \<and> (\<forall>v \<in> set L. Term v < t)"
    "\<And>c t L L'. (c, t, L) \<in> cands g \<Longrightarrow> (c, t, L') \<in> cands g \<Longrightarrow> L' = L"
  shows "cands_inv n s g"
  using assms unfolding cands_inv_def by blast

lemma wire_invD: "wire_inv n s g \<Longrightarrow> (d, m) \<in> net s \<Longrightarrow> \<exists>P \<in> hist s. window P m \<and> lead_log n s g (ae_Term m) P \<and> True"
  by (auto simp: wire_inv_def)

text \<open>What grows.\<close>

definition grows :: "network \<Rightarrow> audit \<Rightarrow> network \<Rightarrow> audit \<Rightarrow> bool" where
  "grows s g s' g' \<longleftrightarrow> (\<forall>c t. elected (base s) c t \<longrightarrow> elected (base s') c t) \<and> cands g \<subseteq> cands g' \<and> held g \<subseteq> held g'
     \<and> early g \<subseteq> early g'"

lemma acts_grows: "acts n s i s' \<Longrightarrow> grows s g s' (noted i out s s' g)"
  by (auto simp: acts_def grows_def noted_def)

lemma grows_rooted: "grows s g s' g' \<Longrightarrow> rooted n s g t L \<Longrightarrow> rooted n s' g' t L"
  unfolding grows_def rooted_def by blast

lemma grows_lead_log: "grows s g s' g' \<Longrightarrow> lead_log n s g t L \<Longrightarrow> lead_log n s' g' t L"
  unfolding grows_def lead_log_def by blast

lemma grows_chosen: "grows s g s' g' \<Longrightarrow> chosen n g t k \<Longrightarrow> chosen n g' t k"
  unfolding grows_def chosen_def by blast

lemma cands_kept: "length (elections (node s' i)) = length (elections (node s i)) \<Longrightarrow> cands (noted i out s s' g) = cands g"
  by (simp add: noted_def)

lemma cands_started: "elections (node s' i) = elections (node s i) @ [e] \<Longrightarrow>
    cands (noted i out s s' g) = insert (i, el_term e, lg s' i) (cands g)"
  by (auto simp: noted_def)

text \<open>A part of a log in the history is as good as the log.\<close>

lemma rooted_take:
  assumes cinv: "cands_inv n s g" and r: "rooted n s g t L" and k: "has t k (take c L)"
  shows "rooted n s g t (take c L)"
proof -
  obtain d EL where d: "d < n" "elected (base s) d t" "(d, t, EL) \<in> cands g" "starts_with L EL"
    using r by (auto simp: rooted_def)
  have "\<not> k < length EL"
  proof
    assume "k < length EL"
    moreover have "has t k L" using k by simp
    ultimately have "Term (EL ! k) = t" using starts_with_nth[OF d(4)] by (simp add: has_def)
    then show False using cands_invD(5)[OF cinv d(3), of "EL ! k"] \<open>k < length EL\<close> by simp
  qed
  then have "starts_with (take c L) EL" using d(4) k by (intro starts_with_take) auto
  with d show ?thesis by (auto simp: rooted_def)
qed

lemma logs_inv_take:
  assumes inv: "logs_inv n s g" "cands_inv n s g" and gr: "grows s g s' g'"
    and Q: "Q \<in> hist s" and h: "hist s' = insert (take c Q) (hist s)"
  shows "logs_inv n s' g'"
  unfolding logs_inv_def
proof (intro ballI conjI allI impI)
  fix L assume L: "L \<in> hist s'"
  then obtain L0 d where L0: "L0 \<in> hist s" "L = take d L0" unfolding h using Q by (metis insertE order_refl take_all_iff)
  show "sorted (map Term L)" using logs_invD(1)[OF inv(1) L0(1)] L0(2) by (simp add: take_map sorted_wrt_take flip: take_map)
  fix t
  show "full (hist s') t L" unfolding full_def
  proof (intro ballI allI impI)
    fix L' k j assume "L' \<in> hist s'" "has t k L'" "has t j L" "k \<le> j"
    moreover from this obtain L1 e where "L1 \<in> hist s" "L' = take e L1" unfolding h using Q by (metis insertE order_refl take_all_iff)
    ultimately show "has t k L" using fullD[OF logs_invD(2)[OF inv(1) L0(1)], of L1 t k j] L0(2) by auto
  qed
  fix k assume "0 < t" "has t k L"
  then show "rooted n s' g' t L"
    using rooted_take[OF inv(2) logs_invD(3)[OF inv(1) L0(1)]] L0(2) grows_rooted[OF gr] by auto
qed

text \<open>A leader's new entries.\<close>

lemma logs_inv_append:
  assumes inv: "logs_inv n s g" "cands_inv n s g" "leads_inv n s g i" and gr: "grows s g s' g'"
    and L: "lg s i \<in> hist s" and lead: "isLeader (node s i)" and new: "\<forall>v \<in> set new. Term v = cur s i"
    and h: "hist s' = insert (lg s i @ new) (hist s)"
  shows "logs_inv n s' g'"
proof -
  let ?N = "lg s i @ new"
  have ld: "lead_log n s g (cur s i) (lg s i)" "\<And>L k. L \<in> hist s \<Longrightarrow> has (cur s i) k L \<Longrightarrow> has (cur s i) k (lg s i)"
    and le: "\<And>v. v \<in> set (lg s i) \<Longrightarrow> Term v \<le> cur s i" using inv(3) lead by (auto simp: leads_inv_def)
  have old: "has t k ?N \<Longrightarrow> has t k (lg s i) \<or> t = cur s i \<and> length (lg s i) \<le> k" for t k
    using has_append_new[of t k "lg s i" new] new by (cases "k < length (lg s i)") auto
  have "map Term new = replicate (length new) (cur s i)"
    using new by (metis (mono_tags, lifting) map_cong map_replicate_const)
  then have "sorted (map Term ?N)"
    using logs_invD(1)[OF inv(1) L] le by (auto simp: sorted_append)
  note sorted = this
  have root: "rooted n s g t ?N" if "0 < t" "has t k ?N" for t k
    using old[OF that(2)]
  proof
    assume "has t k (lg s i)"
    then show ?thesis using logs_invD(3)[OF inv(1) L that(1)] starts_with_append unfolding rooted_def by blast
  next
    assume "t = cur s i \<and> length (lg s i) \<le> k"
    then show ?thesis using ld(1) starts_with_append unfolding rooted_def lead_log_def by blast
  qed
  have full1: "has t k ?N" if "L' \<in> hist s" "has t k L'" "has t j ?N" "k \<le> j" for L' t k j
    using old[OF that(3)] fullD[OF logs_invD(2)[OF inv(1) L] that(1,2)] ld(2)[OF that(1)] that(2,4) has_appendI by blast
  have full2: "has t k L'" if "L' \<in> hist s" "has t k ?N" "has t j L'" "k \<le> j" for L' t k j
    using old[OF that(2)]
  proof
    assume "has t k (lg s i)"
    then show ?thesis using fullD[OF logs_invD(2)[OF inv(1) that(1)] L] that by blast
  next
    assume a: "t = cur s i \<and> length (lg s i) \<le> k"
    then have "j < length (lg s i)" using ld(2)[OF that(1)] that(3) has_length by blast
    with a that(4) show ?thesis by simp
  qed
  show ?thesis unfolding logs_inv_def h
  proof (intro ballI conjI allI impI)
    fix L assume L': "L \<in> insert ?N (hist s)"
    show "sorted (map Term L)" using L' sorted logs_invD(1)[OF inv(1)] by blast
    show "full (insert ?N (hist s)) t L" for t
      unfolding full_def using L' full1 full2 fullD[OF logs_invD(2)[OF inv(1)]] by blast
    show "rooted n s' g' t L" if "0 < t" "has t k L" for t k
      using L' root[of t k] logs_invD(3)[OF inv(1)] that grows_rooted[OF gr] by blast
  qed
qed

section \<open>The invariant\<close>

text \<open>The servers that do not act.\<close>

lemma others_inv:
  assumes n: "n < 2147483648" and net: "net_inv n s" and act: "acts n s i s'" and gr: "grows s g s' g'"
    and new: "\<And>t k. has t k (lg s' i) \<Longrightarrow> (\<exists>Q \<in> hist s. has t k Q) \<or> isLeader (node s i) \<and> t = cur s i"
    and j: "j < n" "j \<noteq> i" and inv: "leads_inv n s g j" "stands_inv n s g j"
  shows "leads_inv n s' g' j \<and> stands_inv n s' g' j"
proof -
  have node: "node s' j = node s j" and i: "i < n" and h: "hist s' = insert (lg s' i) (hist s)"
    using act j by (auto simp: acts_def)
  have "has (cur s j) k (lg s j)" if lead: "isLeader (node s j)" and L: "L \<in> hist s'" "has (cur s j) k L" for L k
  proof -
    have all: "\<And>Q. Q \<in> hist s \<Longrightarrow> has (cur s j) k Q \<Longrightarrow> has (cur s j) k (lg s j)" using inv(1) lead by (auto simp: leads_inv_def)
    have "\<not> (isLeader (node s i) \<and> cur s j = cur s i)"
    proof
      assume c: "isLeader (node s i) \<and> cur s j = cur s i"
      then have "elected (base s) i (cur s i)" "elected (base s) j (cur s i)"
        using net_invD(7)[OF net i] net_invD(7)[OF net j(1)] lead by (auto simp: leader_ok_def)
      then show False using elected_unique[OF n net_invD(1)[OF net] i j(1)] j(2) by blast
    qed
    then show ?thesis using L all new unfolding h by blast
  qed
  then have "leads_inv n s' g' j"
    using inv(1) grows_lead_log[OF gr] by (simp add: leads_inv_def node)
  moreover have "stands_inv n s' g' j"
    using inv(2) gr unfolding stands_inv_def grows_def node by blast
  ultimately show ?thesis ..
qed

lemma cands_inv_grow:
  assumes "cands_inv n s g" "acts n s i s'" "cands g' = cands g"
  shows "cands_inv n s' g'"
proof -
  have mono: "cur s c \<le> cur s' c" for c using assms(2) by (cases "c = i") (auto simp: acts_def)
  show ?thesis
  proof (rule cands_invI)
    fix c t L assume "(c, t, L) \<in> cands g'"
    then have "(c, t, L) \<in> cands g" using assms(3) by simp
    from cands_invD(1-5)[OF assms(1) this] mono[of c] assms(2)
    show "c < n \<and> L \<in> hist s' \<and> 0 < t \<and> t \<le> cur s' c \<and> (\<forall>v \<in> set L. Term v < t)" by (auto simp: acts_def)
  next
    fix c t L L' assume "(c, t, L) \<in> cands g'" "(c, t, L') \<in> cands g'"
    then show "L' = L" using cands_invD(6)[OF assms(1)] assms(3) by simp
  qed
qed

lemma wire_inv_grow:
  assumes "wire_inv n s g" "acts n s i s'" "grows s g s' g'"
    and "\<And>d m. (d, m) \<in> net s' \<Longrightarrow> (d, m) \<notin> net s \<Longrightarrow> \<exists>P \<in> hist s. window P m \<and> lead_log n s g (ae_Term m) P"
  shows "wire_inv n s' g'"
proof -
  have h: "hist s \<subseteq> hist s'" using assms(2) by (auto simp: acts_def)
  have "\<exists>P \<in> hist s. window P m \<and> lead_log n s g (ae_Term m) P" if "(d, m) \<in> net s'" for d m
    using that assms(1,4) unfolding wire_inv_def by blast
  then show ?thesis using h grows_lead_log[OF assms(3)] unfolding wire_inv_def by blast
qed

text \<open>Counting goes on only in an election that is not won.\<close>

lemma counting_open:
  assumes "net_inv n s" "i < n" "e \<in> set (elections (node s i))" "phase e = Counting"
  shows "\<not> elected (base s) i (el_term e)"
proof
  assume "elected (base s) i (el_term e)"
  then obtain d where d: "d \<in> set (elections (node s i))" "has_won d" "el_term d = el_term e" by (auto simp: elected_def)
  have "distinct (map el_term (elections (node s i)))" using net_invD(8)[OF assms(1,2)] by (simp add: candidate_ok_def)
  then have "d = e" using d(1,3) assms(3) by (metis distinct_map inj_onD)
  with d(2) assms(4) show False by (simp add: has_won_def)
qed

lemma stands_kept:
  assumes "stands_inv n s g i" "kept_elections (node s i) (node s' i)" "grows s g s' g'" "cur s i \<le> cur s' i"
    and old: "\<And>e. e \<in> set (elections (node s i)) \<Longrightarrow> el_term e \<le> cur s i"
    and same: "\<And>e. e \<in> set (elections (node s i)) \<Longrightarrow> phase e = Counting \<Longrightarrow> el_term e = cur s i \<Longrightarrow> cur s' i = cur s i \<Longrightarrow>
      lg s' i = lg s i \<or> (\<exists>c < n. c \<noteq> i \<and> elected (base s') c (el_term e))"
  shows "stands_inv n s' g' i"
  unfolding stands_inv_def
proof (intro ballI conjI impI)
  fix e' assume "e' \<in> set (elections (node s' i))"
  then obtain e where e: "e \<in> set (elections (node s i))" "el_term e' = el_term e" "el_lastLog e' = el_lastLog e"
    "phase e' = Counting \<Longrightarrow> phase e = Counting" using assms(2) by (fastforce simp: kept_elections_def)
  show "\<exists>L. (i, el_term e', L) \<in> cands g' \<and> last L = el_lastLog e'"
    using assms(1,3) e unfolding stands_inv_def grows_def by (metis subsetD)
  assume c: "phase e' = Counting \<and> el_term e' = cur s' i"
  then have "cur s' i = cur s i" using old[OF e(1)] assms(4) e(2) by simp
  then show "(\<exists>c < n. c \<noteq> i \<and> elected (base s') c (el_term e')) \<or> (i, el_term e', lg s' i) \<in> cands g'"
    using same[OF e(1)] c e assms(1,3) unfolding stands_inv_def grows_def by (metis subsetD)
qed

lemma el_term_cur: "net_inv n s \<Longrightarrow> i < n \<Longrightarrow> e \<in> set (elections (node s i)) \<Longrightarrow> 1 \<le> el_term e \<and> el_term e \<le> cur s i"
  using net_invD(8)[of n s i] by (simp add: candidate_ok_def)

lemma works_inv:
  assumes n: "n < 2147483648" and net: "net_inv n s" and act: "acts n s i s'" and k: "works s i s'" and inv: "audit_inv n s g"
    and gr: "grows s g s' g'" and cd: "cands g' = cands g"
  shows "audit_inv n s' g'"
proof -
  have i: "i < n" and h: "hist s' = insert (lg s' i) (hist s)" and cu: "cur s i \<le> cur s' i" using act by (auto simp: acts_def)
  obtain new where lg: "lg s' i = lg s i @ new"
    and new: "new \<noteq> [] \<Longrightarrow> isLeader (node s i) \<and> (\<forall>v \<in> set new. Term v = cur s i)"
    and els: "kept_elections (node s i) (node s' i)" and lead: "isLeader (node s' i) \<Longrightarrow> isLeader (node s i) \<and> cur s' i = cur s i"
    and sent: "\<And>d m. (d, m) \<in> net s' \<Longrightarrow> (d, m) \<notin> net s \<Longrightarrow> isLeader (node s i) \<and> window (lg s i) m \<and> ae_Term m = cur s i"
    using k unfolding works_def by blast
  have L: "lg s i \<in> hist s" using net_invD(2)[OF net] i by (simp add: logs_ok_def)
  note a = audit_invD[OF inv]
  have own: "\<And>v. v \<in> set (lg s i) \<Longrightarrow> Term v \<le> cur s i" and ld: "isLeader (node s i) \<Longrightarrow> lead_log n s g (cur s i) (lg s i)"
    "\<And>L k. isLeader (node s i) \<Longrightarrow> L \<in> hist s \<Longrightarrow> has (cur s i) k L \<Longrightarrow> has (cur s i) k (lg s i)"
    using a(4)[OF i] by (auto simp: leads_inv_def)
  have "logs_inv n s' g'"
  proof (cases "new = []")
    case True
    then show ?thesis using h lg by (intro logs_inv_take[OF a(1,2) gr L, where c = "length (lg s i)"]) simp
  next
    case False
    then show ?thesis using new h lg by (intro logs_inv_append[OF a(1,2) a(4)[OF i] gr L]) auto
  qed
  moreover have "cands_inv n s' g'" using cands_inv_grow[OF a(2) act cd] .
  moreover have "wire_inv n s' g'" using wire_inv_grow[OF a(3) act gr] sent ld(1) L by metis
  moreover have "leads_inv n s' g' i"
  proof -
    have "\<forall>v \<in> set (lg s' i). Term v \<le> cur s' i" using own new cu unfolding lg by (cases "new = []") (auto intro: order_trans)
    moreover have "lead_log n s' g' (cur s' i) (lg s' i)" if l: "isLeader (node s' i)"
    proof -
      have eq: "isLeader (node s i)" "cur s' i = cur s i" using lead[OF l] by auto
      obtain c EL where c: "c < n" "elected (base s) c (cur s i)" "(c, cur s i, EL) \<in> cands g" "starts_with (lg s i) EL"
        "\<forall>v \<in> set (lg s i). Term v \<le> cur s i" "\<forall>v \<in> set (drop (length EL) (lg s i)). Term v = cur s i"
        using ld(1)[OF eq(1)] by (auto simp: lead_log_def)
      have "\<forall>v \<in> set new. Term v = cur s i" using new by (cases "new = []") auto
      then have "lead_log n s g (cur s i) (lg s' i)"
        using c starts_with_append[OF c(4)] starts_with_length[OF c(4)] unfolding lead_log_def lg by (intro exI[of _ c] exI[of _ EL]) auto
      then show ?thesis using grows_lead_log[OF gr] eq(2) by simp
    qed
    moreover have "has (cur s' i) k (lg s' i)" if l: "isLeader (node s' i)" and L': "L' \<in> hist s'" "has (cur s' i) k L'" for L' k
      using lead[OF l] L' ld(2)[of L' k] has_appendI unfolding h lg by auto
    ultimately show ?thesis by (auto simp: leads_inv_def)
  qed
  moreover have "stands_inv n s' g' i"
  proof (rule stands_kept[OF a(5)[OF i] els gr cu])
    show "el_term e \<le> cur s i" if "e \<in> set (elections (node s i))" for e using el_term_cur[OF net i that] by simp
    fix e assume e: "e \<in> set (elections (node s i))" "phase e = Counting" "el_term e = cur s i"
    have "\<not> isLeader (node s i)" using counting_open[OF net i e(1,2)] e(3) net_invD(7)[OF net i] by (auto simp: leader_ok_def)
    then show "lg s' i = lg s i \<or> (\<exists>c < n. c \<noteq> i \<and> elected (base s') c (el_term e))" using new lg by (cases "new = []") auto
  qed
  moreover have "leads_inv n s' g' j \<and> stands_inv n s' g' j" if "j < n" "j \<noteq> i" for j
  proof (rule others_inv[OF n net act gr _ that a(4,5)[OF that(1)]])
    fix t k assume hk: "has t k (lg s' i)"
    show "(\<exists>Q \<in> hist s. has t k Q) \<or> isLeader (node s i) \<and> t = cur s i"
    proof (cases "k < length (lg s i)")
      case True
      then show ?thesis using hk L by (auto simp: lg)
    next
      case False
      with hk have "\<exists>v \<in> set new. Term v = t" unfolding lg by (rule has_append_new)
      then show ?thesis using new by (cases "new = []") auto
    qed
  qed
  ultimately show ?thesis unfolding audit_inv_def by metis
qed

lemma starts_inv:
  assumes n: "n < 2147483648" and net: "net_inv n s" and act: "acts n s i s'" and k: "starts s i s'" and inv: "audit_inv n s g"
  shows "audit_inv n s' (noted i out s s' g)"
proof -
  let ?g = "noted i out s s' g"
  have i: "i < n" and h: "hist s' = insert (lg s' i) (hist s)" using act by (auto simp: acts_def)
  obtain e where lg: "lg s' i = lg s i" and cu: "cur s' i = cur s i + 1" and lead: "\<not> isLeader (node s' i)" and net': "net s' = net s"
    and e: "elections (node s' i) = elections (node s i) @ [e]" "el_term e = cur s' i" "el_lastLog e = last (lg s i)"
    using k by (auto simp: starts_def)
  have L: "lg s i \<in> hist s" using net_invD(2)[OF net] i by (simp add: logs_ok_def)
  have gr: "grows s g s' ?g" by (rule acts_grows[OF act])
  have cd: "cands ?g = insert (i, cur s' i, lg s i) (cands g)" using cands_started[OF e(1)] by (simp add: e(2) lg)
  note a = audit_invD[OF inv]
  have own: "\<And>v. v \<in> set (lg s i) \<Longrightarrow> Term v \<le> cur s i" using a(4)[OF i] by (auto simp: leads_inv_def)
  have t0: "0 \<le> cur s i" using cluster_invD(1)[OF reachable_inv[OF net_invD(1)[OF net] n] i] by (simp add: node_ok_def)
  have hs: "hist s' = hist s" using h lg L by auto
  have "logs_inv n s' ?g" using h lg by (intro logs_inv_take[OF a(1,2) gr L, where c = "length (lg s i)"]) simp
  moreover have "cands_inv n s' ?g"
  proof -
    have "cur s c \<le> cur s' c" for c using act by (cases "c = i") (auto simp: acts_def)
    then have le: "t \<le> cur s' c" if "(c, t, M) \<in> cands g" for c t M using cands_invD(4)[OF a(2) that] order_trans by blast
    have fresh: "(i, cur s' i, M) \<notin> cands g" for M using cands_invD(4)[OF a(2), of i "cur s' i" M] cu by auto
    have new: "i < n \<and> lg s i \<in> hist s \<and> 0 < cur s' i \<and> (\<forall>v \<in> set (lg s i). Term v < cur s' i)"
      using i L cu t0 own by fastforce
    show ?thesis
    proof (rule cands_invI)
      fix c t M assume "(c, t, M) \<in> cands ?g"
      then consider "c = i" "t = cur s' i" "M = lg s i" | "(c, t, M) \<in> cands g" unfolding cd by auto
      then show "c < n \<and> M \<in> hist s' \<and> 0 < t \<and> t \<le> cur s' c \<and> (\<forall>v \<in> set M. Term v < t)"
      proof cases
        case 1
        then show ?thesis using new hs by simp
      next
        case 2
        from cands_invD(1-3)[OF a(2) 2] cands_invD(5)[OF a(2) 2] le[OF 2] hs show ?thesis by simp
      qed
    next
      fix c t M M' assume "(c, t, M) \<in> cands ?g" "(c, t, M') \<in> cands ?g"
      then show "M' = M" using cands_invD(6)[OF a(2)] fresh unfolding cd by blast
    qed
  qed
  moreover have "wire_inv n s' ?g" using wire_inv_grow[OF a(3) act gr] net' by simp
  moreover have "leads_inv n s' ?g i" using own cu lead by (fastforce simp: leads_inv_def lg)
  moreover have "stands_inv n s' ?g i"
    unfolding stands_inv_def
  proof (intro ballI conjI impI)
    fix d assume d: "d \<in> set (elections (node s' i))"
    show "\<exists>L. (i, el_term d, L) \<in> cands ?g \<and> last L = el_lastLog d"
    proof (cases "d \<in> set (elections (node s i))")
      case True
      then show ?thesis using a(5)[OF i] unfolding stands_inv_def cd by blast
    next
      case False
      then show ?thesis using d e cd by auto
    qed
    assume c: "phase d = Counting \<and> el_term d = cur s' i"
    have "d \<notin> set (elections (node s i))" using el_term_cur[OF net i] c cu by fastforce
    then show "(\<exists>c < n. c \<noteq> i \<and> elected (base s') c (el_term d)) \<or> (i, el_term d, lg s' i) \<in> cands ?g"
      using c cd lg by simp
  qed
  moreover have "leads_inv n s' ?g j \<and> stands_inv n s' ?g j" if "j < n" "j \<noteq> i" for j
    by (rule others_inv[OF n net act gr _ that a(4,5)[OF that(1)]]) (use L lg in auto)
  ultimately show ?thesis unfolding audit_inv_def by metis
qed

lemma wins_inv:
  assumes n: "n < 2147483648" and net: "net_inv n s" and act: "acts n s i s'" and k: "wins n s i s'" and inv: "audit_inv n s g"
    and gr: "grows s g s' g'" and cd: "cands g' = cands g"
  shows "audit_inv n s' g'"
proof -
  have i: "i < n" and h: "hist s' = insert (lg s' i) (hist s)" using act by (auto simp: acts_def)
  obtain e where els: "kept_elections (node s i) (node s' i)" and lg: "lg s' i = lg s i" and cu: "cur s' i = cur s i"
    and net': "net s' = net s" and won: "elected (base s') i (cur s i)" and nobody: "\<And>c. c < n \<Longrightarrow> \<not> elected (base s) c (cur s i)"
    and e: "e \<in> set (elections (node s i))" "phase e = Counting" "el_term e = cur s i" using k by (auto simp: wins_def)
  have L: "lg s i \<in> hist s" using net_invD(2)[OF net] i by (simp add: logs_ok_def)
  note a = audit_invD[OF inv]
  have own: "\<forall>v \<in> set (lg s i). Term v \<le> cur s i" using a(4)[OF i] by (auto simp: leads_inv_def)
  have stood: "(i, cur s i, lg s i) \<in> cands g" using a(5)[OF i] e nobody by (auto simp: stands_inv_def)
  have hs: "hist s' = hist s" using h lg L by auto
  have "logs_inv n s' g'" using h lg by (intro logs_inv_take[OF a(1,2) gr L, where c = "length (lg s i)"]) simp
  moreover have "cands_inv n s' g'" using cands_inv_grow[OF a(2) act cd] .
  moreover have "wire_inv n s' g'" using wire_inv_grow[OF a(3) act gr] net' by simp
  moreover have "leads_inv n s' g' i"
  proof -
    have "lead_log n s' g' (cur s i) (lg s i)"
      unfolding lead_log_def using i won stood own cd by (intro exI[of _ i] exI[of _ "lg s i"]) simp
    moreover have False if "M \<in> hist s" "has (cur s i) j M" for M j
    proof -
      have "M ! j \<in> entries s" using that by (auto simp: entries_def has_def intro!: bexI[of _ M])
      moreover have "Term (M ! j) = cur s i" using that(2) by (simp add: has_def)
      moreover have "1 \<le> cur s i" using el_term_cur[OF net i e(1)] e(3) by simp
      ultimately show False using net_invD(4)[OF net, of "M ! j"] nobody by (auto simp: made_def)
    qed
    ultimately show ?thesis using own by (auto simp: leads_inv_def lg cu hs)
  qed
  moreover have "stands_inv n s' g' i"
    by (rule stands_kept[OF a(5)[OF i] els gr]) (use cu lg el_term_cur[OF net i] in auto)
  moreover have "leads_inv n s' g' j \<and> stands_inv n s' g' j" if "j < n" "j \<noteq> i" for j
    by (rule others_inv[OF n net act gr _ that a(4,5)[OF that(1)]]) (use L lg in auto)
  ultimately show ?thesis unfolding audit_inv_def by metis
qed

text \<open>What a server that hears of a leader knows of it; \<open>R\<close> is whatever else is known of the messages
  and the logs they come from.\<close>

lemma hears_effect:
  assumes net: "net_inv n s" and act: "acts n s i s'" and k: "hears s i out s'"
    and inv: "\<And>d m. (d, m) \<in> net s \<Longrightarrow> \<exists>P \<in> hist s. window P m \<and> lead_log n s g (ae_Term m) P \<and> R m P"
  obtains args P reply d where "P \<in> hist s" "window P args" "lead_log n s g (ae_Term args) P" "R args P" "matches (lg s i) P" "log_wf P"
    "HeartBeat args zero_append_reply (node s i) = Inr (node s' i, reply, out)" "honest_cut (hist s) args (node s i) (node s' i)"
    "d < n" "d \<noteq> i" "elected (base s) d (ae_Term args)" "(i, args) \<in> net s" "net s' = net s" "vote_frame (node s i) (node s' i)"
    "ae_Term args < cur s i \<and> lg s' i = lg s i \<and> isLeader (node s' i) = isLeader (node s i) \<and> cur s' i = cur s i
     \<or> cur s i \<le> ae_Term args \<and> \<not> isLeader (node s' i) \<and> cur s' i = ae_Term args
         \<and> (\<exists>c. lg s' i = take c (lg s i) \<or> lg s' i = take c P)"
proof -
  have i: "i < n" using act by (simp add: acts_def)
  obtain args reply where m: "(i, args) \<in> net s" and s': "s' = put i (node s' i) s"
    and run: "HeartBeat args zero_append_reply (node s i) = Inr (node s' i, reply, out)"
    and cut: "honest_cut (hist s) args (node s i) (node s' i)" using k by (auto simp: hears_def)
  obtain P where P: "P \<in> hist s" "window P args" "lead_log n s g (ae_Term args) P" "R args P" using inv[OF m] by blast
  obtain d where d: "d < n" "d \<noteq> i" "elected (base s) d (ae_Term args)" using net_invD(3)[OF net] m unfolding sent_ok_def by blast
  have wf: "log_wf P" "matches (lg s i) P" using net_invD(2)[OF net] P(1) i by (auto simp: logs_ok_def)
  note eff = HeartBeat_effect[OF net_invD(5)[OF net i] wf(1) P(2) wf(2) run]
  have "net s' = net s" by (subst s') simp
  moreover have "ae_Term args < cur s i \<and> lg s' i = lg s i \<and> isLeader (node s' i) = isLeader (node s i) \<and> cur s' i = cur s i
     \<or> cur s i \<le> ae_Term args \<and> \<not> isLeader (node s' i) \<and> cur s' i = ae_Term args
         \<and> (\<exists>c. lg s' i = take c (lg s i) \<or> lg s' i = take c P)" using eff by blast
  ultimately show thesis by (rule that[OF P wf(2,1) run cut d m _ HeartBeat_frame[OF run]])
qed

lemma hears_inv:
  assumes n: "n < 2147483648" and net: "net_inv n s" and act: "acts n s i s'" and k: "hears s i out s'" and inv: "audit_inv n s g"
    and gr: "grows s g s' g'" and cd: "cands g' = cands g"
  shows "audit_inv n s' g'"
proof -
  have i: "i < n" and h: "hist s' = insert (lg s' i) (hist s)" and cu: "cur s i \<le> cur s' i" using act by (auto simp: acts_def)
  note a = audit_invD[OF inv]
  from net act k wire_invD[OF a(3)] obtain args P reply d where P: "P \<in> hist s" "window P args"
      "lead_log n s g (ae_Term args) P" True "matches (lg s i) P" "log_wf P"
    and "HeartBeat args zero_append_reply (node s i) = Inr (node s' i, reply, out)" "honest_cut (hist s) args (node s i) (node s' i)"
    and d: "d < n" "d \<noteq> i" "elected (base s) d (ae_Term args)" and "(i, args) \<in> net s"
    and net': "net s' = net s" and fr: "vote_frame (node s i) (node s' i)"
    and eff: "ae_Term args < cur s i \<and> lg s' i = lg s i \<and> isLeader (node s' i) = isLeader (node s i) \<and> cur s' i = cur s i
     \<or> cur s i \<le> ae_Term args \<and> \<not> isLeader (node s' i) \<and> cur s' i = ae_Term args
         \<and> (\<exists>c. lg s' i = take c (lg s i) \<or> lg s' i = take c P)"
    by (rule hears_effect)
  have L: "lg s i \<in> hist s" using net_invD(2)[OF net] i by (simp add: logs_ok_def)
  obtain c Q where Q: "Q \<in> hist s" "lg s' i = take c Q" using eff L P(1) by (metis take_all_iff order_refl)
  have own: "\<And>v. v \<in> set (lg s i) \<Longrightarrow> Term v \<le> cur s i" using a(4)[OF i] by (auto simp: leads_inv_def)
  have theirs: "\<And>v. v \<in> set P \<Longrightarrow> Term v \<le> ae_Term args" using P(3) by (auto simp: lead_log_def)
  have "logs_inv n s' g'" using h Q by (intro logs_inv_take[OF a(1,2) gr Q(1)]) simp
  moreover have "cands_inv n s' g'" using cands_inv_grow[OF a(2) act cd] .
  moreover have "wire_inv n s' g'" using wire_inv_grow[OF a(3) act gr] net' by simp
  moreover have "leads_inv n s' g' i"
  proof -
    have "Term v \<le> cur s' i" if v: "v \<in> set (lg s' i)" for v
    proof -
      have "v \<in> set (lg s i) \<or> v \<in> set P \<and> cur s' i = ae_Term args" using eff v set_take_subset by (metis subsetD)
      then show ?thesis using own[of v] theirs[of v] cu by auto
    qed
    moreover have "lg s' i = lg s i \<and> isLeader (node s i) \<and> cur s' i = cur s i" if "isLeader (node s' i)" using eff that by auto
    moreover from this have "hist s' = hist s" if "isLeader (node s' i)" using h L that by auto
    ultimately show ?thesis using a(4)[OF i] grows_lead_log[OF gr] unfolding leads_inv_def by auto
  qed
  moreover have "stands_inv n s' g' i"
  proof (rule stands_kept[OF a(5)[OF i] _ gr cu])
    show "kept_elections (node s i) (node s' i)" using fr by (intro kept_same) (simp add: vote_frame_def)
    show "el_term e \<le> cur s i" if "e \<in> set (elections (node s i))" for e using el_term_cur[OF net i that] by simp
    fix e assume "el_term e = cur s i" "cur s' i = cur s i"
    then show "lg s' i = lg s i \<or> (\<exists>c < n. c \<noteq> i \<and> elected (base s') c (el_term e))"
      using eff d gr unfolding grows_def by metis
  qed
  moreover have "leads_inv n s' g' j \<and> stands_inv n s' g' j" if "j < n" "j \<noteq> i" for j
    by (rule others_inv[OF n net act gr _ that a(4,5)[OF that(1)]]) (use Q in auto)
  ultimately show ?thesis unfolding audit_inv_def by metis
qed

lemma audit_step_inv:
  assumes "safe_step n s g s' g'" "n < 2147483648" "net_inv n s" "audit_inv n s g"
  shows "audit_inv n s' g'"
proof -
  from assms(1-3) obtain i out where act: "acts n s i s'" and g': "g' = noted i out s s' g"
    and kind: "works s i s' \<and> passes s i out s' \<or> starts s i s' \<and> rests s i out s'
      \<or> wins n s i s' \<and> rests s i out s' \<or> hears s i out s'" by (rule safe_kinds)
  note gr = acts_grows[OF act, of g out, folded g']
  have "cands g' = cands g" if "kept_elections (node s i) (node s' i)"
    unfolding g' using that by (intro cands_kept) (simp add: kept_elections_def)
  moreover have "kept_elections (node s i) (node s' i)" if "hears s i out s'"
    using that HeartBeat_frame by (auto simp: hears_def vote_frame_def intro!: kept_same)
  ultimately show ?thesis
    using kind works_inv[OF assms(2,3) act _ assms(4) gr] starts_inv[OF assms(2,3) act _ assms(4), of out]
      wins_inv[OF assms(2,3) act _ assms(4) gr] hears_inv[OF assms(2,3) act _ assms(4) gr] unfolding g'
    by (auto simp: works_def wins_def)
qed

lemma audit_init: "audit_inv n (init_network n) init_audit"
proof -
  have nd: "node (init_network n) i = Make n (int i) MakePersister" for i
    by (simp only: init_network_def init_cluster_def network.simps cluster.simps)
  have "hist (init_network n) = {[zero_log]}" "net (init_network n) = {}" by (simp_all add: init_network_def)
  then show ?thesis
    by (auto simp: audit_inv_def logs_inv_def cands_inv_def wire_inv_def leads_inv_def stands_inv_def nd init_audit_def full_def
        has_def zero_log_def)
qed

lemma safe_reach_audit: "safe_reach n s g \<Longrightarrow> n < 2147483648 \<Longrightarrow> audit_inv n s g"
proof (induction rule: safe_reach.induct)
  case init
  show ?case by (rule audit_init)
next
  case (step s g s' g')
  then show ?case using audit_step_inv safe_reach_inv by blast
qed

end
