(* ===== verification/CountedRuns.thy ===== *)
theory CountedRuns
  imports AuditedRuns RaftCommit
begin

text \<open>
  Runs in which a leader's counting is looked at. Beside the record of \<open>AuditedRuns\<close> they keep the
  answers that the followers have given to AppendEntries (\<open>as\<close>: who, to what, and what), and the
  senders take their answers from there. What \<open>commit_step\<close> then commits is chosen: the lemma
  \<open>commit_step_chosen\<close> follows the count from \<open>HeartBeat\<close>'s reply through \<open>peer_reply\<close>,
  \<open>matchIndex\<close>, \<open>commitIdxChnl\<close> and \<open>commitTracker\<close>.

  Three conditions are needed that the code does not see to:
  \<^item> \<open>prompt\<close>: an acknowledgement that raises \<open>matchIndex\<close> is the answer to a message of the
    server's current term, of a follower whose log ends where the message ends
    (\<open>HeartBeat_acks_unmatched_tail\<close>: what lies behind need not match the leader's log);
  \<^item> \<open>fresh_tally\<close>: a server that becomes leader, or initialises \<open>matchIndex\<close>, has counted nothing
    for the indices that are still open in its term (\<open>commitTracker\<close> is never emptied:
    \<open>commit_counts_twice\<close>);
  \<^item> \<open>own_commit\<close>: commits are a leader's, of entries of its current term (the test for the term
    stands in the code as a comment).
\<close>

section \<open>The steps\<close>

type_synonym answer = "nat \<times> append_entries_args \<times> append_entries_reply"

text \<open>Indices that a leader has still to fill, or has filled in its own term.\<close>

definition open_at :: "raft \<Rightarrow> int32 \<Rightarrow> bool" where
  "open_at rf j \<longleftrightarrow> int (length (logs rf)) \<le> j \<or> 0 \<le> j \<and> has (currentTerm rf) (nat j) (logs rf)"

definition prompt :: "nat \<Rightarrow> append_entries_args \<Rightarrow> append_entries_reply \<Rightarrow> raft \<Rightarrow> bool" where
  "prompt j args reply rf \<longleftrightarrow> (Success reply \<and> matchIndex rf ! j < Index (LastEntry reply) \<longrightarrow>
     ae_Term args = currentTerm rf \<and> Index (LastEntry reply) = int (msg_end args) - 1)"

definition fresh_tally :: "raft \<Rightarrow> raft \<Rightarrow> bool" where
  "fresh_tally rf rf' \<longleftrightarrow> (isLeader rf' \<and> (\<not> isLeader rf \<or> matchIndex rf' \<noteq> matchIndex rf) \<longrightarrow>
     (\<forall>j. open_at rf' j \<longrightarrow> ack_count rf' j = 0))"

definition own_commit :: "raft \<Rightarrow> raft \<Rightarrow> bool" where
  "own_commit rf rf' \<longleftrightarrow> (lastApplied rf < lastApplied rf' \<longrightarrow>
     isLeader rf \<and> Term (logs rf ! nat (lastApplied rf')) = currentTerm rf)"

inductive sure_step ::
  "nat \<Rightarrow> network \<Rightarrow> audit \<Rightarrow> answer set \<Rightarrow> network \<Rightarrow> audit \<Rightarrow> answer set \<Rightarrow> bool" for n where
  vote: "vote_step n (base s) i rf' b \<Longrightarrow> fresh_tally (node s i) rf' \<Longrightarrow>
     sure_step n s g as (s\<lparr>base := b\<rparr>) (noted i [] s (s\<lparr>base := b\<rparr>) g) as"
| heartbeat: "i < n \<Longrightarrow> (i, args) \<in> net s \<Longrightarrow>
     HeartBeat args zero_append_reply (node s i) = Inr (rf', reply, out) \<Longrightarrow>
     honest_cut (hist s) args (node s i) rf' \<Longrightarrow>
     sure_step n s g as (put i rf' s) (noted i out s (put i rf' s) g) (insert (i, args, reply) as)"
| answer: "i < n \<Longrightarrow> j < n \<Longrightarrow> j \<noteq> i \<Longrightarrow> (j, args, reply) \<in> as \<Longrightarrow>
     peer_reply j args reply (node s i) = Inr (rf', out) \<Longrightarrow> prompt j args reply (node s i) \<Longrightarrow>
     sure_step n s g as (put i rf' s) (noted i out s (put i rf' s) g) as"
| own: "i < n \<Longrightarrow> own_step (node s i) out ms rf' \<Longrightarrow> matchIndex rf' = matchIndex (node s i) \<Longrightarrow>
     fresh_entries (node s i) rf' \<Longrightarrow> own_commit (node s i) rf' \<Longrightarrow>
     sure_step n s g as (post ms (put i rf' s)) (noted i out s (post ms (put i rf' s)) g) as"

inductive sure_reach :: "nat \<Rightarrow> network \<Rightarrow> audit \<Rightarrow> answer set \<Rightarrow> bool" for n where
  init: "sure_reach n (init_network n) init_audit {}"
| step: "sure_reach n s g as \<Longrightarrow> sure_step n s g as s' g' as' \<Longrightarrow> sure_reach n s' g' as'"

lemma peer_reply_same_log: "peer_reply j args reply rf = Inr (rf', out) \<Longrightarrow> logs rf' = logs rf \<and> lastApplied rf' = lastApplied rf"
  by (auto simp: peer_reply_def Let_def split: if_splits)

lemma sure_step_safe: "sure_step n s g as s' g' as' \<Longrightarrow> safe_step n s g s' g'"
proof (induction rule: sure_step.induct)
  case (answer i j args reply as s rf' out g)
  have "fresh_entries (node s i) rf'" using peer_reply_same_log[OF answer(5)] by (simp add: fresh_entries_def)
  from safe_step.own[OF answer(1) own_step.answer[OF answer(5)] this, of g] show ?case by (simp add: post_def put_def)
qed (auto intro: safe_step.intros)

lemma sure_reach_safe: "sure_reach n s g as \<Longrightarrow> safe_reach n s g"
  by (induction rule: sure_reach.induct) (auto intro: safe_reach.intros sure_step_safe)

section \<open>What an answer means\<close>

text \<open>A follower that answers Success has the sender's log up to the end of the message, and the sender's
  term.\<close>

lemma HeartBeat_acknowledges:
  assumes inv: "node_inv rf" and P: "log_wf P" "window P args" "matches (logs rf) P"
    and run: "HeartBeat args zero_append_reply rf = Inr (rf', reply, out)" and ok: "Success reply"
  shows "currentTerm rf' = ae_Term args \<and> take (msg_end args) (logs rf') = take (msg_end args) P"
proof -
  have wf: "log_wf (logs rf)" "0 \<le> lastApplied rf" using inv by (auto simp: node_inv_def)
  have a: "args_wf args" using P(2,1) by (rule window_args_wf)
  show ?thesis
    using wf(1) a wf(2)
  proof (cases rule: HeartBeat_branches[where reply = zero_append_reply])
    case blocked
    with run show ?thesis by simp
  next
    case stale
    with run ok show ?thesis using HeartBeat_stale[OF wf(1) stale(2,1)] by (auto simp: zero_append_reply_def)
  next
    case missing
    with run ok show ?thesis using HeartBeat_missing[OF wf(1) a missing(2,1,3)] by (auto simp: zero_append_reply_def)
  next
    case conflict
    with run ok show ?thesis using HeartBeat_conflict[OF wf(1) a conflict(2,1,3)] by (auto simp: zero_append_reply_def)
  next
    case accept
    let ?p = "nat (Index (PrevLog args))"
    have "?p < length (logs rf)" "Term (logs rf ! ?p) = Term (PrevLog args)"
      using accept(3,4) args_wfD(1)[OF a] by (auto simp: hb_missing_def hb_conflict_def)
    from merge_window_agrees[OF P(3,2) HOL.refl this]
    have "take (msg_end args) (hb_merged args rf) = take (msg_end args) P" by (simp add: hb_merged_def)
    then show ?thesis
      using run unfolding HeartBeat_accept[OF wf(1) a accept(2) wf(2) accept(1,3,4)]
      by (auto simp: Let_def hb_follow_def split: if_splits)
  qed
qed

definition answers_inv :: "nat \<Rightarrow> network \<Rightarrow> audit \<Rightarrow> answer set \<Rightarrow> bool" where
  "answers_inv n s g as \<longleftrightarrow> (\<forall>(j, args, reply) \<in> as. Success reply \<longrightarrow>
     (\<exists>P \<in> hist s. window P args \<and> lead_log n s g (ae_Term args) P
        \<and> (has (ae_Term args) (msg_end args - 1) P \<longrightarrow> (j, ae_Term args, msg_end args - 1) \<in> held g)))"

lemma answers_invD:
  assumes "answers_inv n s g as" "(j, args, reply) \<in> as" "Success reply"
  obtains P where "P \<in> hist s" "window P args" "lead_log n s g (ae_Term args) P"
    "has (ae_Term args) (msg_end args - 1) P \<Longrightarrow> (j, ae_Term args, msg_end args - 1) \<in> held g"
  using assms unfolding answers_inv_def by blast

lemma answers_grow:
  assumes "answers_inv n s g as" "hist s \<subseteq> hist s'" "grows s g s' g'"
  shows "answers_inv n s' g' as"
  unfolding answers_inv_def
proof (clarify)
  fix j args reply assume "(j, args, reply) \<in> as" "Success reply"
  with assms(1) obtain P where P: "P \<in> hist s" "window P args" "lead_log n s g (ae_Term args) P"
    "has (ae_Term args) (msg_end args - 1) P \<longrightarrow> (j, ae_Term args, msg_end args - 1) \<in> held g"
    by (auto elim!: answers_invD)
  then show "\<exists>P \<in> hist s'. window P args \<and> lead_log n s' g' (ae_Term args) P
      \<and> (has (ae_Term args) (msg_end args - 1) P \<longrightarrow> (j, ae_Term args, msg_end args - 1) \<in> held g')"
    using assms(2,3) grows_lead_log[OF assms(3)] unfolding grows_def by (intro bexI[of _ P]) auto
qed

lemma window_msg_end: "window P m \<Longrightarrow> msg_end m - 1 < length P"
  using window_end[of P m] by (simp add: msg_end_def)

lemma heartbeat_answer:
  assumes net: "net_inv n s" and inv: "audit_inv n s g" and i: "i < n" and m: "(i, args) \<in> net s"
    and run: "HeartBeat args zero_append_reply (node s i) = Inr (rf', reply, out)"
    and old: "answers_inv n s g as" and act: "acts n s i (put i rf' s)"
  shows "answers_inv n (put i rf' s) (noted i out s (put i rf' s) g) (insert (i, args, reply) as)"
proof -
  let ?s = "put i rf' s" and ?g = "noted i out s (put i rf' s) g"
  have gr: "grows s g ?s ?g" by (rule acts_grows[OF act])
  obtain P where P: "P \<in> hist s" "window P args" "lead_log n s g (ae_Term args) P"
    using wire_invD[OF audit_invD(3)[OF inv] m] by blast
  have wf: "log_wf P" "matches (lg s i) P" using net_invD(2)[OF net] P(1) i by (auto simp: logs_ok_def)
  have "(i, ae_Term args, msg_end args - 1) \<in> held ?g" if ok: "Success reply" and h: "has (ae_Term args) (msg_end args - 1) P"
  proof -
    note ack = HeartBeat_acknowledges[OF net_invD(5)[OF net i] wf(1) P(2) wf(2) run ok]
    have "Suc (msg_end args - 1) = msg_end args" by (simp add: msg_end_def)
    with ack have "take (Suc (msg_end args - 1)) (logs rf') = take (Suc (msg_end args - 1)) P" by simp
    from has_same[OF this, of "ae_Term args"] h ack show ?thesis by (auto simp: noted_def)
  qed
  then have "\<exists>P \<in> hist ?s. window P args \<and> lead_log n ?s ?g (ae_Term args) P
      \<and> (has (ae_Term args) (msg_end args - 1) P \<longrightarrow> (i, ae_Term args, msg_end args - 1) \<in> held ?g)" if "Success reply"
    using P grows_lead_log[OF gr] that by (intro bexI[of _ P]) auto
  moreover have "answers_inv n ?s ?g as" by (rule answers_grow[OF old _ gr]) (simp add: subset_insertI)
  ultimately show ?thesis unfolding answers_inv_def by auto
qed

section \<open>The count\<close>

text \<open>The followers that a leader may count for an index: they have acknowledged it, and held the
  leader's entry there in its term.\<close>

definition acked :: "nat \<Rightarrow> network \<Rightarrow> audit \<Rightarrow> nat \<Rightarrow> int32 \<Rightarrow> nat set" where
  "acked n s g i j = {v. v < n \<and> v \<noteq> i \<and> (v, cur s i, nat j) \<in> held g \<and> j \<le> matchIndex (node s i) ! v}"

definition tally_inv :: "nat \<Rightarrow> network \<Rightarrow> audit \<Rightarrow> nat \<Rightarrow> bool" where
  "tally_inv n s g i \<longleftrightarrow> length (matchIndex (node s i)) = n \<and> (\<forall>j. in32 (acks (node s i) j))
     \<and> (isLeader (node s i) \<longrightarrow> (\<forall>k. has (cur s i) k (lg s i) \<longrightarrow> (i, cur s i, k) \<in> held g)
          \<and> (\<forall>j. open_at (node s i) j \<longrightarrow> ack_count (node s i) j \<le> int (card (acked n s g i j))))"

lemma tally_invD:
  assumes "tally_inv n s g i"
  shows "length (matchIndex (node s i)) = n" "in32 (acks (node s i) j)"
    "isLeader (node s i) \<Longrightarrow> has (cur s i) k (lg s i) \<Longrightarrow> (i, cur s i, k) \<in> held g"
    "isLeader (node s i) \<Longrightarrow> open_at (node s i) j \<Longrightarrow> ack_count (node s i) j \<le> int (card (acked n s g i j))"
  using assms by (auto simp: tally_inv_def)

lemma finite_acked [simp]: "finite (acked n s g i j)"
  by (simp add: acked_def)

text \<open>A step that counts nothing new.\<close>

definition counts_less :: "raft \<Rightarrow> raft \<Rightarrow> bool" where
  "counts_less rf rf' \<longleftrightarrow> matchIndex rf' = matchIndex rf
     \<and> (\<forall>j. ack_count rf' j \<le> ack_count rf j \<and> (in32 (acks rf j) \<longrightarrow> in32 (acks rf' j)))"

lemma counts_same:
  "matchIndex rf' = matchIndex rf \<Longrightarrow> commitTracker rf' = commitTracker rf \<Longrightarrow> commitIdxChnl rf' = commitIdxChnl rf \<Longrightarrow>
   counts_less rf rf'"
  by (simp add: counts_less_def ack_count_def acks_def)

definition extends_log :: "raft \<Rightarrow> raft \<Rightarrow> bool" where
  "extends_log rf rf' \<longleftrightarrow> currentTerm rf' = currentTerm rf \<and> (\<exists>new. logs rf' = logs rf @ new)"

lemma open_at_extends: "extends_log rf rf' \<Longrightarrow> open_at rf' j \<Longrightarrow> open_at rf j"
  by (auto simp: extends_log_def open_at_def has_def nth_append split: if_splits)

lemma works_extends: "works s i s' \<Longrightarrow> isLeader (node s' i) \<Longrightarrow> isLeader (node s i) \<and> extends_log (node s i) (node s' i)"
  by (auto simp: works_def extends_log_def)

lemma acked_grows:
  assumes "held g \<subseteq> held g'" "cur s' i = cur s i" "\<And>v. matchIndex (node s i) ! v \<le> matchIndex (node s' i) ! v"
  shows "acked n s g i j \<subseteq> acked n s' g' i j"
  unfolding acked_def assms(2) using assms(1) order_trans[OF _ assms(3)] by blast

lemma holds_noted: "has (cur s' i) k (lg s' i) \<Longrightarrow> (i, cur s' i, k) \<in> held (noted i out s s' g)"
  by (auto simp: noted_def)

lemma tally_kept:
  assumes old: "tally_inv n s g i" and less: "counts_less (node s i) (node s' i)"
    and lead: "isLeader (node s' i) \<Longrightarrow> isLeader (node s i) \<and> extends_log (node s i) (node s' i)"
    and g': "g' = noted i out s s' g"
  shows "tally_inv n s' g' i"
proof -
  have h: "held g \<subseteq> held g'" by (auto simp: g' noted_def)
  have m: "matchIndex (node s' i) = matchIndex (node s i)" using less by (simp add: counts_less_def)
  have "ack_count (node s' i) j \<le> int (card (acked n s' g' i j))" if l: "isLeader (node s' i)" and j: "open_at (node s' i) j" for j
  proof -
    have le: "ack_count (node s' i) j \<le> ack_count (node s i) j" using less by (simp add: counts_less_def)
    also have "\<dots> \<le> int (card (acked n s g i j))" using tally_invD(4)[OF old] lead[OF l] open_at_extends[OF _ j] by blast
    also have "\<dots> \<le> int (card (acked n s' g' i j))"
      using card_mono[OF finite_acked acked_grows[OF h]] lead[OF l] m by (simp add: extends_log_def)
    finally show ?thesis .
  qed
  moreover have "in32 (acks (node s' i) j)" for j using less tally_invD(2)[OF old] by (simp add: counts_less_def)
  ultimately show ?thesis using tally_invD(1)[OF old] m holds_noted unfolding tally_inv_def g' by auto
qed

lemma tally_new:
  assumes old: "tally_inv n s g i" and len: "length (matchIndex (node s' i)) = n"
    and same: "commitTracker (node s' i) = commitTracker (node s i)"
    and none: "\<And>j. open_at (node s' i) j \<Longrightarrow> ack_count (node s' i) j = 0" and g': "g' = noted i out s s' g"
  shows "tally_inv n s' g' i"
  using tally_invD(2)[OF old] holds_noted len none by (auto simp: tally_inv_def g' acks_def same)

lemma tally_others:
  assumes "acts n s i s'" "v \<noteq> i" "tally_inv n s g v" "g' = noted i out s s' g"
  shows "tally_inv n s' g' v"
proof -
  have node: "node s' v = node s v" using assms(1,2) by (simp add: acts_def)
  have h: "held g \<subseteq> held g'" by (auto simp: assms(4) noted_def)
  have "card (acked n s g v j) \<le> card (acked n s' g' v j)" for j by (rule card_mono[OF finite_acked acked_grows[OF h]]) (simp_all add: node)
  then have "ack_count (node s v) j \<le> int (card (acked n s' g' v j))" if "isLeader (node s v)" "open_at (node s v) j" for j
    using tally_invD(4)[OF assms(3) that] by (meson of_nat_mono order_trans)
  then show ?thesis using assms(3) h unfolding tally_inv_def node by blast
qed

section \<open>Steps that do not acknowledge\<close>

lemma HeartBeat_counts: "HeartBeat args reply rf = Inr (rf', reply', out) \<Longrightarrow> counts_less rf rf'"
  by (rule counts_same; auto simp: HeartBeat_def follower_commit_def Let_def split: if_splits option.splits)

lemma vote_counts:
  assumes "vote_step n b i rf' b'"
  shows "commitTracker rf' = commitTracker (nodes b i) \<and> commitIdxChnl rf' = commitIdxChnl (nodes b i)
    \<and> (matchIndex rf' = matchIndex (nodes b i) \<or> matchIndex rf' = replicate (n_peers (nodes b i)) 0)"
  using assms
  by (induction rule: vote_step.induct)
     (auto simp: election_timeout_def RequestVote_def vote_reply_def tracker_recv_def tracker_timeout_def
       leader_init_def Let_def split: if_splits)

lemma commit_counts:
  assumes "commit_step rf = Inr (rf', out)" "n_peers rf < 2147483648" "\<And>j. in32 (acks rf j)"
  shows "counts_less rf rf'"
proof -
  obtain x cs where ch: "commitIdxChnl rf = x # cs" using assms(1) by (auto simp: commit_step_def chan_recv_Inr)
  have n: "i32 (int (n_peers rf div 2)) = int (n_peers rf div 2)" using assms(2) by (intro i32_small) auto
  have wrap: "i32 (acks rf x + 1) \<le> acks rf x + 1" using i32_succ_le[OF assms(3)] .
  have less: "counts_less rf (rf\<lparr>commitIdxChnl := cs\<rparr>)" by (simp add: counts_less_def ack_count_def acks_def ch)
  have more: "counts_less rf rf'" if "matchIndex rf' = matchIndex rf" "commitIdxChnl rf' = cs"
    "commitTracker rf' = (commitTracker rf)(x \<mapsto> i32 (acks rf x + 1))"
    using wrap that by (auto simp: counts_less_def ack_count_def acks_def ch)
  show ?thesis
    by (cases rule: commit_step_upd[OF assms(1) ch n]) (use less more in auto)
qed

lemma own_counts:
  assumes "own_step rf out ms rf'" "matchIndex rf' = matchIndex rf" "n_peers rf < 2147483648" "\<And>j. in32 (acks rf j)"
    "length (matchIndex rf) = n_peers rf"
  shows "counts_less rf rf'"
  using assms
proof (induction rule: own_step.induct)
  case (commit rf rf' out)
  then show ?case using commit_counts by blast
next
  case (answer server args reply rf rf' out)
  then show ?case
    by (intro counts_same) (auto simp: peer_reply_def Let_def idx_Inr chan_send_Inr list_update_same_conv split: if_splits)
qed (rule counts_same;
     auto simp: Start_def Kill_def stop_observed_def hb_reset_def hb_tick_def job_step_def peer_send_def drain_rpc_def Let_def
       split: if_splits list.splits)+

section \<open>An acknowledgement\<close>

lemma peer_reply_counts:
  assumes "peer_reply j args reply rf = Inr (rf', out)"
  obtains (same) "counts_less rf rf'"
  | (more) "Success reply" "matchIndex rf ! j < Index (LastEntry reply)" "j < length (matchIndex rf)"
      "matchIndex rf' = (matchIndex rf)[j := Index (LastEntry reply)]" "commitTracker rf' = commitTracker rf"
      "commitIdxChnl rf' = commitIdxChnl rf @ [Index (LastEntry reply)]" "currentTerm rf' = currentTerm rf" "isLeader rf' = isLeader rf"
proof (cases "Success reply \<and> matchIndex rf ! j < Index (LastEntry reply)")
  case True
  then show thesis using assms by (intro more) (auto simp: peer_reply_def Let_def idx_Inr chan_send_Inr)
next
  case False
  then have "counts_less rf rf'"
    using assms by (intro counts_same) (auto simp: peer_reply_def Let_def idx_Inr split: if_splits)
  then show thesis by (rule same)
qed

text \<open>An open index that a message of the leader's term ends at is of that term in the sender's log too.\<close>

lemma open_message_end:
  assumes n: "n < 2147483648" and net: "net_inv n s" and inv: "audit_inv n s g" and i: "i < n"
    and lead: "isLeader (node s i)" and P: "lead_log n s g (cur s i) P" "k < length P" and k: "open_at (node s i) (int k)"
  shows "has (cur s i) k P"
proof -
  note a = audit_invD[OF inv]
  obtain c EL where E: "c < n" "elected (base s) c (cur s i)" "(c, cur s i, EL) \<in> cands g" "starts_with P EL"
    "\<forall>v \<in> set (drop (length EL) P). Term v = cur s i" using P(1) by (auto simp: lead_log_def)
  have "lead_log n s g (cur s i) (lg s i)" using a(4)[OF i] lead by (simp add: leads_inv_def)
  then obtain d EL' where D: "d < n" "elected (base s) d (cur s i)" "(d, cur s i, EL') \<in> cands g" "starts_with (lg s i) EL'"
    by (auto simp: lead_log_def)
  have "d = c" using elected_unique[OF n net_invD(1)[OF net] D(1) E(1) D(2) E(2)] .
  then have st: "starts_with (lg s i) EL" using cands_invD(6)[OF a(2) E(3)] D(3,4) by simp
  have "\<not> k < length EL"
  proof
    assume k': "k < length EL"
    then have "k < length (lg s i)" "lg s i ! k = EL ! k" using starts_with_length[OF st] starts_with_nth[OF st] by auto
    then have "Term (EL ! k) = cur s i" using k by (simp add: open_at_def has_def)
    then show False using cands_invD(5)[OF a(2) E(3), of "EL ! k"] k' by simp
  qed
  then show ?thesis using after_start[OF E(4) P(2)] E(5) P(2) by (simp add: has_def)
qed

lemma answer_tally:
  assumes n: "n < 2147483648" and net: "net_inv n s" and inv: "audit_inv n s g" and i: "i < n"
    and old: "tally_inv n s g i" and given: "answers_inv n s g as" "(j, args, reply) \<in> as" and j: "j < n" "j \<noteq> i"
    and run: "peer_reply j args reply (node s i) = Inr (rf', out)" and pr: "prompt j args reply (node s i)"
  shows "tally_inv n (put i rf' s) (noted i out s (put i rf' s) g) i"
proof -
  let ?s = "put i rf' s" and ?g = "noted i out s (put i rf' s) g"
  have lg: "logs rf' = lg s i" using peer_reply_same_log[OF run] by simp
  show ?thesis using run
  proof (cases rule: peer_reply_counts)
    case same
    have "own_step (node s i) out [] rf'" using run by (rule own_step.answer)
    moreover have "fresh_entries (node s i) rf'" using lg by (simp add: fresh_entries_def)
    ultimately have "works s i ?s" using own_works[OF n net i, of out "[]" rf'] by (simp add: post_def put_def)
    from works_extends[OF this] show ?thesis by (intro tally_kept[OF old]) (use same in auto)
  next
    case more
    let ?m = "Index (LastEntry reply)"
    have h: "held g \<subseteq> held ?g" by (auto simp: noted_def)
    have m: "ae_Term args = cur s i" "?m = int (msg_end args - 1)"
      using pr more(1,2) by (auto simp: prompt_def msg_end_def)
    obtain P where P: "P \<in> hist s" "window P args" "lead_log n s g (cur s i) P"
      "has (cur s i) (msg_end args - 1) P \<Longrightarrow> (j, cur s i, msg_end args - 1) \<in> held g"
      using answers_invD[OF given more(1)] unfolding m(1) by blast
    have up: "matchIndex (node s i) ! v \<le> matchIndex rf' ! v" for v
      using more(2,3) by (cases "v = j") (auto simp: more(4))
    have sub: "acked n s g i x \<subseteq> acked n ?s ?g i x" for x by (rule acked_grows[OF h]) (use more(7) up in auto)
    have "ack_count rf' x \<le> int (card (acked n ?s ?g i x))" if l: "isLeader (node s i)" and x: "open_at (node s i) x" for x
    proof (cases "x = ?m")
      case False
      then have "ack_count rf' x = ack_count (node s i) x" using more(5,6) by (simp add: ack_count_def acks_def)
      also have "\<dots> \<le> int (card (acked n s g i x))" by (rule tally_invD(4)[OF old l x])
      also have "\<dots> \<le> int (card (acked n ?s ?g i x))" using card_mono[OF finite_acked sub] by simp
      finally show ?thesis .
    next
      case True
      have "(j, cur s i, msg_end args - 1) \<in> held g"
        using open_message_end[OF n net inv i l P(3) window_msg_end[OF P(2)]] x True m(2) P(4) by simp
      then have "j \<in> acked n ?s ?g i x" "j \<notin> acked n s g i x"
        using j h more(2-4,7) m(2) True by (auto simp: acked_def)
      then have "Suc (card (acked n s g i x)) \<le> card (acked n ?s ?g i x)"
        using card_mono[OF finite_acked, of "insert j (acked n s g i x)"] sub by simp
      moreover have "ack_count rf' x = ack_count (node s i) x + 1" using more(5,6) True by (simp add: ack_count_def acks_def)
      ultimately show ?thesis using tally_invD(4)[OF old l x] by linarith
    qed
    moreover have "open_at rf' x = open_at (node s i) x" for x using more(7) lg by (simp add: open_at_def)
    moreover have "acks rf' x = acks (node s i) x" for x using more(5) by (simp add: acks_def)
    ultimately show ?thesis
      using tally_invD(1,2)[OF old] holds_noted[of ?s i] more(4,8) unfolding tally_inv_def by auto
  qed
qed

section \<open>What is committed is chosen\<close>

definition sound_commit :: "nat \<Rightarrow> audit \<Rightarrow> raft \<Rightarrow> raft \<Rightarrow> bool" where
  "sound_commit n g rf rf' \<longleftrightarrow> (lastApplied rf < lastApplied rf' \<longrightarrow>
     chosen n g (Term (logs rf' ! nat (lastApplied rf'))) (nat (lastApplied rf')))"

lemma sound_same: "lastApplied rf' = lastApplied rf \<Longrightarrow> sound_commit n g rf rf'"
  by (simp add: sound_commit_def)

lemma commit_step_chosen:
  assumes n: "n < 2147483648" and net: "net_inv n s" and i: "i < n" and t: "tally_inv n s g i"
    and run: "commit_step (node s i) = Inr (rf', out)" and own: "own_commit (node s i) rf'"
  shows "sound_commit n g (node s i) rf'"
proof -
  let ?rf = "node s i"
  note me = node_identity[OF n net i]
  have ok: "commit_ok ?rf" "commitIdx ?rf = lastApplied ?rf" using net_invD(5)[OF net i] by (auto simp: node_inv_def commit_ok_def)
  obtain x cs where ch: "commitIdxChnl ?rf = x # cs" using run by (auto simp: commit_step_def chan_recv_Inr)
  from ok(1) ch show ?thesis
  proof (cases rule: commit_step_cases)
    case ignored
    then show ?thesis using run by (auto intro: sound_same)
  next
    case counted
    then show ?thesis using run by (auto intro: sound_same)
  next
    case (committed out')
    have rf': "lastApplied rf' = x" "logs rf' = lg s i" using committed(4) run by auto
    have lead: "isLeader ?rf" and T: "Term (lg s i ! nat x) = cur s i"
      using own committed(1) ok(2) rf'(1) by (auto simp: own_commit_def)
    have x: "0 \<le> x" "has (cur s i) (nat x) (lg s i)"
      using committed(1,2) ok(1) T by (auto simp: commit_ok_def has_def)
    have "int (n div 2) \<le> acks ?rf x + 1" using i32_succ_le[OF tally_invD(2)[OF t, of x]] committed(3) me(2) by simp
    also have "\<dots> \<le> ack_count ?rf x" by (simp add: ack_count_def ch)
    also have "\<dots> \<le> int (card (acked n s g i x))" using tally_invD(4)[OF t lead] x by (simp add: open_at_def)
    finally have "n div 2 \<le> card (acked n s g i x)" by simp
    then have "majority n (insert i (acked n s g i x))" by (intro votes_majority[OF _ i]) (auto simp: acked_def)
    moreover have "\<forall>v \<in> insert i (acked n s g i x). (v, cur s i, nat x) \<in> held g"
      using tally_invD(3)[OF t lead x(2)] by (auto simp: acked_def)
    ultimately show ?thesis using T rf' unfolding sound_commit_def chosen_def by auto
  qed
qed

lemma own_step_applied: "own_step rf out ms rf' \<Longrightarrow> lastApplied rf' = lastApplied rf \<or> commit_step rf = Inr (rf', out)"
proof (induction rule: own_step.induct)
  case (answer server args reply rf rf' out)
  then show ?case using peer_reply_same_log by blast
qed (auto simp: Start_def Kill_def stop_observed_def hb_reset_def hb_tick_def job_step_def peer_send_def drain_rpc_def Let_def
       split: if_splits list.splits)

section \<open>The invariant of the count\<close>

definition count_inv :: "nat \<Rightarrow> network \<Rightarrow> audit \<Rightarrow> answer set \<Rightarrow> bool" where
  "count_inv n s g as \<longleftrightarrow> answers_inv n s g as \<and> (\<forall>i < n. tally_inv n s g i)"

lemma count_invD:
  "count_inv n s g as \<Longrightarrow> answers_inv n s g as" "count_inv n s g as \<Longrightarrow> i < n \<Longrightarrow> tally_inv n s g i"
  by (auto simp: count_inv_def)

text \<open>What remains to be shown of a step is about the server that takes it and, of a HeartBeat, its answer.\<close>

lemma count_invI:
  assumes "count_inv n s g as" "acts n s i s'" "g' = noted i out s s' g" "tally_inv n s' g' i"
    and "answers_inv n s' g' as \<Longrightarrow> answers_inv n s' g' as'"
  shows "count_inv n s' g' as'"
proof -
  have "hist s \<subseteq> hist s'" "grows s g s' g'" using assms(2) acts_grows[OF assms(2)] by (auto simp: acts_def assms(3))
  then have "answers_inv n s' g' as" using answers_grow[OF count_invD(1)[OF assms(1)]] by blast
  moreover have "tally_inv n s' g' v" if "v < n" for v
    using assms(4) tally_others[OF assms(2) _ count_invD(2)[OF assms(1) that] assms(3)] by (cases "v = i") auto
  ultimately show ?thesis using assms(5) by (simp add: count_inv_def)
qed

lemma vote_tally:
  assumes n: "n < 2147483648" and net: "net_inv n s" and st: "vote_step n (base s) i rf' b" and fresh: "fresh_tally (node s i) rf'"
    and old: "tally_inv n s g i"
  shows "tally_inv n (s\<lparr>base := b\<rparr>) (noted i [] s (s\<lparr>base := b\<rparr>) g) i"
proof -
  let ?s = "s\<lparr>base := b\<rparr>"
  have b: "node ?s i = rf'" and i: "i < n" using vote_acts[OF n net st] by (auto simp: acts_def)
  note c = vote_counts[OF st]
  have len: "length (matchIndex rf') = n" using c tally_invD(1)[OF old] node_identity(2)[OF n net i] by auto
  show ?thesis
  proof (cases "isLeader rf' \<and> (\<not> isLeader (node s i) \<or> matchIndex rf' \<noteq> matchIndex (node s i))")
    case True
    then show ?thesis using fresh c len b by (intro tally_new[OF old]) (auto simp: fresh_tally_def)
  next
    case False
    show ?thesis
    proof (cases "isLeader rf'")
      case l: True
      then have m: "matchIndex rf' = matchIndex (node s i)" "isLeader (node s i)" using False by auto
      have "cur ?s i = cur s i" "lg ?s i = lg s i"
        using vote_kinds[OF n net st] l b vote_same_log[OF st] by (auto simp: works_def starts_def wins_def same_log_def)
      then show ?thesis
        using m c b by (intro tally_kept[OF old counts_same]) (auto simp: extends_log_def)
    next
      case False
      then show ?thesis using tally_invD(1,2)[OF old] len c b by (simp add: tally_inv_def acks_def)
    qed
  qed
qed

lemma count_step:
  assumes "sure_step n s g as s' g' as'" "n < 2147483648" "net_inv n s" "audit_inv n s g" "count_inv n s g as"
  shows "count_inv n s' g' as'"
  using assms
proof (induction rule: sure_step.induct)
  case (vote s i rf' b g as)
  have act: "acts n s i (s\<lparr>base := b\<rparr>)" and i: "i < n" using vote_acts[OF vote(3,4,1)] by (auto simp: acts_def)
  show ?case
    by (rule count_invI[OF vote(6) act HOL.refl vote_tally[OF vote(3,4,1,2) count_invD(2)[OF vote(6) i]]])
next
  case (heartbeat i args s rf' reply out g as)
  let ?s = "put i rf' s"
  have act: "acts n s i ?s"
    using put_acts[OF heartbeat(6,1) HeartBeat_frame[OF heartbeat(3)], of "[]"] by (simp add: post_def put_def)
  have old: "tally_inv n s g i" "answers_inv n s g as" using count_invD[OF heartbeat(8)] heartbeat(1) by auto
  have h: "hears s i out ?s" using heartbeat(2-4) by (auto simp: hears_def)
  have "isLeader (node ?s i) \<Longrightarrow> isLeader (node s i) \<and> extends_log (node s i) (node ?s i)"
    using heartbeat(6) act h wire_invD[OF audit_invD(3)[OF heartbeat(7)]]
    by (rule hears_effect) (auto simp: extends_log_def)
  then have "tally_inv n ?s (noted i out s ?s g) i"
    using HeartBeat_counts[OF heartbeat(3)] by (intro tally_kept[OF old(1)]) auto
  then show ?case
    using heartbeat_answer[OF heartbeat(6,7,1,2,3) old(2) act] by (intro count_invI[OF heartbeat(8) act HOL.refl])
next
  case (answer i j args reply as s rf' out g)
  have fr: "vote_frame (node s i) rf'" using own_step_local[OF own_step.answer[OF answer(5)]] by (rule local_step_frame)
  have act: "acts n s i (put i rf' s)" using put_acts[OF answer(8,1) fr, of "[]"] by (simp add: post_def put_def)
  note old = count_invD(1)[OF answer(10)] count_invD(2)[OF answer(10,1)]
  show ?case
    by (rule count_invI[OF answer(10) act HOL.refl answer_tally[OF answer(7-9,1) old(2,1) answer(4,2,3,5,6)]])
next
  case (own i s out ms rf' g as)
  let ?s = "post ms (put i rf' s)"
  have fr: "vote_frame (node s i) rf'" using own_step_local[OF own(2)] by (rule local_step_frame)
  have act: "acts n s i ?s" by (rule put_acts[OF own(7,1) fr])
  have old: "tally_inv n s g i" using count_invD(2)[OF own(9,1)] .
  have "counts_less (node s i) rf'"
    using own_counts[OF own(2,3)] tally_invD(1,2)[OF old] node_identity(2)[OF own(6,7,1)] own(6) by simp
  then have "tally_inv n ?s (noted i out s ?s g) i"
    using works_extends[OF own_works[OF own(6,7,1,2,4)]] by (intro tally_kept[OF old]) auto
  then show ?case by (intro count_invI[OF own(9) act HOL.refl])
qed

lemma count_init: "count_inv n (init_network n) init_audit {}"
proof -
  have nd: "node (init_network n) i = Make n (int i) MakePersister" for i
    by (simp only: init_network_def init_cluster_def network.simps cluster.simps)
  show ?thesis by (simp add: count_inv_def answers_inv_def tally_inv_def nd acks_def in32_def)
qed

lemma sure_reach_count: "sure_reach n s g as \<Longrightarrow> n < 2147483648 \<Longrightarrow> count_inv n s g as"
proof (induction rule: sure_reach.induct)
  case init
  show ?case by (rule count_init)
next
  case (step s g as s' g' as')
  note reach = sure_reach_safe[OF step(1)]
  show ?case
    using count_step[OF step(2,4) safe_reach_inv[OF reach step(4)] safe_reach_audit[OF reach step(4)]] step(3,4) by blast
qed

text \<open>A step hands over what is chosen, or what a leader's message says is committed.\<close>

lemma sure_sound:
  assumes "sure_step n s g as s' g' as'" "n < 2147483648" "net_inv n s" "count_inv n s g as"
  shows "(\<forall>v. sound_commit n g (node s v) (node s' v)) \<or> (\<exists>i out. acts n s i s' \<and> g' = noted i out s s' g \<and> hears s i out s')"
  using assms
proof (induction rule: sure_step.induct)
  case (vote s i rf' b g as)
  have "lastApplied (node (s\<lparr>base := b\<rparr>) v) = lastApplied (node s v)" for v
    using vote_acts[OF vote(3,4,1)] vote_applied[OF vote(1)] by (cases "v = i") (auto simp: acts_def)
  then show ?case using sound_same by blast
next
  case (heartbeat i args s rf' reply out g as)
  have "acts n s i (put i rf' s)"
    using put_acts[OF heartbeat(6,1) HeartBeat_frame[OF heartbeat(3)], of "[]"] by (simp add: post_def put_def)
  moreover have "hears s i out (put i rf' s)" using heartbeat(2-4) by (auto simp: hears_def)
  ultimately show ?case by blast
next
  case (answer i j args reply as s rf' out g)
  have "lastApplied (node (put i rf' s) v) = lastApplied (node s v)" for v
    using peer_reply_same_log[OF answer(5)] by simp
  then show ?case using sound_same by blast
next
  case (own i s out ms rf' g as)
  have "sound_commit n g (node s i) rf'"
    using own_step_applied[OF own(2)] sound_same commit_step_chosen[OF own(6,7,1) count_invD(2)[OF own(8,1)] _ own(5)] by blast
  then have "sound_commit n g (node s v) (node (post ms (put i rf' s)) v)" for v using sound_same by (cases "v = i") auto
  then show ?case by blast
qed

lemma sure_kinds:
  assumes "sure_step n s g as s' g' as'" "n < 2147483648" "net_inv n s" "count_inv n s g as"
  obtains i out where "acts n s i s'" "g' = noted i out s s' g"
    "works s i s' \<and> passes s i out s' \<and> sound_commit n g (node s i) (node s' i)
     \<or> starts s i s' \<and> rests s i out s' \<or> wins n s i s' \<and> rests s i out s' \<or> hears s i out s'"
proof -
  obtain i out where k: "acts n s i s'" "g' = noted i out s s' g"
    "works s i s' \<and> passes s i out s' \<or> starts s i s' \<and> rests s i out s' \<or> wins n s i s' \<and> rests s i out s' \<or> hears s i out s'"
    using safe_kinds[OF sure_step_safe[OF assms(1)] assms(2,3)] by metis
  from sure_sound[OF assms] show thesis
  proof
    assume "\<forall>v. sound_commit n g (node s v) (node s' v)"
    with k show thesis by (intro that[of i out]) auto
  next
    assume "\<exists>i out. acts n s i s' \<and> g' = noted i out s s' g \<and> hears s i out s'"
    with that show thesis by blast
  qed
qed

end
