(* ===== verification/SafeRun.thy ===== *)
theory SafeRun
  imports CountedRuns
begin

text \<open>
  A run that keeps the conditions of \<open>CountedRuns\<close>. Server 0 is elected in term 1, appends a
  command, and server 1 takes it over; server 0 counts its acknowledgement, commits, and tells
  server 1, which applies the command too. Then server 1 is elected in term 2 with the vote of
  server 2. The theorems of \<open>LeaderCompleteness\<close> and \<open>StateSafety\<close> are applied to it. The last
  theorem is about the commit in such a run.
\<close>

section \<open>The states of the two servers\<close>

definition s0_appended :: raft where
  "s0_appended = persist (s0_ready\<lparr>logidx := 1, jobsChnl := [], logs := [zero_log, run_job],
     rdyChnl := [[], [run_announce, run_append], [run_announce, run_append]]\<rparr>)"

definition s0_sent :: raft where
  "s0_sent = s0_appended\<lparr>rdyChnl := [[], [], [run_announce, run_append]]\<rparr>"

definition run_ack :: append_entries_reply where
  "run_ack = \<lparr>aer_Term = 1, Success = True, LastEntry = run_job\<rparr>"

definition s0_acked :: raft where
  "s0_acked = s0_sent\<lparr>nextIndex := [1, 2, 1], matchIndex := [0, 1, 0], commitIdxChnl := [1]\<rparr>"

definition s0_committed :: raft where
  "s0_committed = persist (s0_acked\<lparr>commitIdxChnl := [], commitTracker := [1 \<mapsto> 1], commitIdx := 1, lastApplied := 1\<rparr>)"

definition s0_beating :: raft where
  "s0_beating = s0_committed\<lparr>heartBeatTimerReset := [], heartbeatTimer := True\<rparr>"

definition run_commit :: append_entries_args where
  "run_commit = \<lparr>ae_Term = 1, LeaderID = 0, PrevLog = run_job, Entries = [], LeaderCommitIdx = 1\<rparr>"

definition s0_told :: raft where
  "s0_told = s0_beating\<lparr>rdyChnl := [[], [run_commit], [run_announce, run_append]]\<rparr>"

definition s1_ready :: raft where
  "s1_ready = s1_voter\<lparr>heartBeatTimerReset := [], heartbeatTimer := False\<rparr>"

definition s1_appended :: raft where
  "s1_appended = persist (s1_ready\<lparr>rpcChnl := [OK, OK], currentTerm := 1, isLeader := False, heartBeatTimerReset := [False], logs := [zero_log, run_job], logidx := 1\<rparr>)"

definition s1_waiting :: raft where
  "s1_waiting = s1_appended\<lparr>heartBeatTimerReset := []\<rparr>"

definition s1_applied :: raft where
  "s1_applied = persist (s1_waiting\<lparr>rpcChnl := [OK, OK, OK], currentTerm := 1, isLeader := False, heartBeatTimerReset := [False],
     logs := [zero_log, run_job], logidx := 1, lastApplied := 1, commitIdx := 1\<rparr>)"

lemmas s0_states = s0_told_def run_commit_def s0_beating_def s0_committed_def s0_acked_def run_ack_def s0_sent_def s0_appended_def s0_ready_def
  s0_leader_def s0_candidate_def run_job_def run_append_def run_announce_def

lemmas s1_states = s1_applied_def s1_waiting_def s1_appended_def s1_ready_def s1_voter_def run_job_def run_append_def run_commit_def

lemmas step_defs = idx_def reslice_def Let_def chan_send_def MAX_LOGS_def upt_three numeral_3_eq_3

lemma step_append: "own_step (s0_ready\<lparr>logidx := 1, jobsChnl := [run_job]\<rparr>) [] [] s0_appended"
proof (rule own_step.jobs)
  show "jobs_sync (s0_ready\<lparr>logidx := 1, jobsChnl := [run_job]\<rparr>)" by (simp add: jobs_sync_def s0_states)
  show "job_step (s0_ready\<lparr>logidx := 1, jobsChnl := [run_job]\<rparr>) = Inr s0_appended"
    by (simp add: job_step_def s0_states maxEntriesPerBatch_def step_defs)
qed

lemma step_hear: "\<exists>out. HeartBeat run_append zero_append_reply s1_ready = Inr (s1_appended, run_ack, out)"
  by (simp add: HeartBeat_def s1_states run_ack_def zero_append_reply_def step_defs follower_commit_def cong: go_bind_weak_cong)

lemma step_ack: "\<exists>out. peer_reply 1 run_append run_ack s0_sent = Inr (s0_acked, out)"
  by (simp add: peer_reply_def s0_states step_defs)

lemma step_commit: "\<exists>out. commit_step s0_acked = Inr (s0_committed, out)"
  by (simp add: commit_step_def s0_states step_defs)

lemma step_tick: "hb_reset s0_committed = Inr s0_beating" "hb_tick s0_beating = Inr s0_told"
  by (simp_all add: hb_reset_def hb_tick_def s0_states step_defs)

lemma step_apply: "\<exists>r out. HeartBeat run_commit zero_append_reply s1_waiting = Inr (s1_applied, r, out)"
  by (simp add: HeartBeat_def s1_states step_defs follower_commit_def cong: go_bind_weak_cong)

definition s1_free :: raft where
  "s1_free = s1_applied\<lparr>heartBeatTimerReset := []\<rparr>"

definition s1_candidate :: raft where
  "s1_candidate = s1_free\<lparr>rpcChnl := [], currentTerm := 2, VotedFor := 1,
     elections := [\<lparr>el_term = 2, el_lastLog = run_job, el_commitIdx = 1, votes = 0, votingChnl = [], phase = Counting\<rparr>]\<rparr>"

definition run_vote1 :: request_vote_args where
  "run_vote1 = \<lparr>rv_Term = 2, ID = 1, Log = run_job\<rparr>"

definition s1_polled :: raft where
  "s1_polled = s1_candidate\<lparr>elections := [\<lparr>el_term = 2, el_lastLog = run_job, el_commitIdx = 1, votes = 0, votingChnl = [True], phase = Counting\<rparr>]\<rparr>"

lemma step_drain:
  "hb_reset s1_applied = Inr s1_free"
  "drain_rpc s1_free = Inr (s1_free\<lparr>rpcChnl := [OK, OK]\<rparr>)"
  "drain_rpc (s1_free\<lparr>rpcChnl := [OK, OK]\<rparr>) = Inr (s1_free\<lparr>rpcChnl := [OK]\<rparr>)"
  "drain_rpc (s1_free\<lparr>rpcChnl := [OK]\<rparr>) = Inr (s1_free\<lparr>rpcChnl := []\<rparr>)"
  by (simp_all add: drain_rpc_def hb_reset_def s1_free_def s1_states)

lemma step_stand: "election_timeout (s1_free\<lparr>rpcChnl := []\<rparr>) = Inr (s1_candidate, run_vote1)"
  by (simp add: election_timeout_def s1_candidate_def run_vote1_def s1_free_def s1_states idx_def)

lemma step_grant: "\<exists>c out. RequestVote run_vote1 zero_vote_reply (Make 3 2 MakePersister) = Inr (c, \<lparr>rvr_Term = 2, Voted = True\<rparr>, out)
    \<and> \<not> isLeader c"
  using RequestVote_eq[of "Make 3 2 MakePersister" run_vote1]
  by (simp add: run_vote1_def rv_grants_def rv_eligible_def up_to_date_alt run_job_def MAX_LOGS_def)

lemma step_poll: "vote_reply 0 \<lparr>rvr_Term = 2, Voted = True\<rparr> s1_candidate = Inr s1_polled"
  by (simp add: vote_reply_def s1_candidate_def s1_polled_def s1_free_def s1_states idx_def chan_send_def)

lemma step_win: "\<exists>d. tracker_recv 0 s1_polled = Inr d \<and> elections d =
    [\<lparr>el_term = 2, el_lastLog = run_job, el_commitIdx = 1, votes = 1, votingChnl = [], phase = Announced\<rparr>]
    \<and> lastApplied d = 1 \<and> logs d = [zero_log, run_job] \<and> commitTracker d = Map.empty \<and> commitIdxChnl d = []"
  by (simp add: tracker_recv_def s1_polled_def s1_candidate_def s1_free_def s1_states step_defs)

section \<open>The run\<close>

definition stage :: "network \<Rightarrow> audit \<Rightarrow> answer set \<Rightarrow> raft \<Rightarrow> raft \<Rightarrow> bool" where
  "stage s g as a b \<longleftrightarrow> sure_reach 3 s g as \<and> node s 0 = a \<and> node s 1 = b \<and> node s 2 = Make 3 2 MakePersister
     \<and> (\<forall>k v. calls (base s) 1 k v = Idle)"

text \<open>Steps of the two servers by themselves. What they hold, they have held from then on.\<close>

lemma stage_own0:
  assumes "stage s g as a b" "own_step a out ms a'" "matchIndex a' = matchIndex a" "fresh_entries a a'" "own_commit a a'"
  shows "\<exists>g'. stage (post ms (put 0 a' s)) g' as a' b \<and> held g \<subseteq> held g'
    \<and> (\<forall>k. has (currentTerm a') k (logs a') \<longrightarrow> (0, currentTerm a', k) \<in> held g')"
proof -
  let ?s = "post ms (put 0 a' s)"
  have "sure_step 3 s g as ?s (noted 0 out s ?s g) as" using assms sure_step.own[of 0 3 s out ms a' g as] by (simp add: stage_def)
  then have "stage ?s (noted 0 out s ?s g) as a' b" using assms(1) by (auto simp: stage_def intro: sure_reach.step)
  then show ?thesis by (intro exI[of _ "noted 0 out s ?s g"]) (auto simp: noted_def)
qed

lemma stage_own1:
  assumes "stage s g as a b" "own_step b out ms b'" "matchIndex b' = matchIndex b" "fresh_entries b b'" "own_commit b b'"
  shows "\<exists>g'. stage (post ms (put 1 b' s)) g' as a b' \<and> held g \<subseteq> held g'"
proof -
  let ?s = "post ms (put 1 b' s)"
  have "sure_step 3 s g as ?s (noted 1 out s ?s g) as" using assms sure_step.own[of 1 3 s out ms b' g as] by (simp add: stage_def)
  then have "stage ?s (noted 1 out s ?s g) as a b'" using assms(1) by (auto simp: stage_def intro: sure_reach.step)
  then show ?thesis by (intro exI[of _ "noted 1 out s ?s g"]) (auto simp: noted_def)
qed

lemma stage_hear:
  assumes "stage s g as a b" "(1, args) \<in> net s" "HeartBeat args zero_append_reply b = Inr (b', r, out)" "\<not> hb_conflict args b"
  shows "\<exists>s' g'. stage s' g' (insert (1, args, r) as) a b' \<and> held g \<subseteq> held g'
    \<and> (\<forall>k. has (currentTerm b') k (logs b') \<longrightarrow> (1, currentTerm b', k) \<in> held g')"
proof -
  let ?s = "put 1 b' s"
  have "sure_step 3 s g as ?s (noted 1 out s ?s g) (insert (1, args, r) as)"
    using assms sure_step.heartbeat[of 1 3 args s b' r out g as] by (simp add: stage_def honest_cut_def)
  then have "stage ?s (noted 1 out s ?s g) (insert (1, args, r) as) a b'" using assms(1) by (auto simp: stage_def intro: sure_reach.step)
  then show ?thesis by (intro exI[of _ ?s] exI[of _ "noted 1 out s ?s g"]) (auto simp: noted_def)
qed

lemma stage_answer:
  assumes "stage s g as a b" "(1, args, r) \<in> as" "peer_reply 1 args r a = Inr (a', out)" "prompt 1 args r a"
  shows "\<exists>s' g'. stage s' g' as a' b \<and> held g \<subseteq> held g'"
proof -
  let ?s = "put 0 a' s"
  have "sure_step 3 s g as ?s (noted 0 out s ?s g) as"
    using assms sure_step.answer[of 0 3 1 args r as s a' out g] by (simp add: stage_def)
  then have "stage ?s (noted 0 out s ?s g) as a' b" using assms(1) by (auto simp: stage_def intro: sure_reach.step)
  then show ?thesis by (intro exI[of _ ?s] exI[of _ "noted 0 out s ?s g"]) (auto simp: noted_def)
qed

lemma unled: "\<not> isLeader rf' \<Longrightarrow> fresh_tally rf rf'"
  by (simp add: fresh_tally_def)

lemma uncounted: "commitTracker rf' = Map.empty \<Longrightarrow> commitIdxChnl rf' = [] \<Longrightarrow> fresh_tally rf rf'"
  by (simp add: fresh_tally_def ack_count_def acks_def)

lemma run_elect: "\<exists>s g as. stage s g as s0_ready s1_voter"
proof -
  obtain out1 where granted: "RequestVote run_vote0 zero_vote_reply (Make 3 1 MakePersister) = Inr (s1_voter, \<lparr>rvr_Term = 1, Voted = True\<rparr>, out1)"
    using run_b1 by blast
  let ?b0 = "init_cluster 3" and ?s0 = "init_network 3"
  let ?b1 = "add_grant 0 1 0 (send_calls 3 0 0 run_vote0 (set_node 0 s0_candidate ?b0))"
  let ?b2 = "add_grant 1 1 0 (set_call 0 0 1 (Answered \<lparr>rvr_Term = 1, Voted = True\<rparr>) (set_node 1 s1_voter ?b1))"
  let ?b3 = "set_call 0 0 1 (Done True) (set_node 0 s0_voted ?b2)"
  let ?b4 = "set_node 0 s0_leader ?b3" and ?b5 = "set_node 0 s0_ready (set_node 0 s0_leader ?b3)"
  have n0: "nodes ?b0 = (\<lambda>i. Make 3 (int i) MakePersister)" "calls ?b0 = (\<lambda>_ _ _. Idle)" by (simp_all add: init_cluster_def)
  have base: "base ?s0 = ?b0" by (simp add: init_network_def)
  have vote: "\<exists>g'. sure_reach 3 (?s0\<lparr>base := b'\<rparr>) g' {}"
    if "\<exists>g. sure_reach 3 (?s0\<lparr>base := b\<rparr>) g {}" "vote_step 3 b i rf' b'" "fresh_tally (nodes b i) rf'" for b b' i rf'
    using that sure_step.vote[of 3 "?s0\<lparr>base := b\<rparr>" i rf' b'] sure_reach.step by fastforce
  have v0: "\<exists>g. sure_reach 3 (?s0\<lparr>base := ?b0\<rparr>) g {}" using sure_reach.init[of 3] by (auto simp flip: base)
  have v1: "vote_step 3 ?b0 0 s0_candidate ?b1"
    using vote_step.timeout[of 0 3 ?b0 s0_candidate run_vote0] run_a1 by (simp add: n0 run_vote0_def)
  have v2: "vote_step 3 ?b1 1 s1_voter ?b2"
    using vote_step.deliver[of ?b1 0 0 1 run_vote0 s1_voter "\<lparr>rvr_Term = 1, Voted = True\<rparr>" out1 3] granted
    by (simp add: n0 run_vote0_def keeps_term_def s1_voter_def del: Make_simps)
  have v3: "vote_step 3 ?b2 0 s0_voted ?b3"
    using vote_step.reply[of ?b2 0 0 1 "\<lparr>rvr_Term = 1, Voted = True\<rparr>" s0_voted 3] run_a2 by simp
  have v4: "vote_step 3 ?b3 0 s0_leader ?b4"
    using vote_step.count[where i = 0 and n = 3 and s = ?b3 and k = 0 and rf' = s0_leader] run_a3
    by (simp add: fresh_win_def s0_voted_def s0_candidate_def numeral_3_eq_3)
  have v5: "vote_step 3 ?b4 0 s0_ready ?b5"
    using vote_step.lead[where i = 0 and n = 3 and s = ?b4 and k = 0 and rf' = s0_ready] run_init by simp
  have f: "fresh_tally rf s0_candidate" "fresh_tally rf s1_voter" "fresh_tally rf s0_voted" "fresh_tally rf s0_leader" "fresh_tally rf s0_ready" for rf
    by (rule uncounted; simp add: s0_candidate_def s1_voter_def s0_voted_def s0_leader_def s0_ready_def)+
  obtain g where "sure_reach 3 (?s0\<lparr>base := ?b5\<rparr>) g {}"
    using vote[OF vote[OF vote[OF vote[OF vote[OF v0 v1 f(1)] v2 f(2)] v3 f(3)] v4 f(4)] v5 f(5)] by blast
  then have "stage (?s0\<lparr>base := ?b5\<rparr>) g {} s0_ready s1_voter" by (simp add: stage_def n0)
  then show ?thesis by blast
qed

lemma same_conditions: "logs a' = logs a \<Longrightarrow> lastApplied a' = lastApplied a \<Longrightarrow> fresh_entries a a' \<and> own_commit a a'"
  by (simp add: fresh_entries_def own_commit_def)

lemma two_of_three: "(0, t, k) \<in> held g \<Longrightarrow> (1, t, k) \<in> held g \<Longrightarrow> chosen 3 g t k"
  unfolding chosen_def majority_def by (intro exI[of _ "{0, 1}"]) simp

text \<open>The entry is replicated.\<close>

lemma run_replicate: "\<exists>s g as. stage s g as s0_sent s1_waiting \<and> chosen 3 g 1 1 \<and> (1, run_append, run_ack) \<in> as"
proof -
  let ?a1 = "s0_ready\<lparr>logidx := 1, jobsChnl := [run_job]\<rparr>"
  obtain s0 g0 as where r0: "stage s0 g0 as s0_ready s1_voter" using run_elect by blast
  have "fresh_entries s0_ready ?a1 \<and> own_commit s0_ready ?a1" by (rule same_conditions) simp_all
  then obtain s1 g1 where r1: "stage s1 g1 as ?a1 s1_voter"
    using stage_own0[OF r0 run_start] by auto
  have "matchIndex s0_appended = matchIndex ?a1" "fresh_entries ?a1 s0_appended" "own_commit ?a1 s0_appended"
    by (simp_all add: fresh_entries_def own_commit_def s0_states)
  from stage_own0[OF r1 step_append this] obtain s2 g2 where r2: "stage s2 g2 as s0_appended s1_voter" and h2: "(0, 1, 1) \<in> held g2"
    by (auto simp: has_def s0_states)
  have "own_step s1_voter [] [] s1_ready" by (rule own_step.reset) (simp add: hb_reset_def s1_voter_def s1_ready_def)
  from stage_own1[OF r2 this] same_conditions[of s1_ready s1_voter]
  obtain s3 g3 where r3: "stage s3 g3 as s0_appended s1_ready" and h3: "held g2 \<subseteq> held g3" by (auto simp: s1_ready_def)
  let ?a4 = "s0_appended\<lparr>rdyChnl := [[], [run_append], [run_announce, run_append]]\<rparr>"
  have "own_step s0_appended [] [(1, run_announce)] ?a4"
    by (rule run_send) (simp_all add: s0_states)
  from stage_own0[OF r3 this] same_conditions[of ?a4 s0_appended]
  obtain s4 g4 where r4: "stage s4 g4 as ?a4 s1_ready" and h4: "held g3 \<subseteq> held g4" by auto
  have "own_step ?a4 [] [(1, run_append)] (?a4\<lparr>rdyChnl := [[], [], [run_announce, run_append]]\<rparr>)"
    by (rule run_send) (simp_all add: s0_states)
  then have "own_step ?a4 [] [(1, run_append)] s0_sent" by (simp add: s0_sent_def)
  from stage_own0[OF r4 this] same_conditions[of s0_sent ?a4]
  obtain g5 where r5: "stage (post [(1, run_append)] (put 0 s0_sent s4)) g5 as s0_sent s1_ready" and h5: "held g4 \<subseteq> held g5"
    by (auto simp: s0_sent_def)
  obtain out where b: "HeartBeat run_append zero_append_reply s1_ready = Inr (s1_appended, run_ack, out)" using step_hear by blast
  have "\<not> hb_conflict run_append s1_ready" by (simp add: hb_conflict_def s1_states)
  from stage_hear[OF r5 _ b this] obtain s6 g6 where r6: "stage s6 g6 (insert (1, run_append, run_ack) as) s0_sent s1_appended"
    and h6: "held g5 \<subseteq> held g6" "(1, 1, 1) \<in> held g6"
    by (auto simp: has_def s1_states)
  have "own_step s1_appended [] [] s1_waiting"
    by (rule own_step.reset) (simp add: hb_reset_def s1_states)
  from stage_own1[OF r6 this] same_conditions[of s1_waiting s1_appended]
  obtain s7 g7 where "stage s7 g7 (insert (1, run_append, run_ack) as) s0_sent s1_waiting" "held g6 \<subseteq> held g7" by (auto simp: s1_waiting_def)
  moreover from this have "chosen 3 g7 1 1" using h2 h3 h4 h5 h6 by (intro two_of_three) blast+
  ultimately show ?thesis by blast
qed

text \<open>The acknowledgement is counted, the entry committed, and the other server told.\<close>

lemma run_acked: "\<exists>s g as. stage s g as s0_acked s1_waiting \<and> chosen 3 g 1 1"
proof -
  obtain s g as where r: "stage s g as s0_sent s1_waiting" "chosen 3 g 1 1" "(1, run_append, run_ack) \<in> as" using run_replicate by blast
  obtain out where a: "peer_reply 1 run_append run_ack s0_sent = Inr (s0_acked, out)" using step_ack by blast
  have "prompt 1 run_append run_ack s0_sent" by (simp add: prompt_def msg_end_def s0_states)
  from stage_answer[OF r(1,3) a this] r(2) show ?thesis unfolding chosen_def by blast
qed

text \<open>It is committed, and applied by both.\<close>

lemma run_commits: "\<exists>s g as a. stage s g as a s1_applied \<and> chosen 3 g 1 1 \<and> lastApplied a = 1 \<and> logs a = [zero_log, run_job]"
proof -
  have held: "chosen 3 g' 1 1" if "chosen 3 g 1 1" "held g \<subseteq> held g'" for g g' using that unfolding chosen_def by blast
  obtain s1 g1 as where r1: "stage s1 g1 as s0_acked s1_waiting" and c1: "chosen 3 g1 1 1" using run_acked by blast
  obtain out where st: "own_step s0_acked out [] s0_committed" using step_commit own_step.commit by blast
  have "matchIndex s0_committed = matchIndex s0_acked" "fresh_entries s0_acked s0_committed" "own_commit s0_acked s0_committed"
    by (simp_all add: fresh_entries_def own_commit_def s0_states)
  from stage_own0[OF r1 st this] held[OF c1] obtain s2 g2 where r2: "stage s2 g2 as s0_committed s1_waiting" and c2: "chosen 3 g2 1 1" by blast
  from stage_own0[OF r2 own_step.reset[OF step_tick(1)]] same_conditions[of s0_beating s0_committed] held[OF c2]
  obtain s3 g3 where r3: "stage s3 g3 as s0_beating s1_waiting" and c3: "chosen 3 g3 1 1" by (auto simp: s0_beating_def)
  from stage_own0[OF r3 own_step.tick[OF step_tick(2)]] same_conditions[of s0_told s0_beating] held[OF c3]
  obtain s4 g4 where r4: "stage s4 g4 as s0_told s1_waiting" and c4: "chosen 3 g4 1 1" by (auto simp: s0_told_def)
  let ?a = "s0_told\<lparr>rdyChnl := [[], [], [run_announce, run_append]]\<rparr>"
  have "own_step s0_told [] [(1, run_commit)] ?a"
    by (rule own_step.send[where fits = False]) (simp add: peer_send_def s0_states step_defs)
  from stage_own0[OF r4 this] same_conditions[of ?a s0_told] held[OF c4]
  obtain g5 where r5: "stage (post [(1, run_commit)] (put 0 ?a s4)) g5 as ?a s1_waiting" and c5: "chosen 3 g5 1 1" by auto
  obtain r out where b: "HeartBeat run_commit zero_append_reply s1_waiting = Inr (s1_applied, r, out)" using step_apply by blast
  have "\<not> hb_conflict run_commit s1_waiting" by (simp add: hb_conflict_def s1_states)
  from stage_hear[OF r5 _ b this] held[OF c5]
  obtain s6 g6 as' where "stage s6 g6 as' ?a s1_applied" "chosen 3 g6 1 1" by auto
  moreover have "lastApplied ?a = 1" "logs ?a = [zero_log, run_job]" by (simp_all add: s0_states)
  ultimately show ?thesis by blast
qed

text \<open>Server 1 takes over.\<close>

lemma safe_vote:
  assumes "sure_reach n s g as" "vote_step n (base s) i rf' b" "fresh_tally (node s i) rf'"
  shows "\<exists>g'. sure_reach n (s\<lparr>base := b\<rparr>) g' as \<and> held g \<subseteq> held g' \<and> cands g \<subseteq> cands g'"
  using sure_reach.step[OF assms(1) sure_step.vote[OF assms(2,3), of g as]]
  by (intro exI[of _ "noted i [] s (s\<lparr>base := b\<rparr>) g"]) (auto simp: noted_def)

lemma run_free: "\<exists>s g as a. stage s g as a (s1_free\<lparr>rpcChnl := []\<rparr>) \<and> chosen 3 g 1 1 \<and> lastApplied a = 1 \<and> logs a = [zero_log, run_job]"
proof -
  obtain s0 g0 as a where r0: "stage s0 g0 as a s1_applied" and c0: "chosen 3 g0 1 1" and a: "lastApplied a = 1" "logs a = [zero_log, run_job]"
    using run_commits by blast
  have step: "\<exists>s' g'. stage s' g' as a b' \<and> chosen 3 g' 1 1"
    if "stage s g as a b" "chosen 3 g 1 1" "own_step b [] [] b'" "logs b' = logs b" "lastApplied b' = lastApplied b"
      "matchIndex b' = matchIndex b" for s g b b'
    using stage_own1[OF that(1,3,6)] same_conditions[OF that(4,5)] that(2) unfolding chosen_def by blast
  obtain s1 g1 where "stage s1 g1 as a s1_free" "chosen 3 g1 1 1"
    using step[OF r0 c0 own_step.reset[OF step_drain(1)]] by (auto simp: s1_free_def)
  from step[OF this own_step.drain[OF step_drain(2)]] obtain s2 g2
    where "stage s2 g2 as a (s1_free\<lparr>rpcChnl := [OK, OK]\<rparr>)" "chosen 3 g2 1 1" by auto
  from step[OF this own_step.drain[OF step_drain(3)]] obtain s3 g3
    where "stage s3 g3 as a (s1_free\<lparr>rpcChnl := [OK]\<rparr>)" "chosen 3 g3 1 1" by auto
  from step[OF this own_step.drain[OF step_drain(4)]] a show ?thesis by auto
qed

lemma safe_run: "\<exists>s g as. sure_reach 3 s g as \<and> chosen 3 g 1 1 \<and> elected (base s) 1 2 \<and> (1, 2, [zero_log, run_job]) \<in> cands g
  \<and> lastApplied (node s 0) = 1 \<and> logs (node s 0) = [zero_log, run_job]
  \<and> lastApplied (node s 1) = 1 \<and> logs (node s 1) = [zero_log, run_job]"
proof -
  let ?b = "s1_free\<lparr>rpcChnl := []\<rparr>"
  obtain s g as a where r0: "stage s g as a ?b" and ch: "chosen 3 g 1 1" and a: "lastApplied a = 1" "logs a = [zero_log, run_job]"
    using run_free by blast
  obtain c out where c: "RequestVote run_vote1 zero_vote_reply (Make 3 2 MakePersister) = Inr (c, \<lparr>rvr_Term = 2, Voted = True\<rparr>, out)"
    "\<not> isLeader c" using step_grant by blast
  obtain d where d: "tracker_recv 0 s1_polled = Inr d" "elections d =
    [\<lparr>el_term = 2, el_lastLog = run_job, el_commitIdx = 1, votes = 1, votingChnl = [], phase = Announced\<rparr>]"
    "lastApplied d = 1" "logs d = [zero_log, run_job]" "commitTracker d = Map.empty" "commitIdxChnl d = []" using step_win by blast
  have reach: "sure_reach 3 s g as" and n0: "nodes (base s) 0 = a" "nodes (base s) 1 = ?b" "nodes (base s) 2 = Make 3 2 MakePersister"
    using r0 by (auto simp: stage_def)
  let ?b1 = "add_grant 1 2 1 (send_calls 3 1 0 run_vote1 (set_node 1 s1_candidate (base s)))"
  let ?b2 = "add_grant 2 2 1 (set_call 1 0 2 (Answered \<lparr>rvr_Term = 2, Voted = True\<rparr>) (set_node 2 c ?b1))"
  let ?b3 = "set_call 1 0 2 (Done True) (set_node 1 s1_polled ?b2)" and ?s1 = "s\<lparr>base := ?b1\<rparr>"
  let ?b4 = "set_node 1 d ?b3" and ?g1 = "noted 1 [] s ?s1 g"
  have els: "elections ?b = []" "logs ?b = [zero_log, run_job]" "currentTerm ?b = 1" by (simp_all add: s1_free_def s1_states)
  have v1: "vote_step 3 (base s) 1 s1_candidate ?b1"
    using vote_step.timeout[of 1 3 "base s" s1_candidate run_vote1] step_stand els by (simp add: n0 run_vote1_def del: One_nat_def)
  have v2: "vote_step 3 ?b1 2 c ?b2"
    using vote_step.deliver[of ?b1 1 0 2 run_vote1 c "\<lparr>rvr_Term = 2, Voted = True\<rparr>" out 3] c
    by (simp add: n0 run_vote1_def keeps_term_def del: Make_simps One_nat_def)
  have v3: "vote_step 3 ?b2 1 s1_polled ?b3"
    using vote_step.reply[of ?b2 1 0 2 "\<lparr>rvr_Term = 2, Voted = True\<rparr>" s1_polled 3] step_poll by (simp del: One_nat_def)
  have v4: "vote_step 3 ?b3 1 d ?b4"
    using vote_step.count[where i = 1 and n = 3 and s = ?b3 and k = 0 and rf' = d] d
    by (simp add: fresh_win_def s1_polled_def s1_candidate_def s1_free_def s1_states step_defs del: One_nat_def)
  have f: "fresh_tally rf s1_candidate" "fresh_tally rf c" "fresh_tally rf s1_polled" for rf
    using c(2) by (auto intro!: unled simp: s1_polled_def s1_candidate_def s1_free_def s1_states)
  have f4: "fresh_tally s1_polled d" using d(5,6) by (rule uncounted)
  have reach1: "sure_reach 3 ?s1 ?g1 as" using sure_reach.step[OF reach sure_step.vote[OF v1 f(1)]] .
  have cand: "(1, 2, [zero_log, run_job]) \<in> cands ?g1"
    using cands_started[of ?s1 1 s] els by (simp add: n0 s1_candidate_def s1_free_def s1_states del: One_nat_def)
  obtain g2 where g2: "sure_reach 3 (s\<lparr>base := ?b2\<rparr>) g2 as" "held ?g1 \<subseteq> held g2" "cands ?g1 \<subseteq> cands g2"
    using safe_vote[OF reach1, of 2 c ?b2] v2 f(2) by auto
  obtain g3 where g3: "sure_reach 3 (s\<lparr>base := ?b3\<rparr>) g3 as" "held g2 \<subseteq> held g3" "cands g2 \<subseteq> cands g3"
    using safe_vote[OF g2(1), of 1 s1_polled ?b3] v3 f(3) by auto
  obtain g4 where g4: "sure_reach 3 (s\<lparr>base := ?b4\<rparr>) g4 as" "held g3 \<subseteq> held g4" "cands g3 \<subseteq> cands g4"
    using safe_vote[OF g3(1), of 1 d ?b4] v4 f4 by auto
  have "held g \<subseteq> held ?g1" by (auto simp: noted_def)
  then have "chosen 3 g4 1 1" using ch g2(2) g3(2) g4(2) unfolding chosen_def by blast
  moreover have "(1, 2, [zero_log, run_job]) \<in> cands g4" using cand g2(3) g3(3) g4(3) by blast
  moreover have "elected ?b4 1 2" by (simp add: elected_def d(2) has_won_def)
  ultimately show ?thesis using g4(1) a d(3,4) by (intro exI[of _ "s\<lparr>base := ?b4\<rparr>"] exI[of _ g4] exI[of _ as]) (simp add: n0 del: One_nat_def)
qed


section \<open>A commit\<close>

text \<open>C28: What a leader commits is on a majority, in every run of \<open>CountedRuns\<close>: when its commit
  goroutine raises \<open>lastApplied\<close>, to an entry of its current term, there is a majority of servers
  that have all had that entry in their log, in that term; and it hands over the entries from the
  last one applied up to it, in order.\<close>
theorem committed_on_majority:
  assumes "n < 2147483648" "sure_reach n s g as" "i < n"
    and "commit_step (node s i) = Inr (rf', out)" "own_commit (node s i) rf'"
    and "lastApplied (node s i) < lastApplied rf'"
  shows "(\<exists>Q. majority n Q \<and> (\<forall>v \<in> Q. (v, currentTerm (node s i), nat (lastApplied rf')) \<in> held g))
    \<and> applied out = map apply_msg_of (drop (nat (lastApplied (node s i) + 1)) (take (nat (lastApplied rf' + 1)) (logs (node s i))))"
proof -
  have net: "net_inv n s" using safe_reach_inv[OF sure_reach_safe[OF assms(2)] assms(1)] .
  have node: "node_inv (node s i)" using net_invD(5)[OF net assms(3)] .
  have logs: "logs rf' = logs (node s i)" using assms(4) by (auto simp: commit_step_def Let_def go_bind_def split: sum.splits if_splits)
  have "sound_commit n g (node s i) rf'"
    by (rule commit_step_chosen[OF assms(1) net assms(3) count_invD(2)[OF sure_reach_count[OF assms(2,1)] assms(3)] assms(4,5)])
  then show ?thesis
    using assms(5,6) logs own_applies[OF own_step.commit[OF assms(4)] node]
    by (auto simp: sound_commit_def own_commit_def chosen_def hands_log_def)
qed

theorem committed_on_majority_witness:
  "\<exists>s g as out Q. sure_reach 3 s g as \<and> commit_step (node s 0) = Inr (s0_committed, out)
    \<and> majority 3 Q \<and> (\<forall>v \<in> Q. (v, 1, 1) \<in> held g) \<and> applied out = [apply_msg_of run_job]"
proof -
  obtain s g as where r: "stage s g as s0_acked s1_waiting" using run_acked by blast
  obtain out where c: "commit_step s0_acked = Inr (s0_committed, out)" using step_commit by blast
  have v: "currentTerm s0_acked = 1" "lastApplied s0_acked = 0" "lastApplied s0_committed = 1" "logs s0_acked = [zero_log, run_job]"
    "own_commit s0_acked s0_committed" by (simp_all add: own_commit_def s0_states)
  have n: "sure_reach 3 s g as" "node s 0 = s0_acked" using r by (simp_all add: stage_def)
  have "(\<exists>Q. majority 3 Q \<and> (\<forall>v \<in> Q. (v, 1, 1) \<in> held g)) \<and> applied out = [apply_msg_of run_job]"
    using committed_on_majority[OF _ n(1), of 0 s0_committed out] c v by (simp add: n(2))
  then show ?thesis using n c by (metis (no_types))
qed

end
