(* ===== verification/LeaderCompleteness.thy ===== *)
theory LeaderCompleteness
  imports SafeRun
begin

text \<open>
  Leader completeness: the leaders of later terms have every chosen entry. The argument goes
  over the votes: whoever held an entry and later voted for a candidate either compared its log
  with the candidate's while it had the entry, or had lost it to the leader of a term in
  between (\<open>blame\<close>), which then was elected without the entry.
\<close>

section \<open>Requests for votes\<close>

text \<open>A request carries the last entry of the log that the election was started with.\<close>

definition calls_inv :: "network \<Rightarrow> audit \<Rightarrow> bool" where
  "calls_inv s g \<longleftrightarrow> (\<forall>c k v args. calls (base s) c k v = Sent args \<longrightarrow>
     (\<exists>L. (c, rv_Term args, L) \<in> cands g \<and> last L = Log args))"

text \<open>The votes a step gives.\<close>

definition votes_given :: "nat \<Rightarrow> network \<Rightarrow> network \<Rightarrow> audit \<Rightarrow> bool" where
  "votes_given n s s' g' \<longleftrightarrow> grants (base s) \<subseteq> grants (base s')
     \<and> (\<forall>v t c. (v, t, c) \<in> grants (base s') - grants (base s) \<longrightarrow> cur s' v = t \<and> c < n
          \<and> (\<exists>L. (c, t, L) \<in> cands g' \<and> (c = v \<and> L = lg s v \<and> cur s v < t
               \<or> cur s v \<le> t \<and> log_up_to_date (last L) (lg s v))))"

lemma calls_step:
  assumes n: "n < 2147483648" and inv: "net_inv n s" and st: "vote_step n (base s) i rf' b" and c: "calls_inv s g"
  defines "s' \<equiv> s\<lparr>base := b\<rparr>"
  shows "calls_inv s' (noted i [] s s' g) \<and> votes_given n s s' (noted i [] s s' g)"
proof -
  have cinv: "cluster_inv n (base s)" by (rule reachable_inv[OF net_invD(1)[OF inv] n])
  have rf': "node s' i = rf'" and i: "i < n" using vote_acts[OF n inv st] by (auto simp: acts_def s'_def)
  have ne: "lg s i \<noteq> []" using net_invD(5)[OF inv i] log_wfD(1) by (auto simp: node_inv_def)
  have old: "cands g \<subseteq> cands (noted i [] s s' g)" by (auto simp: noted_def)
  have kept: "calls_inv s' (noted i [] s s' g)"
    if "\<And>c k v args. calls b c k v = Sent args \<Longrightarrow> calls (base s) c k v = Sent args"
    using c old that unfolding calls_inv_def s'_def by (auto, blast)
  from st show ?thesis
  proof (cases rule: vote_step.cases)
    case (timeout args)
    have t0: "0 \<le> cur s i" using cluster_invD(1)[OF cinv i] by (simp add: node_ok_def)
    note e = election_timeout_effect[OF timeout(4,3) t0]
    have l: "Log args = last (lg s i)" using timeout(4) ne by (auto simp: election_timeout_def Let_def split: if_splits)
    have same: "lg s' i = lg s i" using vote_same_log[OF st] rf' by (simp add: same_log_def)
    have new: "(i, rv_Term args, lg s i) \<in> cands (noted i [] s s' g)"
      using cands_started[of s' i s _ "[]" g] e(9,7) rf' same by simp
    have "calls_inv s' (noted i [] s s' g)"
      using c old new l unfolding calls_inv_def s'_def timeout(1) by (auto split: if_splits, blast+)
    moreover have "votes_given n s s' (noted i [] s s' g)"
      using new e(5,7) i rf' unfolding votes_given_def s'_def timeout(1) by auto
    ultimately show ?thesis ..
  next
    case (deliver d k args reply out)
    have d: "d < n" "ID args = int d" using cluster_invD(4)[OF cinv, of d k i] deliver(2) by (auto simp: call_ok_def Let_def)
    obtain L where L: "(d, rv_Term args, L) \<in> cands g" "last L = Log args" using c deliver(2) unfolding calls_inv_def by blast
    have gr: "rv_grants args (node s i)" if "Voted reply"
      using that deliver(3) ne by (auto simp: RequestVote_def Let_def rv_grants_def rv_eligible_def up_to_date_alt split: if_splits)
    have "votes_given n s s' (noted i [] s s' g)"
    proof (cases "Voted reply")
      case True
      then show ?thesis
        using gr L old d RequestVote_effect(6)[OF deliver(3)] rf'
        unfolding votes_given_def s'_def deliver(1) by (auto simp: rv_grants_def rv_eligible_def)
    next
      case False
      then show ?thesis unfolding votes_given_def s'_def deliver(1) by auto
    qed
    moreover have "calls_inv s' (noted i [] s s' g)" using deliver(1) by (intro kept) (auto split: if_splits)
    ultimately show ?thesis by simp
  next
    case (reply k v r)
    have "calls_inv s' (noted i [] s s' g)" using reply(1) by (intro kept) (auto split: if_splits)
    then show ?thesis unfolding votes_given_def s'_def reply(1) by simp
  qed (use kept in \<open>auto simp: votes_given_def s'_def\<close>)
qed

lemma quiet_calls:
  assumes "calls (base s') = calls (base s)" "grants (base s') = grants (base s)" "calls_inv s g" "cands g \<subseteq> cands g'"
  shows "calls_inv s' g' \<and> votes_given n s s' g'"
proof
  show "calls_inv s' g'" using assms(1,3,4) unfolding calls_inv_def by (metis subsetD)
  show "votes_given n s s' g'" using assms(2) by (simp add: votes_given_def)
qed

lemma safe_votes:
  assumes "safe_step n s g s' g'" "n < 2147483648" "net_inv n s" "calls_inv s g"
  shows "calls_inv s' g' \<and> votes_given n s s' g'"
  using assms
proof (induction rule: safe_step.induct)
  case (vote s i rf' b g)
  then show ?case using calls_step[OF vote(2,3,1,4)] by simp
next
  case (heartbeat i args s rf' reply out g)
  then show ?case by (intro quiet_calls) (auto simp: noted_def)
next
  case (own i s out ms rf' g)
  then show ?case by (intro quiet_calls) (auto simp: noted_def)
qed

section \<open>Entries that are held, and lost\<close>

definition blame :: "nat \<Rightarrow> network \<Rightarrow> audit \<Rightarrow> int32 \<Rightarrow> nat \<Rightarrow> int32 \<Rightarrow> bool" where
  "blame n s g t k T \<longleftrightarrow> (\<exists>u c L. t < u \<and> u \<le> T \<and> c < n \<and> elected (base s) c u \<and> (c, u, L) \<in> cands g \<and> \<not> has t k L)"

definition held_inv :: "nat \<Rightarrow> network \<Rightarrow> audit \<Rightarrow> bool" where
  "held_inv n s g \<longleftrightarrow> (\<forall>(v, t, k) \<in> held g. v < n \<and> 0 \<le> t \<and> t \<le> cur s v \<and> (\<exists>L \<in> hist s. has t k L)
     \<and> (has t k (lg s v) \<or> blame n s g t k (cur s v)))"

lemma held_invD:
  assumes "held_inv n s g" "(v, t, k) \<in> held g"
  shows "v < n" "0 \<le> t" "t \<le> cur s v" "\<exists>L \<in> hist s. has t k L" "has t k (lg s v) \<or> blame n s g t k (cur s v)"
  using assms by (auto simp: held_inv_def)

lemma blame_mono: "blame n s g t k T \<Longrightarrow> grows s g s' g' \<Longrightarrow> T \<le> T' \<Longrightarrow> blame n s' g' t k T'"
  unfolding blame_def grows_def by (meson order_trans subsetD)

text \<open>An entry that a server loses when it hears of a leader is of an earlier term than the leader's, and
  the leader was elected without it.\<close>

lemma lost_entry:
  assumes n: "n < 2147483648" and net: "net_inv n s" and inv: "audit_inv n s g" and i: "i < n"
    and P: "P \<in> hist s" "window P args" "lead_log n s g (ae_Term args) P"
    and run: "HeartBeat args zero_append_reply (node s i) = Inr (rf', reply, out)"
    and cut: "honest_cut (hist s) args (node s i) rf'" and le: "t \<le> ae_Term args"
    and k: "has t k (lg s i)" "\<not> has t k (logs rf')"
  shows "t < ae_Term args \<and> (\<exists>c EL. c < n \<and> elected (base s) c (ae_Term args) \<and> (c, ae_Term args, EL) \<in> cands g \<and> \<not> has t k EL)"
proof -
  have L: "lg s i \<in> hist s" and wf: "log_wf P" "matches (lg s i) P"
    using net_invD(2)[OF net] i P(1) by (auto simp: logs_ok_def)
  obtain q where q: "q \<le> k" "q < length P" "P ! q \<noteq> lg s i ! q"
    using HeartBeat_loses[OF net_invD(5)[OF net i] wf(1) P(2,1) cut run k] by blast
  have ql: "q < length (lg s i)" using q(1) has_length[OF k(1)] by simp
  note a = audit_invD[OF inv]
  obtain c EL where lead: "c < n" "elected (base s) c (ae_Term args)" "(c, ae_Term args, EL) \<in> cands g" "starts_with P EL"
    and new: "\<forall>v \<in> set (drop (length EL) P). Term v = ae_Term args" using P(3) by (auto simp: lead_log_def)
  have differs: "\<not> (has u j (lg s i) \<and> has u j P \<and> q \<le> j)" for u j
    using matches_upto[OF wf(2), of u j] take_nth_same[of "Suc j" "lg s i" P q] q ql by auto
  have "t \<noteq> ae_Term args"
  proof
    assume t: "t = ae_Term args"
    have "0 < t" using cands_invD(3)[OF a(2) lead(3)] t by simp
    then obtain d EL' where "d < n" "elected (base s) d t" "(d, t, EL') \<in> cands g" "starts_with (lg s i) EL'"
      using logs_invD(3)[OF a(1) L _ k(1)] by (auto simp: rooted_def)
    moreover from this have "d = c" using elected_unique[OF n net_invD(1)[OF net] _ lead(1) _ lead(2)] t by simp
    ultimately have st: "starts_with (lg s i) EL" using cands_invD(6)[OF a(2) lead(3)] t by simp
    have "\<not> q < length EL" using starts_with_nth[OF st] starts_with_nth[OF lead(4)] q(3) by auto
    then have "P ! q \<in> set (drop (length EL) P)" using after_start[OF lead(4) q(2)] by simp
    then have hq: "has t q P" using new q(2) t by (simp add: has_def)
    then have "has t q (lg s i)" using fullD[OF logs_invD(2)[OF a(1) L] P(1) _ k(1) q(1)] by blast
    with hq show False using differs by blast
  qed
  moreover have "\<not> has t k EL" using differs[of t k] k(1) q(1) starts_with_has[OF lead(4)] by blast
  ultimately show ?thesis using le lead by (metis order_le_imp_less_or_eq)
qed

lemma log_terms: "audit_inv n s g \<Longrightarrow> i < n \<Longrightarrow> has t k (lg s i) \<Longrightarrow> t \<le> cur s i"
  using audit_invD(4)[of n s g i] by (auto simp: leads_inv_def has_def)

text \<open>So whatever step a server takes, an entry is lost only to such a leader.\<close>

lemma step_loses:
  assumes n: "n < 2147483648" and net: "net_inv n s" and inv: "audit_inv n s g" and act: "acts n s i s'"
    and kind: "works s i s' \<or> starts s i s' \<or> wins n s i s' \<or> hears s i out s'"
    and k: "has t k (lg s i)" "\<not> has t k (lg s' i)"
  shows "blame n s g t k (cur s' i)"
proof -
  have i: "i < n" using act by (simp add: acts_def)
  have h: "hears s i out s'" using kind k by (auto simp: works_def starts_def wins_def has_appendI)
  from net act h wire_invD[OF audit_invD(3)[OF inv]] obtain args P reply d where P: "P \<in> hist s" "window P args"
      "lead_log n s g (ae_Term args) P" True "matches (lg s i) P" "log_wf P"
    and run: "HeartBeat args zero_append_reply (node s i) = Inr (node s' i, reply, out)"
    and cut: "honest_cut (hist s) args (node s i) (node s' i)"
    and "d < n" "d \<noteq> i" "elected (base s) d (ae_Term args)" and "(i, args) \<in> net s"
    and "net s' = net s" "vote_frame (node s i) (node s' i)"
    and eff: "ae_Term args < cur s i \<and> lg s' i = lg s i \<and> isLeader (node s' i) = isLeader (node s i) \<and> cur s' i = cur s i
     \<or> cur s i \<le> ae_Term args \<and> \<not> isLeader (node s' i) \<and> cur s' i = ae_Term args
         \<and> (\<exists>c. lg s' i = take c (lg s i) \<or> lg s' i = take c P)"
    by (rule hears_effect)
  from eff k have e: "cur s i \<le> ae_Term args" "cur s' i = ae_Term args" by auto
  then have "t \<le> ae_Term args" using log_terms[OF inv i k(1)] by simp
  from lost_entry[OF n net inv i P(1-3) run cut this k] show ?thesis unfolding blame_def e(2) by blast
qed

lemma acts_cur: "acts n s i s' \<Longrightarrow> cur s v \<le> cur s' v"
  by (cases "v = i") (auto simp: acts_def)

lemma held_step:
  assumes n: "n < 2147483648" and net: "net_inv n s" and inv: "audit_inv n s g" and act: "acts n s i s'"
    and kind: "works s i s' \<or> starts s i s' \<or> wins n s i s' \<or> hears s i out s'"
    and held: "held_inv n s g" and g': "g' = noted i out s s' g"
  shows "held_inv n s' g'"
proof -
  have i: "i < n" and h: "hist s' = insert (lg s' i) (hist s)" using act by (auto simp: acts_def)
  have gr: "grows s g s' g'" using acts_grows[OF act] g' by simp
  have "v < n \<and> 0 \<le> t \<and> t \<le> cur s' v \<and> (\<exists>L \<in> hist s'. has t k L) \<and> (has t k (lg s' v) \<or> blame n s' g' t k (cur s' v))"
    if "(v, t, k) \<in> held g'" for v t k
  proof (cases "(v, t, k) \<in> held g")
    case True
    note d = held_invD[OF held True]
    have "has t k (lg s' v) \<or> blame n s' g' t k (cur s' v)"
      using d(5)
    proof
      assume "blame n s g t k (cur s v)"
      then show ?thesis using blame_mono[OF _ gr acts_cur[OF act]] by blast
    next
      assume k: "has t k (lg s v)"
      show ?thesis
      proof (cases "v = i")
        case True
        then show ?thesis using step_loses[OF n net inv act kind, of t k] k blame_mono[OF _ gr order_refl] by blast
      next
        case False
        then show ?thesis using k act by (simp add: acts_def)
      qed
    qed
    then show ?thesis using d(1-4) acts_cur[OF act, of v] h by auto
  next
    case False
    then have "v = i" "t = cur s' i" "has t k (lg s' i)" using that g' by (auto simp: noted_def)
    moreover have "0 \<le> cur s i" using cluster_invD(1)[OF reachable_inv[OF net_invD(1)[OF net] n] i] by (simp add: node_ok_def)
    ultimately show ?thesis using i h acts_cur[OF act, of i] by auto
  qed
  then show ?thesis unfolding held_inv_def by blast
qed

section \<open>What the voters knew\<close>

text \<open>Of a vote given in term \<open>u\<close> to \<open>c\<close>, who had not won yet, by a server that had held the entry of term \<open>t\<close>
  at \<open>k\<close>.\<close>

definition told :: "nat \<Rightarrow> network \<Rightarrow> audit \<Rightarrow> int32 \<Rightarrow> nat \<Rightarrow> int32 \<Rightarrow> nat \<Rightarrow> bool" where
  "told n s g u c t k \<longleftrightarrow> (\<exists>L. (c, u, L) \<in> cands g \<and> (has t k L \<or> t < Term (last L))) \<or> blame n s g t k (u - 1)
     \<or> (\<exists>d < n. d \<noteq> c \<and> elected (base s) d u)"

definition early_inv :: "nat \<Rightarrow> network \<Rightarrow> audit \<Rightarrow> bool" where
  "early_inv n s g \<longleftrightarrow> early g \<subseteq> grants (base s)
     \<and> (\<forall>v t c. (v, t, c) \<in> grants (base s) \<longrightarrow> elected (base s) c t \<or> (v, t, c) \<in> early g)
     \<and> (\<forall>v u c t k. (v, u, c) \<in> early g \<longrightarrow> (v, t, k) \<in> held g \<longrightarrow> t < u \<longrightarrow> told n s g u c t k)
     \<and> (\<forall>c < n. \<forall>t. elected (base s) c t \<longrightarrow> (\<exists>Q. majority n Q \<and> (\<forall>v \<in> Q. (v, t, c) \<in> early g)))"

lemma early_invD:
  assumes "early_inv n s g"
  shows "(v, t, c) \<in> early g \<Longrightarrow> (v, t, c) \<in> grants (base s)"
    "(v, t, c) \<in> grants (base s) \<Longrightarrow> elected (base s) c t \<or> (v, t, c) \<in> early g"
    "(v, u, c) \<in> early g \<Longrightarrow> (v, t, k) \<in> held g \<Longrightarrow> t < u \<Longrightarrow> told n s g u c t k"
    "c < n \<Longrightarrow> elected (base s) c t \<Longrightarrow> \<exists>Q. majority n Q \<and> (\<forall>v \<in> Q. (v, t, c) \<in> early g)"
  using assms unfolding early_inv_def by blast+

lemma early_invI:
  assumes "\<And>v t c. (v, t, c) \<in> early g \<Longrightarrow> (v, t, c) \<in> grants (base s)"
    "\<And>v t c. (v, t, c) \<in> grants (base s) \<Longrightarrow> elected (base s) c t \<or> (v, t, c) \<in> early g"
    "\<And>v u c t k. (v, u, c) \<in> early g \<Longrightarrow> (v, t, k) \<in> held g \<Longrightarrow> t < u \<Longrightarrow> told n s g u c t k"
    "\<And>c t. c < n \<Longrightarrow> elected (base s) c t \<Longrightarrow> \<exists>Q. majority n Q \<and> (\<forall>v \<in> Q. (v, t, c) \<in> early g)"
  shows "early_inv n s g"
  using assms unfolding early_inv_def by auto

lemma told_mono: "told n s g u c t k \<Longrightarrow> grows s g s' g' \<Longrightarrow> told n s' g' u c t k"
  unfolding told_def using blame_mono[OF _ _ order_refl] unfolding grows_def by (metis subsetD)

text \<open>A log that is as up to date as one that has the entry has it too, or ends in a later term.\<close>

lemma up_to_date_has:
  assumes inv: "logs_inv n s g" and L: "L \<in> hist s" "log_wf L" and M: "M \<in> hist s" "log_wf M"
    and up: "log_up_to_date (last L) M" and k: "has t k M"
  shows "has t k L \<or> t < Term (last L)"
proof -
  have ne: "L \<noteq> []" "M \<noteq> []" using L(2) M(2) log_wfD(1) by auto
  have kM: "k \<le> length M - 1" "Term (M ! k) = t" using k by (auto simp: has_def)
  then have "t \<le> Term (last M)"
    using sorted_nth_mono[OF logs_invD(1)[OF inv M(1)] kM(1)] ne(2) has_length[OF k] by (simp add: last_conv_nth)
  moreover have "has t k L" if "t = Term (last L)" "Index (last M) \<le> Index (last L)"
  proof -
    have "has t (length L - 1) L" using that(1) ne(1) by (simp add: has_def last_conv_nth)
    moreover have "k \<le> length L - 1"
      using kM(1) that(2) last_end[OF L(2)] last_end[OF M(2)] by linarith
    ultimately show ?thesis using fullD[OF logs_invD(2)[OF inv L(1)] M(1) k] by blast
  qed
  ultimately show ?thesis using up unfolding up_to_date_alt by linarith
qed

lemma vote_told:
  assumes n: "n < 2147483648" and net: "net_inv n s" "net_inv n s'" and inv: "audit_inv n s' g'" and held: "held_inv n s g"
    and gr: "grows s g s' g'" "hist s \<subseteq> hist s'" and vg: "votes_given n s s' g'"
    and v: "(v, u, c) \<in> grants (base s')" "(v, u, c) \<notin> grants (base s)" "\<not> elected (base s) c u"
    and k: "(v, t, k) \<in> held g" "t < u"
  shows "told n s' g' u c t k"
proof -
  obtain L where L: "(c, u, L) \<in> cands g'"
    and how: "c = v \<and> L = lg s v \<and> cur s v < u \<or> cur s v \<le> u \<and> log_up_to_date (last L) (lg s v)"
    using vg v(1,2) unfolding votes_given_def by blast
  note a = audit_invD[OF inv]
  have v: "v < n" by (rule held_invD(1)[OF held k(1)])
  have cur: "cur s v \<le> u" using how by auto
  show ?thesis using held_invD(5)[OF held k(1)]
  proof
    assume "blame n s g t k (cur s v)"
    then obtain w d M where w: "t < w" "w \<le> cur s v" "d < n" "elected (base s) d w" "(d, w, M) \<in> cands g" "\<not> has t k M"
      by (auto simp: blame_def)
    show ?thesis
    proof (cases "w = u")
      case True
      then have "d \<noteq> c" "elected (base s') d u" using w(4) \<open>\<not> elected (base s) c u\<close> gr(1) by (auto simp: grows_def)
      then show ?thesis using w(3) by (auto simp: told_def)
    next
      case False
      then have "blame n s g t k (u - 1)" using w cur unfolding blame_def by (intro exI[of _ w]) auto
      then show ?thesis using blame_mono[OF _ gr(1) order_refl] by (simp add: told_def)
    qed
  next
    assume has: "has t k (lg s v)"
    have "has t k L \<or> t < Term (last L)"
      using how
    proof
      assume "cur s v \<le> u \<and> log_up_to_date (last L) (lg s v)"
      moreover have "lg s v \<in> hist s'" "L \<in> hist s'" using net_invD(2)[OF net(1)] v gr(2) cands_invD(2)[OF a(2) L] by (auto simp: logs_ok_def)
      moreover from this have "log_wf (lg s v)" "log_wf L" using net_invD(2)[OF net(2)] by (auto simp: logs_ok_def)
      ultimately show ?thesis using up_to_date_has[OF a(1)] has by blast
    qed (use has in simp)
    then show ?thesis using L by (auto simp: told_def)
  qed
qed

lemma early_step:
  assumes n: "n < 2147483648" and net: "net_inv n s" "net_inv n s'" and inv: "audit_inv n s' g'" and act: "acts n s i s'"
    and held: "held_inv n s g" and vg: "votes_given n s s' g'" and early: "early_inv n s g" and g': "g' = noted i out s s' g"
  shows "early_inv n s' g'"
proof -
  have gr: "grows s g s' g'" "hist s \<subseteq> hist s'" using acts_grows[OF act] act g' by (auto simp: acts_def)
  have grants: "grants (base s) \<subseteq> grants (base s')" using vg by (simp add: votes_given_def)
  have e': "early g' = early g \<union> {(v, t, c). (v, t, c) \<in> grants (base s') \<and> \<not> elected (base s) c t}"
    and h': "held g' = held g \<union> {(i, cur s' i, k) |k. has (cur s' i) k (lg s' i)}" by (simp_all add: g' noted_def)
  have won: "elected (base s) c t \<Longrightarrow> elected (base s') c t" for c t using gr(1) by (simp add: grows_def)
  have "(v, t, c) \<in> grants (base s')" if "(v, t, c) \<in> early g'" for v t c
    using that e' grants early_invD(1)[OF early] by blast
  note sub = this
  moreover have "elected (base s') c t \<or> (v, t, c) \<in> early g'" if "(v, t, c) \<in> grants (base s')" for v t c
    using that e' won by auto
  moreover have "told n s' g' u c t k" if "(v, u, c) \<in> early g'" "(v, t, k) \<in> held g'" "t < u" for v u c t k
  proof -
    have cinv: "cluster_inv n (base s')" by (rule reachable_inv[OF net_invD(1)[OF net(2)] n])
    have "u \<le> cur s' v" using cluster_invD(2)[OF cinv sub[OF that(1)]] by (simp add: grant_ok_def)
    then have k: "(v, t, k) \<in> held g" using that(2,3) h' by auto
    show ?thesis
    proof (cases "(v, u, c) \<in> early g")
      case True
      then show ?thesis using early_invD(3)[OF early True k that(3)] told_mono[OF _ gr(1)] by blast
    next
      case False
      then have v: "(v, u, c) \<in> grants (base s')" "\<not> elected (base s) c u" using that(1) e' by auto
      then have "(v, u, c) \<notin> grants (base s)" using early_invD(2)[OF early] False by blast
      then show ?thesis using vote_told[OF n net inv held gr vg v(1) _ v(2) k that(3)] by blast
    qed
  qed
  moreover have "\<exists>Q. majority n Q \<and> (\<forall>v \<in> Q. (v, t, c) \<in> early g')" if c: "c < n" "elected (base s') c t" for c t
  proof (cases "elected (base s) c t")
    case True
    then show ?thesis using early_invD(4)[OF early c(1)] e' by blast
  next
    case False
    obtain Q where "majority n Q" "\<And>v. v \<in> Q \<Longrightarrow> ballot n (base s') v t c"
      using elected_majority[OF n net_invD(1)[OF net(2)] c] by blast
    then show ?thesis using False unfolding e' ballot_def by blast
  qed
  ultimately show ?thesis by (rule early_invI)
qed

section \<open>Leader completeness\<close>

definition complete_inv :: "nat \<Rightarrow> network \<Rightarrow> audit \<Rightarrow> bool" where
  "complete_inv n s g \<longleftrightarrow> calls_inv s g \<and> held_inv n s g \<and> early_inv n s g"

lemma complete_step:
  assumes "safe_step n s g s' g'" "n < 2147483648" "net_inv n s" "audit_inv n s g" "complete_inv n s g"
  shows "complete_inv n s' g'"
proof -
  from assms(1-3) obtain i out where act: "acts n s i s'" and g': "g' = noted i out s s' g"
    and kind: "works s i s' \<and> passes s i out s' \<or> starts s i s' \<and> rests s i out s'
      \<or> wins n s i s' \<and> rests s i out s' \<or> hears s i out s'" by (rule safe_kinds)
  have c: "calls_inv s g" "held_inv n s g" "early_inv n s g" using assms(5) by (auto simp: complete_inv_def)
  have net: "net_inv n s'" using net_step_inv[OF safe_step_net[OF assms(1)] assms(2,3)] .
  note v = safe_votes[OF assms(1-3) c(1)]
  have "held_inv n s' g'" using held_step[OF assms(2,3,4) act _ c(2) g'] kind by blast
  moreover have "early_inv n s' g'"
    using early_step[OF assms(2,3) net audit_step_inv[OF assms(1-4)] act c(2) conjunct2[OF v] c(3) g'] .
  ultimately show ?thesis using v by (simp add: complete_inv_def)
qed

lemma complete_init: "complete_inv n (init_network n) init_audit"
  by (auto simp: complete_inv_def calls_inv_def held_inv_def early_inv_def init_network_def init_audit_def init_cluster_def
      elected_def)

lemma safe_reach_complete: "safe_reach n s g \<Longrightarrow> n < 2147483648 \<Longrightarrow> complete_inv n s g"
proof (induction rule: safe_reach.induct)
  case init
  show ?case by (rule complete_init)
next
  case (step s g s' g')
  then show ?case using complete_step safe_reach_inv safe_reach_audit by blast
qed

lemma chosen_kept:
  assumes n: "n < 2147483648" and net: "net_inv n s" and inv: "audit_inv n s g" and cinv: "complete_inv n s g"
    and ch: "chosen n g t k" and c: "c < n" "elected (base s) c u" "(c, u, L) \<in> cands g" "t < u"
  shows "has t k L"
  using c
proof (induction "nat u" arbitrary: u c L rule: less_induct)
  case less
  note a = audit_invD[OF inv]
  have ci: "held_inv n s g" "early_inv n s g" using cinv by (auto simp: complete_inv_def)
  have L: "L \<in> hist s" "log_wf L" using cands_invD(2)[OF a(2) less(4)] net_invD(2)[OF net] by (auto simp: logs_ok_def)
  obtain Q where Q: "majority n Q" "\<And>v. v \<in> Q \<Longrightarrow> (v, t, k) \<in> held g" using ch by (auto simp: chosen_def)
  obtain R where R: "majority n R" "\<And>v. v \<in> R \<Longrightarrow> (v, u, c) \<in> early g" using early_invD(4)[OF ci(2) less(2,3)] by blast
  obtain v where v: "v \<in> Q" "v \<in> R" using majority.meet[OF Q(1) R(1)] by blast
  have t0: "0 \<le> t" by (rule held_invD(2)[OF ci(1) Q(2)[OF v(1)]])
  have IH: "has t k M" if "d < n" "elected (base s) d w" "(d, w, M) \<in> cands g" "t < w" "w < u" for d w M
    using less(1)[of w d M] that t0 by simp
  have "told n s g u c t k" using early_invD(3)[OF ci(2) R(2)[OF v(2)] Q(2)[OF v(1)] less(5)] .
  then consider (log) M where "(c, u, M) \<in> cands g" "has t k M \<or> t < Term (last M)"
    | (blame) "blame n s g t k (u - 1)" | (other) d where "d < n" "d \<noteq> c" "elected (base s) d u" by (auto simp: told_def)
  then show ?case
  proof cases
    case other
    then show ?thesis using elected_unique[OF n net_invD(1)[OF net] other(1) less(2) other(3) less(3)] by simp
  next
    case blame
    then obtain w d M where "t < w" "w \<le> u - 1" "d < n" "elected (base s) d w" "(d, w, M) \<in> cands g" "\<not> has t k M"
      unfolding blame_def by blast
    then show ?thesis using IH[of d w M] by simp
  next
    case log
    have "M = L" using cands_invD(6)[OF a(2) less(4) log(1)] .
    with log(2) consider "has t k L" | "t < Term (last L)" by blast
    then show ?thesis
    proof cases
      case 2
      let ?w = "Term (last L)"
      have ne: "L \<noteq> []" using log_wfD(1)[OF L(2)] .
      have w: "?w < u" using cands_invD(5)[OF a(2) less(4)] ne by simp
      have "has ?w (length L - 1) L" using ne by (simp add: has_def last_conv_nth)
      then have "rooted n s g ?w L" using logs_invD(3)[OF a(1) L(1), of ?w] t0 2 by simp
      then obtain d E where "d < n" "elected (base s) d ?w" "(d, ?w, E) \<in> cands g" "starts_with L E"
        unfolding rooted_def by blast
      then show ?thesis using IH[of d ?w E] 2 w starts_with_has by blast
    qed
  qed
qed

text \<open>C4: Leader completeness: an entry that a majority of the servers has held while their current term
  was the entry's is in the log that every server elected in a later term started its election
  with. For every run of the network without restarts in which a leader that refuses a candidate
  of a newer term ends its leadership (\<open>keeps_term\<close>), an election is announced in its own term and
  to empty channels (\<open>fresh_win\<close>), the dispatcher runs on a queue that continues the log
  (\<open>jobs_sync\<close>) and appends commands of a leader's current term (\<open>fresh_entries\<close>), and a follower
  that finds a conflict keeps what it shares with the sender (\<open>honest_cut\<close>). Nothing is assumed
  about what is committed, nor about answers to AppendEntries.\<close>
theorem leader_completeness:
  assumes "n < 2147483648" "safe_reach n s g" "chosen n g t k" "c < n" "elected (base s) c u" "t < u"
    "(c, u, L) \<in> cands g"
  shows "has t k L"
  by (rule chosen_kept[OF assms(1) safe_reach_inv[OF assms(2,1)] safe_reach_audit[OF assms(2,1)]
      safe_reach_complete[OF assms(2,1)] assms(3,4,5,7,6)])

theorem leader_completeness_witness:
  "\<exists>s g L. safe_reach 3 s g \<and> elected (base s) 1 2 \<and> (1, 2, L) \<in> cands g \<and> has 1 1 L"
proof -
  obtain s g where r: "safe_reach 3 s g" "chosen 3 g 1 1" "elected (base s) 1 2" "(1, 2, [zero_log, run_job]) \<in> cands g"
    using safe_run sure_reach_safe by blast
  have n: "(3::nat) < 2147483648" "(1::nat) < 3" "(1::int32) < 2" by simp_all
  from leader_completeness[OF n(1) r(1,2) n(2) r(3) n(3) r(4)] r show ?thesis by blast
qed

end
