(* ===== verification/StateSafety.thy ===== *)
theory StateSafety
  imports LeaderCompleteness "HOL-Library.Sublist"
begin

text \<open>
  State machine safety: what two servers hand to their services are the same commands, as far as
  both have got. A position of a log is \<open>covered\<close> when the log has a chosen entry at or behind
  it; what a server has applied is covered, and so is the commit index that a message carries,
  in the part of the leader's log that the message vouches for (\<open>msg_end\<close>).
\<close>

section \<open>Covered positions\<close>

definition covered :: "nat \<Rightarrow> audit \<Rightarrow> raft_log list \<Rightarrow> int32 \<Rightarrow> bool" where
  "covered n g L a \<longleftrightarrow> a \<le> 0 \<or> (\<exists>t k. chosen n g t k \<and> a \<le> int k \<and> has t k L)"

lemma covered_le: "covered n g L a \<Longrightarrow> b \<le> a \<Longrightarrow> covered n g L b"
  unfolding covered_def by fastforce

lemma covered_grows: "covered n g L a \<Longrightarrow> grows s g s' g' \<Longrightarrow> covered n g' L a"
  unfolding covered_def using grows_chosen by blast

lemma covered_append: "covered n g L a \<Longrightarrow> covered n g (L @ M) a"
  unfolding covered_def using has_appendI by blast

lemma covered_take: "covered n g (take c L) a \<Longrightarrow> covered n g L a"
  unfolding covered_def by auto

lemma covered_take_append: "covered n g (take c L) a \<Longrightarrow> covered n g (take c (L @ M)) a"
  unfolding covered_def by (auto simp: has_appendI simp del: take_append) (metis has_appendI)

text \<open>Logs with a covered position agree up to it.\<close>

lemma chosen_positive: "held_inv n s g \<Longrightarrow> chosen n g t k \<Longrightarrow> 0 \<le> t"
proof -
  assume h: "held_inv n s g" and c: "chosen n g t k"
  then obtain Q where Q: "majority n Q" "\<forall>v \<in> Q. (v, t, k) \<in> held g" by (auto simp: chosen_def)
  then show "0 \<le> t" using majority.nonempty[OF Q(1)] held_invD(2)[OF h] by blast
qed

lemma chosen_in_log:
  assumes n: "n < 2147483648" and net: "net_inv n s" and inv: "audit_inv n s g" and cinv: "complete_inv n s g"
    and t: "chosen n g t k" and L: "L \<in> hist s" and u: "has u j L" "t < u"
  shows "has t k L"
proof -
  have "held_inv n s g" using cinv by (simp add: complete_inv_def)
  from chosen_positive[OF this t] have "0 \<le> t" .
  then obtain c EL where "c < n" "elected (base s) c u" "(c, u, EL) \<in> cands g" "starts_with L EL"
    using logs_invD(3)[OF audit_invD(1)[OF inv] L _ u(1)] u(2) by (auto simp: rooted_def)
  then show ?thesis using chosen_kept[OF n net inv cinv t] u(2) starts_with_has by blast
qed

lemma covered_agree:
  assumes n: "n < 2147483648" and net: "net_inv n s" and inv: "audit_inv n s g" and cinv: "complete_inv n s g"
    and L: "L \<in> hist s" "covered n g L a" and M: "M \<in> hist s" "covered n g M b" and a: "0 < a" "a \<le> b"
  shows "take (Suc (nat a)) L = take (Suc (nat a)) M"
proof -
  obtain t k where t: "chosen n g t k" "a \<le> int k" "has t k L" using L(2) a by (auto simp: covered_def)
  obtain u j where u: "chosen n g u j" "b \<le> int j" "has u j M" using M(2) a by (auto simp: covered_def)
  note a1 = audit_invD(1)[OF inv]
  have "\<exists>w q. has w q L \<and> has w q M \<and> a \<le> int q"
  proof (cases t u rule: linorder_cases)
    case less
    then have "has t k M" using chosen_in_log[OF n net inv cinv t(1) M(1) u(3)] by simp
    then show ?thesis using t by blast
  next
    case greater
    then have "has u j L" using chosen_in_log[OF n net inv cinv u(1) L(1) t(3)] by simp
    then show ?thesis using u a(2) by force
  next
    case equal
    show ?thesis
    proof (cases "k \<le> j")
      case True
      then have "has t k M" using fullD[OF logs_invD(2)[OF a1 M(1)] L(1) t(3), of j] u(3) equal by simp
      then show ?thesis using t by blast
    next
      case False
      then have "has u j L" using fullD[OF logs_invD(2)[OF a1 L(1)] M(1) u(3), of k] t(3) equal by simp
      then show ?thesis using u a(2) by force
    qed
  qed
  then obtain w q where q: "has w q L" "has w q M" "a \<le> int q" by blast
  have "matches L M" using net_invD(2)[OF net] L(1) M(1) by (simp add: logs_ok_def)
  from matches_upto[OF this q(1,2)] have "take (Suc (nat a)) (take (Suc q) L) = take (Suc (nat a)) (take (Suc q) M)" by simp
  moreover have "nat a \<le> q" using q(3) by simp
  ultimately show ?thesis by simp
qed

text \<open>What is covered stays so.\<close>

lemma covered_stays:
  assumes n: "n < 2147483648" and net: "net_inv n s" "net_inv n s'" and inv: "audit_inv n s g"
    and cinv: "complete_inv n s g" and act: "acts n s i s'" and kind: "works s i s' \<or> starts s i s' \<or> wins n s i s' \<or> hears s i out s'" and c: "covered n g (lg s i) a"
  shows "covered n g (lg s' i) a \<and> (0 < a \<longrightarrow> take (Suc (nat a)) (lg s' i) = take (Suc (nat a)) (lg s i))"
proof (cases "a \<le> 0")
  case True
  then show ?thesis by (simp add: covered_def)
next
  case False
  then obtain t k where t: "chosen n g t k" "a \<le> int k" "has t k (lg s i)" using c by (auto simp: covered_def)
  have "\<not> blame n s g t k T" for T
    unfolding blame_def using chosen_kept[OF n net(1) inv cinv t(1)] by blast
  then have h: "has t k (lg s' i)" using step_loses[OF n net(1) inv act kind t(3)] by blast
  have "i < n" "lg s i \<in> hist s'" using act net_invD(2)[OF net(1)] by (auto simp: acts_def logs_ok_def)
  then have "matches (lg s' i) (lg s i)" using net_invD(2)[OF net(2)] by (auto simp: logs_ok_def)
  from matches_upto[OF this h t(3)]
  have "take (Suc (nat a)) (take (Suc k) (lg s' i)) = take (Suc (nat a)) (take (Suc k) (lg s i))" by simp
  moreover have "nat a \<le> k" using t(2) by simp
  moreover have "covered n g (lg s' i) a" using h t by (auto simp: covered_def)
  ultimately show ?thesis by simp
qed

section \<open>The invariant\<close>

definition server_inv :: "nat \<Rightarrow> network \<Rightarrow> audit \<Rightarrow> nat \<Rightarrow> bool" where
  "server_inv n s g i \<longleftrightarrow> lastApplied (node s i) < int (length (lg s i)) \<and> covered n g (lg s i) (lastApplied (node s i))
     \<and> (\<forall>e \<in> set (elections (node s i)). el_commitIdx e \<le> lastApplied (node s i))
     \<and> (isLeader (node s i) \<longrightarrow> (\<forall>m \<in> queue (node s i). covered n g (take (msg_end m) (lg s i)) (LeaderCommitIdx m)))
     \<and> streams g i = map apply_msg_of (drop 1 (take (nat (lastApplied (node s i) + 1)) (lg s i)))"

definition carried :: "nat \<Rightarrow> audit \<Rightarrow> append_entries_args \<Rightarrow> raft_log list \<Rightarrow> bool" where
  "carried n g m P \<longleftrightarrow> covered n g (take (msg_end m) P) (LeaderCommitIdx m)"

definition carried_inv :: "nat \<Rightarrow> network \<Rightarrow> audit \<Rightarrow> bool" where
  "carried_inv n s g \<longleftrightarrow> (\<forall>d m. (d, m) \<in> net s \<longrightarrow>
     (\<exists>P \<in> hist s. window P m \<and> lead_log n s g (ae_Term m) P \<and> carried n g m P))"

definition safety_inv :: "nat \<Rightarrow> network \<Rightarrow> audit \<Rightarrow> bool" where
  "safety_inv n s g \<longleftrightarrow> (\<forall>i < n. server_inv n s g i) \<and> carried_inv n s g"

lemma server_invD:
  assumes "server_inv n s g i"
  shows "lastApplied (node s i) < int (length (lg s i))" "covered n g (lg s i) (lastApplied (node s i))"
    "e \<in> set (elections (node s i)) \<Longrightarrow> el_commitIdx e \<le> lastApplied (node s i)"
    "isLeader (node s i) \<Longrightarrow> m \<in> queue (node s i) \<Longrightarrow> covered n g (take (msg_end m) (lg s i)) (LeaderCommitIdx m)"
    "streams g i = map apply_msg_of (drop 1 (take (nat (lastApplied (node s i) + 1)) (lg s i)))"
  using assms by (auto simp: server_inv_def)

lemma carried_inv_grow:
  assumes "carried_inv n s g" "hist s \<subseteq> hist s'" "grows s g s' g'"
    and "\<And>d m. (d, m) \<in> net s' \<Longrightarrow> (d, m) \<notin> net s \<Longrightarrow> \<exists>P \<in> hist s. window P m \<and> lead_log n s g (ae_Term m) P \<and> carried n g m P"
  shows "carried_inv n s' g'"
proof -
  have "\<exists>P \<in> hist s. window P m \<and> lead_log n s g (ae_Term m) P \<and> carried n g m P" if "(d, m) \<in> net s'" for d m
    using that assms(1,4) unfolding carried_inv_def by blast
  then show ?thesis
    using assms(2) grows_lead_log[OF assms(3)] covered_grows[OF _ assms(3)] unfolding carried_inv_def carried_def by blast
qed

text \<open>The stream follows the log.\<close>

lemma stream_step:
  assumes "hands_log rf out rf'" "0 \<le> lastApplied rf"
    "0 < lastApplied rf \<longrightarrow> take (Suc (nat (lastApplied rf))) (logs rf') = take (Suc (nat (lastApplied rf))) (logs rf)"
  shows "map apply_msg_of (drop 1 (take (nat (lastApplied rf + 1)) (logs rf))) @ applied out =
    map apply_msg_of (drop 1 (take (nat (lastApplied rf' + 1)) (logs rf')))"
proof -
  let ?a = "nat (lastApplied rf + 1)" and ?b = "nat (lastApplied rf' + 1)"
  have ab: "1 \<le> ?a" "?a \<le> ?b" using assms(1,2) by (auto simp: hands_log_def)
  have "drop 1 (take ?a (logs rf)) = drop 1 (take ?a (logs rf'))"
  proof (cases "lastApplied rf = 0")
    case False
    then have "take ?a (logs rf) = take ?a (logs rf')" using assms(2,3) by (simp add: Suc_nat_eq_nat_zadd1 add.commute)
    then show ?thesis by simp
  qed simp
  moreover have "drop 1 (take ?a L) @ drop ?a (take ?b L) = drop 1 (take ?b L)" for L :: "raft_log list"
  proof -
    have "take ?b L = take ?a L @ drop ?a (take ?b L)"
      using ab(2) by (metis append_take_drop_id min.absorb1 take_take)
    moreover have "drop 1 (take ?a L @ drop ?a (take ?b L)) = drop 1 (take ?a L) @ drop ?a (take ?b L)"
      using ab(1) by (cases "L = []") (simp_all add: drop_append Suc_leI)
    ultimately show ?thesis by simp
  qed
  ultimately show ?thesis using assms(1) by (simp add: hands_log_def flip: map_append)
qed

text \<open>The log and the stream of the server that acts.\<close>

lemma applied_step:
  assumes n: "n < 2147483648" and net: "net_inv n s" "net_inv n s'" and inv: "audit_inv n s g" and cinv: "complete_inv n s g"
    and act: "acts n s i s'" and kind: "works s i s' \<or> starts s i s' \<or> wins n s i s' \<or> hears s i out s'"
    and old: "server_inv n s g i" and g': "g' = noted i out s s' g" and hands: "hands_log (node s i) out (node s' i)"
    and new: "lastApplied (node s i) < lastApplied (node s' i) \<Longrightarrow> covered n g (lg s' i) (lastApplied (node s' i))"
  shows "lastApplied (node s' i) < int (length (lg s' i)) \<and> covered n g' (lg s' i) (lastApplied (node s' i))
    \<and> streams g' i = map apply_msg_of (drop 1 (take (nat (lastApplied (node s' i) + 1)) (lg s' i)))"
proof -
  let ?a = "lastApplied (node s i)" and ?b = "lastApplied (node s' i)"
  have i: "i < n" using act by (simp add: acts_def)
  have a0: "0 \<le> ?a" and wf: "lg s' i \<noteq> []"
    using net_invD(5)[OF net(1) i] net_invD(5)[OF net(2) i] log_wfD(1) by (auto simp: node_inv_def)
  note o = server_invD[OF old]
  note st = covered_stays[OF n net inv cinv act kind o(2)]
  have gr: "grows s g s' g'" using acts_grows[OF act] g' by simp
  have le: "?a \<le> ?b" using hands by (simp add: hands_log_def)
  have "?b < int (length (lg s' i))"
  proof (cases "?a < ?b")
    case True
    then show ?thesis using hands by (simp add: hands_log_def)
  next
    case False
    show ?thesis
    proof (cases "?a = 0")
      case True
      then show ?thesis using False le wf by simp
    next
      case False
      then have "take (Suc (nat ?a)) (lg s' i) = take (Suc (nat ?a)) (lg s i)" using st a0 by simp
      then have "length (take (Suc (nat ?a)) (lg s' i)) = length (take (Suc (nat ?a)) (lg s i))" by simp
      then show ?thesis using o(1) a0 \<open>\<not> ?a < ?b\<close> le by (simp add: min_def split: if_splits)
    qed
  qed
  moreover have "covered n g' (lg s' i) ?b"
    using new st le covered_grows[OF _ gr] by (cases "?a < ?b") auto
  moreover have "streams g' i = streams g i @ applied out" by (simp add: g' noted_def)
  ultimately show ?thesis using stream_step[OF hands a0] st o(5) by simp
qed

text \<open>The four kinds of steps.\<close>

lemma works_server:
  assumes n: "n < 2147483648" and net: "net_inv n s" "net_inv n s'" and inv: "audit_inv n s g" and cinv: "complete_inv n s g"
    and act: "acts n s i s'" and k: "works s i s'" and p: "passes s i out s'" and old: "server_inv n s g i"
    and g': "g' = noted i out s s' g" and sound: "sound_commit n g (node s i) (node s' i)"
  shows "server_inv n s' g' i"
proof -
  let ?a = "lastApplied (node s i)" and ?b = "lastApplied (node s' i)"
  have gr: "grows s g s' g'" using acts_grows[OF act] g' by simp
  have p': "hands_log (node s i) out (node s' i)" "queues (node s i) (node s' i)"
    using p by (auto simp: passes_def)
  note o = server_invD[OF old]
  obtain new where lg: "lg s' i = lg s i @ new" using k by (auto simp: works_def)
  have le: "?a \<le> ?b" and a0: "0 \<le> ?a" using p'(1) net_invD(5)[OF net(1)] act by (auto simp: hands_log_def acts_def node_inv_def)
  have "covered n g (lg s' i) ?b" if "?a < ?b"
    using p'(1) sound that a0 unfolding covered_def sound_commit_def hands_log_def has_def
    by (intro disjI2 exI[of _ "Term (lg s' i ! nat ?b)"] exI[of _ "nat ?b"]) auto
  then have 1: "?b < int (length (lg s' i)) \<and> covered n g' (lg s' i) ?b
      \<and> streams g' i = map apply_msg_of (drop 1 (take (nat (?b + 1)) (lg s' i)))"
    using applied_step[OF n net inv cinv act _ old g' p'(1)] k by blast
  have 2: "el_commitIdx e' \<le> ?b" if e': "e' \<in> set (elections (node s' i))" for e'
  proof -
    obtain e where "e \<in> set (elections (node s i))" "el_commitIdx e' = el_commitIdx e"
      using k e' unfolding works_def kept_elections_def by blast
    then show ?thesis using o(3) le by fastforce
  qed
  have 3: "covered n g' (take (msg_end m) (lg s' i)) (LeaderCommitIdx m)" if l: "isLeader (node s' i)" and m: "m \<in> queue (node s' i)" for m
  proof (cases "m \<in> queue (node s i)")
    case True
    then have "covered n g (take (msg_end m) (lg s i)) (LeaderCommitIdx m)" using o(4) k l by (auto simp: works_def)
    then show ?thesis using covered_grows[OF covered_take_append gr] unfolding lg by blast
  next
    case False
    then have "msg_end m = length (lg s' i)" "LeaderCommitIdx m = ?a" using p'(2) m by (auto simp: queues_def)
    then show ?thesis using covered_grows[OF covered_append[OF o(2)] gr] by (simp add: lg del: take_append)
  qed
  show ?thesis using 1 2 3 unfolding server_inv_def by blast
qed

lemma starts_server:
  assumes n: "n < 2147483648" and net: "net_inv n s" "net_inv n s'" and inv: "audit_inv n s g" and cinv: "complete_inv n s g"
    and act: "acts n s i s'" and k: "starts s i s'" and r: "rests s i out s'" and old: "server_inv n s g i"
    and g': "g' = noted i out s s' g"
  shows "server_inv n s' g' i"
proof -
  have h: "hands_log (node s i) out (node s' i)" using r by (simp add: rests_def hands_nothing)
  have i: "i < n" using act by (simp add: acts_def)
  have 1: "lastApplied (node s' i) < int (length (lg s' i)) \<and> covered n g' (lg s' i) (lastApplied (node s' i))
      \<and> streams g' i = map apply_msg_of (drop 1 (take (nat (lastApplied (node s' i) + 1)) (lg s' i)))"
    using applied_step[OF n net inv cinv act _ old g' h] k r by (simp add: rests_def)
  have "commitIdx (node s i) = lastApplied (node s i)" using net_invD(5)[OF net(1) i] by (simp add: node_inv_def)
  then have "el_commitIdx e \<le> lastApplied (node s' i)" if "e \<in> set (elections (node s' i))" for e
    using that k r server_invD(3)[OF old, of e] unfolding starts_def rests_def by auto
  then show ?thesis using 1 k unfolding server_inv_def starts_def by blast
qed

lemma wins_server:
  assumes n: "n < 2147483648" and net: "net_inv n s" "net_inv n s'" and inv: "audit_inv n s g" and cinv: "complete_inv n s g"
    and act: "acts n s i s'" and k: "wins n s i s'" and r: "rests s i out s'" and old: "server_inv n s g i"
    and g': "g' = noted i out s s' g"
  shows "server_inv n s' g' i"
proof -
  have h: "hands_log (node s i) out (node s' i)" using r by (simp add: rests_def hands_nothing)
  have i: "i < n" using act by (simp add: acts_def)
  have gr: "grows s g s' g'" using acts_grows[OF act] g' by simp
  note o = server_invD[OF old]
  have la: "lastApplied (node s' i) = lastApplied (node s i)" using r by (simp add: rests_def)
  have 1: "lastApplied (node s' i) < int (length (lg s' i)) \<and> covered n g' (lg s' i) (lastApplied (node s' i))
      \<and> streams g' i = map apply_msg_of (drop 1 (take (nat (lastApplied (node s' i) + 1)) (lg s' i)))"
    using applied_step[OF n net inv cinv act _ old g' h] k la by simp
  obtain e where els: "kept_elections (node s i) (node s' i)" and lg: "lg s' i = lg s i"
    and nobody: "\<And>c. c < n \<Longrightarrow> \<not> elected (base s) c (cur s i)"
    and e: "e \<in> set (elections (node s i))" "phase e = Counting" "el_term e = cur s i"
    and q: "\<And>m. m \<in> queue (node s' i) \<Longrightarrow> PrevLog m = el_lastLog e \<and> Entries m = [] \<and> LeaderCommitIdx m = el_commitIdx e"
    using k by (auto simp: wins_def)
  have 2: "el_commitIdx d' \<le> lastApplied (node s' i)" if d': "d' \<in> set (elections (node s' i))" for d'
  proof -
    obtain d where "d \<in> set (elections (node s i))" "el_commitIdx d' = el_commitIdx d"
      using els d' unfolding kept_elections_def by blast
    then show ?thesis using o(3) la by simp
  qed
  have "(\<exists>L. (i, el_term e, L) \<in> cands g \<and> last L = el_lastLog e) \<and> (phase e = Counting \<and> el_term e = cur s i \<longrightarrow>
      (\<exists>c < n. c \<noteq> i \<and> elected (base s) c (el_term e)) \<or> (i, el_term e, lg s i) \<in> cands g)"
    using audit_invD(5)[OF inv i] e(1) unfolding stands_inv_def by (rule bspec)
  then have "(i, cur s i, lg s i) \<in> cands g" "\<exists>L. (i, cur s i, L) \<in> cands g \<and> last L = el_lastLog e"
    using e(2,3) nobody by auto
  then have last: "last (lg s i) = el_lastLog e" using cands_invD(6)[OF audit_invD(2)[OF inv]] by blast
  have wf: "log_wf (lg s i)" using net_invD(5)[OF net(1) i] by (simp add: node_inv_def)
  have 3: "covered n g' (take (msg_end m) (lg s' i)) (LeaderCommitIdx m)" if "m \<in> queue (node s' i)" for m
  proof -
    have "msg_end m = length (lg s' i)" using q[OF that] last_end[OF wf] last by (simp add: msg_end_def lg)
    moreover have "LeaderCommitIdx m \<le> lastApplied (node s i)" using q[OF that] o(3)[OF e(1)] by simp
    ultimately show ?thesis using covered_grows[OF covered_le[OF o(2)] gr] by (simp add: lg)
  qed
  show ?thesis using 1 2 3 unfolding server_inv_def by blast
qed

lemma hears_server:
  assumes n: "n < 2147483648" and net: "net_inv n s" "net_inv n s'" and inv: "audit_inv n s g" and cinv: "complete_inv n s g"
    and act: "acts n s i s'" and k: "hears s i out s'" and old: "server_inv n s g i" and carried: "carried_inv n s g"
    and g': "g' = noted i out s s' g"
  shows "server_inv n s' g' i \<and> net s' = net s"
proof -
  have i: "i < n" using act by (simp add: acts_def)
  have gr: "grows s g s' g'" using acts_grows[OF act] g' by simp
  note o = server_invD[OF old]
  have "\<And>d m. (d, m) \<in> net s \<Longrightarrow> \<exists>P \<in> hist s. window P m \<and> lead_log n s g (ae_Term m) P \<and> carried n g m P"
    using carried by (simp add: carried_inv_def)
  with net(1) act k obtain args P reply d where P: "P \<in> hist s" "window P args"
      "lead_log n s g (ae_Term args) P" "carried n g args P" "matches (lg s i) P" "log_wf P"
    and run: "HeartBeat args zero_append_reply (node s i) = Inr (node s' i, reply, out)"
    and cut: "honest_cut (hist s) args (node s i) (node s' i)"
    and "d < n" "d \<noteq> i" "elected (base s) d (ae_Term args)" and "(i, args) \<in> net s"
    and net': "net s' = net s" and fr: "vote_frame (node s i) (node s' i)"
    and eff: "ae_Term args < cur s i \<and> lg s' i = lg s i \<and> isLeader (node s' i) = isLeader (node s i) \<and> cur s' i = cur s i
     \<or> cur s i \<le> ae_Term args \<and> \<not> isLeader (node s' i) \<and> cur s' i = ae_Term args
         \<and> (\<exists>c. lg s' i = take c (lg s i) \<or> lg s' i = take c P)"
    by (rule hears_effect)
  note ap = HeartBeat_applies[OF net_invD(5)[OF net(1) i] P(6,2,5) run]
  have le: "lastApplied (node s i) \<le> lastApplied (node s' i)" using ap by (simp add: hands_log_def)
  have new: "covered n g (lg s' i) (lastApplied (node s' i))" if "lastApplied (node s i) < lastApplied (node s' i)"
  proof -
    have b: "lastApplied (node s' i) \<le> LeaderCommitIdx args" "take (msg_end args) (lg s' i) = take (msg_end args) P"
      using ap that by auto
    have "covered n g (take (msg_end args) (lg s' i)) (LeaderCommitIdx args)" using P(4) b(2) by (simp add: carried_def)
    then show ?thesis using covered_le[OF covered_take b(1)] by blast
  qed
  have 1: "lastApplied (node s' i) < int (length (lg s' i)) \<and> covered n g' (lg s' i) (lastApplied (node s' i))
      \<and> streams g' i = map apply_msg_of (drop 1 (take (nat (lastApplied (node s' i) + 1)) (lg s' i)))"
    using applied_step[OF n net inv cinv act _ old g' conjunct1[OF ap] new] k by blast
  have els: "elections (node s' i) = elections (node s i)" using fr by (simp add: vote_frame_def)
  have 2: "el_commitIdx e \<le> lastApplied (node s' i)" if "e \<in> set (elections (node s' i))" for e
    using that o(3)[of e] le els by simp
  have "rdyChnl (node s' i) = rdyChnl (node s i)"
    using HeartBeat_effect[OF net_invD(5)[OF net(1) i] P(6,2,5) run] by blast
  then have 3: "covered n g' (take (msg_end m) (lg s' i)) (LeaderCommitIdx m)"
    if "isLeader (node s' i)" "m \<in> queue (node s' i)" for m
    using that eff covered_grows[OF o(4) gr] by (auto simp: queue_def)
  then show ?thesis using 1 2 net' unfolding server_inv_def by blast
qed

lemma others_server:
  assumes "acts n s i s'" "j \<noteq> i" "server_inv n s g j" "g' = noted i out s s' g"
  shows "server_inv n s' g' j"
proof -
  have same: "node s' j = node s j" "streams g' j = streams g j" using assms(1,2,4) by (simp_all add: acts_def noted_def)
  have gr: "grows s g s' g'" using acts_grows[OF assms(1)] assms(4) by simp
  show ?thesis using assms(3) unfolding server_inv_def same by (auto intro: covered_grows[OF _ gr])
qed

lemma works_carried:
  assumes net: "net_inv n s" and inv: "audit_inv n s g" and act: "acts n s i s'" and k: "works s i s'" and p: "passes s i out s'"
    and old: "server_inv n s g i" and m: "(d, m) \<in> net s'" "(d, m) \<notin> net s"
  shows "\<exists>P \<in> hist s. window P m \<and> lead_log n s g (ae_Term m) P \<and> carried n g m P"
proof -
  have i: "i < n" using act by (simp add: acts_def)
  have L: "lg s i \<in> hist s" using net_invD(2)[OF net] i by (simp add: logs_ok_def)
  have lead: "isLeader (node s i)" "window (lg s i) m" "ae_Term m = cur s i" using k m unfolding works_def by blast+
  obtain a where a: "a \<in> queue (node s i)" "msg_end m = msg_end a" "LeaderCommitIdx m = LeaderCommitIdx a"
    using p m unfolding passes_def by blast
  have "carried n g m (lg s i)" using server_invD(4)[OF old lead(1) a(1)] a(2,3) by (simp add: carried_def)
  moreover have "lead_log n s g (ae_Term m) (lg s i)" using audit_invD(4)[OF inv i] lead(1,3) by (simp add: leads_inv_def)
  ultimately show ?thesis using L lead(2) by blast
qed

lemma safety_step:
  assumes "sure_step n s g as s' g' as'" "n < 2147483648" "net_inv n s" "audit_inv n s g" "complete_inv n s g" "safety_inv n s g"
    "count_inv n s g as"
  shows "safety_inv n s' g'"
proof -
  from assms(1-3,7) obtain i out where act: "acts n s i s'" and g': "g' = noted i out s s' g"
    and kind: "works s i s' \<and> passes s i out s' \<and> sound_commit n g (node s i) (node s' i) \<or> starts s i s' \<and> rests s i out s'
      \<or> wins n s i s' \<and> rests s i out s' \<or> hears s i out s'" by (rule sure_kinds)
  have net: "net_inv n s'" using net_step_inv[OF safe_step_net[OF sure_step_safe[OF assms(1)]] assms(2,3)] .
  have i: "i < n" and h: "hist s \<subseteq> hist s'" using act by (auto simp: acts_def)
  have old: "\<And>j. j < n \<Longrightarrow> server_inv n s g j" and car: "carried_inv n s g" using assms(6) by (auto simp: safety_inv_def)
  have gr: "grows s g s' g'" using acts_grows[OF act] g' by simp
  note a = assms(2,3) net assms(4,5) act
  have same: "carried_inv n s' g'" if "net s' = net s" using carried_inv_grow[OF car h gr] that by simp
  have "server_inv n s' g' i \<and> carried_inv n s' g'"
    using kind
  proof (elim disjE conjE)
    assume k: "works s i s'" "passes s i out s'" and sound: "sound_commit n g (node s i) (node s' i)"
    have "carried_inv n s' g'"
      by (rule carried_inv_grow[OF car h gr]) (rule works_carried[OF assms(3,4) act k old[OF i]])
    with works_server[OF a k old[OF i] g' sound] show ?thesis ..
  next
    assume k: "starts s i s'" "rests s i out s'"
    then have "net s' = net s" by (simp add: starts_def)
    with starts_server[OF a k old[OF i] g'] same show ?thesis by blast
  next
    assume k: "wins n s i s'" "rests s i out s'"
    then have "net s' = net s" by (simp add: wins_def)
    with wins_server[OF a k old[OF i] g'] same show ?thesis by blast
  next
    assume k: "hears s i out s'"
    show ?thesis using hears_server[OF a k old[OF i] car g'] same by blast
  qed
  moreover have "server_inv n s' g' j" if "j < n" "j \<noteq> i" for j
    using others_server[OF act that(2) old[OF that(1)] g'] .
  ultimately show ?thesis unfolding safety_inv_def by metis
qed

lemma safety_init: "safety_inv n (init_network n) init_audit"
proof -
  have nd: "node (init_network n) i = Make n (int i) MakePersister" for i
    by (simp only: init_network_def init_cluster_def network.simps cluster.simps)
  have "net (init_network n) = {}" by (simp add: init_network_def)
  then show ?thesis
    by (simp add: safety_inv_def server_inv_def carried_inv_def covered_def nd init_audit_def)
qed

lemma sure_reach_safety: "sure_reach n s g as \<Longrightarrow> n < 2147483648 \<Longrightarrow> safety_inv n s g"
proof (induction rule: sure_reach.induct)
  case init
  show ?case by (rule safety_init)
next
  case (step s g as s' g' as')
  note reach = sure_reach_safe[OF step(1)]
  show ?case
    using safety_step[OF step(2,4) safe_reach_inv[OF reach step(4)] safe_reach_audit[OF reach step(4)]
      safe_reach_complete[OF reach step(4)] step(3)[OF step(4)] sure_reach_count[OF step(1,4)]] .
qed

section \<open>Replicas\<close>

text \<open>What a replicated service relies on: of any two replicas, one has been handed a first part of what
  the other has. So one that is behind catches up by the commands it lacks, from the very state it
  is in.\<close>

locale replicas =
  fixes stream :: "'r \<Rightarrow> 'm list"
  assumes comparable: "prefix (stream r) (stream r') \<or> prefix (stream r') (stream r)"
begin

lemma behind: "length (stream r) \<le> length (stream r') \<Longrightarrow> prefix (stream r) (stream r')"
  using comparable[of r r'] by (auto simp: prefix_def)

lemma catch_up: "length (stream r) \<le> length (stream r') \<Longrightarrow> stream r' = stream r @ drop (length (stream r)) (stream r')"
  using behind by (metis append_eq_conv_conj prefix_def)

lemma same: "length (stream r) = length (stream r') \<Longrightarrow> stream r = stream r'"
  using behind[of r r'] by (auto simp: prefix_def)

lemma run_catches_up:
  "length (stream r) \<le> length (stream r') \<Longrightarrow>
   go_fold f (stream r') x = go_bind (go_fold f (stream r) x) (go_fold f (drop (length (stream r)) (stream r')))"
  by (metis catch_up go_fold_append)

end

section \<open>State machine safety\<close>

lemma streams_prefix:
  assumes n: "n < 2147483648" and reach: "sure_reach n s g as" and ij: "i < n" "j < n"
    and le: "lastApplied (node s i) \<le> lastApplied (node s j)"
  shows "prefix (streams g i) (streams g j)"
proof -
  let ?a = "lastApplied (node s i)" and ?b = "lastApplied (node s j)"
  note safe = sure_reach_safe[OF reach]
  note inv = safe_reach_inv[OF safe n] safe_reach_audit[OF safe n] safe_reach_complete[OF safe n]
  have S: "server_inv n s g i" "server_inv n s g j" using sure_reach_safety[OF reach n] ij by (auto simp: safety_inv_def)
  have L: "lg s i \<in> hist s" "lg s j \<in> hist s" using net_invD(2)[OF inv(1)] ij by (auto simp: logs_ok_def)
  have a0: "0 \<le> ?a" using net_invD(5)[OF inv(1) ij(1)] by (simp add: node_inv_def)
  have "drop 1 (take (nat (?a + 1)) (lg s i)) = drop 1 (take (nat (?a + 1)) (lg s j))"
  proof (cases "?a = 0")
    case False
    then have "take (Suc (nat ?a)) (lg s i) = take (Suc (nat ?a)) (lg s j)"
      using covered_agree[OF n inv L(1) server_invD(2)[OF S(1)] L(2) server_invD(2)[OF S(2)] _ le] a0 by simp
    then show ?thesis using a0 by (simp add: Suc_nat_eq_nat_zadd1 add.commute)
  qed simp
  moreover have "prefix (take (nat (?a + 1)) (lg s j)) (take (nat (?b + 1)) (lg s j))"
    using le by (metis add_mono_thms_linordered_semiring(3) min.absorb1 nat_mono take_is_prefix take_take)
  then have "prefix (drop 1 (take (nat (?a + 1)) (lg s j))) (drop 1 (take (nat (?b + 1)) (lg s j)))"
    by (elim prefixE) (metis drop_append prefixI)
  ultimately show ?thesis unfolding server_invD(5)[OF S(1)] server_invD(5)[OF S(2)] by (simp add: map_mono_prefix)
qed

lemma streams_comparable:
  assumes "n < 2147483648" "sure_reach n s g as" "i < n" "j < n"
  shows "prefix (streams g i) (streams g j) \<or> prefix (streams g j) (streams g i)"
  using streams_prefix[OF assms] streams_prefix[OF assms(1,2,4,3)] linear by blast

text \<open>C2: State machine safety: of any two servers one has handed its service a first part of what the
  other has, so no two servers hand over different commands at one index. For every run without
  restarts in which leaderships change as in C4 (a leader that refuses a candidate of a newer
  term steps down; an election is announced in its own term, to empty channels, with nothing
  counted yet for open indices), the dispatcher appends a leader's commands of its term that
  continue the log, a conflict is cut no further than where the logs part, and of the counting:
  a raise of \<open>matchIndex\<close> answers a message of the current term and reports its last entry, and a
  leader commits entries of its own term. That what is committed is on a majority is proved from
  \<open>HeartBeat\<close>, \<open>peer_reply\<close> and \<open>commit_step\<close>, not assumed.\<close>
theorem state_machine_safety:
  assumes "n < 2147483648" "sure_reach n s g as" "i < n" "j < n"
  shows "prefix (streams g i) (streams g j) \<or> prefix (streams g j) (streams g i)"
  by (rule streams_comparable[OF assms])

text \<open>The servers of a run are replicas.\<close>

definition handed :: "nat \<Rightarrow> network \<Rightarrow> audit \<Rightarrow> answer set \<Rightarrow> nat \<Rightarrow> apply_msg list" where
  "handed n s g as i = (if n < 2147483648 \<and> sure_reach n s g as \<and> i < n then streams g i else [])"

interpretation server: replicas "handed n s g as" for n s g as
proof
  show "prefix (handed n s g as r) (handed n s g as r') \<or> prefix (handed n s g as r') (handed n s g as r)" for r r'
    using streams_comparable[of n s g as r r'] by (auto simp: handed_def)
qed

lemma handed_streams: "n < 2147483648 \<Longrightarrow> sure_reach n s g as \<Longrightarrow> i < n \<Longrightarrow> handed n s g as i = streams g i"
  by (simp add: handed_def)

text \<open>What a server has handed over is its log up to \<open>lastApplied\<close>.\<close>

lemma streams_log:
  assumes "n < 2147483648" "sure_reach n s g as" "i < n"
  shows "streams g i = map apply_msg_of (drop 1 (take (nat (lastApplied (node s i) + 1)) (lg s i)))"
  using sure_reach_safety[OF assms(2,1)] assms(3) server_invD(5) by (auto simp: safety_inv_def)

text \<open>They are the entries of indices 1 to \<open>lastApplied\<close>.\<close>

lemma streams_indices:
  assumes "n < 2147483648" "sure_reach n s g as" "i < n"
  shows "map msg_Index (streams g i) = [1..lastApplied (node s i)]" "int (length (streams g i)) = lastApplied (node s i)"
proof -
  have inv: "log_wf (lg s i)" "0 \<le> lastApplied (node s i)"
    using net_invD(5)[OF safe_reach_inv[OF sure_reach_safe[OF assms(2)] assms(1)] assms(3)] by (auto simp: node_inv_def)
  have "server_inv n s g i" using sure_reach_safety[OF assms(2,1)] assms(3) by (simp add: safety_inv_def)
  then show 1: "map msg_Index (streams g i) = [1..lastApplied (node s i)]"
    using log_wf_indices[OF inv(1) order_refl server_invD(1) inv(2)] by (simp add: streams_log[OF assms])
  show "int (length (streams g i)) = lastApplied (node s i)" using arg_cong[OF 1, of length] inv(2) by simp
qed

theorem state_machine_safety_witness:
  "\<exists>s g as. sure_reach 3 s g as \<and> streams g 0 = [apply_msg_of run_job] \<and> streams g 1 = [apply_msg_of run_job]
     \<and> (prefix (streams g 0) (streams g 1) \<or> prefix (streams g 1) (streams g 0))"
proof -
  obtain s g as where r: "sure_reach 3 s g as" "lastApplied (node s 0) = 1" "logs (node s 0) = [zero_log, run_job]"
    "lastApplied (node s 1) = 1" "logs (node s 1) = [zero_log, run_job]" using safe_run by blast
  have n: "(3::nat) < 2147483648" "(0::nat) < 3" "(1::nat) < 3" by simp_all
  have "streams g 0 = [apply_msg_of run_job]" "streams g 1 = [apply_msg_of run_job]"
    using streams_log[OF n(1) r(1) n(2)] streams_log[OF n(1) r(1) n(3)] r(2-5) by simp_all
  with state_machine_safety[OF n(1) r(1) n(2,3)] r(1) show ?thesis by blast
qed

end
