(* ===== verification/GoStrings.thy ===== *)
theory GoStrings
  imports Prelude
begin

text \<open>
  What the program uses of Go's string packages. \<open>strings_Split\<close> is \<open>strings.Split\<close> for a
  nonempty separator: cut at the first occurrence, go on behind it. \<open>FormatInt\<close> is
  \<open>strconv.FormatInt\<close> for bases 2 to 36, \<open>Itoa\<close> is base 10, and \<open>Atoi\<close>
  reads it back. A string is a list of bytes.
\<close>

section \<open>strings.Split\<close>

fun cut_first :: "string \<Rightarrow> string \<Rightarrow> (string \<times> string) option" where
  "cut_first sep [] = None"
| "cut_first sep (c # cs) =
     (if take (length sep) (c # cs) = sep then Some ([], drop (length sep) (c # cs))
      else map_option (\<lambda>(a, b). (c # a, b)) (cut_first sep cs))"

lemma cut_first_Some: "cut_first sep s = Some (a, b) \<Longrightarrow> s = a @ sep @ b"
proof (induction s arbitrary: a)
  case Nil
  then show ?case by simp
next
  case (Cons c s)
  show ?case
  proof (cases "take (length sep) (c # s) = sep")
    case True
    with Cons.prems have "a = []" "b = drop (length sep) (c # s)" by auto
    with True show ?thesis by (metis append_Nil append_take_drop_id)
  next
    case False
    with Cons show ?thesis by (auto simp del: take_Suc_Cons)
  qed
qed

function strings_Split :: "string \<Rightarrow> string \<Rightarrow> string list" where
  "strings_Split sep s =
     (if sep = [] then map (\<lambda>c. [c]) s
      else case cut_first sep s of None \<Rightarrow> [s] | Some (a, b) \<Rightarrow> a # strings_Split sep b)"
  by pat_completeness auto
termination
  by (relation "measure (\<lambda>(sep, s). length s)") (auto dest!: cut_first_Some)

declare strings_Split.simps [simp del]

text \<open>Joining the pieces gives the string back, so nothing is lost by splitting itself.\<close>

fun join :: "string \<Rightarrow> string list \<Rightarrow> string" where
  "join sep [] = []"
| "join sep [s] = s"
| "join sep (s # ss) = s @ sep @ join sep ss"

lemma strings_Split_nonempty: "sep \<noteq> [] \<Longrightarrow> strings_Split sep s \<noteq> []"
  by (subst strings_Split.simps) (simp split: option.split prod.split)

lemma join_Split: "sep \<noteq> [] \<Longrightarrow> join sep (strings_Split sep s) = s"
proof (induction sep s rule: strings_Split.induct)
  case (1 sep s)
  show ?case
  proof (cases "cut_first sep s")
    case None
    with 1 show ?thesis by (subst strings_Split.simps) simp
  next
    case (Some p)
    obtain a b where p: "p = (a, b)" by (cases p)
    obtain x xs where xs: "strings_Split sep b = x # xs"
      using strings_Split_nonempty[OF 1(2), of b] by (cases "strings_Split sep b") auto
    have "join sep (strings_Split sep b) = b" using 1 Some p by simp
    then show ?thesis using 1(2) Some p xs cut_first_Some[of sep s a b]
      by (subst strings_Split.simps) simp
  qed
qed

definition contains :: "string \<Rightarrow> string \<Rightarrow> bool" where
  "contains sep s \<longleftrightarrow> cut_first sep s \<noteq> None"

lemma Split_none: "sep \<noteq> [] \<Longrightarrow> \<not> contains sep s \<Longrightarrow> strings_Split sep s = [s]"
  by (subst strings_Split.simps, cases "cut_first sep s") (auto simp: contains_def)

lemma Split_cut: "sep \<noteq> [] \<Longrightarrow> cut_first sep s = Some (a, b) \<Longrightarrow> strings_Split sep s = a # strings_Split sep b"
  by (subst strings_Split.simps) simp

lemma contains_ConsI: "contains sep s \<Longrightarrow> contains sep (c # s)"
  by (auto simp: contains_def)

lemma contains_append: "contains sep s \<Longrightarrow> contains sep (s @ t)"
proof (induction s)
  case Nil
  then show ?case by (simp add: contains_def)
next
  case (Cons c s)
  show ?case
  proof (cases "take (length sep) (c # s) = sep")
    case True
    then have "take (length sep) (c # s @ t) = sep"
      by (metis append_Cons append_take_drop_id le_eq_less_or_eq length_take min.cobounded1 take_all_iff take_append append.assoc append_eq_conv_conj)
    then show ?thesis by (simp add: contains_def del: take_Suc_Cons)
  next
    case False
    with Cons.prems have "contains sep s" by (auto simp: contains_def simp del: take_Suc_Cons)
    then show ?thesis using Cons.IH contains_ConsI by simp
  qed
qed

section \<open>strconv.FormatInt\<close>

definition digit :: "nat \<Rightarrow> char" where
  "digit d = (if d < 10 then char_of (48 + d) else char_of (87 + d))"

fun format_nat :: "nat \<Rightarrow> nat \<Rightarrow> string" where
  "format_nat b n = (if b < 2 \<or> n < b then [digit n] else format_nat b (n div b) @ [digit (n mod b)])"

declare format_nat.simps [simp del]

definition FormatInt :: "int \<Rightarrow> nat \<Rightarrow> string" where
  "FormatInt i b = (if i < 0 then CHR ''-'' # format_nat b (nat (- i)) else format_nat b (nat i))"

definition Itoa :: "int \<Rightarrow> string" where
  "Itoa i = FormatInt i 10"

definition digit_val :: "char \<Rightarrow> nat" where
  "digit_val c = (if of_char c < (58::nat) then of_char c - 48 else of_char c - 87)"

lemma digit_val: "d < 36 \<Longrightarrow> digit_val (digit d) = d"
  by (auto simp: digit_val_def digit_def)

definition unformat :: "nat \<Rightarrow> string \<Rightarrow> nat" where
  "unformat b s = foldl (\<lambda>a c. a * b + digit_val c) 0 s"

lemma unformat_format:
  assumes "2 \<le> b" "b \<le> 36"
  shows "unformat b (format_nat b n) = n"
  using assms
proof (induction b n rule: format_nat.induct)
  case (1 b n)
  show ?case
  proof (cases "n < b")
    case True
    with 1 show ?thesis by (subst format_nat.simps) (simp add: unformat_def digit_val)
  next
    case False
    have "unformat b (format_nat b (n div b)) = n div b" using 1 False by simp
    moreover have "n mod b < 36" using 1(2,3) mod_less_divisor[of b n] by linarith
    ultimately show ?thesis using False 1(2)
      by (subst format_nat.simps) (simp add: unformat_def digit_val)
  qed
qed

lemma unformat36: "unformat 36 (format_nat 36 n) = n"
  by (rule unformat_format) simp_all

lemma format36_inj: "format_nat 36 m = format_nat 36 n \<Longrightarrow> m = n"
  using unformat36[of m] unformat36[of n] by argo

lemma digit_no_colon: "d < 36 \<Longrightarrow> digit d \<noteq> CHR '':''"
proof
  assume d: "d < 36" "digit d = CHR '':''"
  then have "of_char (digit d) = (58::nat)" by simp
  with d(1) show False by (auto simp: digit_def split: if_splits)
qed

lemma format_no_colon: "2 \<le> b \<Longrightarrow> b \<le> 36 \<Longrightarrow> CHR '':'' \<notin> set (format_nat b n)"
proof (induction b n rule: format_nat.induct)
  case (1 b n)
  show ?case
  proof (cases "n < b")
    case True
    with 1 digit_no_colon[of n] show ?thesis by (subst format_nat.simps) auto
  next
    case False
    moreover have "n mod b < 36" using 1(2,3) mod_less_divisor[of b n] by linarith
    ultimately show ?thesis using 1 digit_no_colon[of "n mod b"] by (subst format_nat.simps) auto
  qed
qed

text \<open>ASCII letters in lower case; other bytes as they are.\<close>

definition ascii_lower :: "char \<Rightarrow> char" where
  "ascii_lower c = (if (65::nat) \<le> of_char c \<and> of_char c \<le> (90::nat) then char_of (of_char c + (32::nat)) else c)"

section \<open>strconv.Atoi\<close>

definition is_digit :: "char \<Rightarrow> bool" where
  "is_digit c \<longleftrightarrow> (48::nat) \<le> of_char c \<and> of_char c < (58::nat)"

text \<open>An optional sign and decimal digits, with a value that fits an \<open>int\<close> (64 bits).\<close>

definition Atoi :: "string \<Rightarrow> int option" where
  "Atoi s =
     (let neg = (s \<noteq> [] \<and> hd s = CHR ''-'');
          ds = (if s \<noteq> [] \<and> (hd s = CHR ''-'' \<or> hd s = CHR ''+'') then tl s else s);
          v = (if neg then - int (unformat 10 ds) else int (unformat 10 ds))
      in if ds \<noteq> [] \<and> list_all is_digit ds \<and> - (2 ^ 63) \<le> v \<and> v < 2 ^ 63 then Some v else None)"

lemma digit_is_digit: "d < 10 \<Longrightarrow> is_digit (digit d)"
  by (simp add: is_digit_def digit_def)

lemma format_digits: "format_nat 10 n \<noteq> [] \<and> list_all is_digit (format_nat 10 n)"
proof (induction n rule: less_induct)
  case (less n)
  show ?case
  proof (cases "n < 10")
    case True
    then show ?thesis by (subst (1 2) format_nat.simps) (simp add: digit_is_digit)
  next
    case False
    then have "n div 10 < n" by simp
    with less have "list_all is_digit (format_nat 10 (n div 10))" by simp
    with False show ?thesis by (subst (1 2) format_nat.simps) (simp add: digit_is_digit)
  qed
qed

lemma Atoi_Itoa:
  assumes "0 \<le> i" "i < 2 ^ 63"
  shows "Atoi (Itoa i) = Some i"
proof -
  define s where "s = format_nat 10 (nat i)"
  have s: "Itoa i = s" "s \<noteq> []" "list_all is_digit s" "unformat 10 s = nat i"
    using assms(1) format_digits[of "nat i"] unformat_format[of 10 "nat i"]
    by (auto simp: s_def Itoa_def FormatInt_def)
  have "is_digit (hd s)" using s(2,3) by (cases s) auto
  then have "hd s \<noteq> CHR ''-''" "hd s \<noteq> CHR ''+''" by (auto simp: is_digit_def)
  with s assms show ?thesis by (simp add: Atoi_def Let_def)
qed

end
