(* ===== verification/KvCommands.thy ===== *)
theory KvCommands
  imports GoStrings
begin

text \<open>
  The text format of key/value commands (\<open>kvraft/common.go\<close>, \<open>parseCmd\<close> and
  \<open>splitPutAppendCmd\<close> of \<open>kvraft/server.go\<close>, and the builders in
  \<open>raftclient/client/client.go\<close>). A command is \<open>op:::rest\<close>, and the rest of a Put or
  Append is \<open>key<<>>value\<close>.
\<close>

section \<open>Commands\<close>

definition OPSeparator :: string where "OPSeparator = '':::''"
definition KeyValueSeparator :: string where "KeyValueSeparator = ''<<>>''"
definition APPEND :: string where "APPEND = ''Append''"
definition PUT :: string where "PUT = ''Put''"
definition GET :: string where "GET = ''Get''"

lemmas separators = OPSeparator_def KeyValueSeparator_def
lemmas op_names = APPEND_def PUT_def GET_def

definition parseCmd :: "string \<Rightarrow> string \<times> string" where
  "parseCmd cmd =
     (let s = strings_Split OPSeparator cmd
      in if length s < 2 then ([], []) else (s ! 0, s ! 1))"

definition splitPutAppendCmd :: "string \<Rightarrow> string \<times> string" where
  "splitPutAppendCmd putappend =
     (let s = strings_Split KeyValueSeparator putappend
      in if length s < 2 then ([], []) else (s ! 0, s ! 1))"

text \<open>The commands the clerk builds.\<close>

definition put_append_cmd :: "string \<Rightarrow> string \<Rightarrow> string \<Rightarrow> string" where
  "put_append_cmd op key val = op @ OPSeparator @ key @ KeyValueSeparator @ val"

definition get_cmd :: "string \<Rightarrow> string" where
  "get_cmd key = ''Get'' @ OPSeparator @ key"

text \<open>
  No part of \<open><<>>\<close> is both a beginning and an end of it, so in \<open>a<<>>b\<close> the first occurrence
  is the one behind \<open>a\<close> unless \<open>a\<close> contains one.
\<close>

lemma cut_kv:
  "\<not> contains KeyValueSeparator a \<Longrightarrow>
   cut_first KeyValueSeparator (a @ KeyValueSeparator @ b) = Some (a, b)"
proof (induction a)
  case Nil
  then show ?case by (simp add: separators)
next
  case (Cons c a)
  have "\<not> contains KeyValueSeparator a" using Cons.prems contains_ConsI by blast
  with Cons.IH have IH: "cut_first KeyValueSeparator (a @ KeyValueSeparator @ b) = Some (a, b)" by blast
  have no: "take 4 (c # a) \<noteq> ''<<>>''"
  proof
    assume "take 4 (c # a) = ''<<>>''"
    then have "take (length KeyValueSeparator) (c # a) = KeyValueSeparator" by (simp add: separators eval_nat_numeral)
    then have "contains KeyValueSeparator (c # a)" by (simp add: contains_def del: take_Suc_Cons)
    with Cons.prems show False ..
  qed
  have "take 4 (c # a @ ''<<>>'' @ b) \<noteq> ''<<>>''"
  proof (cases "3 \<le> length a")
    case True
    with no show ?thesis by simp
  next
    case False
    then consider "a = []" | x where "a = [x]" | x y where "a = [x, y]"
      by (cases a; cases "tl a"; cases "tl (tl a)") auto
    then show ?thesis by cases auto
  qed
  with IH show ?case by (simp add: separators eval_nat_numeral)
qed

lemma cut_op:
  assumes "op \<in> {PUT, APPEND, GET}"
  shows "cut_first OPSeparator (op @ OPSeparator @ rest) = Some (op, rest)"
  using assms by (auto simp: op_names separators)

lemma parse_op:
  assumes "op \<in> {PUT, APPEND, GET}" "\<not> contains OPSeparator rest"
  shows "parseCmd (op @ OPSeparator @ rest) = (op, rest)"
proof -
  have "OPSeparator \<noteq> []" by (simp add: separators)
  then show ?thesis
    using Split_cut[OF _ cut_op[OF assms(1)]] Split_none[OF _ assms(2)] by (simp add: parseCmd_def)
qed

lemma split_kv:
  assumes "\<not> contains KeyValueSeparator k" "\<not> contains KeyValueSeparator v"
  shows "splitPutAppendCmd (k @ KeyValueSeparator @ v) = (k, v)"
proof -
  have "KeyValueSeparator \<noteq> []" by (simp add: separators)
  then show ?thesis
    using Split_cut[OF _ cut_kv[OF assms(1)]] Split_none[OF _ assms(2)] by (simp add: splitPutAppendCmd_def)
qed

text \<open>Only what stands before the second separator is the value.\<close>

lemma split_kv_first:
  assumes "\<not> contains KeyValueSeparator k"
  shows "splitPutAppendCmd (k @ KeyValueSeparator @ v) = (k, hd (strings_Split KeyValueSeparator v))"
proof -
  have "KeyValueSeparator \<noteq> []" by (simp add: separators)
  then show ?thesis
    using Split_cut[OF _ cut_kv[OF assms]] strings_Split_nonempty[of KeyValueSeparator v]
    by (cases "strings_Split KeyValueSeparator v") (auto simp: splitPutAppendCmd_def)
qed

end
