(* ===== verification/KvServer.thy ===== *)
theory KvServer
  imports Channels RaftData KvCommands
begin

text \<open>
  The key/value server (\<open>kvraft/server.go\<close>): the goroutine that applies committed commands, and
  the handlers \<open>Get\<close> and \<open>PutAppend\<close>. A handler that waits for its command to be applied is
  split there: \<open>Get\<close> into \<open>Get\<close> and \<open>Get_finish\<close>, \<open>PutAppend\<close> into \<open>PutAppend\<close> and
  \<open>PutAppend_finish\<close>; the first part runs up to the receive on \<open>kv.ops[idx]\<close>, and the second
  is not enabled (\<open>Blocked\<close>) until there is something to receive.

  The calls to the Raft server go through \<open>kv.rfServer\<close>, an interface: what they answer is an
  argument, \<open>None\<close> when \<open>Call\<close> returns false.
\<close>

definition ErrOK :: string where "ErrOK = ''OK''"
definition ErrNoKey :: string where "ErrNoKey = ''ErrNoKey''"

record kv_op =
  ContextId :: string
  op_Cmd :: string

record put_append_args =
  pa_Op :: kv_op
  pa_OK :: bool
  Tries :: int
  pa_Idx :: int

record put_append_reply =
  par_WrongLeader :: bool
  par_Err :: string
  par_Idx :: int

record get_args =
  Key :: string
  get_Op :: kv_op

record get_reply =
  gr_WrongLeader :: bool
  gr_Err :: string
  Value :: string

definition zero_put_append_reply :: put_append_reply where
  "zero_put_append_reply = \<lparr>par_WrongLeader = False, par_Err = '''', par_Idx = 0\<rparr>"

definition zero_get_reply :: get_reply where
  "zero_get_reply = \<lparr>gr_WrongLeader = False, gr_Err = '''', Value = ''''\<rparr>"

text \<open>The element type of the channels in \<open>kv.ops\<close>, each of capacity 1.\<close>

record op_result =
  Val :: string
  Ok :: bool

datatype kv_error = AlreadyApplied int string | NotAnOp int

record raftkv =
  kv_me :: int
  maxraftstate :: int
  kv_log :: "int \<Rightarrow> string option"
  db :: "string \<Rightarrow> string option"
  ops :: "int \<Rightarrow> op_result list option"
  kv_context :: "string \<Rightarrow> int option"

definition StartKVServer :: "int \<Rightarrow> int \<Rightarrow> raftkv" where
  "StartKVServer i maxstate =
     \<lparr>kv_me = i, maxraftstate = maxstate, kv_log = Map.empty, db = Map.empty,
      ops = Map.empty, kv_context = Map.empty\<rparr>"

text \<open>An \<open>Op\<close> goes to Raft as JSON, and comes back as the map that JSON objects decode to.\<close>

definition op_json :: "kv_op \<Rightarrow> gval" where
  "op_json o' = GMap [(''ContextId'', GStr (ContextId o')), (''Cmd'', GStr (op_Cmd o'))]"

text \<open>\<open>d[key].(string)\<close>: a missing key or another type panics.\<close>

definition string_field :: "(string \<times> gval) list \<Rightarrow> string \<Rightarrow> string go" where
  "string_field d k = (case map_of d k of Some (GStr s) \<Rightarrow> Inr s | _ \<Rightarrow> Inl BadAssertion)"

section \<open>Applying commands\<close>

text \<open>Make the channel of an index, if there is none.\<close>

definition make_op_chan :: "int \<Rightarrow> raftkv \<Rightarrow> raftkv" where
  "make_op_chan i kv = (case ops kv i of None \<Rightarrow> kv\<lparr>ops := (ops kv)(i \<mapsto> [])\<rparr> | Some _ \<Rightarrow> kv)"

text \<open>The \<open>select\<close> with \<open>default\<close>; a send to a missing (nil) channel is never ready.\<close>

definition offer :: "int \<Rightarrow> op_result \<Rightarrow> raftkv \<Rightarrow> raftkv" where
  "offer i r kv = (case ops kv i of None \<Rightarrow> kv | Some c \<Rightarrow> kv\<lparr>ops := (ops kv)(i \<mapsto> chan_try_send 1 r c)\<rparr>)"

text \<open>The \<open>switch op\<close>; an unknown operation is logged and has no other effect.\<close>

definition apply_op :: "int \<Rightarrow> string \<Rightarrow> raftkv \<Rightarrow> raftkv" where
  "apply_op i cmd kv =
     (let (opn, val) = parseCmd cmd in
      if opn = PUT then
        let (k, v) = splitPutAppendCmd val;
            kv = kv\<lparr>db := (db kv)(k \<mapsto> v)\<rparr>;
            kv = make_op_chan i kv
        in offer i \<lparr>Val = cmd, Ok = True\<rparr> kv
      else if opn = APPEND then
        let (k, v) = splitPutAppendCmd val;
            kv = (case db kv k of
                    Some old \<Rightarrow> kv\<lparr>db := (db kv)(k \<mapsto> old @ v)\<rparr>
                  | None \<Rightarrow> kv\<lparr>db := (db kv)(k \<mapsto> v)\<rparr>);
            kv = make_op_chan i kv
        in offer i \<lparr>Val = cmd, Ok = True\<rparr> kv
      else if opn = GET then
        let kv = make_op_chan i kv
        in (case db kv val of
              Some getVal \<Rightarrow> offer i \<lparr>Val = cmd @ KeyValueSeparator @ getVal, Ok = True\<rparr> kv
            | None \<Rightarrow> offer i \<lparr>Val = '''', Ok = False\<rparr> kv)
      else kv)"

definition apply_step :: "apply_msg \<Rightarrow> raftkv \<Rightarrow> (raftkv \<times> kv_error list) go" where
  "apply_step msg kv =
     (case Command msg of
        GMap d \<Rightarrow>
          (case kv_log kv (msg_Index msg) of
             None \<Rightarrow>
               go_bind (string_field d ''Cmd'') (\<lambda>cmd.
               go_bind (string_field d ''ContextId'') (\<lambda>ctx.
               let kv = kv\<lparr>kv_log := (kv_log kv)(msg_Index msg \<mapsto> cmd)\<rparr>;
                   kv = kv\<lparr>kv_context := (kv_context kv)(ctx \<mapsto> msg_Index msg)\<rparr>
               in Inr (apply_op (msg_Index msg) cmd kv, [])))
           | Some old \<Rightarrow>
               Inr (offer (msg_Index msg) \<lparr>Val = old, Ok = True\<rparr> kv,
                    [AlreadyApplied (msg_Index msg) old]))
      | _ \<Rightarrow> Inr (kv, [NotAnOp (msg_Index msg)]))"

text \<open>The RPC \<open>Apply\<close> hands the message to the goroutine over an unbuffered channel.\<close>

definition Apply :: "apply_msg \<Rightarrow> apply_msg_reply \<Rightarrow> raftkv \<Rightarrow> (raftkv \<times> apply_msg_reply \<times> kv_error list) go" where
  "Apply args reply kv =
     go_bind (apply_step args kv) (\<lambda>(kv, errs). Inr (kv, reply\<lparr>apply_Ok := True\<rparr>, errs))"

section \<open>Get\<close>

datatype 'r progress = Done 'r | Waiting int 'r

definition Get :: "state_reply option \<Rightarrow> (agree_args \<Rightarrow> agree_reply option) \<Rightarrow> get_args \<Rightarrow> get_reply \<Rightarrow>
    raftkv \<Rightarrow> raftkv \<times> get_reply progress" where
  "Get ReturnState Agree args reply kv =
     (case ReturnState of
        None \<Rightarrow> (kv, Done (reply\<lparr>gr_WrongLeader := True\<rparr>))
      | Some stateReply \<Rightarrow>
          let isLeader = st_IsLeader stateReply;
              reply = reply\<lparr>gr_WrongLeader := \<not> isLeader\<rparr>
          in if \<not> isLeader then (kv, Done reply)
          else case Agree \<lparr>agree_Cmd = op_json (get_Op args)\<rparr> of
                 None \<Rightarrow> (kv, Done reply)
               | Some agreeReply \<Rightarrow>
                   let i = ag_Index agreeReply;
                       kv = kv\<lparr>kv_context := (kv_context kv)(ContextId (get_Op args) \<mapsto> i)\<rparr>;
                       kv = make_op_chan i kv
                   in (kv, Waiting i reply))"

text \<open>Receive the result and put it back, for a repeated request.\<close>

definition take_and_put :: "int \<Rightarrow> raftkv \<Rightarrow> (op_result \<times> raftkv) go" where
  "take_and_put i kv =
     (case ops kv i of
        None \<Rightarrow> Inl Blocked
      | Some c \<Rightarrow>
          go_bind (chan_recv c) (\<lambda>(re, c).
          go_bind (chan_send 1 re c) (\<lambda>c.
          Inr (re, kv\<lparr>ops := (ops kv)(i \<mapsto> c)\<rparr>))))"

definition Get_finish :: "int \<Rightarrow> get_args \<Rightarrow> get_reply \<Rightarrow> raftkv \<Rightarrow> (raftkv \<times> get_reply) go" where
  "Get_finish i args reply kv =
     go_bind (take_and_put i kv) (\<lambda>(re, kv).
     let (key, val) = splitPutAppendCmd (Val re)
     in Inr (kv, if key = op_Cmd (get_Op args) then reply\<lparr>Value := val, gr_Err := ErrOK\<rparr>
                 else reply\<lparr>gr_Err := ErrNoKey\<rparr>))"

section \<open>PutAppend\<close>

text \<open>
  On a first request (\<open>Idx = 0\<close>) the code declares a new \<open>idx\<close> in the \<open>if\<close> and another one
  inside it, so the reply carries what the context map held when it was looked up: 0 for an
  operation it did not know.
\<close>

definition PutAppend :: "state_reply option \<Rightarrow> (agree_args \<Rightarrow> agree_reply option) \<Rightarrow> put_append_args \<Rightarrow>
    put_append_reply \<Rightarrow> raftkv \<Rightarrow> raftkv \<times> put_append_reply progress" where
  "PutAppend ReturnState Agree args reply kv =
     (case ReturnState of
        None \<Rightarrow> (kv, Done (reply\<lparr>par_WrongLeader := True\<rparr>))
      | Some stateReply \<Rightarrow>
          let isLeader = st_IsLeader stateReply;
              reply = reply\<lparr>par_WrongLeader := \<not> isLeader\<rparr>
          in if \<not> isLeader then (kv, Done reply)
          else if pa_Idx args = 0 then
            (case kv_context kv (ContextId (pa_Op args)) of
               Some i \<Rightarrow> (kv, Done (reply\<lparr>par_Err := ErrOK, par_Idx := i\<rparr>))
             | None \<Rightarrow>
                 (case Agree \<lparr>agree_Cmd = op_json (pa_Op args)\<rparr> of
                    None \<Rightarrow> (kv, Done reply)
                  | Some agreeReply \<Rightarrow>
                      (kv\<lparr>kv_context := (kv_context kv)(ContextId (pa_Op args) \<mapsto> ag_Index agreeReply)\<rparr>,
                       Done (reply\<lparr>par_Err := ErrOK, par_Idx := 0\<rparr>))))
          else (make_op_chan (pa_Idx args) kv, Waiting (pa_Idx args) reply))"

definition PutAppend_finish :: "int \<Rightarrow> put_append_args \<Rightarrow> put_append_reply \<Rightarrow> raftkv \<Rightarrow> (raftkv \<times> put_append_reply) go" where
  "PutAppend_finish i args reply kv =
     go_bind (take_and_put i kv) (\<lambda>(re, kv).
     Inr (kv, if Ok re \<and> Val re = op_Cmd (pa_Op args) then reply\<lparr>par_Err := ErrOK\<rparr>
              else reply\<lparr>par_Err := ErrNoKey\<rparr>))"

definition Kill_kv :: "raftkv \<Rightarrow> raftkv" where
  "Kill_kv kv = kv"

end
