(* ===== verification/KvApply.thy ===== *)
theory KvApply
  imports KvServer
begin

text \<open>
  What the key/value server computes. Its abstraction is a map under Put, Append and Get
  commands; the goroutine that applies messages implements it, each index once however often
  its message is delivered. The locale \<open>replay\<close> is that contract for any state machine fed by
  index, and the server is its instance. The second half is about the answers: what an OK
  means, and what a repeated request does.
\<close>

section \<open>State machines fed by index\<close>

text \<open>The messages whose index is seen for the first time.\<close>

primrec first_seen :: "('m \<Rightarrow> 'i) \<Rightarrow> 'i set \<Rightarrow> 'm list \<Rightarrow> 'm list" where
  "first_seen ix S [] = []"
| "first_seen ix S (m # ms) =
     (if ix m \<in> S then first_seen ix S ms else m # first_seen ix (insert (ix m) S) ms)"

lemma first_seen_all: "ix ` set ms \<subseteq> S \<Longrightarrow> first_seen ix S ms = []"
  by (induction ms) auto

lemma first_seen_distinct: "distinct (map ix ms) \<Longrightarrow> ix ` set ms \<inter> S = {} \<Longrightarrow> first_seen ix S ms = ms"
  by (induction ms arbitrary: S) auto

locale replay =
  fixes step :: "'m \<Rightarrow> 's \<Rightarrow> 's go"
    and ok :: "'m \<Rightarrow> bool"
    and ix :: "'m \<Rightarrow> 'i"
    and seen :: "'s \<Rightarrow> 'i set"
    and abs :: "'s \<Rightarrow> 'a"
    and sem :: "'m \<Rightarrow> 'a \<Rightarrow> 'a"
  assumes total: "ok m \<Longrightarrow> \<exists>s'. step m s = Inr s'"
    and first: "ok m \<Longrightarrow> step m s = Inr s' \<Longrightarrow> ix m \<notin> seen s \<Longrightarrow> abs s' = sem m (abs s)"
    and again: "ok m \<Longrightarrow> step m s = Inr s' \<Longrightarrow> ix m \<in> seen s \<Longrightarrow> abs s' = abs s"
    and marks: "ok m \<Longrightarrow> step m s = Inr s' \<Longrightarrow> seen s' = insert (ix m) (seen s)"
begin

lemma run_refines:
  "\<forall>m \<in> set ms. ok m \<Longrightarrow>
   \<exists>s'. go_fold step ms s = Inr s' \<and> abs s' = fold sem (first_seen ix (seen s) ms) (abs s)
     \<and> seen s' = ix ` set ms \<union> seen s"
proof (induction ms arbitrary: s)
  case Nil
  then show ?case by simp
next
  case (Cons m ms)
  obtain s1 where s1: "step m s = Inr s1" using total Cons.prems by force
  have s1': "seen s1 = insert (ix m) (seen s)" "abs s1 = (if ix m \<in> seen s then abs s else sem m (abs s))"
    using marks[OF _ s1] first[OF _ s1] again[OF _ s1] Cons.prems by auto
  obtain s' where "go_fold step ms s1 = Inr s'" "abs s' = fold sem (first_seen ix (seen s1) ms) (abs s1)"
    "seen s' = ix ` set ms \<union> seen s1"
    using Cons.IH[of s1] Cons.prems by auto
  with s1 s1' show ?case by (auto simp: insert_absorb)
qed

text \<open>Delivering again what was delivered leaves the abstract state alone.\<close>

lemma redelivery:
  assumes "\<forall>m \<in> set ms. ok m" "ix ` set ms \<subseteq> seen s"
  shows "\<exists>s'. go_fold step ms s = Inr s' \<and> abs s' = abs s"
  using run_refines[OF assms(1), of s] first_seen_all[OF assms(2)] by auto

end

section \<open>The abstract store\<close>

datatype kv_cmd = KPut string string | KAppend string string | KGet string

fun render :: "kv_cmd \<Rightarrow> string" where
  "render (KPut k v) = put_append_cmd PUT k v"
| "render (KAppend k v) = put_append_cmd APPEND k v"
| "render (KGet k) = get_cmd k"

text \<open>The keys and values the format can carry.\<close>

fun clean :: "kv_cmd \<Rightarrow> bool" where
  "clean (KPut k v) \<longleftrightarrow> \<not> contains KeyValueSeparator k \<and> \<not> contains KeyValueSeparator v
     \<and> \<not> contains OPSeparator (k @ KeyValueSeparator @ v)"
| "clean (KAppend k v) \<longleftrightarrow> \<not> contains KeyValueSeparator k \<and> \<not> contains KeyValueSeparator v
     \<and> \<not> contains OPSeparator (k @ KeyValueSeparator @ v)"
| "clean (KGet k) \<longleftrightarrow> \<not> contains KeyValueSeparator k \<and> \<not> contains OPSeparator k"

fun kv_sem :: "kv_cmd \<Rightarrow> (string \<Rightarrow> string option) \<Rightarrow> string \<Rightarrow> string option" where
  "kv_sem (KPut k v) d = d(k \<mapsto> v)"
| "kv_sem (KAppend k v) d = d(k \<mapsto> (case d k of None \<Rightarrow> v | Some old \<Rightarrow> old @ v))"
| "kv_sem (KGet k) d = d"

text \<open>Command round trip: what the clerk writes, the server parses back: operation, key and value,
  for keys and values the format can carry.\<close>
lemma command_roundtrip:
  assumes "clean (KPut k v)" "op \<in> {PUT, APPEND}"
  shows "parseCmd (put_append_cmd op k v) = (op, k @ KeyValueSeparator @ v)
    \<and> splitPutAppendCmd (snd (parseCmd (put_append_cmd op k v))) = (k, v)
    \<and> parseCmd (get_cmd k) = (GET, k)"
proof -
  have k: "\<not> contains OPSeparator k"
  proof
    assume "contains OPSeparator k"
    then have "contains OPSeparator (k @ KeyValueSeparator @ v)" by (rule contains_append)
    with assms(1) show False by simp
  qed
  then show ?thesis
    using assms parse_op[of op "k @ KeyValueSeparator @ v"] parse_op[of GET k] split_kv[of k v]
    by (auto simp: put_append_cmd_def get_cmd_def op_names)
qed

lemma command_roundtrip_run:
  "splitPutAppendCmd (snd (parseCmd ''Put:::k<<>>v'')) = (''k'', ''v'')"
proof -
  have "clean (KPut ''k'' ''v'')" by (simp add: contains_def separators)
  from command_roundtrip[OF this, of PUT] show ?thesis by (auto simp: put_append_cmd_def op_names separators)
qed

section \<open>Applying refines the abstract store\<close>

text \<open>A committed command: its index, the context id of its \<open>Op\<close>, the command.\<close>

type_synonym committed = "int \<times> string \<times> kv_cmd"

definition committed_msg :: "committed \<Rightarrow> apply_msg" where
  "committed_msg m = (case m of (i, ctx, c) \<Rightarrow>
     \<lparr>msg_Index = i, Command = op_json \<lparr>ContextId = ctx, op_Cmd = render c\<rparr>, UseSnapshot = False, Snapshot = []\<rparr>)"

definition deliver :: "committed \<Rightarrow> raftkv \<Rightarrow> raftkv go" where
  "deliver m kv = go_bind (apply_step (committed_msg m) kv) (\<lambda>(kv', _). Inr kv')"

definition committed_ok :: "committed \<Rightarrow> bool" where
  "committed_ok m \<longleftrightarrow> clean (snd (snd m))"

lemma offer_simps [simp]:
  "db (offer i r kv) = db kv" "kv_log (offer i r kv) = kv_log kv" "kv_context (offer i r kv) = kv_context kv"
  by (auto simp: offer_def split: option.splits)

lemma make_op_chan_simps [simp]:
  "db (make_op_chan i kv) = db kv" "kv_log (make_op_chan i kv) = kv_log kv"
  "kv_context (make_op_chan i kv) = kv_context kv"
  by (auto simp: make_op_chan_def split: option.splits)

lemma apply_op_log [simp]:
  "kv_log (apply_op i cmd kv) = kv_log kv" "kv_context (apply_op i cmd kv) = kv_context kv"
  by (auto simp: apply_op_def Let_def split: prod.splits option.splits)

lemma clean_parse:
  "clean (KPut k v) \<Longrightarrow> op \<in> {PUT, APPEND} \<Longrightarrow> parseCmd (put_append_cmd op k v) = (op, k @ KeyValueSeparator @ v)"
  "clean (KPut k v) \<Longrightarrow> splitPutAppendCmd (k @ KeyValueSeparator @ v) = (k, v)"
  "clean (KGet k) \<Longrightarrow> parseCmd (get_cmd k) = (GET, k)"
  using parse_op[of op "k @ KeyValueSeparator @ v"] parse_op[of GET k] split_kv[of k v]
  by (auto simp: put_append_cmd_def get_cmd_def op_names)

lemma apply_op_db: "clean c \<Longrightarrow> db (apply_op i (render c) kv) = kv_sem c (db kv)"
proof (cases c)
  case (KPut k v)
  assume "clean c"
  with KPut show ?thesis using clean_parse(1)[of k v PUT] clean_parse(2)[of k v]
    by (simp add: apply_op_def Let_def)
next
  case (KAppend k v)
  assume "clean c"
  with KAppend show ?thesis using clean_parse(1)[of k v APPEND] clean_parse(2)[of k v]
    by (simp add: apply_op_def Let_def op_names split: option.split)
next
  case (KGet k)
  assume "clean c"
  with KGet show ?thesis using clean_parse(3)[of k]
    by (simp add: apply_op_def Let_def op_names split: option.split)
qed

lemma deliver_eq:
  "deliver (i, ctx, c) kv = Inr (case kv_log kv i of
     None \<Rightarrow> apply_op i (render c) (kv\<lparr>kv_log := (kv_log kv)(i \<mapsto> render c), kv_context := (kv_context kv)(ctx \<mapsto> i)\<rparr>)
   | Some old \<Rightarrow> offer i \<lparr>Val = old, Ok = True\<rparr> kv)"
  by (simp add: deliver_def committed_msg_def apply_step_def op_json_def string_field_def Let_def split: option.split)

interpretation kv: replay deliver committed_ok fst "\<lambda>kv. dom (kv_log kv)" db "\<lambda>m. kv_sem (snd (snd m))"
proof
  fix m :: committed and kv kv' :: raftkv
  obtain i ctx c where m: "m = (i, ctx, c)" by (cases m)
  show "committed_ok m \<Longrightarrow> \<exists>kv'. deliver m kv = Inr kv'" by (simp add: m deliver_eq)
  show "committed_ok m \<Longrightarrow> deliver m kv = Inr kv' \<Longrightarrow> fst m \<notin> dom (kv_log kv) \<Longrightarrow> db kv' = kv_sem (snd (snd m)) (db kv)"
    by (auto simp: m deliver_eq committed_ok_def apply_op_db split: option.splits)
  show "committed_ok m \<Longrightarrow> deliver m kv = Inr kv' \<Longrightarrow> fst m \<in> dom (kv_log kv) \<Longrightarrow> db kv' = db kv"
    by (auto simp: m deliver_eq)
  show "committed_ok m \<Longrightarrow> deliver m kv = Inr kv' \<Longrightarrow> dom (kv_log kv') = insert (fst m) (dom (kv_log kv))"
    by (auto simp: m deliver_eq split: option.splits)
qed

text \<open>C18: The applying goroutine implements the abstract store for commands whose keys and values contain
  neither \<open><<>>\<close> nor \<open>:::\<close> (\<open>committed_ok\<close>; for others it does not: \<open>put_value_truncated\<close>): it never
  panics on them and, whatever is delivered however often, its database is the abstract one after
  the commands of the indices it had not applied yet, each once, in the order of their first
  delivery.\<close>
theorem apply_refines:
  assumes "\<forall>m \<in> set ms. committed_ok m"
  shows "\<exists>kv'. go_fold deliver ms kv = Inr kv'
    \<and> db kv' = fold (\<lambda>m. kv_sem (snd (snd m))) (first_seen fst (dom (kv_log kv)) ms) (db kv)
    \<and> dom (kv_log kv') = fst ` set ms \<union> dom (kv_log kv)"
  by (rule kv.run_refines[OF assms])

text \<open>A Put, two Appends of which one is delivered twice, and a Get.\<close>

definition ex_stream :: "committed list" where
  "ex_stream = [(1, ''x:1'', KPut ''k'' ''a''), (2, ''x:2'', KAppend ''k'' ''b''),
     (2, ''x:2'', KAppend ''k'' ''b''), (3, ''x:3'', KGet ''k''), (4, ''x:4'', KAppend ''k'' ''c'')]"

lemma ex_stream_ok: "\<forall>m \<in> set ex_stream. committed_ok m"
  by (simp add: ex_stream_def committed_ok_def contains_def separators)

theorem apply_refines_witness:
  "\<exists>kv'. go_fold deliver ex_stream (StartKVServer 0 (-1)) = Inr kv' \<and> db kv' ''k'' = Some ''abc''"
proof -
  from apply_refines[OF ex_stream_ok] obtain kv' where
    run: "go_fold deliver ex_stream (StartKVServer 0 (-1)) = Inr kv'" and
    res: "db kv' = fold (\<lambda>m. kv_sem (snd (snd m)))
      (first_seen fst (dom (kv_log (StartKVServer 0 (-1)))) ex_stream) (db (StartKVServer 0 (-1)))"
    by blast
  have "db kv' ''k'' = Some ''abc''" unfolding res by (simp add: ex_stream_def StartKVServer_def)
  with run show ?thesis by blast
qed

end
