(* ===== verification/Replicas.thy ===== *)
theory Replicas
  imports StateSafety KvApply
begin

text \<open>
  The key/value servers of a cluster: each is fed by the Raft server beside it, in a run that
  keeps the conditions of \<open>CountedRuns\<close>. They are replicas in the sense of \<open>StateSafety\<close>, and their
  databases are those of one sequence of commands.
\<close>

text \<open>The stream of a Raft server as committed commands of the service.\<close>

definition feeds :: "audit \<Rightarrow> nat \<Rightarrow> committed list \<Rightarrow> bool" where
  "feeds g i ms \<longleftrightarrow> streams g i = map committed_msg ms \<and> list_all committed_ok ms"

lemma deliver_same: "map committed_msg ms = map committed_msg ms' \<Longrightarrow> go_fold deliver ms kv = go_fold deliver ms' kv"
proof (induction ms arbitrary: ms' kv)
  case (Cons m ms)
  then obtain m' ms'' where m': "ms' = m' # ms''" "committed_msg m = committed_msg m'" "map committed_msg ms = map committed_msg ms''"
    by (cases ms') auto
  then have "deliver m = deliver m'" by (intro ext) (simp add: deliver_def)
  moreover have "go_fold deliver ms = go_fold deliver ms''" using Cons.IH[OF m'(3)] by (intro ext) simp
  ultimately show ?case using m'(1) by simp
qed simp

lemma feed_runs:
  assumes "n < 2147483648" "sure_reach n s g as" "i < n" "feeds g i ms"
  shows "\<exists>kv. go_fold deliver ms (StartKVServer j x) = Inr kv \<and> db kv = fold (\<lambda>m. kv_sem (snd (snd m))) ms Map.empty"
proof -
  have ok: "\<forall>m \<in> set ms. committed_ok m" and st: "streams g i = map committed_msg ms" using assms(4) by (auto simp: feeds_def list_all_iff)
  have "map fst ms = map msg_Index (streams g i)" by (simp add: st committed_msg_def split_beta)
  then have "distinct (map fst ms)" by (simp add: streams_indices(1)[OF assms(1-3)])
  then have "first_seen fst {} ms = ms" by (intro first_seen_distinct) auto
  then show ?thesis using kv.run_refines[OF ok, of "StartKVServer j x"] by (auto simp: StartKVServer_def)
qed

text \<open>C5: The key/value servers of a cluster agree: a server that has applied fewer commands has the database
  that the other had before its last ones, and servers that have applied equally many have the
  same database. For runs that keep the conditions of state machine safety (C2: on elections, on
  the dispatcher, on conflicts, and that leaders count prompt acknowledgements afresh and commit
  entries of their own term), when what was handed over are commands of the service whose keys and
  values contain neither separator (\<open>committed_ok\<close>).\<close>
theorem kv_replicas_agree:
  assumes "n < 2147483648" "sure_reach n s g as" "i < n" "j < n"
    and "feeds g i ms" "feeds g j ms'" "lastApplied (node s i) \<le> lastApplied (node s j)"
  shows "\<exists>kv kv'. go_fold deliver ms (StartKVServer k x) = Inr kv \<and> go_fold deliver ms' (StartKVServer l y) = Inr kv'
    \<and> db kv' = fold (\<lambda>m. kv_sem (snd (snd m))) (drop (length ms) ms') (db kv)
    \<and> (lastApplied (node s i) = lastApplied (node s j) \<longrightarrow> db kv' = db kv)"
proof -
  let ?sem = "\<lambda>m. kv_sem (snd (snd m))" and ?ms = "take (length ms) ms'"
  have st: "streams g i = map committed_msg ms" "streams g j = map committed_msg ms'" and ok: "list_all committed_ok ms'"
    using assms(5,6) by (auto simp: feeds_def)
  have len: "int (length ms) = lastApplied (node s i)" "int (length ms') = lastApplied (node s j)"
    using streams_indices(2)[OF assms(1,2)] assms(3,4) st by (metis length_map)+
  have "handed n s g as j = handed n s g as i @ drop (length (handed n s g as i)) (handed n s g as j)"
    by (rule server.catch_up) (use assms(1-4,7) len st in \<open>simp add: handed_streams\<close>)
  then have same: "map committed_msg ms = map committed_msg ?ms"
    using assms(1-4) st by (simp add: handed_streams) (metis append_eq_conv_conj length_map take_map)
  obtain kv where kv: "go_fold deliver ms (StartKVServer k x) = Inr kv" using feed_runs[OF assms(1-3,5)] by blast
  have "feeds g i ?ms" using st same ok by (auto simp: feeds_def list_all_iff dest: in_set_takeD)
  then have db: "db kv = fold ?sem ?ms Map.empty"
    using feed_runs[OF assms(1-3), of ?ms k x] kv deliver_same[OF same] by simp
  obtain kv' where kv': "go_fold deliver ms' (StartKVServer l y) = Inr kv'" "db kv' = fold ?sem ms' Map.empty"
    using feed_runs[OF assms(1,2,4,6)] by blast
  have "fold ?sem ms' Map.empty = fold ?sem (drop (length ms) ms') (db kv)"
    unfolding db by (metis append_take_drop_id comp_apply fold_append)
  then show ?thesis using kv kv' len by auto
qed

text \<open>Both servers of \<open>safe_run\<close> have applied the same Put.\<close>

definition run_put :: committed where
  "run_put = (1, ''x:1'', KPut ''k'' ''a'')"

lemma run_feeds:
  "\<exists>s g as. sure_reach 3 s g as \<and> feeds g 0 [run_put] \<and> feeds g 1 [run_put]
     \<and> lastApplied (node s 0) = 1 \<and> lastApplied (node s 1) = 1"
proof -
  obtain s g as where r: "sure_reach 3 s g as" "lastApplied (node s 0) = 1" "logs (node s 0) = [zero_log, run_job]"
    "lastApplied (node s 1) = 1" "logs (node s 1) = [zero_log, run_job]" using safe_run by blast
  have n: "(3::nat) < 2147483648" "(0::nat) < 3" "(1::nat) < 3" by simp_all
  have "apply_msg_of run_job = committed_msg run_put"
    by (simp add: apply_msg_of_def run_job_def run_cmd_def committed_msg_def run_put_def op_json_def put_append_cmd_def op_names separators)
  moreover have "committed_ok run_put" by (simp add: run_put_def committed_ok_def contains_def separators)
  ultimately have "feeds g 0 [run_put]" "feeds g 1 [run_put]"
    using streams_log[OF n(1) r(1) n(2)] streams_log[OF n(1) r(1) n(3)] r(2-5) by (simp_all add: feeds_def)
  with r show ?thesis by blast
qed

theorem kv_replicas_agree_witness:
  "\<exists>s g as kv kv'. sure_reach 3 s g as \<and> feeds g 0 [run_put] \<and> feeds g 1 [run_put]
     \<and> go_fold deliver [run_put] (StartKVServer 0 (-1)) = Inr kv \<and> go_fold deliver [run_put] (StartKVServer 1 (-1)) = Inr kv'
     \<and> db kv ''k'' = Some ''a'' \<and> db kv' = db kv"
proof -
  obtain s g as where r: "sure_reach 3 s g as" and f: "feeds g 0 [run_put]" "feeds g 1 [run_put]"
    and la: "lastApplied (node s 0) = 1" "lastApplied (node s 1) = 1" using run_feeds by blast
  have n: "(3::nat) < 2147483648" "(0::nat) < 3" "(1::nat) < 3" by simp_all
  have "lastApplied (node s 0) \<le> lastApplied (node s 1)" using la by simp
  from kv_replicas_agree[OF n(1) r n(2,3) f this, of 0 "-1" 1 "-1"] obtain kv kv'
    where k: "go_fold deliver [run_put] (StartKVServer 0 (-1)) = Inr kv" "go_fold deliver [run_put] (StartKVServer 1 (-1)) = Inr kv'"
      "db kv' = db kv" using la by auto
  have "db kv = fold (\<lambda>m. kv_sem (snd (snd m))) [run_put] Map.empty"
    using feed_runs[OF n(1) r n(2) f(1), of 0 "-1"] k(1) by simp
  then have "db kv ''k'' = Some ''a''" by (simp add: run_put_def)
  with r f k show ?thesis by blast
qed

end
