(* ===== verification/KvAnswers.thy ===== *)
theory KvAnswers
  imports KvApply Persist
begin

text \<open>
  What the answers of the key/value server mean. The server's steps are one relation, and an
  invariant ties the channels in \<open>kv.ops\<close> to the command log; from it follows that a Put or
  Append is acknowledged only if this server applied it at that index. The rest is about one
  request: the value of a Get, the handshake of a Put, repeated requests.
\<close>

section \<open>Steps\<close>

inductive kv_step :: "raftkv \<Rightarrow> raftkv \<Rightarrow> bool" where
  deliver: "Apply msg ar kv = Inr (kv', ar', errs) \<Longrightarrow> kv_step kv kv'"
| get: "Get st agree gargs gr kv = (kv', p) \<Longrightarrow> kv_step kv kv'"
| get_finish: "Get_finish i gargs gr kv = Inr (kv', gr') \<Longrightarrow> kv_step kv kv'"
| put: "PutAppend st agree pargs pr kv = (kv', p) \<Longrightarrow> kv_step kv kv'"
| put_finish: "PutAppend_finish i pargs pr kv = Inr (kv', pr') \<Longrightarrow> kv_step kv kv'"

inductive kv_reach :: "raftkv \<Rightarrow> bool" where
  start: "kv_reach (StartKVServer i s)"
| step: "kv_reach kv \<Longrightarrow> kv_step kv kv' \<Longrightarrow> kv_reach kv'"

text \<open>What a channel may hold: nothing, or the result of the command applied at its index.\<close>

definition result_of :: "string \<Rightarrow> op_result \<Rightarrow> bool" where
  "result_of cmd r \<longleftrightarrow> Val r = cmd \<or> Val r = '''' \<or> (fst (parseCmd cmd) = GET \<and> (\<exists>v. Val r = cmd @ KeyValueSeparator @ v))"

definition kv_inv :: "raftkv \<Rightarrow> bool" where
  "kv_inv kv \<longleftrightarrow> (\<forall>i c. ops kv i = Some c \<longrightarrow>
     c = [] \<or> (\<exists>r cmd. c = [r] \<and> kv_log kv i = Some cmd \<and> result_of cmd r))"

lemma kv_invD: "kv_inv kv \<Longrightarrow> ops kv i = Some c \<Longrightarrow> c = [] \<or> (\<exists>r cmd. c = [r] \<and> kv_log kv i = Some cmd \<and> result_of cmd r)"
  by (simp add: kv_inv_def)

lemma kv_inv_frame: "kv_inv kv \<Longrightarrow> ops kv' = ops kv \<Longrightarrow> kv_log kv' = kv_log kv \<Longrightarrow> kv_inv kv'"
  by (simp add: kv_inv_def)

lemma kv_inv_make: "kv_inv kv \<Longrightarrow> kv_inv (make_op_chan i kv)"
  by (auto simp: kv_inv_def make_op_chan_def split: option.split)

lemma kv_inv_offer:
  assumes "kv_inv kv" "kv_log kv i = Some cmd" "result_of cmd r"
  shows "kv_inv (offer i r kv)"
proof (cases "ops kv i")
  case None
  with assms(1) show ?thesis by (simp add: offer_def)
next
  case (Some c)
  define c' where "c' = chan_try_send 1 r c"
  have "c' = [] \<or> (\<exists>r'. c' = [r'] \<and> result_of cmd r')"
    using kv_invD[OF assms(1) Some] assms(2,3) by (auto simp: c'_def chan_try_send_cases)
  moreover have "offer i r kv = kv\<lparr>ops := (ops kv)(i \<mapsto> c')\<rparr>" using Some by (simp add: offer_def c'_def)
  ultimately show ?thesis using assms(1,2) unfolding kv_inv_def by auto
qed

lemma kv_inv_log: "kv_inv kv \<Longrightarrow> kv_log kv i = None \<Longrightarrow> kv_inv (kv\<lparr>kv_log := (kv_log kv)(i \<mapsto> cmd), kv_context := ctx\<rparr>)"
  by (fastforce simp: kv_inv_def)

lemma kv_inv_db: "kv_inv (kv\<lparr>db := d\<rparr>) \<longleftrightarrow> kv_inv kv"
  by (simp add: kv_inv_def)

lemma apply_op_inv:
  assumes "kv_inv kv" "kv_log kv i = Some cmd"
  shows "kv_inv (apply_op i cmd kv)"
proof -
  obtain opn val where p: "parseCmd cmd = (opn, val)" by (cases "parseCmd cmd")
  have same: "result_of cmd \<lparr>Val = cmd, Ok = True\<rparr>" "result_of cmd \<lparr>Val = '''', Ok = False\<rparr>"
    and get: "opn = GET \<Longrightarrow> result_of cmd \<lparr>Val = cmd @ KeyValueSeparator @ v, Ok = True\<rparr>" for v
    using p by (auto simp: result_of_def)
  have off: "kv_inv (offer i r (make_op_chan i (kv\<lparr>db := d\<rparr>)))" if "result_of cmd r" for r d
    using assms that by (intro kv_inv_offer[of _ _ cmd] kv_inv_make) (simp_all add: kv_inv_db)
  have off': "kv_inv (offer i r (make_op_chan i kv))" if "result_of cmd r" for r
    using assms that by (intro kv_inv_offer[of _ _ cmd] kv_inv_make) simp_all
  show ?thesis
    using assms(1) off same off' get
    by (auto simp: apply_op_def p Let_def split: prod.split option.split)
qed

lemma take_and_put_same: "take_and_put i kv = Inr (r, kv') \<Longrightarrow> kv_inv kv \<Longrightarrow> kv' = kv"
  by (auto simp: take_and_put_def chan_recv_Inr chan_send_Inr fun_upd_idem split: option.splits dest: kv_invD)

lemma kv_step_inv: "kv_step kv kv' \<Longrightarrow> kv_inv kv \<Longrightarrow> kv_inv kv'"
proof (induction rule: kv_step.induct)
  case (deliver msg ar kv kv' ar' errs)
  then obtain errs where run: "apply_step msg kv = Inr (kv', errs)" by (auto simp: Apply_def)
  show ?case
  proof (cases "\<exists>d. Command msg = GMap d \<and> kv_log kv (msg_Index msg) = None")
    case True
    then obtain cmd ctx where "kv' = apply_op (msg_Index msg) cmd
        (kv\<lparr>kv_log := (kv_log kv)(msg_Index msg \<mapsto> cmd), kv_context := ctx\<rparr>)"
      using run by (auto simp: apply_step_def Let_def)
    then show ?thesis using True deliver(2) by (auto intro!: apply_op_inv kv_inv_log)
  next
    case False
    then show ?thesis
      using run deliver(2) by (auto simp: apply_step_def result_of_def intro!: kv_inv_offer split: gval.splits option.splits)
  qed
next
  case (get st agree gargs gr kv kv' p)
  then show ?case
    by (auto simp: Get_def Let_def intro!: kv_inv_make elim: kv_inv_frame split: option.splits if_splits)
next
  case (get_finish i gargs gr kv kv' gr')
  then show ?case by (auto simp: Get_finish_def split: prod.splits dest: take_and_put_same)
next
  case (put st agree pargs pr kv kv' p)
  then show ?case
    by (auto simp: PutAppend_def Let_def intro!: kv_inv_make elim: kv_inv_frame split: option.splits if_splits)
next
  case (put_finish i pargs pr kv kv' pr')
  then show ?case by (auto simp: PutAppend_finish_def dest: take_and_put_same)
qed

lemma kv_reach_inv: "kv_reach kv \<Longrightarrow> kv_inv kv"
proof (induction rule: kv_reach.induct)
  case (start i s)
  then show ?case by (simp add: kv_inv_def StartKVServer_def)
next
  case (step kv kv')
  then show ?case using kv_step_inv by blast
qed

section \<open>What an OK means\<close>

lemma parse_get_prefix: "fst (parseCmd cmd) = GET \<Longrightarrow> \<exists>rest. cmd = GET @ OPSeparator @ rest"
proof -
  assume g: "fst (parseCmd cmd) = GET"
  have ne: "OPSeparator \<noteq> []" by (simp add: separators)
  show ?thesis
  proof (cases "cut_first OPSeparator cmd")
    case None
    then have "strings_Split OPSeparator cmd = [cmd]" using Split_none[OF ne] by (simp add: contains_def)
    with g show ?thesis by (simp add: parseCmd_def op_names)
  next
    case (Some p)
    obtain a b where p: "p = (a, b)" by (cases p)
    have "length (strings_Split OPSeparator cmd) \<ge> 2"
      using Split_cut[OF ne] Some p strings_Split_nonempty[OF ne, of b]
      by (cases "strings_Split OPSeparator b") auto
    then have "a = GET" using g Split_cut[OF ne] Some p strings_Split_nonempty[OF ne, of b]
      by (simp add: parseCmd_def Let_def)
    then show ?thesis using cut_first_Some Some p by blast
  qed
qed

lemma result_of_put:
  assumes "result_of cmd r" "Val r = put_append_cmd op k v" "op \<in> {PUT, APPEND}"
  shows "cmd = put_append_cmd op k v"
  using assms parse_get_prefix[of cmd]
  by (auto simp: result_of_def put_append_cmd_def op_names separators)

text \<open>A Put or Append is acknowledged only if it was applied: whatever the server did before, if
  the request's second phase answers OK for index i, this server has executed exactly that
  command at index i.\<close>
lemma ok_means_applied:
  assumes "kv_reach kv" "PutAppend_finish i args zero_put_append_reply kv = Inr (kv', r)"
    and "par_Err r = ErrOK" "op_Cmd (pa_Op args) = put_append_cmd op k v" "op \<in> {PUT, APPEND}"
  shows "kv_log kv i = Some (put_append_cmd op k v)"
proof -
  obtain re kv1 where tp: "take_and_put i kv = Inr (re, kv1)"
    and r: "Ok re \<and> Val re = op_Cmd (pa_Op args)"
    using assms(2,3) by (auto simp: PutAppend_finish_def zero_put_append_reply_def ErrOK_def ErrNoKey_def split: if_splits)
  from tp obtain c where "ops kv i = Some c" "c \<noteq> []" "hd c = re"
    by (auto simp: take_and_put_def chan_recv_Inr split: option.splits)
  then obtain cmd where "kv_log kv i = Some cmd" "result_of cmd re"
    using kv_invD[OF kv_reach_inv[OF assms(1)]] by fastforce
  then show ?thesis using result_of_put r assms(4,5) by auto
qed

definition ex_put :: put_append_args where
  "ex_put = \<lparr>pa_Op = \<lparr>ContextId = ''x:1'', op_Cmd = ''Put:::k<<>>a''\<rparr>, pa_OK = False, Tries = 1, pa_Idx = 1\<rparr>"

definition ex_server :: raftkv where
  "ex_server = (StartKVServer 0 (-1))\<lparr>kv_log := [1 \<mapsto> ''Put:::k<<>>a''], kv_context := [''x:1'' \<mapsto> 1],
     db := [''k'' \<mapsto> ''a''], ops := [1 \<mapsto> [\<lparr>Val = ''Put:::k<<>>a'', Ok = True\<rparr>]]\<rparr>"

lemma ex_put_cmd: "''Put:::k<<>>a'' = render (KPut ''k'' ''a'')"
  by (simp add: put_append_cmd_def op_names separators)

lemma ex_deliver: "deliver (1, ''x:1'', KPut ''k'' ''a'') (StartKVServer 0 (-1)) = Inr ex_server"
proof -
  have "clean (KPut ''k'' ''a'')" by (simp add: contains_def separators)
  then show ?thesis using clean_parse(1)[of "''k''" "''a''" PUT] clean_parse(2)[of "''k''" "''a''"]
    by (simp add: deliver_eq apply_op_def StartKVServer_def make_op_chan_def offer_def chan_try_send_cases ex_server_def)
       (simp add: put_append_cmd_def op_names separators)
qed

lemma ex_server_reach: "kv_reach ex_server"
proof -
  have "\<exists>ar errs. Apply (committed_msg (1, ''x:1'', KPut ''k'' ''a'')) \<lparr>apply_Ok = False\<rparr> (StartKVServer 0 (-1)) = Inr (ex_server, ar, errs)"
    using ex_deliver by (auto simp: deliver_def Apply_def)
  then show ?thesis using kv_reach.step[OF kv_reach.start kv_step.deliver] by blast
qed

lemma ok_means_applied_run:
  "\<exists>r. PutAppend_finish 1 ex_put zero_put_append_reply ex_server = Inr (ex_server, r) \<and> par_Err r = ErrOK
     \<and> kv_log ex_server 1 = Some (put_append_cmd PUT ''k'' ''a'')"
proof -
  have run: "PutAppend_finish 1 ex_put zero_put_append_reply ex_server
      = Inr (ex_server, zero_put_append_reply\<lparr>par_Err := ErrOK\<rparr>)"
    by (simp add: PutAppend_finish_def take_and_put_def ex_server_def ex_put_def chan_send_def fun_upd_idem)
  have "kv_log ex_server 1 = Some (put_append_cmd PUT ''k'' ''a'')"
    by (rule ok_means_applied[OF ex_server_reach run]) (simp_all add: ex_put_def ex_put_cmd)
  with run show ?thesis by simp
qed

section \<open>The value of a Get\<close>

text \<open>A Get that waits for index i is answered, once the command is applied there, with the
  database as of that index: the value of its key (up to the first separator inside the value),
  or ErrNoKey; asking again gives the same answer.\<close>
lemma get_linearizes:
  assumes "clean (KGet k)" "kv_log kv i = None" "ops kv i = Some []"
    and "get_Op args = \<lparr>ContextId = ctx, op_Cmd = get_cmd k\<rparr>"
    and "deliver (i, ctx, KGet k) kv = Inr kv'"
  shows "Get_finish i args reply kv' = Inr (kv', case db kv k of
       Some v \<Rightarrow> reply\<lparr>Value := hd (strings_Split KeyValueSeparator v), gr_Err := ErrOK\<rparr>
     | None \<Rightarrow> reply\<lparr>gr_Err := ErrNoKey\<rparr>)"
proof -
  define r where "r = (case db kv k of Some v \<Rightarrow> \<lparr>Val = get_cmd k @ KeyValueSeparator @ v, Ok = True\<rparr>
    | None \<Rightarrow> \<lparr>Val = [], Ok = False\<rparr>)"
  have "ops kv' i = Some [r]"
    using assms clean_parse(3)[OF assms(1)]
    by (auto simp: deliver_eq apply_op_def op_names make_op_chan_def offer_def chan_try_send_cases r_def split: option.splits)
  then have "take_and_put i kv' = Inr (r, kv')"
    by (simp add: take_and_put_def chan_send_def fun_upd_idem)
  moreover have "\<not> contains KeyValueSeparator (get_cmd k)"
    using assms(1) by (auto simp: get_cmd_def contains_def separators)
  then have "splitPutAppendCmd (Val r) = (case db kv k of Some v \<Rightarrow> (get_cmd k, hd (strings_Split KeyValueSeparator v)) | None \<Rightarrow> ([], []))"
    using split_kv_first[of "get_cmd k"]
    by (auto simp: r_def splitPutAppendCmd_def Split_none contains_def separators split: option.split)
  ultimately show ?thesis
    by (auto simp: Get_finish_def assms(4) get_cmd_def split: option.split)
qed

definition ex_get :: get_args where
  "ex_get = \<lparr>Key = [], get_Op = \<lparr>ContextId = ''x:2'', op_Cmd = get_cmd ''k''\<rparr>\<rparr>"

lemma get_linearizes_run:
  "\<exists>kv'. deliver (2, ''x:2'', KGet ''k'') (make_op_chan 2 ex_server) = Inr kv'
     \<and> Get_finish 2 ex_get zero_get_reply kv' = Inr (kv', \<lparr>gr_WrongLeader = False, gr_Err = ErrOK, Value = ''a''\<rparr>)"
proof -
  let ?kv = "make_op_chan 2 ex_server"
  have c: "clean (KGet ''k'')" by (simp add: contains_def separators)
  obtain kv' where d: "deliver (2, ''x:2'', KGet ''k'') ?kv = Inr kv'" by (simp add: deliver_eq)
  have "kv_log ?kv 2 = None" "ops ?kv 2 = Some []" "db ?kv ''k'' = Some ''a''"
    by (simp_all add: ex_server_def make_op_chan_def)
  from get_linearizes[OF c this(1,2) _ d, of ex_get zero_get_reply] this(3) d show ?thesis
    by (auto simp: ex_get_def zero_get_reply_def Split_none contains_def separators)
qed

section \<open>The handshake of a Put\<close>

text \<open>On a leader, the first request of an operation starts one agreement and is answered OK with
  index 0; from then on, whatever Raft would answer, the same request starts no other agreement,
  changes nothing and is answered with the index of the first one.\<close>
lemma put_handshake:
  assumes "st_IsLeader st" "pa_Idx args = 0"
    and "kv_context kv (ContextId (pa_Op args)) = None"
    and "agree \<lparr>agree_Cmd = op_json (pa_Op args)\<rparr> = Some ar"
  shows "\<exists>kv1. PutAppend (Some st) agree args zero_put_append_reply kv
        = (kv1, Done (zero_put_append_reply\<lparr>par_Err := ErrOK\<rparr>))
    \<and> (\<forall>agree'. PutAppend (Some st) agree' args zero_put_append_reply kv1
        = (kv1, Done (zero_put_append_reply\<lparr>par_Err := ErrOK, par_Idx := ag_Index ar\<rparr>)))
    \<and> db kv1 = db kv \<and> kv_log kv1 = kv_log kv"
  using assms by (simp add: PutAppend_def zero_put_append_reply_def)

definition ex_agree :: "int \<Rightarrow> agree_args \<Rightarrow> agree_reply option" where
  "ex_agree i a = Some \<lparr>ag_Term = 1, ag_Index = i, ag_IsLeader = True\<rparr>"

lemma put_handshake_run:
  "\<exists>kv1. PutAppend (Some \<lparr>st_Term = 1, st_IsLeader = True\<rparr>) (ex_agree 7) (ex_put\<lparr>pa_Idx := 0\<rparr>)
       zero_put_append_reply (StartKVServer 0 (-1))
     = (kv1, Done (zero_put_append_reply\<lparr>par_Err := ErrOK\<rparr>))"
  using put_handshake[of "\<lparr>st_Term = 1, st_IsLeader = True\<rparr>" "ex_put\<lparr>pa_Idx := 0\<rparr>" "StartKVServer 0 (-1)" "ex_agree 7"]
  by (auto simp: StartKVServer_def ex_agree_def)

section \<open>Where the code falls short\<close>

text \<open>A value that contains the operation separator is cut there.\<close>

theorem put_value_truncated:
  "db (apply_op 1 (put_append_cmd PUT ''k'' ''a:::b'') (StartKVServer 0 (-1))) ''k'' = Some ''a''"
proof -
  have "parseCmd (put_append_cmd PUT ''k'' ''a:::b'') = (PUT, ''k<<>>a'')"
    by (simp add: parseCmd_def put_append_cmd_def op_names separators strings_Split.simps)
  moreover have "splitPutAppendCmd ''k<<>>a'' = (''k'', ''a'')"
    by (simp add: splitPutAppendCmd_def separators strings_Split.simps)
  ultimately show ?thesis by (simp add: apply_op_def Let_def)
qed

text \<open>Commands are not recognised by their context id when they are applied: an Append that Raft
  accepted twice, as a client that changes leaders can make it do, is executed twice.\<close>

theorem append_twice:
  "\<exists>kv'. go_fold deliver [(1, ''x:1'', KAppend ''k'' ''a''), (2, ''x:1'', KAppend ''k'' ''a'')] (StartKVServer 0 (-1)) = Inr kv'
     \<and> db kv' ''k'' = Some ''aa''"
proof -
  have "\<forall>m \<in> set [(1, ''x:1'', KAppend ''k'' ''a''), (2, ''x:1'', KAppend ''k'' ''a'')]. committed_ok m"
    by (simp add: committed_ok_def contains_def separators)
  from kv.run_refines[OF this, of "StartKVServer 0 (-1)"] show ?thesis
    by (auto simp: StartKVServer_def)
qed

text \<open>Raft answers \<open>Agree\<close> with index 0 when it has lost the leadership. The handler does not look at
  \<open>IsLeader\<close> there, and remembers 0: from then on the request is answered OK with index 0.\<close>

lemma put_lost_leadership:
  assumes "st_IsLeader st" "pa_Idx args = 0" "kv_context kv (ContextId (pa_Op args)) = None"
    and "agree \<lparr>agree_Cmd = op_json (pa_Op args)\<rparr> = Some zero_agree_reply"
  shows "\<exists>kv1. PutAppend (Some st) agree args zero_put_append_reply kv
        = (kv1, Done (zero_put_append_reply\<lparr>par_Err := ErrOK\<rparr>))
    \<and> (\<forall>agree'. PutAppend (Some st) agree' args zero_put_append_reply kv1
        = (kv1, Done (zero_put_append_reply\<lparr>par_Err := ErrOK\<rparr>)))"
  using assms by (simp add: PutAppend_def zero_put_append_reply_def)

text \<open>An operation is a JSON object in the Raft log, which \<open>encoding/gob\<close> refuses.\<close>

lemma op_json_not_registered: "\<not> gob_registered (op_json o')"
  by (simp add: op_json_def)

end
