(* ===== verification/Linearizable.thy ===== *)
theory Linearizable
  imports Replicas KvAnswers
begin

text \<open>
  What a client may conclude from an answer, across the cluster: each key/value server executes
  what its Raft server hands it while it answers requests, in any order of the two; in a run that
  keeps the conditions of state machine safety, a Put or Append answered OK by one server is
  executed at the same place by every server that gets there, and a Get is answered from the state
  that the common sequence of commands has there.
\<close>

section \<open>A key/value server at work\<close>










section \<open>In a cluster\<close>










section \<open>A run\<close>





end
