(* ===== verification/RaftSessions.thy ===== *)
theory RaftSessions
  imports RaftProgress
begin

text \<open>
  One command after the other. \<open>steady\<close> is a leader that has committed its log and has nothing under
  way, half of the other servers, which it can repair, and the rest, whose connections are there
  but whose calls fail. After a command has been committed the senders take what is left in their
  channels (\<open>deliver_pending\<close>, \<open>lose_pending\<close>), and the cluster is steady again, so the
  leader commits any number of commands.
\<close>

section \<open>The senders empty their channels\<close>

text \<open>A message to a server that answers, and one whose call fails.\<close>

fun deliver_pending :: "nat list \<Rightarrow> raft \<times> (nat \<Rightarrow> raft) \<Rightarrow> (raft \<times> (nat \<Rightarrow> raft)) go" where
  "deliver_pending [] LF = Inr LF"
| "deliver_pending (s # ss) (L, Fs) =
     (if rdyChnl L ! s = [] then deliver_pending ss (L, Fs)
      else go_bind (exchange s (L, Fs s)) (\<lambda>(_, L, F). deliver_pending ss (L, Fs(s := F))))"

fun lose_pending :: "nat list \<Rightarrow> raft \<Rightarrow> raft go" where
  "lose_pending [] L = Inr L"
| "lose_pending (d # ds) L =
     (if rdyChnl L ! d = [] then lose_pending ds L
      else go_bind (peer_send False d L) (\<lambda>(L, _). lose_pending ds L))"

definition emptied :: "nat list \<Rightarrow> 'a list list \<Rightarrow> 'a list list" where
  "emptied is chs = map (\<lambda>i. if i \<in> set is then [] else chs ! i) [0..<length chs]"

lemma emptied_simps [simp]:
  "length (emptied is chs) = length chs"
  "i < length chs \<Longrightarrow> emptied is chs ! i = (if i \<in> set is then [] else chs ! i)"
  "emptied [] chs = chs"
  by (simp_all add: emptied_def map_nth)

lemma emptied_Cons:
  "emptied is (chs[s := []]) = emptied (s # is) chs"
  "chs ! s = [] \<Longrightarrow> emptied (s # is) chs = emptied is chs"
  by (auto simp: emptied_def nth_list_update)

lemma leads_rdyChnl:
  "leads t L \<Longrightarrow> length chs = n_peers L \<Longrightarrow> chs ! t = [] \<or> chs ! t = rdyChnl L ! t \<Longrightarrow> leads t (L\<lparr>rdyChnl := chs\<rparr>)"
  by (elim disjE) (simp_all add: leads_def queued_def)

lemma leads_emptied: "leads t L \<Longrightarrow> leads t (L\<lparr>rdyChnl := emptied is (rdyChnl L)\<rparr>)"
  by (rule leads_rdyChnl) (auto simp: leads_def)

lemma leads_taken: "leads t L \<Longrightarrow> leads t (L\<lparr>rdyChnl := (rdyChnl L)[s := []]\<rparr>)"
  by (rule leads_rdyChnl) (cases "t = s"; simp add: leads_def)+

text \<open>The leader knows that each of \<open>ss\<close> has its log.\<close>

definition known :: "nat list \<Rightarrow> raft \<Rightarrow> bool" where
  "known ss L \<longleftrightarrow> (\<forall>s \<in> set ss. leads s L \<and> nextIndex L ! s = end_of L + 1 \<and> matchIndex L ! s = end_of L)"

lemma exchange_pending:
  assumes L: "leads s L" "nextIndex L ! s = end_of L + 1" "matchIndex L ! s = end_of L" "rdyChnl L ! s \<noteq> []" and F: "at_end L F"
  shows "\<exists>F'. exchange s (L, F) = Inr (True, L\<lparr>rdyChnl := (rdyChnl L)[s := []]\<rparr>, F') \<and> at_end L F'"
proof -
  have inv: "repair_inv s L F" using L(1) F by (simp add: repair_inv_def at_end_def)
  show ?thesis
  proof (rule exchange_cases[OF inv sender_sends[OF L(1,4)]])
    fix F' assume r: "exchange s (L, F) = Inr (True, acked s (int (length (logs F')) - 1) (L\<lparr>rdyChnl := (rdyChnl L)[s := []]\<rparr>), F')"
      "ready (currentTerm L) F'" "accepted_round s L F F'"
    note at = at_end_accepts(2)[OF L(1) F r(3,2)]
    have "i32 (end_of L + 1) = end_of L + 1" using L(1) by (auto simp: leads_def intro!: i32_small)
    then have "(nextIndex L)[s := i32 (end_of L + 1)] = nextIndex L" using L(2) by (metis list_update_id)
    then have "acked s (end_of L) (L\<lparr>rdyChnl := (rdyChnl L)[s := []]\<rparr>) = L\<lparr>rdyChnl := (rdyChnl L)[s := []]\<rparr>"
      using L(3) by (simp add: acked_def)
    with r(1) at show ?thesis by simp
  next
    fix m F' assume "refused_round s L F m F'"
    then show ?thesis using at_end_accepts(1)[OF L(1) F] by blast
  qed
qed

lemma deliver_pending_runs:
  assumes "known ss L" "distinct ss" "\<forall>s \<in> set ss. at_end L (Fs s)"
  shows "\<exists>Fs'. deliver_pending ss (L, Fs) = Inr (L\<lparr>rdyChnl := emptied ss (rdyChnl L)\<rparr>, Fs') \<and> (\<forall>s \<in> set ss. at_end L (Fs' s))
    \<and> (\<forall>s. s \<notin> set ss \<longrightarrow> Fs' s = Fs s)"
  using assms
proof (induction ss arbitrary: L Fs)
  case Nil
  then show ?case by simp
next
  case (Cons s ss)
  show ?case
  proof (cases "rdyChnl L ! s = []")
    case True
    have "known ss L" "distinct ss" "\<forall>t \<in> set ss. at_end L (Fs t)" using Cons.prems by (simp_all add: known_def)
    from Cons.IH[OF this] obtain Fs' where "deliver_pending ss (L, Fs) = Inr (L\<lparr>rdyChnl := emptied ss (rdyChnl L)\<rparr>, Fs')"
      "\<forall>t \<in> set ss. at_end L (Fs' t)" "\<forall>t. t \<notin> set ss \<longrightarrow> Fs' t = Fs t" by blast
    with True Cons.prems(2,3) show ?thesis by (intro exI[of _ Fs']) (auto simp: emptied_Cons)
  next
    case False
    let ?L = "L\<lparr>rdyChnl := (rdyChnl L)[s := []]\<rparr>"
    have s: "leads s L" "nextIndex L ! s = end_of L + 1" "matchIndex L ! s = end_of L" "at_end L (Fs s)"
      using Cons.prems by (simp_all add: known_def)
    obtain F where F: "exchange s (L, Fs s) = Inr (True, ?L, F)" "at_end L F" using exchange_pending[OF s(1-3) False s(4)] by blast
    have "known ss ?L" using Cons.prems(1) by (simp add: known_def leads_taken)
    moreover have "distinct ss" "\<forall>t \<in> set ss. at_end ?L ((Fs(s := F)) t)" using Cons.prems(2,3) by (auto simp: at_end_def)
    ultimately obtain Fs' where "deliver_pending ss (?L, Fs(s := F)) = Inr (?L\<lparr>rdyChnl := emptied ss (rdyChnl ?L)\<rparr>, Fs')"
      "\<forall>t \<in> set ss. at_end ?L (Fs' t)" "\<forall>t. t \<notin> set ss \<longrightarrow> Fs' t = (Fs(s := F)) t" using Cons.IH by blast
    with F False Cons.prems(2) show ?thesis by (intro exI[of _ Fs']) (auto simp: emptied_Cons at_end_def)
  qed
qed

lemma lose_pending_runs:
  assumes "\<forall>d \<in> set ds. leads d L"
  shows "lose_pending ds L = Inr (L\<lparr>rdyChnl := emptied ds (rdyChnl L)\<rparr>)"
  using assms
proof (induction ds arbitrary: L)
  case Nil
  then show ?case by simp
next
  case (Cons d ds)
  show ?case
  proof (cases "rdyChnl L ! d = []")
    case True
    with Cons show ?thesis by (simp add: emptied_Cons)
  next
    case False
    let ?L = "L\<lparr>rdyChnl := (rdyChnl L)[d := []]\<rparr>"
    have "lose_pending ds ?L = Inr (?L\<lparr>rdyChnl := emptied ds (rdyChnl ?L)\<rparr>)"
      using Cons.IH[of ?L] Cons.prems by (simp add: leads_taken)
    moreover have "leads d L" using Cons.prems by simp
    ultimately show ?thesis using sender_sends[OF _ False] False by (simp add: emptied_Cons)
  qed
qed

section \<open>A steady cluster\<close>

definition steady :: "nat \<Rightarrow> nat list \<Rightarrow> nat list \<Rightarrow> raft \<Rightarrow> (nat \<Rightarrow> raft) \<Rightarrow> bool" where
  "steady p ss ds L Fs \<longleftrightarrow> idle_leader L \<and> commitIdx L = end_of L \<and> (\<forall>j > end_of L. commitTracker L j = None)
     \<and> ss \<noteq> [] \<and> distinct ss \<and> length ss = n_peers L div 2 \<and> n_peers L < 2147483648
     \<and> set ss \<inter> set ds = {} \<and> (\<forall>i < n_peers L. int i \<noteq> me L \<longrightarrow> i \<in> set ss \<union> set ds)
     \<and> (\<forall>s \<in> set ss. idle_peer p L s (Fs s)) \<and> (\<forall>d \<in> set ds. leads d L \<and> rdyChnl L ! d = [])"

definition commit_round :: "nat \<Rightarrow> nat list \<Rightarrow> nat list \<Rightarrow> raft \<times> (nat \<Rightarrow> raft) \<Rightarrow> (raft \<times> (nat \<Rightarrow> raft) \<times> effect list) go" where
  "commit_round p ss ds LF =
     go_bind (gather p ss LF) (\<lambda>(L, Fs, out).
     go_bind (deliver_pending ss (L, Fs)) (\<lambda>(L, Fs).
     go_bind (lose_pending ds L) (\<lambda>L. Inr (L, Fs, out))))"

lemma caught_up_log:
  assumes "caught_up ls F"
  shows "length (logs F) = length ls" "log_matching ls (logs F)"
proof -
  have ids: "map entry_id (logs F) = map entry_id ls" using assms by (simp add: caught_up_def)
  show len: "length (logs F) = length ls" using map_eq_imp_length_eq[OF ids] .
  have "Term (logs F ! i) = Term (ls ! i)" if "i < length ls" for i
    using arg_cong[OF ids, of "\<lambda>xs. xs ! i"] that len by (simp add: entry_id_def)
  then show "log_matching ls (logs F)" using len by (simp add: log_matching_def)
qed

text \<open>A command on a steady cluster is committed and alone handed over, and the cluster is steady again.\<close>

lemma steady_gather:
  assumes "steady p ss ds L Fs"
  shows "\<exists>L' Fs' out. gather p ss (dispatched cmd L, Fs) = Inr (L', Fs', out) \<and> commits_end (dispatched cmd L) L' out
    \<and> served_all ss (dispatched cmd L) L' \<and> commitIdxChnl L' = [] \<and> (\<forall>s \<in> set ss. at_end (dispatched cmd L) (Fs' s))"
proof -
  let ?L = "dispatched cmd L"
  have L: "idle_leader L" "commitIdx L = end_of L" "ss \<noteq> []" "distinct ss" "length ss = n_peers L div 2"
    "n_peers L < 2147483648" and F: "\<forall>s \<in> set ss. idle_peer p L s (Fs s)"
    using assms by (auto simp: steady_def)
  have c: "0 \<le> commitIdx L" "commitIdxChnl L = []" "commitTracker L (end_of L + 1) = None"
    using L(1) by (auto simp: idle_leader_def)
  have "collecting ?L" "acks ?L (end_of ?L) + int (length ss) = int (n_peers ?L div 2)"
    using L c by (simp_all add: collecting_def acks_def dispatched_fields)
  moreover have "\<forall>s \<in> set ss. reachable_peer p ?L s (Fs s)" using dispatched_reachable[OF L(1)] F by blast
  ultimately show ?thesis using gather_commits[OF L(3,4)] by blast
qed

lemma steady_again:
  assumes st: "steady p ss ds L Fs" and room: "length (logs L) + 1 \<le> p" "length (logs L) + 1 < 2147483646"
    and c: "commits_end (dispatched cmd L) L' out" and s: "served_all ss (dispatched cmd L) L'" and ch: "commitIdxChnl L' = []"
    and at: "\<forall>s \<in> set ss. at_end (dispatched cmd L) (Fs' s)"
  shows "steady p ss ds (L'\<lparr>rdyChnl := emptied (ss @ ds) (rdyChnl L')\<rparr>) Fs'"
proof -
  let ?L = "L'\<lparr>rdyChnl := emptied (ss @ ds) (rdyChnl L')\<rparr>"
  have L: "idle_leader L" "\<forall>j > end_of L. commitTracker L j = None" "ss \<noteq> []" "set ss \<inter> set ds = {}"
    and ds: "\<forall>d \<in> set ds. leads d L \<and> rdyChnl L ! d = []" using st by (auto simp: steady_def)
  have f: "logs L' = logs L @ [new_entry cmd L]" "n_peers L' = n_peers L" "me L' = me L" "currentTerm L' = currentTerm L"
    "logidx L' = end_of L + 1" "jobsChnl L' = []" "\<forall>j. j \<noteq> end_of L + 1 \<longrightarrow> commitTracker L' j = commitTracker L j"
    using s L(1) by (simp_all add: served_all_def dispatched_fields idle_leader_def) (simp_all add: dispatched_def)
  have lead: "leads t L'" if "t \<in> set ss \<union> set ds" for t
    using that s L(4) dispatched_leads[OF L(1)] ds by (auto simp: served_all_def)
  have emp: "rdyChnl ?L ! t = []" "leads t ?L" if "t \<in> set ss \<union> set ds" for t
    using lead[OF that] that leads_emptied[OF lead[OF that]] by (auto simp: leads_def)
  obtain t where "t \<in> set ss" using L(3) by (cases ss) auto
  with lead have t: "leads t L'" by blast
  have "rdy_room ?L"
    using st t emp(1) f unfolding rdy_room_def steady_def by (auto simp: leads_def MAX_LOGS_def)
  moreover have e: "commitIdx L' = end_of L + 1" using c by (simp add: commits_end_def dispatched_fields)
  ultimately have "idle_leader ?L"
    using t L(1,2) f room(2) ch by (simp add: idle_leader_def leads_def)
  moreover have "idle_peer p ?L u (Fs' u)" if "u \<in> set ss" for u
  proof -
    have u: "ready (currentTerm ?L) (Fs' u)" "caught_up (logs ?L) (Fs' u)" "commitIdx (Fs' u) = lastApplied (Fs' u)"
      using at that f by (auto simp: at_end_def dispatched_fields)
    moreover have "nextIndex ?L ! u \<le> int p" "matchIndex ?L ! u \<le> end_of ?L"
      using s that room(1) f by (auto simp: served_all_def dispatched_fields)
    ultimately show ?thesis
      using emp[of u] that caught_up_log[OF u(2)] by (simp add: idle_peer_def repair_inv_def)
  qed
  ultimately show ?thesis
    using st emp f e L(2) unfolding steady_def by auto
qed

lemma steady_command:
  assumes "steady p ss ds L Fs" "length (logs L) + 1 \<le> p" "length (logs L) + 1 < 2147483646"
  shows "\<exists>L' Fs' out. commit_round p ss ds (dispatched cmd L, Fs) = Inr (L', Fs', out) \<and> logs L' = logs L @ [new_entry cmd L]
    \<and> currentTerm L' = currentTerm L \<and> applied out = [apply_msg_of (new_entry cmd L)] \<and> steady p ss ds L' Fs'
    \<and> (\<forall>s \<in> set ss. map entry_id (logs (Fs' s)) = map entry_id (logs L'))"
proof -
  let ?L = "dispatched cmd L"
  obtain L1 Fs1 out where g: "gather p ss (?L, Fs) = Inr (L1, Fs1, out)" "commits_end ?L L1 out" "served_all ss ?L L1"
    "commitIdxChnl L1 = []" "\<forall>s \<in> set ss. at_end ?L (Fs1 s)"
    using steady_gather[OF assms(1), of cmd] by (elim exE conjE) (rule that)
  have f: "logs L1 = logs ?L" "currentTerm L1 = currentTerm ?L" and k: "known ss L1"
    using g(3) by (simp_all add: served_all_def known_def)
  have "\<forall>s \<in> set ss. at_end L1 (Fs1 s)" "distinct ss" using g(5) f assms(1) by (auto simp: at_end_def steady_def)
  from deliver_pending_runs[OF k this(2,1)] obtain Fs' where
    d: "deliver_pending ss (L1, Fs1) = Inr (L1\<lparr>rdyChnl := emptied ss (rdyChnl L1)\<rparr>, Fs')" "\<forall>s \<in> set ss. at_end L1 (Fs' s)"
    by blast
  let ?L2 = "L1\<lparr>rdyChnl := emptied ss (rdyChnl L1)\<rparr>" and ?L3 = "L1\<lparr>rdyChnl := emptied (ss @ ds) (rdyChnl L1)\<rparr>"
  have "leads d L1" if "d \<in> set ds" for d
    using that g(3) assms(1) dispatched_leads[of L d cmd] by (auto simp: served_all_def steady_def)
  then have "lose_pending ds ?L2 = Inr (?L2\<lparr>rdyChnl := emptied ds (rdyChnl ?L2)\<rparr>)"
    by (intro lose_pending_runs) (simp add: leads_emptied)
  moreover have "emptied ds (emptied ss (rdyChnl L1)) = emptied (ss @ ds) (rdyChnl L1)"
    by (auto simp: emptied_def)
  ultimately have r: "commit_round p ss ds (?L, Fs) = Inr (?L3, Fs', out)"
    by (simp add: commit_round_def g(1) d(1))
  have at: "\<forall>s \<in> set ss. at_end ?L (Fs' s)" using d(2) f by (simp add: at_end_def)
  have "applied out = [apply_msg_of (new_entry cmd L)]"
    using g(2) assms(1) by (simp add: commits_end_def dispatched_fields steady_def)
  then show ?thesis
    using r f d(2) steady_again[OF assms g(2-4) at]
    by (intro exI[of _ ?L3] exI[of _ Fs'] exI[of _ out]) (auto simp: at_end_def caught_up_def dispatched_fields)
qed

end
