(* ===== verification/Clerk.thy ===== *)
theory Clerk
  imports KvAnswers
begin

text \<open>
  The client (\<open>raftclient/client/client.go\<close>): a clerk that looks for the leader among the
  servers and repeats its request until it is answered. The servers behind \<open>Call\<close> are an
  interface: a function from the server's number, the request and the state of the world to
  the answer (\<open>ok\<close> and the reply) and the new state. The loops \<open>for { ... }\<close> have no bound in
  the code; here they take fuel, one unit per iteration, and \<open>None\<close> means that it ran out, so
  that finishing is something to prove.
\<close>

section \<open>Context ids\<close>

definition CONTEXTSEPARATOR :: string where "CONTEXTSEPARATOR = '':''"

text \<open>\<open>randInt\<close> stands for \<open>rand.Int\<close> on the system's random source; its documentation promises a
  number from 0 up to but not including its argument.\<close>

definition nrand :: "(int \<Rightarrow> int) \<Rightarrow> int" where
  "nrand randInt = randInt (push_bit 62 1)"

definition put_context :: "int \<Rightarrow> int \<Rightarrow> string" where
  "put_context r1 r2 = FormatInt r1 36 @ CONTEXTSEPARATOR @ FormatInt r2 36"

definition get_context :: "int \<Rightarrow> int \<Rightarrow> string" where
  "get_context r1 r2 = FormatInt r1 36 @ CONTEXTSEPARATOR @ FormatInt r2 12"

section \<open>The clerk's loops\<close>

type_synonym ('a, 'r, 's) call = "nat \<Rightarrow> 'a \<Rightarrow> 's \<Rightarrow> (bool \<times> 'r) \<times> 's"

text \<open>What a loop body does: return a value, or go on.\<close>

datatype 'a loop = Return 'a | Next

definition MakeClerk :: int where "MakeClerk = -1"

text \<open>The treatment of a reply by \<open>PutAppend\<close>, the same on both paths.\<close>

definition on_put_reply :: "put_append_reply \<Rightarrow> put_append_args \<Rightarrow> put_append_args \<times> unit loop" where
  "on_put_reply reply args =
     (if par_Err reply = ErrOK then
        if pa_Idx args > 0 then (args, Return ())
        else let args = (if pa_Idx args < par_Idx reply then args\<lparr>pa_Idx := par_Idx reply\<rparr> else args)
             in (args\<lparr>Tries := 1\<rparr>, Next)
      else if pa_Idx args > 0 \<and> par_Err reply = ErrNoKey then (args\<lparr>Tries := 0, pa_Idx := 0\<rparr>, Next)
      else (args, Next))"

text \<open>The inner loop over the servers, from number \<open>i\<close> on.\<close>

fun put_scan :: "(put_append_args, put_append_reply, 's) call \<Rightarrow> nat list \<Rightarrow> int \<Rightarrow> put_append_args \<Rightarrow> 's \<Rightarrow>
    (int \<times> put_append_args \<times> 's) \<times> unit loop" where
  "put_scan call [] lastLeader args s = ((lastLeader, args, s), Next)"
| "put_scan call (i # is) lastLeader args s =
     (let ((ok, reply), s) = call i args s in
      if \<not> ok \<or> par_WrongLeader reply then put_scan call is lastLeader args s
      else let (args, r) = on_put_reply reply args in ((int i, args, s), r))"

definition put_iter :: "(put_append_args, put_append_reply, 's) call \<Rightarrow> nat \<Rightarrow> int \<times> put_append_args \<times> 's \<Rightarrow>
    (int \<times> put_append_args \<times> 's) \<times> unit loop" where
  "put_iter call n st =
     (let (lastLeader, args, s) = st in
      if lastLeader < 0 then put_scan call [0..<n] lastLeader args s
      else let ((ok, reply), s) = call (nat lastLeader) args s in
        if \<not> ok \<or> par_WrongLeader reply
        then ((if par_WrongLeader reply then -1 else lastLeader, args, s), Next)
        else let (args, r) = on_put_reply reply args in ((lastLeader, args, s), r))"

fun put_loop :: "(put_append_args, put_append_reply, 's) call \<Rightarrow> nat \<Rightarrow> nat \<Rightarrow> int \<times> put_append_args \<times> 's \<Rightarrow>
    (int \<times> 's) option" where
  "put_loop call n 0 st = None"
| "put_loop call n (Suc fuel) st =
     (case put_iter call n st of
        ((lastLeader, args, s), Return _) \<Rightarrow> Some (lastLeader, s)
      | (st, Next) \<Rightarrow> put_loop call n fuel st)"

definition put_args :: "string \<Rightarrow> string \<Rightarrow> string \<Rightarrow> string \<Rightarrow> put_append_args" where
  "put_args ctx op key val =
     \<lparr>pa_Op = \<lparr>ContextId = ctx, op_Cmd = put_append_cmd op key val\<rparr>, pa_OK = False, Tries = 0, pa_Idx = 0\<rparr>"

text \<open>\<open>Clerk.PutAppend\<close>: the new \<open>lastLeader\<close> and the state of the servers.\<close>

definition clerk_PutAppend :: "(put_append_args, put_append_reply, 's) call \<Rightarrow> nat \<Rightarrow> nat \<Rightarrow> int \<times> int \<Rightarrow>
    string \<Rightarrow> string \<Rightarrow> string \<Rightarrow> int \<Rightarrow> 's \<Rightarrow> (int \<times> 's) option" where
  "clerk_PutAppend call n fuel rs op key val lastLeader s =
     (if op \<noteq> ''Put'' \<and> op \<noteq> ''Append'' then Some (lastLeader, s)
      else put_loop call n fuel (lastLeader, put_args (put_context (fst rs) (snd rs)) op key val, s))"

definition on_get_reply :: "bool \<Rightarrow> get_reply \<Rightarrow> string loop option" where
  "on_get_reply ok reply =
     (if gr_Err reply = ErrNoKey then Some (Return ''No key'')
      else if \<not> ok \<or> gr_WrongLeader reply then None
      else if gr_Err reply = ErrOK then Some (Return (Value reply))
      else Some Next)"

text \<open>The loop over the servers does not stop at a leader that answers neither OK nor ErrNoKey.\<close>

fun get_scan :: "(get_args, get_reply, 's) call \<Rightarrow> nat list \<Rightarrow> int \<Rightarrow> get_args \<Rightarrow> 's \<Rightarrow> (int \<times> 's) \<times> string loop" where
  "get_scan call [] lastLeader args s = ((lastLeader, s), Next)"
| "get_scan call (i # is) lastLeader args s =
     (let ((ok, reply), s) = call i args s in
      case on_get_reply ok reply of
        None \<Rightarrow> get_scan call is lastLeader args s
      | Some (Return v) \<Rightarrow> ((if gr_Err reply = ErrNoKey then lastLeader else int i, s), Return v)
      | Some Next \<Rightarrow> get_scan call is (int i) args s)"

definition get_iter :: "(get_args, get_reply, 's) call \<Rightarrow> nat \<Rightarrow> get_args \<Rightarrow> int \<times> 's \<Rightarrow> (int \<times> 's) \<times> string loop" where
  "get_iter call n args st =
     (let (lastLeader, s) = st in
      if lastLeader < 0 then get_scan call [0..<n] lastLeader args s
      else let ((ok, reply), s) = call (nat lastLeader) args s in
        case on_get_reply ok reply of
          None \<Rightarrow> ((-1, s), Next)
        | Some r \<Rightarrow> ((lastLeader, s), r))"

fun get_loop :: "(get_args, get_reply, 's) call \<Rightarrow> nat \<Rightarrow> nat \<Rightarrow> get_args \<Rightarrow> int \<times> 's \<Rightarrow> (string \<times> int \<times> 's) option" where
  "get_loop call n 0 args st = None"
| "get_loop call n (Suc fuel) args st =
     (case get_iter call n args st of
        (st, Return v) \<Rightarrow> Some (v, st)
      | (st, Next) \<Rightarrow> get_loop call n fuel args st)"

definition clerk_Get :: "(get_args, get_reply, 's) call \<Rightarrow> nat \<Rightarrow> nat \<Rightarrow> int \<times> int \<Rightarrow> string \<Rightarrow> int \<Rightarrow> 's \<Rightarrow>
    (string \<times> int \<times> 's) option" where
  "clerk_Get call n fuel rs key lastLeader s =
     get_loop call n fuel
       \<lparr>Key = [], get_Op = \<lparr>ContextId = get_context (fst rs) (snd rs), op_Cmd = get_cmd key\<rparr>\<rparr> (lastLeader, s)"

section \<open>Context ids do not collide\<close>

text \<open>Two Put or Append requests have the same context id only if both random numbers of the one
  are those of the other.\<close>
lemma put_context_inj:
  assumes "0 \<le> r1" "0 \<le> r2" "0 \<le> q1" "0 \<le> q2" "put_context r1 r2 = put_context q1 q2"
  shows "r1 = q1 \<and> r2 = q2"
proof -
  have eq: "format_nat 36 (nat r1) @ CHR '':'' # format_nat 36 (nat r2) = format_nat 36 (nat q1) @ CHR '':'' # format_nat 36 (nat q2)"
    using assms by (simp add: put_context_def FormatInt_def CONTEXTSEPARATOR_def)
  have no: "CHR '':'' \<notin> set (format_nat 36 m)" for m using format_no_colon[of 36] by simp
  have "format_nat 36 (nat r1) = format_nat 36 (nat q1) \<and> format_nat 36 (nat r2) = format_nat 36 (nat q2)"
    using split_at_unique[OF eq no no] .
  then have "nat r1 = nat q1" "nat r2 = nat q2"
    using format36_inj by blast+
  with assms(1-4) show ?thesis by (metis eq_nat_nat_iff)
qed

lemma put_context_example: "put_context 37 5 \<noteq> put_context 1 185"
  using put_context_inj[of 37 5 1 185] by auto

end
