(* ===== verification/ClerkRuns.thy ===== *)
theory ClerkRuns
  imports Clerk
begin

text \<open>
  The clerk against the servers. \<open>put_service\<close> is what the clerk needs of them for a Put or
  Append to finish: one leader, which answers the first request with index 0, a second one
  with the index of the operation, and a third one with OK once it is applied. The key/value
  server behind a Raft that commits what it accepts is an instance, and so the clerk finishes,
  with the operation applied exactly once; \<open>get_service\<close> is the same for a Get. Without these promises the clerk may loop forever;
  the last section has two such runs.
\<close>

section \<open>The service a clerk needs\<close>

definition refused :: "bool \<times> put_append_reply \<Rightarrow> bool" where
  "refused p \<longleftrightarrow> \<not> fst p \<or> par_WrongLeader (snd p)"

locale put_service =
  fixes call :: "(put_append_args, put_append_reply, 's) call"
    and n l :: nat
    and fresh pending finished :: "kv_op \<Rightarrow> 's \<Rightarrow> bool"
    and index :: int
  assumes leader: "l < n"
    and others: "i < n \<Longrightarrow> i \<noteq> l \<Longrightarrow> \<exists>p. call i args s = (p, s) \<and> refused p"
    and first: "fresh (pa_Op args) s \<Longrightarrow> pa_Idx args = 0 \<Longrightarrow>
      \<exists>r s'. call l args s = ((True, r), s') \<and> \<not> par_WrongLeader r \<and> par_Err r = ErrOK \<and> par_Idx r = 0
        \<and> pending (pa_Op args) s'"
    and second: "pending (pa_Op args) s \<Longrightarrow> pa_Idx args = 0 \<Longrightarrow>
      \<exists>r. call l args s = ((True, r), s) \<and> \<not> par_WrongLeader r \<and> par_Err r = ErrOK \<and> par_Idx r = index"
    and third: "pending (pa_Op args) s \<Longrightarrow> pa_Idx args = index \<Longrightarrow>
      \<exists>r s'. call l args s = ((True, r), s') \<and> \<not> par_WrongLeader r \<and> par_Err r = ErrOK \<and> finished (pa_Op args) s'"
    and index: "0 < index"
begin

lemma scan_finds:
  assumes "call l args s = ((True, r), s')" "\<not> par_WrongLeader r"
  shows "l \<in> set is \<Longrightarrow> set is \<subseteq> {..<n} \<Longrightarrow>
    put_scan call is ldr args s = (let (args, x) = on_put_reply r args in ((int l, args, s'), x))"
proof (induction "is")
  case Nil
  then show ?case by simp
next
  case (Cons i "is")
  show ?case
  proof (cases "i = l")
    case True
    with assms show ?thesis by (simp add: Let_def)
  next
    case False
    with Cons.prems obtain p where "call i args s = (p, s)" "refused p" using others[of i args s] by auto
    with Cons False show ?thesis by (auto simp: refused_def Let_def split: prod.splits)
  qed
qed

text \<open>An iteration ends at the leader, whether the clerk knew it or had to look for it.\<close>

lemma iter_leader:
  assumes "ldr = -1 \<or> ldr = int l" "call l args s = ((True, r), s')" "\<not> par_WrongLeader r"
  shows "put_iter call n (ldr, args, s) = (let (args, x) = on_put_reply r args in ((int l, args, s'), x))"
proof -
  have "l \<in> set [0..<n]" "set [0..<n] \<subseteq> {..<n}" using leader by auto
  from scan_finds[OF assms(2,3) this] show ?thesis using assms
    by (auto simp: put_iter_def Let_def)
qed

lemma put_loop_finishes:
  assumes "ldr = -1 \<or> ldr = int l" "fresh (pa_Op args) s" "pa_Idx args = 0" "3 \<le> fuel"
  shows "\<exists>s'. put_loop call n fuel (ldr, args, s) = Some (int l, s') \<and> finished (pa_Op args) s'"
proof -
  define f where "f = fuel - 3"
  have f: "fuel = Suc (Suc (Suc f))" using assms(4) by (simp add: f_def)
  obtain r1 s1 where 1: "call l args s = ((True, r1), s1)" "\<not> par_WrongLeader r1" "par_Err r1 = ErrOK" "par_Idx r1 = 0"
    "pending (pa_Op args) s1" using first[OF assms(2,3)] by blast
  let ?a1 = "args\<lparr>Tries := 1\<rparr>"
  have i1: "put_iter call n (ldr, args, s) = ((int l, ?a1, s1), Next)"
    using iter_leader[OF assms(1) 1(1,2)] 1 assms(3) by (simp add: on_put_reply_def)
  have "pending (pa_Op ?a1) s1" "pa_Idx ?a1 = 0" using 1(5) assms(3) by auto
  from second[OF this] obtain r2 where 2: "call l ?a1 s1 = ((True, r2), s1)" "\<not> par_WrongLeader r2"
    "par_Err r2 = ErrOK" "par_Idx r2 = index" by blast
  let ?a2 = "?a1\<lparr>pa_Idx := index\<rparr>"
  have i2: "put_iter call n (int l, ?a1, s1) = ((int l, ?a2, s1), Next)"
    using iter_leader[OF _ 2(1,2), of "int l"] 2 assms(3) index by (simp add: on_put_reply_def)
  have "pending (pa_Op ?a2) s1" "pa_Idx ?a2 = index" using 1(5) by auto
  from third[OF this] obtain r3 s3 where 3: "call l ?a2 s1 = ((True, r3), s3)" "\<not> par_WrongLeader r3"
    "par_Err r3 = ErrOK" "finished (pa_Op ?a2) s3" by blast
  have "put_iter call n (int l, ?a2, s1) = ((int l, ?a2, s3), Return ())"
    using iter_leader[OF _ 3(1,2), of "int l"] 3 index by (simp add: on_put_reply_def)
  with i1 i2 3(4) show ?thesis by (simp add: f)
qed

end

section \<open>The key/value servers\<close>

text \<open>
  Raft, seen from the leader's key/value server: \<open>Agree\<close> accepts the command at index \<open>i0\<close>, and
  a handler that waits for that index gets it committed. The other servers know that they do
  not lead.
\<close>

definition commit_op :: "int \<Rightarrow> kv_op \<Rightarrow> raftkv \<Rightarrow> raftkv go" where
  "commit_op i o' kv =
     (if kv_log kv i = None
      then go_bind (apply_step \<lparr>msg_Index = i, Command = op_json o', UseSnapshot = False, Snapshot = []\<rparr> kv)
             (\<lambda>(kv, _). Inr kv)
      else Inr kv)"

definition leader_state :: "bool \<Rightarrow> state_reply" where
  "leader_state b = \<lparr>st_Term = 1, st_IsLeader = b\<rparr>"

definition put_call :: "nat \<Rightarrow> int \<Rightarrow> (put_append_args, put_append_reply, raftkv) call" where
  "put_call l i0 i args kv =
     (case PutAppend (Some (leader_state (i = l))) (ex_agree i0) args zero_put_append_reply kv of
        (kv', Done r) \<Rightarrow> ((True, r), kv')
      | (kv', Waiting j r) \<Rightarrow>
          (case go_bind (commit_op j (pa_Op args) kv') (PutAppend_finish j args r) of
             Inl _ \<Rightarrow> ((False, r), kv')
           | Inr (kv'', r) \<Rightarrow> ((True, r), kv'')))"

definition op_of :: "kv_cmd \<Rightarrow> kv_op \<Rightarrow> bool" where
  "op_of c o' \<longleftrightarrow> clean c \<and> op_Cmd o' = render c \<and> (\<exists>k v. c = KPut k v \<or> c = KAppend k v)"

definition put_open :: "int \<Rightarrow> kv_cmd \<Rightarrow> (string \<Rightarrow> string option) \<Rightarrow> kv_op \<Rightarrow> raftkv \<Rightarrow> bool" where
  "put_open i0 c d o' kv \<longleftrightarrow> op_of c o' \<and> kv_log kv i0 = None \<and> (ops kv i0 = None \<or> ops kv i0 = Some []) \<and> db kv = d"

definition put_done :: "int \<Rightarrow> kv_cmd \<Rightarrow> (string \<Rightarrow> string option) \<Rightarrow> kv_op \<Rightarrow> raftkv \<Rightarrow> bool" where
  "put_done i0 c d o' kv \<longleftrightarrow> kv_log kv i0 = Some (op_Cmd o') \<and> db kv = kv_sem c d"

lemma apply_op_put:
  assumes "op_of c o'" "ops kv i = Some []"
  shows "ops (apply_op i (op_Cmd o') kv) i = Some [\<lparr>Val = op_Cmd o', Ok = True\<rparr>]"
proof -
  obtain k v where c: "c = KPut k v \<or> c = KAppend k v" and "clean c" using assms(1) by (auto simp: op_of_def)
  then have k: "clean (KPut k v)" by auto
  show ?thesis
    using c assms clean_parse(1)[OF k, of PUT] clean_parse(1)[OF k, of APPEND] clean_parse(2)[OF k]
    by (auto simp: op_of_def apply_op_def make_op_chan_def offer_def chan_try_send_cases op_names split: option.split)
qed

text \<open>The server once the operation is applied at the index a handler waits for; nothing else changes.\<close>

definition executed :: "int \<Rightarrow> kv_op \<Rightarrow> raftkv \<Rightarrow> raftkv" where
  "executed i o' kv = apply_op i (op_Cmd o')
     ((make_op_chan i kv)\<lparr>kv_log := (kv_log kv)(i \<mapsto> op_Cmd o'), kv_context := (kv_context kv)(ContextId o' \<mapsto> i)\<rparr>)"

lemma executed_frame:
  "kv_log (executed i o' kv) = (kv_log kv)(i \<mapsto> op_Cmd o')"
  "kv_context (executed i o' kv) = (kv_context kv)(ContextId o' \<mapsto> i)"
  "j \<noteq> i \<Longrightarrow> ops (executed i o' kv) j = ops kv j"
  by (auto simp: executed_def apply_op_def make_op_chan_def offer_def Let_def split: prod.split option.splits)

lemma commit_op_executed: "kv_log kv i = None \<Longrightarrow> commit_op i o' (make_op_chan i kv) = Inr (executed i o' kv)"
  by (simp add: commit_op_def apply_step_def op_json_def string_field_def executed_def Let_def)

lemma commit_then_finish:
  assumes "put_open i0 c d (pa_Op args) kv"
  shows "PutAppend_finish i0 args r (executed i0 (pa_Op args) kv) = Inr (executed i0 (pa_Op args) kv, r\<lparr>par_Err := ErrOK\<rparr>)"
    and "put_done i0 c d (pa_Op args) (executed i0 (pa_Op args) kv)"
proof -
  let ?o = "pa_Op args" and ?e = "executed i0 (pa_Op args) kv"
  let ?kv = "(make_op_chan i0 kv)\<lparr>kv_log := (kv_log kv)(i0 \<mapsto> op_Cmd ?o), kv_context := (kv_context kv)(ContextId ?o \<mapsto> i0)\<rparr>"
  have o': "op_of c ?o" "db kv = d" and chan: "ops ?kv i0 = Some []"
    using assms by (auto simp: put_open_def make_op_chan_def)
  have "take_and_put i0 ?e = Inr (\<lparr>Val = op_Cmd ?o, Ok = True\<rparr>, ?e)"
    using apply_op_put[OF o'(1) chan] by (simp add: executed_def take_and_put_def chan_send_def fun_upd_idem)
  then show "PutAppend_finish i0 args r ?e = Inr (?e, r\<lparr>par_Err := ErrOK\<rparr>)"
    by (simp add: PutAppend_finish_def)
  have "db ?e = kv_sem c d"
    using apply_op_db[of c i0 ?kv] o' by (simp add: executed_def op_of_def)
  then show "put_done i0 c d ?o ?e" by (simp add: put_done_def executed_frame)
qed

interpretation puts: put_service "put_call l (int (Suc j))" "l + Suc m" l
    "\<lambda>o' kv. put_open (int (Suc j)) c d o' kv \<and> kv_context kv (ContextId o') = None"
    "\<lambda>o' kv. put_open (int (Suc j)) c d o' kv \<and> kv_context kv (ContextId o') = Some (int (Suc j))"
    "put_done (int (Suc j)) c d" "int (Suc j)"
  for l j m c d
proof
  fix i :: nat and args :: put_append_args and kv :: raftkv
  show "l < l + Suc m" "0 < int (Suc j)" by simp_all
  show "i \<noteq> l \<Longrightarrow> \<exists>p. put_call l (int (Suc j)) i args kv = (p, kv) \<and> refused p"
    by (simp add: put_call_def PutAppend_def leader_state_def refused_def)
  show "put_open (int (Suc j)) c d (pa_Op args) kv \<and> kv_context kv (ContextId (pa_Op args)) = None \<Longrightarrow> pa_Idx args = 0 \<Longrightarrow>
    \<exists>r s'. put_call l (int (Suc j)) l args kv = ((True, r), s') \<and> \<not> par_WrongLeader r \<and> par_Err r = ErrOK \<and> par_Idx r = 0
      \<and> put_open (int (Suc j)) c d (pa_Op args) s' \<and> kv_context s' (ContextId (pa_Op args)) = Some (int (Suc j))"
    by (simp add: put_call_def PutAppend_def leader_state_def ex_agree_def put_open_def)
  show "put_open (int (Suc j)) c d (pa_Op args) kv \<and> kv_context kv (ContextId (pa_Op args)) = Some (int (Suc j)) \<Longrightarrow> pa_Idx args = 0 \<Longrightarrow>
    \<exists>r. put_call l (int (Suc j)) l args kv = ((True, r), kv) \<and> \<not> par_WrongLeader r \<and> par_Err r = ErrOK \<and> par_Idx r = int (Suc j)"
    by (simp add: put_call_def PutAppend_def leader_state_def)
  show "put_open (int (Suc j)) c d (pa_Op args) kv \<and> kv_context kv (ContextId (pa_Op args)) = Some (int (Suc j)) \<Longrightarrow> pa_Idx args = int (Suc j) \<Longrightarrow>
    \<exists>r s'. put_call l (int (Suc j)) l args kv = ((True, r), s') \<and> \<not> par_WrongLeader r \<and> par_Err r = ErrOK
      \<and> put_done (int (Suc j)) c d (pa_Op args) s'"
  proof -
    assume a: "put_open (int (Suc j)) c d (pa_Op args) kv \<and> kv_context kv (ContextId (pa_Op args)) = Some (int (Suc j))"
      "pa_Idx args = int (Suc j)"
    let ?r = "zero_put_append_reply\<lparr>par_WrongLeader := False\<rparr>"
    have "PutAppend (Some (leader_state True)) (ex_agree (int (Suc j))) args zero_put_append_reply kv
        = (make_op_chan (int (Suc j)) kv, Waiting (int (Suc j)) ?r)"
      using a(2) by (simp add: PutAppend_def leader_state_def)
    then show ?thesis
      using commit_then_finish(1)[OF conjunct1[OF a(1)], of ?r] commit_then_finish(2)[OF conjunct1[OF a(1)]] a(1) commit_op_executed[of kv "int (Suc j)" "pa_Op args"]
      by (auto simp: put_call_def put_open_def)
  qed
qed

text \<open>C19: A clerk's Put or Append of a key and value without separators, in a context the server has not
  seen, finishes: with a Raft that is one stable
  leader (the stub \<open>put_call\<close>: \<open>Agree\<close> of that server, and of no other, accepts the command at a
  fixed index, and hands it over while the handler waits), at most three rounds of the loop are
  needed, whether the clerk knows the leader or has to look for it; the leader's server then
  has executed the command once, at the agreed index. Over the modelled Raft: \<open>EndToEnd\<close>.\<close>
theorem clerk_put_completes:
  assumes "clean c" "c = (if op = PUT then KPut k v else KAppend k v)" "op \<in> {PUT, APPEND}"
    and "l < n" "0 < i0" "ldr = -1 \<or> ldr = int l" "3 \<le> fuel"
    and "kv_log kv i0 = None" "ops kv i0 = None \<or> ops kv i0 = Some []"
    and "kv_context kv (put_context (fst rs) (snd rs)) = None"
  shows "\<exists>kv'. clerk_PutAppend (put_call l i0) n fuel rs op k v ldr kv = Some (int l, kv')
    \<and> kv_log kv' i0 = Some (put_append_cmd op k v) \<and> db kv' = kv_sem c (db kv)"
proof -
  obtain j where j: "i0 = int (Suc j)" using assms(5) by (metis pos_int_cases gr0_implies_Suc)
  obtain m where m: "n = l + Suc m" using assms(4) less_iff_Suc_add by auto
  let ?args = "put_args (put_context (fst rs) (snd rs)) op k v"
  have cmd: "op_Cmd (pa_Op ?args) = put_append_cmd op k v" "ContextId (pa_Op ?args) = put_context (fst rs) (snd rs)"
    "pa_Idx ?args = 0" by (simp_all add: put_args_def)
  have "op_of c (pa_Op ?args)"
    using assms(1-3) cmd(1) by (auto simp: op_of_def)
  then have "put_open i0 c (db kv) (pa_Op ?args) kv \<and> kv_context kv (ContextId (pa_Op ?args)) = None"
    using assms(8-10) cmd(2) by (simp add: put_open_def)
  from puts.put_loop_finishes[OF assms(6) this[unfolded j] cmd(3) assms(7), of m] show ?thesis
    using assms(3) cmd(1) unfolding j m by (auto simp: clerk_PutAppend_def op_names put_done_def)
qed

theorem clerk_put_completes_witness:
  "\<exists>kv'. clerk_PutAppend (put_call 1 1) 3 3 (5, 6) ''Put'' ''k'' ''a'' (-1) (StartKVServer 0 (-1)) = Some (1, kv')
     \<and> db kv' ''k'' = Some ''a''"
proof -
  have "clean (KPut ''k'' ''a'')" by (simp add: contains_def separators)
  from clerk_put_completes[OF this, of PUT "''k''" "''a''" 1 3 1 "-1" 3 "StartKVServer 0 (-1)" "(5, 6)"]
  show ?thesis by (auto simp: StartKVServer_def op_names)
qed

section \<open>Get\<close>

definition get_call :: "nat \<Rightarrow> int \<Rightarrow> (get_args, get_reply, raftkv) call" where
  "get_call l i0 i args kv =
     (case Get (Some (leader_state (i = l))) (ex_agree i0) args zero_get_reply kv of
        (kv', Done r) \<Rightarrow> ((True, r), kv')
      | (kv', Waiting j r) \<Rightarrow>
          (case go_bind (commit_op j (get_Op args) kv') (Get_finish j args r) of
             Inl _ \<Rightarrow> ((False, r), kv')
           | Inr (kv'', r) \<Rightarrow> ((True, r), kv'')))"

text \<open>What the clerk makes of the answer.\<close>

definition get_answer :: "string \<Rightarrow> (string \<Rightarrow> string option) \<Rightarrow> string" where
  "get_answer k d = (case d k of Some v \<Rightarrow> hd (strings_Split KeyValueSeparator v) | None \<Rightarrow> ''No key'')"

lemma executed_get:
  assumes "clean (KGet k)" "kv_log kv i = None" "ops kv i = None \<or> ops kv i = Some []"
    and args: "get_Op args = \<lparr>ContextId = ctx, op_Cmd = get_cmd k\<rparr>"
  shows "\<exists>r'. Get_finish i args zero_get_reply (executed i (get_Op args) kv) = Inr (executed i (get_Op args) kv, r')
      \<and> on_get_reply True r' = Some (Return (get_answer k (db kv)))"
    and "db (executed i (get_Op args) kv) = db kv"
proof -
  let ?kv = "make_op_chan i kv"
  have kv: "kv_log ?kv i = None" "ops ?kv i = Some []" "db ?kv = db kv"
    using assms(2,3) by (auto simp: make_op_chan_def)
  have d: "deliver (i, ctx, KGet k) ?kv = Inr (executed i (get_Op args) kv)"
    using kv(1) by (simp add: deliver_eq executed_def args)
  show "db (executed i (get_Op args) kv) = db kv"
    using apply_op_db[OF assms(1), of i] by (simp add: executed_def args)
  show "\<exists>r'. Get_finish i args zero_get_reply (executed i (get_Op args) kv) = Inr (executed i (get_Op args) kv, r')
      \<and> on_get_reply True r' = Some (Return (get_answer k (db kv)))"
    using get_linearizes[OF assms(1) kv(1,2) args d, of zero_get_reply] kv(3)
    by (simp add: get_answer_def on_get_reply_def zero_get_reply_def ErrNoKey_def ErrOK_def split: option.split)
qed

text \<open>What the clerk needs of the servers for a Get: one of them answers, the others do not.\<close>

locale get_service =
  fixes call :: "(get_args, get_reply, 's) call"
    and n l :: nat
    and askable :: "get_args \<Rightarrow> 's \<Rightarrow> bool"
    and answer :: "'s \<Rightarrow> string"
    and answered :: "get_args \<Rightarrow> 's \<Rightarrow> 's \<Rightarrow> bool"
  assumes leader: "l < n"
    and others: "i < n \<Longrightarrow> i \<noteq> l \<Longrightarrow> \<exists>ok r. call i args s = ((ok, r), s) \<and> on_get_reply ok r = None"
    and answers: "askable args s \<Longrightarrow>
      \<exists>ok r s'. call l args s = ((ok, r), s') \<and> on_get_reply ok r = Some (Return (answer s)) \<and> answered args s s'"
begin

lemma get_scan_finds:
  assumes "call l args s = ((ok, r), s')" "on_get_reply ok r = Some (Return v)"
  shows "l \<in> set is \<Longrightarrow> set is \<subseteq> {..<n} \<Longrightarrow> \<exists>ldr'. get_scan call is ldr args s = ((ldr', s'), Return v) \<and> (ldr' = ldr \<or> ldr' = int l)"
proof (induction "is")
  case Nil
  then show ?case by simp
next
  case (Cons i "is")
  show ?case
  proof (cases "i = l")
    case True
    with assms show ?thesis by (simp add: Let_def)
  next
    case False
    with Cons.prems others[of i args s] obtain ok' r' where "call i args s = ((ok', r'), s)" "on_get_reply ok' r' = None" by auto
    with Cons False show ?thesis by (simp add: Let_def)
  qed
qed

lemma get_loop_finishes:
  assumes "ldr = -1 \<or> ldr = int l" "askable args s" "1 \<le> fuel"
  shows "\<exists>ldr' s'. get_loop call n fuel args (ldr, s) = Some (answer s, ldr', s') \<and> (ldr' = -1 \<or> ldr' = int l) \<and> answered args s s'"
proof -
  obtain f where f: "fuel = Suc f" using assms(3) by (cases fuel) auto
  obtain ok r s' where c: "call l args s = ((ok, r), s')" "on_get_reply ok r = Some (Return (answer s))" "answered args s s'"
    using answers[OF assms(2)] by blast
  show ?thesis
  proof (cases "ldr < 0")
    case True
    have "l \<in> set [0..<n]" "set [0..<n] \<subseteq> {..<n}" using leader by auto
    from get_scan_finds[OF c(1,2) this, of ldr] True assms(1) c(3) show ?thesis by (auto simp: f get_iter_def)
  next
    case False
    then have "ldr = int l" using assms(1) by auto
    with c show ?thesis by (simp add: f get_iter_def)
  qed
qed

end

interpretation gets: get_service "get_call l i0" "l + Suc m" l
    "\<lambda>args kv. (\<exists>ctx. get_Op args = \<lparr>ContextId = ctx, op_Cmd = get_cmd k\<rparr>) \<and> clean (KGet k)
       \<and> kv_log kv i0 = None \<and> (ops kv i0 = None \<or> ops kv i0 = Some [])"
    "\<lambda>kv. get_answer k (db kv)" "\<lambda>args kv kv'. db kv' = db kv"
  for l i0 m k
proof
  fix i :: nat and args :: get_args and kv :: raftkv
  show "l < l + Suc m" by simp
  show "i \<noteq> l \<Longrightarrow> \<exists>ok r. get_call l i0 i args kv = ((ok, r), kv) \<and> on_get_reply ok r = None"
    by (simp add: get_call_def Get_def leader_state_def on_get_reply_def zero_get_reply_def ErrNoKey_def ex_bool_eq)
  assume a: "(\<exists>ctx. get_Op args = \<lparr>ContextId = ctx, op_Cmd = get_cmd k\<rparr>) \<and> clean (KGet k)
    \<and> kv_log kv i0 = None \<and> (ops kv i0 = None \<or> ops kv i0 = Some [])"
  then obtain ctx where ctx: "get_Op args = \<lparr>ContextId = ctx, op_Cmd = get_cmd k\<rparr>" by blast
  let ?kv = "kv\<lparr>kv_context := (kv_context kv)(ctx \<mapsto> i0)\<rparr>"
  have kv: "clean (KGet k)" "kv_log ?kv i0 = None" "ops ?kv i0 = None \<or> ops ?kv i0 = Some []" using a by simp_all
  have "Get (Some (leader_state True)) (ex_agree i0) args zero_get_reply kv = (make_op_chan i0 ?kv, Waiting i0 zero_get_reply)"
    by (simp add: Get_def leader_state_def ex_agree_def ctx zero_get_reply_def)
  with executed_get[OF kv ctx] commit_op_executed[OF kv(2), of "get_Op args"]
  show "\<exists>ok r kv'. get_call l i0 l args kv = ((ok, r), kv') \<and> on_get_reply ok r = Some (Return (get_answer k (db kv))) \<and> db kv' = db kv"
    by (auto simp: get_call_def)
qed

text \<open>C20: A clerk's Get of a key without separators finishes, in the first round of the loop, with one stable
  leader (the stub \<open>get_call\<close>): with the value of the key in the leader's database up to the first
  \<open><<>>\<close> inside it (after an Append of \<open><<\<close> and one of \<open>>>\<close> it is the empty text), or the text "No
  key" for a key that is not there.\<close>
theorem clerk_get_completes:
  assumes "clean (KGet k)" "l < n" "ldr = -1 \<or> ldr = int l" "1 \<le> fuel"
    and "kv_log kv i0 = None" "ops kv i0 = None \<or> ops kv i0 = Some []"
  shows "\<exists>ldr' kv'. clerk_Get (get_call l i0) n fuel rs k ldr kv =
      Some (case db kv k of Some v \<Rightarrow> hd (strings_Split KeyValueSeparator v) | None \<Rightarrow> ''No key'', ldr', kv')
    \<and> db kv' = db kv"
proof -
  obtain m where m: "n = l + Suc m" using assms(2) less_iff_Suc_add by auto
  let ?args = "\<lparr>Key = [], get_Op = \<lparr>ContextId = get_context (fst rs) (snd rs), op_Cmd = get_cmd k\<rparr>\<rparr>"
  have "(\<exists>ctx. get_Op ?args = \<lparr>ContextId = ctx, op_Cmd = get_cmd k\<rparr>) \<and> clean (KGet k)
    \<and> kv_log kv i0 = None \<and> (ops kv i0 = None \<or> ops kv i0 = Some [])"
    using assms(1,5,6) by simp
  from gets.get_loop_finishes[OF assms(3) this assms(4), of m] show ?thesis
    unfolding m clerk_Get_def get_answer_def by blast
qed

theorem clerk_get_completes_witness:
  "\<exists>ldr kv'. clerk_Get (get_call 1 2) 3 1 (5, 6) ''k'' (-1) ex_server = Some (''a'', ldr, kv')"
proof -
  have "clean (KGet ''k'')" by (simp add: contains_def separators)
  from clerk_get_completes[OF this, of 1 3 "-1" 1 ex_server 2 "(5, 6)"] show ?thesis
    by (auto simp: ex_server_def Split_none contains_def separators)
qed

section \<open>Runs that do not end\<close>

text \<open>A Put or Append forgets a leader only when it is told that it is the wrong one: with a known
  leader that does not answer, the clerk asks it forever, whatever the other servers say.\<close>

theorem put_dead_leader:
  assumes "0 \<le> ldr" "\<And>args s. call (nat ldr) args s = ((False, zero_put_append_reply), s)"
  shows "put_loop call n fuel (ldr, args, s) = None"
  using assms
  by (induction fuel arbitrary: args) (auto simp: put_iter_def zero_put_append_reply_def)

text \<open>A leader that lost the leadership during Agree, and has it again, answers OK with index 0 each
  time, and the clerk repeats its first request forever: no amount of fuel is enough.\<close>
lemma put_index_zero:
  assumes "kv_context kv (ContextId (pa_Op args)) = Some 0" "pa_Idx args = 0"
  shows "put_loop (put_call l i0) n fuel (int l, args, kv) = None"
  using assms
proof (induction fuel arbitrary: args)
  case 0
  then show ?case by simp
next
  case (Suc fuel)
  have "put_call l i0 l args kv = ((True, zero_put_append_reply\<lparr>par_Err := ErrOK\<rparr>), kv)"
    using Suc.prems by (simp add: put_call_def PutAppend_def leader_state_def zero_put_append_reply_def)
  then have "put_iter (put_call l i0) n (int l, args, kv) = ((int l, args\<lparr>Tries := 1\<rparr>, kv), Next)"
    using Suc.prems by (simp add: put_iter_def on_put_reply_def zero_put_append_reply_def)
  with Suc show ?case by simp
qed

definition ex_lost :: raftkv where
  "ex_lost = (StartKVServer 0 (-1))\<lparr>kv_context := [''x:1'' \<mapsto> 0]\<rparr>"

lemma put_index_zero_witness:
  "\<forall>fuel. put_loop (put_call 1 1) 3 fuel (int 1, ex_put\<lparr>pa_Idx := 0\<rparr>, ex_lost) = None"
  using put_index_zero[of ex_lost "ex_put\<lparr>pa_Idx := 0\<rparr>" 1 1 3] by (simp add: ex_lost_def ex_put_def)

end
