(* ===== verification/EndToEnd.thy ===== *)
theory EndToEnd
  imports RaftSessions ClerkRuns
begin

text \<open>
  Requests through the whole system. The clerk calls the key/value servers; the leader's asks its
  Raft server to agree on the command; Raft replicates it to half of the other servers, commits it
  and hands it to the key/value server, which executes it and answers the request that waits for
  it. \<open>put_cluster\<close> and \<open>get_cluster\<close> are this system as the clerk sees it, further instances of
  the locales \<open>put_service\<close> and \<open>get_service\<close>, in which Raft is not assumed to commit but is the Raft of
  \<open>RaftSessions\<close>. Each request leaves a cluster that is steady again, so a session of any
  requests completes, with the answers of the abstract map.
\<close>

record world =
  w_leader :: raft
  w_peers :: "nat \<Rightarrow> raft"
  w_kv :: raftkv

section \<open>The servers\<close>

text \<open>\<open>Raft.Agree\<close>, and the dispatcher that takes the command; the handlers call it only as a leader, and
  \<open>PutAppend\<close> only for an operation it does not know.\<close>

definition accept :: "bool \<Rightarrow> kv_op \<Rightarrow> raft \<Rightarrow> (raft \<times> agree_reply option) go" where
  "accept asked o' L =
     (if asked then
        go_bind (Agree \<lparr>agree_Cmd = op_json o'\<rparr> zero_agree_reply L) (\<lambda>(L, r).
        go_bind (job_step L) (\<lambda>L. Inr (L, Some r)))
      else Inr (L, None))"

definition asks :: "put_append_args \<Rightarrow> world \<Rightarrow> bool" where
  "asks args w \<longleftrightarrow> isLeader (w_leader w) \<and> pa_Idx args = 0 \<and> kv_context (w_kv w) (ContextId (pa_Op args)) = None"

lemma asks_only:
  "\<not> asks args w \<Longrightarrow> PutAppend (Some (ReturnState zero_state_reply (w_leader w))) f args r (w_kv w)
     = PutAppend (Some (ReturnState zero_state_reply (w_leader w))) g args r (w_kv w)"
  "\<not> isLeader (w_leader w) \<Longrightarrow> Get (Some (ReturnState zero_state_reply (w_leader w))) f a r' (w_kv w)
     = Get (Some (ReturnState zero_state_reply (w_leader w))) g a r' (w_kv w)"
  by (auto simp: asks_def PutAppend_def Get_def ReturnState_def Let_def split: option.splits)

text \<open>While a request waits Raft goes on.\<close>

definition apply_all :: "apply_msg list \<Rightarrow> raftkv \<Rightarrow> raftkv go" where
  "apply_all = go_fold (\<lambda>m kv. go_bind (apply_step m kv) (\<lambda>(kv, _). Inr kv))"

definition raft_commits :: "nat \<Rightarrow> nat list \<Rightarrow> nat list \<Rightarrow> world \<Rightarrow> world go" where
  "raft_commits p ss ds w =
     go_bind (commit_round p ss ds (w_leader w, w_peers w)) (\<lambda>(L, Fs, out).
     go_bind (apply_all (applied out) (w_kv w)) (\<lambda>kv. Inr \<lparr>w_leader = L, w_peers = Fs, w_kv = kv\<rparr>))"

definition put_leader :: "nat \<Rightarrow> nat list \<Rightarrow> nat list \<Rightarrow> put_append_args \<Rightarrow> world \<Rightarrow> (bool \<times> put_append_reply) \<times> world" where
  "put_leader p ss ds args w =
     (case accept (asks args w) (pa_Op args) (w_leader w) of
        Inl _ \<Rightarrow> ((False, zero_put_append_reply), w)
      | Inr (L, agreed) \<Rightarrow>
          (case PutAppend (Some (ReturnState zero_state_reply (w_leader w))) (\<lambda>_. agreed) args zero_put_append_reply (w_kv w) of
             (kv, Done r) \<Rightarrow> ((True, r), w\<lparr>w_leader := L, w_kv := kv\<rparr>)
           | (kv, Waiting j r) \<Rightarrow>
               (case go_bind (raft_commits p ss ds (w\<lparr>w_leader := L, w_kv := kv\<rparr>)) (\<lambda>w.
                     go_bind (PutAppend_finish j args r (w_kv w)) (\<lambda>(kv, r). Inr (w\<lparr>w_kv := kv\<rparr>, r))) of
                  Inl _ \<Rightarrow> ((False, r), w)
                | Inr (w, r) \<Rightarrow> ((True, r), w))))"

definition get_leader :: "nat \<Rightarrow> nat list \<Rightarrow> nat list \<Rightarrow> get_args \<Rightarrow> world \<Rightarrow> (bool \<times> get_reply) \<times> world" where
  "get_leader p ss ds args w =
     (case accept (isLeader (w_leader w)) (get_Op args) (w_leader w) of
        Inl _ \<Rightarrow> ((False, zero_get_reply), w)
      | Inr (L, agreed) \<Rightarrow>
          (case Get (Some (ReturnState zero_state_reply (w_leader w))) (\<lambda>_. agreed) args zero_get_reply (w_kv w) of
             (kv, Done r) \<Rightarrow> ((True, r), w\<lparr>w_leader := L, w_kv := kv\<rparr>)
           | (kv, Waiting j r) \<Rightarrow>
               (case go_bind (raft_commits p ss ds (w\<lparr>w_leader := L, w_kv := kv\<rparr>)) (\<lambda>w.
                     go_bind (Get_finish j args r (w_kv w)) (\<lambda>(kv, r). Inr (w\<lparr>w_kv := kv\<rparr>, r))) of
                  Inl _ \<Rightarrow> ((False, r), w)
                | Inr (w, r) \<Rightarrow> ((True, r), w))))"

text \<open>The other servers do not lead; \<open>up\<close> says which of them answer at all.\<close>

definition put_cluster :: "nat \<Rightarrow> nat list \<Rightarrow> nat list \<Rightarrow> nat \<Rightarrow> (nat \<Rightarrow> bool) \<Rightarrow> (put_append_args, put_append_reply, world) call" where
  "put_cluster p ss ds l up i args w =
     (if i = l then put_leader p ss ds args w
      else if up i then
        (case PutAppend (Some (leader_state False)) (\<lambda>_. None) args zero_put_append_reply (w_kv w) of
           (_, Done r) \<Rightarrow> ((True, r), w) | (_, Waiting _ r) \<Rightarrow> ((False, r), w))
      else ((False, zero_put_append_reply), w))"

definition get_cluster :: "nat \<Rightarrow> nat list \<Rightarrow> nat list \<Rightarrow> nat \<Rightarrow> (nat \<Rightarrow> bool) \<Rightarrow> (get_args, get_reply, world) call" where
  "get_cluster p ss ds l up i args w =
     (if i = l then get_leader p ss ds args w
      else if up i then
        (case Get (Some (leader_state False)) (\<lambda>_. None) args zero_get_reply (w_kv w) of
           (_, Done r) \<Rightarrow> ((True, r), w) | (_, Waiting _ r) \<Rightarrow> ((False, r), w))
      else ((False, zero_get_reply), w))"

section \<open>The world between and within requests\<close>

text \<open>Nothing is known at the indices from \<open>i\<close> on.\<close>

definition kv_clear :: "int \<Rightarrow> raftkv \<Rightarrow> bool" where
  "kv_clear i kv \<longleftrightarrow> (\<forall>j \<ge> i. kv_log kv j = None \<and> (ops kv j = None \<or> ops kv j = Some []))"

abbreviation next_of :: "raft_log list \<Rightarrow> int" where
  "next_of ls \<equiv> int (length ls)"

text \<open>A steady cluster with log \<open>ls\<close>, database \<open>d\<close> and known operations \<open>K\<close>; \<open>m\<close> more commands fit.\<close>

definition at_rest :: "nat \<Rightarrow> nat list \<Rightarrow> nat list \<Rightarrow> nat \<Rightarrow> raft_log list \<Rightarrow> (string \<Rightarrow> int option) \<Rightarrow> (string \<Rightarrow> string option) \<Rightarrow> world \<Rightarrow> bool" where
  "at_rest p ss ds m ls K d w \<longleftrightarrow> steady p ss ds (w_leader w) (w_peers w) \<and> logs (w_leader w) = ls
     \<and> length ls + m \<le> p \<and> length ls + m < 2147483646
     \<and> kv_clear (next_of ls) (w_kv w) \<and> kv_context (w_kv w) = K \<and> db (w_kv w) = d"

text \<open>The command of \<open>o'\<close> is in the leader's log, not yet committed.\<close>

definition under_way :: "nat \<Rightarrow> nat list \<Rightarrow> nat list \<Rightarrow> nat \<Rightarrow> raft_log list \<Rightarrow> (string \<Rightarrow> int option) \<Rightarrow> (string \<Rightarrow> string option) \<Rightarrow> kv_op \<Rightarrow> world \<Rightarrow> bool" where
  "under_way p ss ds m ls K d o' w \<longleftrightarrow> (\<exists>L. w_leader w = dispatched (op_json o') L
     \<and> at_rest p ss ds (Suc m) ls (K(ContextId o' \<mapsto> next_of ls)) d (w\<lparr>w_leader := L\<rparr>))"

text \<open>It is committed, held by \<open>ss\<close> and executed.\<close>

definition finished :: "nat \<Rightarrow> nat list \<Rightarrow> nat list \<Rightarrow> nat \<Rightarrow> raft_log list \<Rightarrow> (string \<Rightarrow> int option) \<Rightarrow> (string \<Rightarrow> string option) \<Rightarrow> kv_op \<Rightarrow> world \<Rightarrow> bool" where
  "finished p ss ds m ls K d o' w \<longleftrightarrow> (\<exists>e. Cmd e = op_json o' \<and> at_rest p ss ds m (ls @ [e]) (K(ContextId o' \<mapsto> next_of ls)) d w
     \<and> (\<forall>s \<in> set ss. map entry_id (logs (w_peers w s)) = map entry_id (ls @ [e])))"

lemma at_rest_leads:
  assumes "at_rest p ss ds m ls K d w"
  shows "idle_leader (w_leader w)" "isLeader (w_leader w)" "end_of (w_leader w) + 1 = next_of ls" "0 < next_of ls"
  using assms log_wfD(1)[of ls] by (auto simp: at_rest_def steady_def idle_leader_def)

lemma accept_dispatched:
  assumes "idle_leader L"
  shows "accept True o' L = Inr (dispatched (op_json o') L, Some \<lparr>ag_Term = currentTerm L, ag_Index = end_of L + 1, ag_IsLeader = True\<rparr>)"
proof -
  have "go_bind (Start (op_json o') L) (\<lambda>(L, i, t, l). go_bind (job_step L) (\<lambda>L. Inr (L, i, t, l)))
    = Inr (dispatched (op_json o') L, end_of L + 1, currentTerm L, True)"
    by (rule command_dispatched[OF assms])
  then show ?thesis
    by (auto simp: accept_def Agree_def zero_agree_reply_def elim!: go_bind_InrE)
qed

text \<open>Raft commits the command and the key/value server executes it.\<close>

lemma under_way_commits:
  assumes "under_way p ss ds m ls K d o' w"
  shows "\<exists>w'. raft_commits p ss ds (w\<lparr>w_kv := make_op_chan (next_of ls) (w_kv w)\<rparr>) = Inr w'
    \<and> w_kv w' = executed (next_of ls) o' (w_kv w) \<and> finished p ss ds m ls K (db (executed (next_of ls) o' (w_kv w))) o' w'"
proof -
  let ?i = "next_of ls" and ?kv = "w_kv w"
  obtain L where L: "w_leader w = dispatched (op_json o') L" "steady p ss ds L (w_peers w)" "logs L = ls"
    and room: "length (logs L) + 1 \<le> p" "length (logs L) + 1 < 2147483646" "length ls + Suc m \<le> p" "length ls + Suc m < 2147483646"
    and kv: "kv_clear ?i ?kv" "kv_context ?kv = K(ContextId o' \<mapsto> ?i)"
    using assms by (auto simp: under_way_def at_rest_def)
  let ?e = "new_entry (op_json o') L"
  have i: "end_of L + 1 = ?i" using L(3) by simp
  obtain L' Fs' out where c: "commit_round p ss ds (dispatched (op_json o') L, w_peers w) = Inr (L', Fs', out)"
    "logs L' = logs L @ [?e]" "applied out = [apply_msg_of ?e]" "steady p ss ds L' Fs'"
    "\<forall>s \<in> set ss. map entry_id (logs (Fs' s)) = map entry_id (logs L')"
    using steady_command[OF L(2) room(1,2), of "op_json o'"] by (elim exE conjE) (rule that)
  have k: "kv_log ?kv ?i = None" using kv(1) by (simp add: kv_clear_def)
  then have "apply_all (applied out) (make_op_chan ?i ?kv) = commit_op ?i o' (make_op_chan ?i ?kv)"
    using c(3) i by (auto simp: apply_all_def commit_op_def apply_msg_of_def go_bind_def split: sum.split)
  then have a: "apply_all (applied out) (make_op_chan ?i ?kv) = Inr (executed ?i o' ?kv)"
    using commit_op_executed[of ?kv ?i o'] k by simp
  let ?w = "\<lparr>w_leader = L', w_peers = Fs', w_kv = executed ?i o' ?kv\<rparr>"
  have "raft_commits p ss ds (w\<lparr>w_kv := make_op_chan ?i ?kv\<rparr>) = Inr ?w"
    by (simp add: raft_commits_def L(1) c(1) a)
  moreover have "kv_clear (next_of (ls @ [?e])) (executed ?i o' ?kv)"
    using kv(1) by (auto simp: kv_clear_def executed_frame)
  then have "at_rest p ss ds m (ls @ [?e]) (K(ContextId o' \<mapsto> ?i)) (db (executed ?i o' ?kv)) ?w"
    using c(2,4) L(3) room(3,4) kv(2) by (simp add: at_rest_def executed_frame)
  then have "finished p ss ds m ls K (db (executed ?i o' ?kv)) o' ?w"
    unfolding finished_def using c(2,5) L(3) by (intro exI[of _ ?e]) simp
  ultimately show ?thesis by (intro exI[of _ ?w]) simp
qed

section \<open>Put and Append\<close>

lemma first_request:
  assumes "at_rest p ss ds (Suc m) ls K d w" "K (ContextId (pa_Op args)) = None" "pa_Idx args = 0"
  shows "\<exists>r w'. put_leader p ss ds args w = ((True, r), w') \<and> \<not> par_WrongLeader r \<and> par_Err r = ErrOK \<and> par_Idx r = 0
    \<and> under_way p ss ds m ls K d (pa_Op args) w'"
proof -
  note L = at_rest_leads[OF assms(1)]
  have kv: "kv_context (w_kv w) = K" using assms(1) by (simp add: at_rest_def)
  let ?kv = "(w_kv w)\<lparr>kv_context := K(ContextId (pa_Op args) \<mapsto> next_of ls)\<rparr>"
  let ?w = "w\<lparr>w_leader := dispatched (op_json (pa_Op args)) (w_leader w), w_kv := ?kv\<rparr>"
  have "put_leader p ss ds args w = ((True, zero_put_append_reply\<lparr>par_WrongLeader := False, par_Err := ErrOK, par_Idx := 0\<rparr>), ?w)"
    using assms(2,3) L kv by (simp add: put_leader_def asks_def accept_dispatched PutAppend_def ReturnState_def)
  moreover have "under_way p ss ds m ls K d (pa_Op args) ?w"
    unfolding under_way_def using assms(1) by (intro exI[of _ "w_leader w"]) (simp add: at_rest_def kv_clear_def)
  ultimately show ?thesis by simp
qed

lemma under_way_leads: "under_way p ss ds m ls K d o' w \<Longrightarrow> isLeader (w_leader w)"
  using at_rest_leads(2) by (fastforce simp: under_way_def dispatched_fields)

lemma second_request:
  assumes "under_way p ss ds m ls K d (pa_Op args) w" "pa_Idx args = 0"
  shows "\<exists>r. put_leader p ss ds args w = ((True, r), w) \<and> \<not> par_WrongLeader r \<and> par_Err r = ErrOK \<and> par_Idx r = next_of ls"
proof -
  have "kv_context (w_kv w) (ContextId (pa_Op args)) = Some (next_of ls)"
    using assms(1) by (auto simp: under_way_def at_rest_def)
  with under_way_leads[OF assms(1)] assms(2) show ?thesis
    by (simp add: put_leader_def asks_def accept_def PutAppend_def ReturnState_def)
qed

lemma third_request:
  assumes w: "under_way p ss ds m ls K d (pa_Op args) w" and i: "pa_Idx args = next_of ls" "0 < next_of ls" and c: "op_of c (pa_Op args)"
  shows "\<exists>r w'. put_leader p ss ds args w = ((True, r), w') \<and> \<not> par_WrongLeader r \<and> par_Err r = ErrOK
    \<and> finished p ss ds m ls K (kv_sem c d) (pa_Op args) w'"
proof -
  let ?i = "next_of ls" and ?o = "pa_Op args" and ?r = "zero_put_append_reply\<lparr>par_WrongLeader := False\<rparr>"
  let ?e = "executed ?i ?o (w_kv w)"
  have "put_open ?i c d ?o (w_kv w)" using w c by (auto simp: under_way_def at_rest_def kv_clear_def put_open_def)
  from commit_then_finish(1)[OF this, of ?r] commit_then_finish(2)[OF this]
  have f: "PutAppend_finish ?i args ?r ?e = Inr (?e, ?r\<lparr>par_Err := ErrOK\<rparr>)" and d: "db ?e = kv_sem c d"
    by (simp_all add: put_done_def)
  obtain w' where w': "raft_commits p ss ds (w\<lparr>w_kv := make_op_chan ?i (w_kv w)\<rparr>) = Inr w'" "w_kv w' = ?e"
    "finished p ss ds m ls K (kv_sem c d) ?o w'"
    using under_way_commits[OF w] unfolding d by (elim exE conjE) (rule that)
  have "put_leader p ss ds args w = ((True, ?r\<lparr>par_Err := ErrOK\<rparr>), w'\<lparr>w_kv := ?e\<rparr>)"
    using i under_way_leads[OF w] w'(1,2) f
    by (simp add: put_leader_def asks_def accept_def PutAppend_def ReturnState_def)
  moreover have "w'\<lparr>w_kv := ?e\<rparr> = w'" using w'(2) by (cases w') simp
  ultimately show ?thesis using w'(3) by simp
qed

interpretation put_cluster: put_service "put_cluster p ss ds l up" "l + Suc n" l
    "\<lambda>o' w. at_rest p ss ds (Suc m) (e # es) K d w \<and> K (ContextId o') = None \<and> op_of c o'"
    "\<lambda>o' w. under_way p ss ds m (e # es) K d o' w \<and> op_of c o'"
    "finished p ss ds m (e # es) K (kv_sem c d)" "next_of (e # es)"
  for p ss ds l up n m e es K d c
proof
  fix i :: nat and args :: put_append_args and w :: world
  show "l < l + Suc n" "0 < next_of (e # es)" by simp_all
  show "i \<noteq> l \<Longrightarrow> \<exists>q. put_cluster p ss ds l up i args w = (q, w) \<and> refused q"
    by (cases "up i") (simp_all add: put_cluster_def PutAppend_def leader_state_def refused_def ex_bool_eq)
next
  fix args :: put_append_args and w :: world
  assume a: "at_rest p ss ds (Suc m) (e # es) K d w \<and> K (ContextId (pa_Op args)) = None \<and> op_of c (pa_Op args)" "pa_Idx args = 0"
  then show "\<exists>r w'. put_cluster p ss ds l up l args w = ((True, r), w') \<and> \<not> par_WrongLeader r \<and> par_Err r = ErrOK \<and> par_Idx r = 0
      \<and> under_way p ss ds m (e # es) K d (pa_Op args) w' \<and> op_of c (pa_Op args)"
    using first_request[of p ss ds m "e # es" K d w args] unfolding put_cluster_def if_True simp_thms by blast
next
  fix args :: put_append_args and w :: world
  assume a: "under_way p ss ds m (e # es) K d (pa_Op args) w \<and> op_of c (pa_Op args)" "pa_Idx args = 0"
  then show "\<exists>r. put_cluster p ss ds l up l args w = ((True, r), w) \<and> \<not> par_WrongLeader r \<and> par_Err r = ErrOK \<and> par_Idx r = next_of (e # es)"
    using second_request[of p ss ds m "e # es" K d args w] unfolding put_cluster_def if_True simp_thms by blast
next
  fix args :: put_append_args and w :: world
  assume a: "under_way p ss ds m (e # es) K d (pa_Op args) w \<and> op_of c (pa_Op args)" "pa_Idx args = next_of (e # es)"
  then show "\<exists>r w'. put_cluster p ss ds l up l args w = ((True, r), w') \<and> \<not> par_WrongLeader r \<and> par_Err r = ErrOK
      \<and> finished p ss ds m (e # es) K (kv_sem c d) (pa_Op args) w'"
    using third_request[of p ss ds m "e # es" K d args w c] unfolding put_cluster_def if_True simp_thms by simp
qed

section \<open>Get\<close>

lemma get_request:
  assumes "at_rest p ss ds (Suc m) ls K d w" "clean (KGet k)" and o': "get_Op args = \<lparr>ContextId = ctx, op_Cmd = get_cmd k\<rparr>"
  shows "\<exists>r w'. get_leader p ss ds args w = ((True, r), w') \<and> on_get_reply True r = Some (Return (get_answer k d))
    \<and> finished p ss ds m ls K d (get_Op args) w'"
proof -
  let ?i = "next_of ls" and ?o = "get_Op args"
  let ?kv = "(w_kv w)\<lparr>kv_context := K(ctx \<mapsto> ?i)\<rparr>"
  let ?w = "w\<lparr>w_leader := dispatched (op_json ?o) (w_leader w), w_kv := ?kv\<rparr>" and ?e = "executed ?i ?o ?kv"
  note L = at_rest_leads[OF assms(1)]
  have kv: "kv_context (w_kv w) = K" "db (w_kv w) = d" "kv_log ?kv ?i = None" "ops ?kv ?i = None \<or> ops ?kv ?i = Some []"
    using assms(1) by (simp_all add: at_rest_def kv_clear_def)
  have get: "Get (Some (ReturnState zero_state_reply (w_leader w))) (\<lambda>_. Some \<lparr>ag_Term = t, ag_Index = ?i, ag_IsLeader = True\<rparr>) args zero_get_reply (w_kv w)
      = (make_op_chan ?i ?kv, Waiting ?i zero_get_reply)" for t
    using L(2) kv(1) by (simp add: Get_def ReturnState_def o' zero_get_reply_def Let_def)
  have "under_way p ss ds m ls K d ?o ?w"
    unfolding under_way_def using assms(1) o' by (intro exI[of _ "w_leader w"]) (simp add: at_rest_def kv_clear_def)
  from under_way_commits[OF this]
  obtain w' where w': "raft_commits p ss ds (?w\<lparr>w_kv := make_op_chan ?i ?kv\<rparr>) = Inr w'" "w_kv w' = ?e"
    "finished p ss ds m ls K (db ?e) ?o w'"
    by (elim exE conjE) (rule that, simp_all)
  obtain r where r: "Get_finish ?i args zero_get_reply ?e = Inr (?e, r)" "on_get_reply True r = Some (Return (get_answer k d))"
    and d: "db ?e = d"
    using executed_get[OF assms(2) kv(3,4) o'] kv(2) by auto
  have "get_leader p ss ds args w = ((True, r), w'\<lparr>w_kv := ?e\<rparr>)"
    using L w'(1,2) r(1) get by (simp add: get_leader_def accept_dispatched)
  moreover have "w'\<lparr>w_kv := ?e\<rparr> = w'" using w'(2) by (cases w') simp
  ultimately show ?thesis using w'(3) r(2) unfolding d by simp
qed

interpretation get_cluster: get_service "get_cluster p ss ds l up" "l + Suc n" l
    "\<lambda>args w. at_rest p ss ds (Suc m) (e # es) K d w \<and> clean (KGet k) \<and> get_Op args = \<lparr>ContextId = ctx, op_Cmd = get_cmd k\<rparr>"
    "\<lambda>_. get_answer k d" "\<lambda>args w w'. finished p ss ds m (e # es) K d (get_Op args) w'"
  for p ss ds l up n m e es K d k ctx
proof
  fix i :: nat and args :: get_args and w :: world
  show "l < l + Suc n" by simp
  show "i \<noteq> l \<Longrightarrow> \<exists>ok r. get_cluster p ss ds l up i args w = ((ok, r), w) \<and> on_get_reply ok r = None"
    by (cases "up i") (simp_all add: get_cluster_def Get_def leader_state_def on_get_reply_def zero_get_reply_def ErrNoKey_def ex_bool_eq)
  assume "at_rest p ss ds (Suc m) (e # es) K d w \<and> clean (KGet k) \<and> get_Op args = \<lparr>ContextId = ctx, op_Cmd = get_cmd k\<rparr>"
  then show "\<exists>ok r w'. get_cluster p ss ds l up l args w = ((ok, r), w') \<and> on_get_reply ok r = Some (Return (get_answer k d))
      \<and> finished p ss ds m (e # es) K d (get_Op args) w'"
    using get_request[of p ss ds m "e # es" K d w k args ctx] unfolding get_cluster_def if_True simp_thms by blast
qed

section \<open>Sessions\<close>

text \<open>A request with the two random numbers of its context id.\<close>

type_synonym request = "(int \<times> int) \<times> kv_cmd"

fun request_op :: "request \<Rightarrow> kv_op" where
  "request_op (rs, KGet k) = \<lparr>ContextId = get_context (fst rs) (snd rs), op_Cmd = get_cmd k\<rparr>"
| "request_op (rs, c) = \<lparr>ContextId = put_context (fst rs) (snd rs), op_Cmd = render c\<rparr>"

type_synonym servers = "(put_append_args, put_append_reply, world) call \<times> (get_args, get_reply, world) call"

text \<open>A request and its answer, if it has one; three rounds of the clerk's loop for a Put or Append, one for a Get.\<close>

fun do_request :: "servers \<Rightarrow> nat \<Rightarrow> request \<Rightarrow> int \<times> world \<Rightarrow> (string list \<times> int \<times> world) option" where
  "do_request (puts, gets) n (rs, KPut k v) (ldr, w) = map_option (\<lambda>s. ([], s)) (clerk_PutAppend puts n 3 rs PUT k v ldr w)"
| "do_request (puts, gets) n (rs, KAppend k v) (ldr, w) = map_option (\<lambda>s. ([], s)) (clerk_PutAppend puts n 3 rs APPEND k v ldr w)"
| "do_request (puts, gets) n (rs, KGet k) (ldr, w) = map_option (\<lambda>(v, s). ([v], s)) (clerk_Get gets n 1 rs k ldr w)"

fun session :: "servers \<Rightarrow> nat \<Rightarrow> request list \<Rightarrow> int \<times> world \<Rightarrow> (string list \<times> int \<times> world) option" where
  "session srv n [] s = Some ([], s)"
| "session srv n (r # rs) s =
     (case do_request srv n r s of
        None \<Rightarrow> None
      | Some (vs, s) \<Rightarrow> map_option (\<lambda>(vs', s). (vs @ vs', s)) (session srv n rs s))"

text \<open>The answers of the abstract map.\<close>

fun answers :: "kv_cmd list \<Rightarrow> (string \<Rightarrow> string option) \<Rightarrow> string list" where
  "answers [] d = []"
| "answers (KGet k # cs) d = get_answer k d # answers cs d"
| "answers (c # cs) d = answers cs (kv_sem c d)"

definition cluster :: "nat \<Rightarrow> nat list \<Rightarrow> nat list \<Rightarrow> nat \<Rightarrow> (nat \<Rightarrow> bool) \<Rightarrow> servers" where
  "cluster p ss ds l up = (put_cluster p ss ds l up, get_cluster p ss ds l up)"

lemma answers_Cons: "answers (c # cs) d = answers [c] d @ answers cs (kv_sem c d)"
  by (cases c) simp_all

lemma put_request_finishes:
  assumes w: "at_rest p ss ds (Suc m) (e # es) K d w" and c: "clean c" "c = (if op = PUT then KPut k v else KAppend k v)" "op \<in> {PUT, APPEND}"
    and K: "K (put_context (fst rs) (snd rs)) = None" and ldr: "l < n" "ldr = -1 \<or> ldr = int l"
  shows "\<exists>w'. clerk_PutAppend (put_cluster p ss ds l up) n 3 rs op k v ldr w = Some (int l, w')
    \<and> finished p ss ds m (e # es) K (kv_sem c d) \<lparr>ContextId = put_context (fst rs) (snd rs), op_Cmd = render c\<rparr> w'"
proof -
  obtain j where n: "n = l + Suc j" using ldr(1) less_iff_Suc_add by auto
  let ?args = "put_args (put_context (fst rs) (snd rs)) op k v"
  have a: "pa_Op ?args = \<lparr>ContextId = put_context (fst rs) (snd rs), op_Cmd = render c\<rparr>" "pa_Idx ?args = 0"
    using c(2,3) by (auto simp: put_args_def)
  then have "op_of c (pa_Op ?args)" using c by (auto simp: op_of_def)
  with w K a have "at_rest p ss ds (Suc m) (e # es) K d w \<and> K (ContextId (pa_Op ?args)) = None \<and> op_of c (pa_Op ?args)" by simp
  from put_cluster.put_loop_finishes[OF ldr(2) this a(2), of 3 up j] show ?thesis
    using c(3) unfolding n a(1) by (auto simp: clerk_PutAppend_def op_names)
qed

lemma request_finishes:
  assumes w: "at_rest p ss ds (Suc m) ls K d w" and c: "clean c" and K: "K (ContextId (request_op (rs, c))) = None"
    and ldr: "l < n" "ldr = -1 \<or> ldr = int l"
  shows "\<exists>ldr' w'. do_request (cluster p ss ds l up) n (rs, c) (ldr, w) = Some (answers [c] d, ldr', w')
    \<and> (ldr' = -1 \<or> ldr' = int l) \<and> finished p ss ds m ls K (kv_sem c d) (request_op (rs, c)) w'"
proof -
  obtain e es where ls: "ls = e # es" using at_rest_leads(4)[OF w] by (cases ls) auto
  show ?thesis
  proof (cases c)
    case (KPut k v)
    then show ?thesis
      using put_request_finishes[OF w[unfolded ls] c, of PUT k v rs l n ldr up] K ldr by (auto simp: cluster_def ls)
  next
    case (KAppend k v)
    then show ?thesis
      using put_request_finishes[OF w[unfolded ls] c, of APPEND k v rs l n ldr up] K ldr by (auto simp: cluster_def ls op_names)
  next
    case (KGet k)
    obtain j where n: "n = l + Suc j" using ldr(1) less_iff_Suc_add by auto
    let ?args = "\<lparr>Key = [], get_Op = \<lparr>ContextId = get_context (fst rs) (snd rs), op_Cmd = get_cmd k\<rparr>\<rparr>"
    have "at_rest p ss ds (Suc m) (e # es) K d w \<and> clean (KGet k)
      \<and> get_Op ?args = \<lparr>ContextId = get_context (fst rs) (snd rs), op_Cmd = get_cmd k\<rparr>"
      using w c KGet ls by simp
    from get_cluster.get_loop_finishes[OF ldr(2) this, of 1 up j] show ?thesis
      using KGet ls by (auto simp: cluster_def clerk_Get_def n)
  qed
qed

text \<open>The state of the world after a session: what the requests added to the leader's log.\<close>

lemma session_finishes:
  assumes "at_rest p ss ds (length rs) ls K d w" "\<forall>r \<in> set rs. clean (snd r)"
    and "distinct (map (ContextId \<circ> request_op) rs)" "\<forall>r \<in> set rs. K (ContextId (request_op r)) = None"
    and "l < n" "ldr = -1 \<or> ldr = int l" "rs = [] \<longrightarrow> (\<forall>s \<in> set ss. map entry_id (logs (w_peers w s)) = map entry_id ls)"
  shows "\<exists>ldr' w' es K'. session (cluster p ss ds l up) n rs (ldr, w) = Some (answers (map snd rs) d, ldr', w')
    \<and> map Cmd es = map (op_json \<circ> request_op) rs \<and> at_rest p ss ds 0 (ls @ es) K' (fold kv_sem (map snd rs) d) w'
    \<and> (\<forall>s \<in> set ss. map entry_id (logs (w_peers w' s)) = map entry_id (ls @ es))"
  using assms
proof (induction rs arbitrary: ls K d w ldr)
  case Nil
  then show ?case by (intro exI[of _ ldr] exI[of _ w] exI[of _ "[]"] exI[of _ K]) simp
next
  case (Cons r rs)
  obtain ctx c where r: "r = (ctx, c)" by (cases r)
  have c: "clean c" "K (ContextId (request_op (ctx, c))) = None" "at_rest p ss ds (Suc (length rs)) ls K d w"
    using Cons.prems(1,2,4) r by simp_all
  obtain ldr1 w1 where 1: "do_request (cluster p ss ds l up) n (ctx, c) (ldr, w) = Some (answers [c] d, ldr1, w1)"
    "ldr1 = -1 \<or> ldr1 = int l" "finished p ss ds (length rs) ls K (kv_sem c d) (request_op (ctx, c)) w1"
    using request_finishes[OF c(3,1,2) Cons.prems(5,6), of up] by (elim exE conjE) (rule that)
  let ?K = "K(ContextId (request_op (ctx, c)) \<mapsto> next_of ls)"
  obtain e where e: "Cmd e = op_json (request_op (ctx, c))" "at_rest p ss ds (length rs) (ls @ [e]) ?K (kv_sem c d) w1"
    "\<forall>s \<in> set ss. map entry_id (logs (w_peers w1 s)) = map entry_id (ls @ [e])"
    using 1(3) unfolding finished_def by (elim exE conjE) (rule that)
  have fresh: "ContextId (request_op q) \<noteq> ContextId (request_op (ctx, c))" if "q \<in> set rs" for q
  proof
    assume "ContextId (request_op q) = ContextId (request_op (ctx, c))"
    then have "(ContextId \<circ> request_op) r \<in> (ContextId \<circ> request_op) ` set rs" using that r by (metis comp_apply imageI)
    then show False using Cons.prems(3) by simp
  qed
  have "\<forall>q \<in> set rs. clean (snd q)" "distinct (map (ContextId \<circ> request_op) rs)" "\<forall>q \<in> set rs. ?K (ContextId (request_op q)) = None"
    "rs = [] \<longrightarrow> (\<forall>s \<in> set ss. map entry_id (logs (w_peers w1 s)) = map entry_id (ls @ [e]))"
    using Cons.prems(2-4) fresh e(3) by (simp_all add: comp_def)
  from Cons.IH[OF e(2) this(1-3) Cons.prems(5) 1(2) this(4)] obtain ldr' w' es K' where
    s: "session (cluster p ss ds l up) n rs (ldr1, w1) = Some (answers (map snd rs) (kv_sem c d), ldr', w')"
    "map Cmd es = map (op_json \<circ> request_op) rs"
    "at_rest p ss ds 0 ((ls @ [e]) @ es) K' (fold kv_sem (map snd rs) (kv_sem c d)) w'"
    "\<forall>s \<in> set ss. map entry_id (logs (w_peers w' s)) = map entry_id ((ls @ [e]) @ es)"
    by (elim exE conjE) (rule that)
  have "session (cluster p ss ds l up) n (r # rs) (ldr, w) = Some (answers (map snd (r # rs)) d, ldr', w')"
    using 1(1) s(1) answers_Cons[of c "map snd rs" d] by (simp add: r)
  then show ?case
    using s(2-4) e(1) r by (intro exI[of _ ldr'] exI[of _ w'] exI[of _ "e # es"] exI[of _ K']) simp
qed

text \<open>C8: Sessions end to end: with a leader that has nothing under way and half of the other servers
  answering, any sequence of Puts, Appends and Gets of a clerk completes, whatever the remaining servers
  do, in three rounds of the clerk's loop for a Put or Append and one for a Get. A Get is
  answered with what the abstract map has for its key, up to the first \<open><<>>\<close> inside it, or "No
  key"; every command is once, in order, at the end of the leader's log, committed, executed by
  the leader's key/value server and held by half of the others.
  The conditions (\<open>steady\<close> and the other premises): the leader has committed its log, its channels
  are empty and it has counted nothing beyond it; the answering servers' logs satisfy log
  matching with the leader's and are not longer (\<open>stale_match_blocks_commit\<close>), their channels are
  empty, and their terms not newer; keys and values contain no separator; the requests'
  contexts are distinct and new to the service, which knows nothing of indices beyond the log; and
  indices stay below the 32-bit limit.\<close>
theorem session_end_to_end:
  assumes "steady p ss ds (w_leader w) (w_peers w)"
    and "length (logs (w_leader w)) + length rs \<le> p" "length (logs (w_leader w)) + length rs < 2147483646"
    and "\<forall>j \<ge> int (length (logs (w_leader w))). kv_log (w_kv w) j = None \<and> ops (w_kv w) j = None"
    and "\<forall>r \<in> set rs. clean (snd r) \<and> kv_context (w_kv w) (ContextId (request_op r)) = None"
    and "distinct (map (ContextId \<circ> request_op) rs)" "rs \<noteq> []" "l < n"
  shows "\<exists>ldr w' es. session (cluster p ss ds l up) n rs (MakeClerk, w) = Some (answers (map snd rs) (db (w_kv w)), ldr, w')
    \<and> logs (w_leader w') = logs (w_leader w) @ es \<and> map Cmd es = map (op_json \<circ> request_op) rs
    \<and> commitIdx (w_leader w') = int (length (logs (w_leader w'))) - 1
    \<and> db (w_kv w') = fold kv_sem (map snd rs) (db (w_kv w))
    \<and> (\<forall>s \<in> set ss. map entry_id (logs (w_peers w' s)) = map entry_id (logs (w_leader w')))"
proof -
  let ?ls = "logs (w_leader w)" and ?K = "kv_context (w_kv w)"
  have "at_rest p ss ds (length rs) ?ls ?K (db (w_kv w)) w"
    using assms(1-4) by (simp add: at_rest_def kv_clear_def)
  moreover have "\<forall>r \<in> set rs. clean (snd r)" "\<forall>r \<in> set rs. ?K (ContextId (request_op r)) = None" using assms(5) by simp_all
  moreover have "MakeClerk = -1 \<or> MakeClerk = int l" by (simp add: MakeClerk_def)
  ultimately have "\<exists>ldr' w' es K'. session (cluster p ss ds l up) n rs (MakeClerk, w) = Some (answers (map snd rs) (db (w_kv w)), ldr', w')
    \<and> map Cmd es = map (op_json \<circ> request_op) rs \<and> at_rest p ss ds 0 (?ls @ es) K' (fold kv_sem (map snd rs) (db (w_kv w))) w'
    \<and> (\<forall>s \<in> set ss. map entry_id (logs (w_peers w' s)) = map entry_id (?ls @ es))"
    using assms(6-8) by (intro session_finishes) auto
  then obtain ldr w' es K' where
    s: "session (cluster p ss ds l up) n rs (MakeClerk, w) = Some (answers (map snd rs) (db (w_kv w)), ldr, w')"
    "map Cmd es = map (op_json \<circ> request_op) rs" "at_rest p ss ds 0 (?ls @ es) K' (fold kv_sem (map snd rs) (db (w_kv w))) w'"
    "\<forall>s \<in> set ss. map entry_id (logs (w_peers w' s)) = map entry_id (?ls @ es)"
    by (elim exE conjE) (rule that)
  then show ?thesis
    by (intro exI[of _ ldr] exI[of _ w'] exI[of _ es]) (simp add: at_rest_def steady_def)
qed

text \<open>Three servers: server 0 leads, server 1 has two entries of another leader, server 2 is down. The clerk
  does not know the leader; it writes twice and reads.\<close>

definition ex_world :: world where
  "ex_world = \<lparr>w_leader = rx_leader\<lparr>logidx := 2, commitIdx := 2, lastApplied := 2\<rparr>, w_peers = (\<lambda>_. rx_follower), w_kv = StartKVServer 0 (-1)\<rparr>"

definition ex_session :: "request list" where
  "ex_session = [((1, 1), KPut ''k'' ''a''), ((1, 2), KAppend ''k'' ''b''), ((1, 3), KGet ''k'')]"

lemma ex_world_steady: "steady 6 [1] [2] (w_leader ex_world) (w_peers ex_world)"
proof -
  let ?L = "w_leader ex_world"
  have f: "length (logs ?L) = 3" "length (logs rx_follower) = 3" "n_peers ?L = 3" "nextIndex ?L ! Suc 0 = 3"
    "matchIndex ?L ! Suc 0 = 0" "commitIdx rx_follower = 0" "lastApplied rx_follower = 0" "commitIdxChnl ?L = []"
    "commitIdx ?L = 2" "commitTracker ?L = Map.empty" "jobsChnl ?L = []" "isLeader ?L" "logidx ?L = 2"
    "rdyChnl ?L = replicate 3 []" "me ?L = 0" "w_peers ex_world = (\<lambda>_. rx_follower)"
    by (simp_all add: ex_world_def rx_leader_def rx_follower_def Make_def readPersist_def persister_defs)
  have wf: "log_wf (logs ?L)" by (simp add: ex_world_def rx_leader_def log_wf_def nth_Cons')
  have inv: "repair_inv 1 ?L rx_follower" and lead: "leads 2 ?L"
    by (simp_all add: repair_defs queued_def ex_world_def rx_leader_def rx_follower_def log_wf_def nth_Cons')
  have lm: "log_matching (logs ?L) (logs rx_follower)"
    by (auto simp: log_matching_def ex_world_def rx_leader_def rx_follower_def nth_Cons' less_Suc_eq numeral_3_eq_3)
  have "idle_leader ?L" using wf by (simp add: idle_leader_def f rdy_room_def MAX_LOGS_def)
  moreover have "idle_peer 6 ?L 1 rx_follower" using inv lm by (simp add: idle_peer_def f)
  ultimately show ?thesis using lead by (auto simp: steady_def f less_Suc_eq numeral_3_eq_3)
qed

theorem session_end_to_end_witness:
  "\<exists>ldr w. session (cluster 6 [1] [2] 0 (\<lambda>i. i = 1)) 3 ex_session (MakeClerk, ex_world) = Some ([''ab''], ldr, w)
     \<and> commitIdx (w_leader w) = 5 \<and> map entry_id (logs (w_peers w 1)) = map entry_id (logs (w_leader w)) \<and> db (w_kv w) ''k'' = Some ''ab''"
proof -
  have len: "length (logs (w_leader ex_world)) = 3" "length ex_session = 3"
    by (simp_all add: ex_world_def rx_leader_def ex_session_def)
  have kv: "w_kv ex_world = StartKVServer 0 (-1)" by (simp add: ex_world_def)
  have ctx: "put_context 1 1 = ''1:1''" "put_context 1 2 = ''1:2''" "get_context 1 3 = ''1:3''" by code_simp+
  have "\<forall>r \<in> set ex_session. clean (snd r) \<and> kv_context (w_kv ex_world) (ContextId (request_op r)) = None"
    by (simp add: ex_session_def kv StartKVServer_def contains_def separators)
  moreover have "distinct (map (ContextId \<circ> request_op) ex_session)" by (simp add: ex_session_def ctx)
  moreover have "\<forall>j \<ge> int (length (logs (w_leader ex_world))). kv_log (w_kv ex_world) j = None \<and> ops (w_kv ex_world) j = None"
    by (simp add: kv StartKVServer_def)
  moreover have "ex_session \<noteq> []" "(0::nat) < 3" by (simp_all add: ex_session_def)
  ultimately obtain ldr w es where s:
    "session (cluster 6 [1] [2] 0 (\<lambda>i. i = 1)) 3 ex_session (MakeClerk, ex_world) = Some (answers (map snd ex_session) (db (w_kv ex_world)), ldr, w)"
    "logs (w_leader w) = logs (w_leader ex_world) @ es" "map Cmd es = map (op_json \<circ> request_op) ex_session"
    "commitIdx (w_leader w) = int (length (logs (w_leader w))) - 1" "db (w_kv w) = fold kv_sem (map snd ex_session) (db (w_kv ex_world))"
    "\<forall>s \<in> set [1]. map entry_id (logs (w_peers w s)) = map entry_id (logs (w_leader w))"
    using session_end_to_end[OF ex_world_steady, of ex_session 0 3 "\<lambda>i. i = 1"] len by auto
  have "answers (map snd ex_session) (db (w_kv ex_world)) = [''ab'']" "db (w_kv w) ''k'' = Some ''ab''"
    by (simp_all add: s(5) ex_session_def kv StartKVServer_def get_answer_def Split_none contains_def separators)
  moreover have "length es = 3" using s(3) len(2) by (metis length_map)
  ultimately show ?thesis using s(1,2,4,6) len(1) by (intro exI[of _ ldr] exI[of _ w]) simp
qed

end
