(* ===== verification/ControlData.thy ===== *)
theory ControlData
  imports GoStrings Atomics
begin

text \<open>
  The messages of the controllers (\<open>controller/data/kvraft_data.go\<close>,
  \<open>controller/data/control_data.go\<close>, \<open>CommonReply\<close> of \<open>controller/common/common.go\<close>), and
  the part of \<open>net/url\<close>'s \<open>URL\<close> the program fills in. \<open>full_addr\<close> is the
  \<open>strings.Join\<close> of address and port that every controller repeats. A missing key of a
  \<open>map[string]url.URL\<close> reads as the zero URL (\<open>url_of\<close>).
\<close>

record url =
  Scheme :: string
  Host :: string
  Path :: string

definition zero_url :: url where
  "zero_url = \<lparr>Scheme = '''', Host = '''', Path = ''''\<rparr>"

type_synonym url_table = "string \<rightharpoonup> url"

definition url_of :: "url_table \<Rightarrow> string \<Rightarrow> url" where
  "url_of tab k = (case tab k of None \<Rightarrow> zero_url | Some u \<Rightarrow> u)"

record common_reply =
  cr_Ok :: bool
  cr_Err :: "string option"

definition zero_common_reply :: common_reply where
  "zero_common_reply = \<lparr>cr_Ok = False, cr_Err = None\<rparr>"

record raft_connect_details =
  Addr :: string
  Port :: int
  conn_Id :: int
  ReplyFullPath :: string

definition zero_connect :: raft_connect_details where
  "zero_connect = \<lparr>Addr = '''', Port = 0, conn_Id = 0, ReplyFullPath = ''''\<rparr>"

record raft_kv_init_config =
  RaftConnect :: raft_connect_details
  RaftStartWSFullPath :: string
  RaftStartFullPath :: string
  KVInitFullPath :: string

definition zero_init_config :: raft_kv_init_config where
  "zero_init_config = \<lparr>RaftConnect = zero_connect, RaftStartWSFullPath = '''',
     RaftStartFullPath = '''', KVInitFullPath = ''''\<rparr>"

record connect_master_reply =
  Peers :: "raft_connect_details list"
  cm_Ok :: bool
  cm_Id :: int

record stop_server_arg = stop_Idx :: int
record start_server_arg = start_Idx :: int

definition full_addr :: "string \<Rightarrow> int \<Rightarrow> string" where
  "full_addr addr port = join '':'' [addr, Itoa port]"

text \<open>
  An address and a port determine the text of \<open>full_addr\<close>, and the other way round when the
  address has no colon (a host name or an IPv4 address, not a bracketless IPv6 address).
\<close>

lemma full_addr_inj:
  assumes "full_addr a p = full_addr b q" "CHR '':'' \<notin> set a" "CHR '':'' \<notin> set b"
    and "0 \<le> p" "0 \<le> q"
  shows "a = b \<and> p = q"
proof -
  have "a @ CHR '':'' # Itoa p = b @ CHR '':'' # Itoa q" using assms(1) by (simp add: full_addr_def)
  from split_at_unique[OF this assms(2,3)] have ab: "a = b" and i: "Itoa p = Itoa q" by simp_all
  have f: "format_nat 10 (nat p) = format_nat 10 (nat q)"
    using i assms(4,5) by (simp add: Itoa_def FormatInt_def)
  have "nat p = unformat 10 (format_nat 10 (nat p))" by (rule unformat_format[symmetric]) simp_all
  also have "\<dots> = nat q" unfolding f by (rule unformat_format) simp_all
  finally show ?thesis using ab assms(4,5) by simp
qed

end
