(* ===== verification/RpcClient.thy ===== *)
theory RpcClient
  imports ControlData
begin

text \<open>
  Remote calls: \<open>QuickCall\<close> and \<open>Call\<close> of \<open>controller/common/common.go\<close> and the \<open>RClient\<close> of
  \<open>controller/data/rclient.go\<close>, which Raft, the key/value server and the clerk hold as
  \<open>RaftKVClient\<close>. What \<open>net/http\<close>, \<open>net/url\<close> and \<open>encoding/json\<close> do is the record
  \<open>http_env\<close>, an argument of the calls: marshalling, the text of a URL and whether it parses,
  sending a request, reading a body, unmarshalling over the old value of the reply. A call
  gives the requests handed to the HTTP client, the reply after it, and its boolean.
  Log output is left out.

  The block flag of an \<open>RClient\<close> is the interface the stop and start commands use: the locale
  \<open>switch\<close>, interpreted on it.
\<close>

section \<open>Calls over HTTP\<close>

record http_request =
  rq_Method :: string
  rq_URL :: string
  rq_Header :: "string \<rightharpoonup> string"
  rq_Body :: string

record ('a, 'p, 'r) http_env =
  json_Marshal :: "'a \<Rightarrow> string option"
  url_String :: "url \<Rightarrow> string"
  url_parses :: "string \<Rightarrow> bool"
  client_Do :: "http_request \<Rightarrow> 'p option"
  ReadAll :: "'p \<Rightarrow> string option"
  json_Unmarshal :: "string \<Rightarrow> 'r \<Rightarrow> 'r \<times> bool"

definition NewRequest :: "('a, 'p, 'r) http_env \<Rightarrow> string \<Rightarrow> string \<Rightarrow> string \<Rightarrow> http_request option" where
  "NewRequest env method u body =
     (if url_parses env u
      then Some \<lparr>rq_Method = method, rq_URL = u, rq_Header = Map.empty, rq_Body = body\<rparr> else None)"

type_synonym 'r outcome = "http_request list \<times> 'r \<times> bool"

definition QuickCall :: "('a, 'p, 'r) http_env \<Rightarrow> url \<Rightarrow> 'a \<Rightarrow> 'r \<Rightarrow> 'r outcome go" where
  "QuickCall env u args reply =
     (case json_Marshal env args of
        None \<Rightarrow> Inr ([], reply, False)
      | Some b \<Rightarrow>
          (case NewRequest env ''POST'' (url_String env u) b of
             None \<Rightarrow> Inl NilDereference
           | Some req0 \<Rightarrow>
               let req = req0\<lparr>rq_Header := (rq_Header req0)(''Content-Type'' \<mapsto> ''application/json'')\<rparr> in
               (case client_Do env req of
                  None \<Rightarrow> Inr ([req], reply, False)
                | Some resp \<Rightarrow>
                    (case ReadAll env resp of
                       None \<Rightarrow> Inr ([req], reply, False)
                     | Some body \<Rightarrow>
                         (case json_Unmarshal env body reply of
                            (reply', ok) \<Rightarrow> Inr ([req], reply', ok))))))"

definition Call :: "('a, 'p, 'r) http_env \<Rightarrow> string \<Rightarrow> 'a \<Rightarrow> 'r \<Rightarrow> url_table \<Rightarrow> 'r outcome go" where
  "Call env methodName args reply tab = (let u = url_of tab methodName in QuickCall env u args reply)"

text \<open>A call panics exactly when its URL does not parse: the header of the nil request is set
  before the error is looked at.\<close>

lemma QuickCall_Inl:
  "QuickCall env u args reply = Inl e \<longleftrightarrow>
   e = NilDereference \<and> json_Marshal env args \<noteq> None \<and> \<not> url_parses env (url_String env u)"
  by (auto simp: QuickCall_def NewRequest_def Let_def split: option.splits prod.splits)

text \<open>At most one request is sent, a JSON POST to the URL of the call.\<close>

lemma QuickCall_sent:
  assumes "QuickCall env u args reply = Inr (sent, reply', ok)"
  shows "sent = [] \<and> json_Marshal env args = None
    \<or> (\<exists>b. json_Marshal env args = Some b \<and> sent = [\<lparr>rq_Method = ''POST'', rq_URL = url_String env u,
         rq_Header = [''Content-Type'' \<mapsto> ''application/json''], rq_Body = b\<rparr>])"
  using assms
  by (auto simp: QuickCall_def NewRequest_def Let_def split: option.splits prod.splits if_splits)

text \<open>The boolean is true exactly when every step succeeded; when a step before the decoding
  failed, the reply is as it was.\<close>

lemma QuickCall_ok:
  "QuickCall env u args reply = Inr (sent, reply', True) \<longleftrightarrow>
   (\<exists>b resp body. json_Marshal env args = Some b \<and> url_parses env (url_String env u)
      \<and> sent = [\<lparr>rq_Method = ''POST'', rq_URL = url_String env u,
            rq_Header = [''Content-Type'' \<mapsto> ''application/json''], rq_Body = b\<rparr>]
      \<and> client_Do env (hd sent) = Some resp \<and> ReadAll env resp = Some body
      \<and> json_Unmarshal env body reply = (reply', True))"
  by (auto simp: QuickCall_def NewRequest_def Let_def split: option.splits prod.splits if_splits)

lemma QuickCall_failed:
  assumes "QuickCall env u args reply = Inr (sent, reply', False)"
  shows "reply' = reply \<or> (\<exists>body. json_Unmarshal env body reply = (reply', False))"
  using assms by (auto simp: QuickCall_def Let_def split: option.splits prod.splits)

section \<open>The block flag\<close>

locale switch =
  fixes off :: "'c \<Rightarrow> 'c"
    and on :: "'c \<Rightarrow> 'c"
    and is_off :: "'c \<Rightarrow> bool"
  assumes is_off_off: "is_off (off c)"
    and is_off_on: "\<not> is_off (on c)"
begin

definition set_to :: "bool \<Rightarrow> 'c \<Rightarrow> 'c" where
  "set_to b c = (if b then off c else on c)"

lemma is_off_set_to: "is_off (set_to b c) \<longleftrightarrow> b"
  by (simp add: set_to_def is_off_off is_off_on)

text \<open>The last command counts.\<close>

lemma last_command: "bs \<noteq> [] \<Longrightarrow> is_off (fold set_to bs c) \<longleftrightarrow> last bs"
  by (induction bs arbitrary: c) (auto simp: is_off_set_to)

end

section \<open>RClient\<close>

record 'w rclient =
  boundMethods :: url_table
  WsMethods :: "string \<rightharpoonup> 'w"
  isBlocked :: AtBool

definition NewRClient :: "url_table \<Rightarrow> (string \<rightharpoonup> 'w) \<Rightarrow> 'w rclient" where
  "NewRClient bound wsmethods =
     \<lparr>boundMethods = bound, WsMethods = wsmethods, isBlocked = \<lparr>atbool_val = 0\<rparr>\<rparr>"

definition RClient_Call :: "('a, 'p, 'r) http_env \<Rightarrow> 'w rclient \<Rightarrow> string \<Rightarrow> 'a \<Rightarrow> 'r \<Rightarrow> 'r outcome go" where
  "RClient_Call env c methodName args reply =
     (if AtBool_Load (isBlocked c) then Inr ([], reply, False)
      else Call env methodName args reply (boundMethods c))"

text \<open>\<open>write_and_receive\<close> stands for \<open>WSConnection.WriteAndReceive\<close>: what the reply is after it.\<close>

definition RClient_CallWS ::
  "('w \<Rightarrow> 'a \<Rightarrow> 'r \<Rightarrow> 'r) \<Rightarrow> 'w rclient \<Rightarrow> string \<Rightarrow> 'a \<Rightarrow> 'r \<Rightarrow> 'r \<times> bool" where
  "RClient_CallWS write_and_receive c methodName args reply =
     (if AtBool_Load (isBlocked c) then (reply, False)
      else case WsMethods c methodName of
             Some wsconn \<Rightarrow> (write_and_receive wsconn args reply, True)
           | None \<Rightarrow> (reply, False))"

definition RClient_Block :: "'w rclient \<Rightarrow> 'w rclient" where
  "RClient_Block c = c\<lparr>isBlocked := AtBool_Set (isBlocked c) True\<rparr>"

definition RClient_Unblock :: "'w rclient \<Rightarrow> 'w rclient" where
  "RClient_Unblock c = c\<lparr>isBlocked := AtBool_Set (isBlocked c) False\<rparr>"

definition RClient_IsBlocked :: "'w rclient \<Rightarrow> bool" where
  "RClient_IsBlocked c = AtBool_Load (isBlocked c)"

interpretation rclient_switch: switch RClient_Block RClient_Unblock RClient_IsBlocked
  by unfold_locales
    (simp_all add: RClient_Block_def RClient_Unblock_def RClient_IsBlocked_def atomic_defs)

lemma rclient_keeps [simp]:
  "boundMethods (RClient_Block c) = boundMethods c"
  "boundMethods (RClient_Unblock c) = boundMethods c"
  "WsMethods (RClient_Block c) = WsMethods c"
  "WsMethods (RClient_Unblock c) = WsMethods c"
  by (simp_all add: RClient_Block_def RClient_Unblock_def)

lemma rclient_blocked [simp]:
  "RClient_IsBlocked (RClient_Block c)" "\<not> RClient_IsBlocked (RClient_Unblock c)"
  by (fact rclient_switch.is_off_off rclient_switch.is_off_on)+

lemma new_not_blocked [simp]: "\<not> RClient_IsBlocked (NewRClient b ws)"
  by (simp add: NewRClient_def RClient_IsBlocked_def AtBool_Load_def)

text \<open>A blocked client sends nothing and answers false.\<close>

lemma blocked_silent:
  assumes "RClient_IsBlocked c"
  shows "RClient_Call env c m args reply = Inr ([], reply, False)"
    and "RClient_CallWS war c m args' reply' = (reply', False)"
  using assms by (simp_all add: RClient_Call_def RClient_CallWS_def RClient_IsBlocked_def)

text \<open>An open one reaches the peer: a connected websocket is used and the answer is true.\<close>

lemma open_CallWS:
  assumes "\<not> RClient_IsBlocked c" "WsMethods c m = Some w"
  shows "RClient_CallWS war c m args reply = (war w args reply, True)"
  using assms by (simp add: RClient_CallWS_def RClient_IsBlocked_def)

end
