(* ===== verification/RaftControl.thy ===== *)
theory RaftControl
  imports RpcClient
begin

text \<open>
  The controller of one Raft server (\<open>controller/raft_controller.go\<close>): its address, its table of
  routes \<open>BoundMethods\<close>, and one \<open>RClient\<close> per server of the cluster. The handlers the master
  controller calls: stop and start a server, the address of the key/value server, the peers,
  the websockets between peers, and the check in \<open>StartRaft\<close> that they are there. A nil client is
  \<open>None\<close>; using it is \<open>NilDereference\<close>. \<open>raftClients[Me]\<close> shares the map \<open>BoundMethods\<close> with the
  controller, so \<open>InitKVServerInfo\<close> writes to both (\<open>bind_own\<close>).

  Its routes are in \<open>Routing\<close>. Not modelled: the echo service, and the reflection around \<open>StartRPCMode\<close>.
\<close>

section \<open>State\<close>

record 'w raft_controller =
  rc_Me :: int
  rc_Addr :: string
  rc_BoundMethods :: url_table
  raftClients :: "'w rclient option list"

definition MasterControllerRaftServerAPI :: string where
  "MasterControllerRaftServerAPI = ''/api/controller/v1/raftadd''"

definition master_addr :: string where
  "master_addr = full_addr ''localhost'' 65000"

definition raft_routes :: "url \<Rightarrow> url_table" where
  "raft_routes baseURL = Map.empty
     (''Raft.RequestVote'' \<mapsto> baseURL\<lparr>Path := ''raft/v1/election''\<rparr>,
      ''Raft.HeartBeat'' \<mapsto> baseURL\<lparr>Path := ''raft/v1/heartbeat''\<rparr>,
      ''Raft.Agree'' \<mapsto> baseURL\<lparr>Path := ''raft/v1/agree''\<rparr>,
      ''Raft.ReturnState'' \<mapsto> baseURL\<lparr>Path := ''raft/v1/get_state''\<rparr>,
      ''RaftController.InitRaftPeers'' \<mapsto> baseURL\<lparr>Path := ''raft/v1/internal/init_raft_server''\<rparr>,
      ''RaftController.StartWebsocket'' \<mapsto> baseURL\<lparr>Path := ''raft/v1/internal/start_websockets''\<rparr>,
      ''RaftController.StartRaftServer'' \<mapsto> baseURL\<lparr>Path := ''raft/v1/internal/start_raft_server''\<rparr>,
      ''RaftController.InitKVServerInfo'' \<mapsto> baseURL\<lparr>Path := ''raft/v1/internal/init_kv_server''\<rparr>,
      ''RaftController.StopRaftAPI'' \<mapsto> baseURL\<lparr>Path := ''raft/v1/internal/stop''\<rparr>,
      ''RaftController.StartRaftAPI'' \<mapsto> baseURL\<lparr>Path := ''raft/v1/internal/start''\<rparr>,
      ''Raft.WSHeartBeat'' \<mapsto> baseURL\<lparr>Path := ''raft/v1/ws/heartbeat''\<rparr>)"

text \<open>The new controller, and the \<open>QuickCall\<close> that tells the master controller it is ready.\<close>

definition MakeRaftController ::
  "(url \<Rightarrow> string) \<Rightarrow> string \<Rightarrow> int \<Rightarrow> 'w raft_controller \<times> url \<times> raft_kv_init_config" where
  "MakeRaftController url_text host port =
     (let addr = full_addr host port;
          baseURL = \<lparr>Scheme = ''http'', Host = addr, Path = ''''\<rparr>;
          tab = raft_routes baseURL
      in (\<lparr>rc_Me = 0, rc_Addr = addr, rc_BoundMethods = tab, raftClients = []\<rparr>,
          \<lparr>Scheme = ''http'', Host = master_addr, Path = MasterControllerRaftServerAPI\<rparr>,
          \<lparr>RaftConnect = \<lparr>Addr = host, Port = port, conn_Id = 0,
             ReplyFullPath = url_text (url_of tab ''RaftController.InitRaftPeers'')\<rparr>,
           RaftStartWSFullPath = url_text (url_of tab ''RaftController.StartWebsocket''),
           RaftStartFullPath = url_text (url_of tab ''RaftController.StartRaftServer''),
           KVInitFullPath = url_text (url_of tab ''RaftController.InitKVServerInfo'')\<rparr>))"

definition get_client :: "'w raft_controller \<Rightarrow> int \<Rightarrow> 'w rclient go" where
  "get_client rc i = go_bind (idx (raftClients rc) i)
     (\<lambda>c. case c of None \<Rightarrow> Inl NilDereference | Some v \<Rightarrow> Inr v)"

definition put_client :: "'w raft_controller \<Rightarrow> int \<Rightarrow> 'w rclient \<Rightarrow> 'w raft_controller" where
  "put_client rc i v = rc\<lparr>raftClients := (raftClients rc)[nat i := Some v]\<rparr>"

section \<open>Stop and start\<close>

text \<open>The loop over all clients; a nil client ends it with a panic.\<close>

primrec all_clients :: "('w rclient \<Rightarrow> 'w rclient) \<Rightarrow> 'w rclient option list \<Rightarrow> 'w rclient option list go" where
  "all_clients f [] = Inr []"
| "all_clients f (c # cs) =
     (case c of
        None \<Rightarrow> Inl NilDereference
      | Some v \<Rightarrow> go_bind (all_clients f cs) (\<lambda>cs'. Inr (Some (f v) # cs')))"

definition StopRaftAPI ::
  "stop_server_arg \<Rightarrow> 'w raft_controller \<Rightarrow> common_reply \<Rightarrow> ('w raft_controller \<times> common_reply) go" where
  "StopRaftAPI args rc reply =
     (if stop_Idx args = rc_Me rc
      then go_bind (all_clients RClient_Block (raftClients rc))
        (\<lambda>cs. Inr (rc\<lparr>raftClients := cs\<rparr>, reply\<lparr>cr_Ok := True\<rparr>))
      else go_bind (get_client rc (stop_Idx args))
        (\<lambda>v. Inr (put_client rc (stop_Idx args) (RClient_Block v), reply\<lparr>cr_Ok := True\<rparr>)))"

definition StartRaftAPI ::
  "start_server_arg \<Rightarrow> 'w raft_controller \<Rightarrow> common_reply \<Rightarrow> ('w raft_controller \<times> common_reply) go" where
  "StartRaftAPI args rc reply =
     (if start_Idx args = rc_Me rc
      then go_bind (all_clients RClient_Unblock (raftClients rc))
        (\<lambda>cs. Inr (rc\<lparr>raftClients := cs\<rparr>, reply))
      else go_bind (get_client rc (rc_Me rc))
        (\<lambda>own. if \<not> RClient_IsBlocked own
                then go_bind (get_client rc (start_Idx args))
                  (\<lambda>v. Inr (put_client rc (start_Idx args) (RClient_Unblock v), reply))
                else Inr (rc, reply)))"

section \<open>Wiring\<close>

definition bind_own :: "string \<Rightarrow> url \<Rightarrow> 'w raft_controller \<Rightarrow> 'w raft_controller" where
  "bind_own k u rc =
     (let tab = (rc_BoundMethods rc)(k \<mapsto> u) in
      (case get_client rc (rc_Me rc) of
         Inl _ \<Rightarrow> rc\<lparr>rc_BoundMethods := tab\<rparr>
       | Inr own \<Rightarrow> put_client (rc\<lparr>rc_BoundMethods := tab\<rparr>) (rc_Me rc) (own\<lparr>boundMethods := tab\<rparr>)))"

definition InitKVServerInfo :: "raft_connect_details \<Rightarrow> 'w raft_controller \<Rightarrow> 'w raft_controller" where
  "InitKVServerInfo args rc =
     bind_own ''RaftKV.Apply''
       \<lparr>Scheme = ''http'', Host = full_addr (Addr args) (Port args), Path = ''api/kvraft/v1/apply''\<rparr> rc"

definition peer_client :: "'w raft_controller \<Rightarrow> raft_connect_details \<Rightarrow> 'w rclient" where
  "peer_client rc v =
     (let mBaseURL = (if conn_Id v \<noteq> rc_Me rc
                      then (\<lambda>k. map_option (\<lambda>u. u\<lparr>Host := full_addr (Addr v) (Port v)\<rparr>) (rc_BoundMethods rc k))
                      else rc_BoundMethods rc)
      in NewRClient mBaseURL Map.empty)"

definition InitRaftPeers :: "connect_master_reply \<Rightarrow> 'w raft_controller \<Rightarrow> 'w raft_controller go" where
  "InitRaftPeers rcd rc0 =
     (let rc = rc0\<lparr>rc_Me := cm_Id rcd\<rparr> in
      go_bind (go_fold (\<lambda>v clients. upd_idx clients (conn_Id v) (Some (peer_client rc v)))
          (Peers rcd) (replicate (length (Peers rcd)) None))
        (\<lambda>clients. Inr (rc\<lparr>raftClients := clients\<rparr>)))"

definition set_ws :: "'w raft_controller \<Rightarrow> int \<Rightarrow> 'w \<Rightarrow> 'w raft_controller go" where
  "set_ws rc i wsconn = go_bind (get_client rc i)
     (\<lambda>v. Inr (put_client rc i (v\<lparr>WsMethods := (WsMethods v)(''Raft.WSHeartBeat'' \<mapsto> wsconn)\<rparr>)))"

text \<open>\<open>dial\<close> is \<open>DialNewWSConnection\<close> with the \<open>X-Server-Idx\<close> header; \<open>None\<close> is its error.\<close>

definition dial_one :: "(url \<Rightarrow> string \<Rightarrow> 'w option) \<Rightarrow> raft_connect_details \<Rightarrow> 'w raft_controller \<Rightarrow> 'w raft_controller go" where
  "dial_one dial v rc =
     (let i = conn_Id v in
      if i > rc_Me rc
      then (case dial \<lparr>Scheme = ''ws'', Host = full_addr (Addr v) (Port v),
                  Path = Path (url_of (rc_BoundMethods rc) ''Raft.WSHeartBeat'')\<rparr> (Itoa (rc_Me rc)) of
              None \<Rightarrow> Inr rc
            | Some wsconn \<Rightarrow> set_ws rc i wsconn)
      else Inr rc)"

definition StartWebsocket ::
  "(url \<Rightarrow> string \<Rightarrow> 'w option) \<Rightarrow> connect_master_reply \<Rightarrow> 'w raft_controller \<Rightarrow> 'w raft_controller go" where
  "StartWebsocket dial rcd rc = go_fold (dial_one dial) (Peers rcd) rc"

text \<open>The goroutine that connects to the metric controller.\<close>

definition connectToMetricController :: "(url \<Rightarrow> 'w option) \<Rightarrow> 'w raft_controller \<Rightarrow> 'w raft_controller go" where
  "connectToMetricController dial rc =
     (case dial \<lparr>Scheme = ''ws'', Host = full_addr ''localhost'' 12800, Path = ''api/metric/v1/rpccount''\<rparr> of
        None \<Rightarrow> Inr rc
      | Some wsconn \<Rightarrow>
          go_bind (get_client rc (rc_Me rc)) (\<lambda>v.
          Inr (put_client rc (rc_Me rc) (v\<lparr>WsMethods := (WsMethods v)(''MetricController.Metrics'' \<mapsto> wsconn)\<rparr>))))"

datatype ws_answer = Upgraded | Unidentified | Bad_index

text \<open>The upgraded connection is \<open>ws\<close>; the header decides whose client gets it.\<close>

definition API_WSInitPeerConn :: "string \<Rightarrow> 'w \<Rightarrow> 'w raft_controller \<Rightarrow> ('w raft_controller \<times> ws_answer) go" where
  "API_WSInitPeerConn sIdx ws rc =
     (if sIdx \<noteq> ''''
      then (case Atoi sIdx of
              None \<Rightarrow> Inr (rc, Bad_index)
            | Some i \<Rightarrow> go_bind (set_ws rc i ws) (\<lambda>rc'. Inr (rc', Upgraded)))
      else Inr (rc, Unidentified))"

text \<open>The loop of \<open>StartRaft\<close> that switches the peers' connections to RPC mode: the connections
  it uses; a missing one is a nil pointer.\<close>

definition peer_ws :: "'w raft_controller \<Rightarrow> 'w list go" where
  "peer_ws rc =
     go_fold (\<lambda>i ws. if i \<noteq> rc_Me rc
         then go_bind (get_client rc i)
           (\<lambda>c. case WsMethods c ''Raft.WSHeartBeat'' of None \<Rightarrow> Inl NilDereference | Some w \<Rightarrow> Inr (ws @ [w]))
         else Inr ws)
       [0..int (length (raftClients rc)) - 1] []"

section \<open>Commands of the master controller\<close>

datatype control = Stop_cmd int | Start_cmd int

fun control_do :: "control \<Rightarrow> 'w raft_controller \<Rightarrow> 'w raft_controller go" where
  "control_do (Stop_cmd i) rc =
     go_bind (StopRaftAPI \<lparr>stop_Idx = i\<rparr> rc zero_common_reply) (\<lambda>r. Inr (fst r))"
| "control_do (Start_cmd i) rc =
     go_bind (StartRaftAPI \<lparr>start_Idx = i\<rparr> rc zero_common_reply) (\<lambda>r. Inr (fst r))"

fun cmd_server :: "control \<Rightarrow> int" where
  "cmd_server (Stop_cmd i) = i"
| "cmd_server (Start_cmd i) = i"

text \<open>All clients are there and \<open>Me\<close> is one of them.\<close>

definition wired :: "'w raft_controller \<Rightarrow> bool" where
  "wired rc \<longleftrightarrow> 0 \<le> rc_Me rc \<and> rc_Me rc < int (length (raftClients rc)) \<and> None \<notin> set (raftClients rc)"

definition blocked :: "'w raft_controller \<Rightarrow> int \<Rightarrow> bool" where
  "blocked rc i \<longleftrightarrow> RClient_IsBlocked (the (raftClients rc ! nat i))"

lemma wired_client:
  assumes "wired rc" "0 \<le> i" "i < int (length (raftClients rc))"
  shows "get_client rc i = Inr (the (raftClients rc ! nat i))"
proof -
  have "raftClients rc ! nat i \<in> set (raftClients rc)" using assms by simp
  then have "raftClients rc ! nat i \<noteq> None" using assms(1) by (metis wired_def)
  then show ?thesis using assms by (auto simp: get_client_def idx_in)
qed

lemma all_clients_wired: "None \<notin> set cs \<Longrightarrow> all_clients f cs = Inr (map (map_option f) cs)"
proof (induction cs)
  case (Cons c cs)
  then show ?case by (cases c) auto
qed simp

text \<open>The effect of a command on a wired controller, client by client.\<close>

definition after_cmd :: "control \<Rightarrow> 'w raft_controller \<Rightarrow> nat \<Rightarrow> bool" where
  "after_cmd m rc j \<longleftrightarrow>
     (case m of
        Stop_cmd i \<Rightarrow> i = rc_Me rc \<or> i = int j \<or> blocked rc (int j)
      | Start_cmd i \<Rightarrow> i \<noteq> rc_Me rc \<and> (i = int j \<longrightarrow> blocked rc (rc_Me rc)) \<and> blocked rc (int j))"

lemma control_do_wired:
  assumes w: "wired rc" and i: "0 \<le> cmd_server m" "cmd_server m < int (length (raftClients rc))"
  shows "\<exists>rc'. control_do m rc = Inr rc' \<and> wired rc' \<and> rc_Me rc' = rc_Me rc
    \<and> length (raftClients rc') = length (raftClients rc)
    \<and> (\<forall>j < length (raftClients rc). blocked rc' (int j) = after_cmd m rc j)"
proof -
  have nn: "None \<notin> set (raftClients rc)" "0 \<le> rc_Me rc" "rc_Me rc < int (length (raftClients rc))"
    using w by (auto simp: wired_def)
  have some: "\<And>j. j < length (raftClients rc) \<Longrightarrow> \<exists>v. raftClients rc ! j = Some v"
    using nn(1) by (metis nth_mem not_None_eq)
  note defs = StopRaftAPI_def StartRaftAPI_def all_clients_wired[OF nn(1)] wired_client[OF w]
    put_client_def wired_def blocked_def after_cmd_def
  have upd: "\<And>k v. None \<notin> set ((raftClients rc)[k := Some v])"
    using nn(1) by (meson insertE option.distinct(1) set_update_subset_insert subsetD)
  show ?thesis
  proof (cases m)
    case (Stop_cmd k)
    with i some nn upd show ?thesis by (cases "k = rc_Me rc") (force simp: defs nth_list_update)+
  next
    case (Start_cmd k)
    with i some nn upd show ?thesis
      by (cases "k = rc_Me rc"; cases "blocked rc (rc_Me rc)") (force simp: defs nth_list_update)+
  qed
qed

definition all_blocked :: "'w raft_controller \<Rightarrow> bool" where
  "all_blocked rc \<longleftrightarrow> (\<forall>j < length (raftClients rc). blocked rc (int j))"

lemma all_blocked_run:
  assumes "wired rc" "all_blocked rc"
    and "\<forall>m \<in> set ms. 0 \<le> cmd_server m \<and> cmd_server m < int (length (raftClients rc)) \<and> m \<noteq> Start_cmd (rc_Me rc)"
  shows "\<exists>rc'. go_fold control_do ms rc = Inr rc' \<and> wired rc' \<and> all_blocked rc'
    \<and> rc_Me rc' = rc_Me rc \<and> length (raftClients rc') = length (raftClients rc)"
  using assms
proof (induction ms arbitrary: rc)
  case Nil
  then show ?case by simp
next
  case (Cons m ms)
  have m: "0 \<le> cmd_server m" "cmd_server m < int (length (raftClients rc))" "m \<noteq> Start_cmd (rc_Me rc)"
    using Cons.prems(3) by simp_all
  obtain rc1 where rc1: "control_do m rc = Inr rc1" "wired rc1" "rc_Me rc1 = rc_Me rc"
    "length (raftClients rc1) = length (raftClients rc)"
    "\<forall>j < length (raftClients rc). blocked rc1 (int j) = after_cmd m rc j"
    using control_do_wired[OF Cons.prems(1) m(1,2)] by blast
  have me: "nat (rc_Me rc) < length (raftClients rc)" "int (nat (rc_Me rc)) = rc_Me rc"
    using Cons.prems(1) by (auto simp: wired_def)
  then have "blocked rc (rc_Me rc)" using Cons.prems(2) by (metis all_blocked_def)
  then have "all_blocked rc1"
    using rc1(4,5) Cons.prems(2) m(3) by (auto simp: all_blocked_def after_cmd_def split: control.split)
  then show ?case using Cons.IH[of rc1] rc1 Cons.prems(3) by simp
qed

lemma stopped_run:
  assumes "wired rc"
    and "\<forall>m \<in> set ms. 0 \<le> cmd_server m \<and> cmd_server m < int (length (raftClients rc)) \<and> m \<noteq> Start_cmd (rc_Me rc)"
  shows "\<exists>rc'. go_fold control_do (Stop_cmd (rc_Me rc) # ms) rc = Inr rc' \<and> wired rc' \<and> all_blocked rc'
    \<and> rc_Me rc' = rc_Me rc \<and> length (raftClients rc') = length (raftClients rc)"
proof -
  obtain rc1 where rc1: "control_do (Stop_cmd (rc_Me rc)) rc = Inr rc1" "wired rc1" "rc_Me rc1 = rc_Me rc"
    "length (raftClients rc1) = length (raftClients rc)"
    "\<forall>j < length (raftClients rc). blocked rc1 (int j) = after_cmd (Stop_cmd (rc_Me rc)) rc j"
    using control_do_wired[of rc "Stop_cmd (rc_Me rc)"] assms(1) by (auto simp: wired_def)
  then have "all_blocked rc1" by (simp add: all_blocked_def after_cmd_def)
  with all_blocked_run[of rc1 ms] rc1 assms(2) show ?thesis by simp
qed

text \<open>C35: From the moment a server is told to stop until it is told to start, it sends nothing to any
  server, whatever stop and start commands for other servers arrive in between: every \<open>Call\<close> and
  \<open>CallWS\<close> of its clients answers false without a request. The start command opens them all.\<close>
theorem stopped_server_silent:
  fixes rc :: "'w raft_controller"
  assumes "wired rc"
    and "\<forall>m \<in> set ms. 0 \<le> cmd_server m \<and> cmd_server m < int (length (raftClients rc)) \<and> m \<noteq> Start_cmd (rc_Me rc)"
  shows "\<exists>rc'. go_fold control_do (Stop_cmd (rc_Me rc) # ms) rc = Inr rc'
    \<and> (\<forall>c \<in> set (raftClients rc'). RClient_Call env (the c) meth args reply = Inr ([], reply, False)
         \<and> RClient_CallWS war (the c) meth args' reply' = (reply', False))
    \<and> (\<exists>rc''. control_do (Start_cmd (rc_Me rc)) rc' = Inr rc''
         \<and> (\<forall>c \<in> set (raftClients rc''). \<not> RClient_IsBlocked (the c)))"
proof -
  obtain rc' where rc': "go_fold control_do (Stop_cmd (rc_Me rc) # ms) rc = Inr rc'" "wired rc'"
    "all_blocked rc'" "rc_Me rc' = rc_Me rc" "length (raftClients rc') = length (raftClients rc)"
    using stopped_run[OF assms] by blast
  have "\<forall>c \<in> set (raftClients rc'). RClient_IsBlocked (the c)"
    using rc'(3) by (auto simp: all_blocked_def blocked_def in_set_conv_nth)
  moreover have me: "0 \<le> rc_Me rc'" "rc_Me rc' < int (length (raftClients rc'))"
    using rc'(2) by (auto simp: wired_def)
  then obtain rc'' where rc'': "control_do (Start_cmd (rc_Me rc')) rc' = Inr rc''"
    "length (raftClients rc'') = length (raftClients rc')"
    "\<forall>j < length (raftClients rc'). blocked rc'' (int j) = after_cmd (Start_cmd (rc_Me rc')) rc' j"
    using control_do_wired[OF rc'(2), of "Start_cmd (rc_Me rc')"] by auto
  then have "\<forall>c \<in> set (raftClients rc''). \<not> RClient_IsBlocked (the c)"
    by (auto simp: blocked_def after_cmd_def in_set_conv_nth)
  ultimately show ?thesis
    using rc'(1) rc''(1) unfolding rc'(4) by (auto simp: blocked_silent)
qed

definition ex_rclient :: "nat rclient" where
  "ex_rclient = NewRClient Map.empty Map.empty"

definition ex_controller :: "nat raft_controller" where
  "ex_controller = \<lparr>rc_Me = 1, rc_Addr = ''a:1'', rc_BoundMethods = Map.empty,
     raftClients = [Some ex_rclient, Some ex_rclient, Some ex_rclient]\<rparr>"

theorem stopped_server_silent_witness:
  "\<exists>rc'. go_fold control_do [Stop_cmd 1, Stop_cmd 2, Start_cmd 2] ex_controller = Inr rc'
    \<and> (\<forall>c \<in> set (raftClients rc'). RClient_CallWS (\<lambda>_ _ _. 1) (the c) ''Raft.WSHeartBeat'' () (0::nat) = (0, False))"
proof -
  have w: "wired ex_controller" by (simp add: wired_def ex_controller_def)
  have ms: "\<forall>m \<in> set [Stop_cmd 2, Start_cmd 2]. 0 \<le> cmd_server m
      \<and> cmd_server m < int (length (raftClients ex_controller)) \<and> m \<noteq> Start_cmd (rc_Me ex_controller)"
    by (simp add: ex_controller_def)
  have me: "rc_Me ex_controller = 1" by (simp add: ex_controller_def)
  obtain rc' where "go_fold control_do [Stop_cmd 1, Stop_cmd 2, Start_cmd 2] ex_controller = Inr rc'"
    "\<forall>c \<in> set (raftClients rc'). RClient_CallWS (\<lambda>_ _ _. 1) (the c) ''Raft.WSHeartBeat'' () (0::nat) = (0, False)"
    using stopped_server_silent[OF w ms, where env = "undefined :: (nat, nat, nat) http_env" and args = 0
        and reply = 0 and meth = "''Raft.WSHeartBeat''" and war = "\<lambda>_ _ _. 1" and args' = "()" and reply' = 0]
    unfolding me ball_conj_distrib by (elim exE conjE) (rule that)
  then show ?thesis by (intro exI conjI)
qed

text \<open>
  What a start command of one server may undo: when both \<open>i\<close> and this server were stopped, and
  this one is started again, its client of \<open>i\<close> is open although \<open>i\<close> was not started.
\<close>

lemma start_reopens_stopped:
  assumes "wired rc" "0 \<le> i" "i < int (length (raftClients rc))" "i \<noteq> rc_Me rc"
  shows "\<exists>rc'. go_fold control_do [Stop_cmd i, Stop_cmd (rc_Me rc), Start_cmd (rc_Me rc)] rc = Inr rc'
    \<and> \<not> blocked rc' i"
proof -
  have me: "0 \<le> rc_Me rc" "rc_Me rc < int (length (raftClients rc))"
    using assms(1) by (auto simp: wired_def)
  obtain rc1 where rc1: "control_do (Stop_cmd i) rc = Inr rc1" "wired rc1" "rc_Me rc1 = rc_Me rc"
    "length (raftClients rc1) = length (raftClients rc)"
    using control_do_wired[OF assms(1), of "Stop_cmd i"] assms(2,3) by auto
  obtain rc2 where rc2: "control_do (Stop_cmd (rc_Me rc)) rc1 = Inr rc2" "wired rc2" "rc_Me rc2 = rc_Me rc"
    "length (raftClients rc2) = length (raftClients rc)"
    using control_do_wired[OF rc1(2), of "Stop_cmd (rc_Me rc)"] rc1(3,4) me by auto
  obtain rc3 where rc3: "control_do (Start_cmd (rc_Me rc)) rc2 = Inr rc3"
    "\<forall>j < length (raftClients rc). blocked rc3 (int j) = after_cmd (Start_cmd (rc_Me rc)) rc2 j"
    using control_do_wired[OF rc2(2), of "Start_cmd (rc_Me rc)"] rc2(3,4) me by auto
  have "nat i < length (raftClients rc)" "int (nat i) = i" using assms(2,3) by auto
  then have "blocked rc3 i = after_cmd (Start_cmd (rc_Me rc)) rc2 (nat i)" using rc3(2) by metis
  then have "\<not> blocked rc3 i" using rc2(3) by (simp add: after_cmd_def)
  with rc1(1) rc2(1) rc3(1) show ?thesis by simp
qed

section \<open>A server of a cluster whose Ids are the positions\<close>

lemma fill_clients:
  assumes "map conn_Id vs = map int [k..<k + length vs]" "k + length vs \<le> length cl"
  shows "go_fold (\<lambda>v c. upd_idx c (conn_Id v) (f v)) vs cl
    = Inr (take k cl @ map f vs @ drop (k + length vs) cl)"
  using assms
proof (induction vs arbitrary: k cl)
  case Nil
  then show ?case by simp
next
  case (Cons v vs)
  have ids: "conn_Id v = int k" "map conn_Id vs = map int [Suc k..<Suc k + length vs]"
    using Cons.prems(1) upt_conv_Cons[of k "k + Suc (length vs)"] by (simp_all del: upt_Suc)
  moreover have "Suc k + length vs \<le> length (cl[k := f v])" using Cons.prems(2) by simp
  ultimately have "go_fold (\<lambda>v c. upd_idx c (conn_Id v) (f v)) vs (cl[k := f v])
      = Inr (take (Suc k) (cl[k := f v]) @ map f vs @ drop (Suc k + length vs) (cl[k := f v]))"
    by (intro Cons.IH)
  with ids(1) Cons.prems(2) show ?case
    by (simp add: upd_idx_in take_Suc_conv_app_nth del: upt_Suc)
qed

lemma InitRaftPeers_eq:
  assumes "map conn_Id (Peers rcd) = map int [0..<length (Peers rcd)]"
  shows "InitRaftPeers rcd rc = Inr (rc\<lparr>rc_Me := cm_Id rcd,
    raftClients := map (\<lambda>v. Some (peer_client (rc\<lparr>rc_Me := cm_Id rcd\<rparr>) v)) (Peers rcd)\<rparr>)"
proof -
  let ?f = "\<lambda>v. Some (peer_client (rc\<lparr>rc_Me := cm_Id rcd\<rparr>) v)"
  have "go_fold (\<lambda>v c. upd_idx c (conn_Id v) (?f v)) (Peers rcd) (replicate (length (Peers rcd)) None)
      = Inr (map ?f (Peers rcd))"
    using fill_clients[of "Peers rcd" 0 "replicate (length (Peers rcd)) None" ?f] assms by simp
  then show ?thesis by (simp add: InitRaftPeers_def Let_def)
qed

lemma set_ws_wired:
  assumes "wired rc" "0 \<le> i" "i < int (length (raftClients rc))"
  shows "set_ws rc i w = Inr (put_client rc i
    ((the (raftClients rc ! nat i))\<lparr>WsMethods := (WsMethods (the (raftClients rc ! nat i)))(''Raft.WSHeartBeat'' \<mapsto> w)\<rparr>))"
  by (simp add: set_ws_def wired_client[OF assms])

text \<open>Two controllers that differ in websockets only.\<close>

definition same_but_ws :: "'w raft_controller \<Rightarrow> 'w raft_controller \<Rightarrow> bool" where
  "same_but_ws rc rc' \<longleftrightarrow> wired rc' \<and> rc_Me rc' = rc_Me rc \<and> rc_BoundMethods rc' = rc_BoundMethods rc
    \<and> length (raftClients rc') = length (raftClients rc)
    \<and> (\<forall>j < length (raftClients rc). boundMethods (the (raftClients rc' ! j)) = boundMethods (the (raftClients rc ! j)))"

definition ws_of :: "'w raft_controller \<Rightarrow> nat \<Rightarrow> 'w option" where
  "ws_of rc j = WsMethods (the (raftClients rc ! j)) ''Raft.WSHeartBeat''"

lemma same_but_ws_refl: "wired rc \<Longrightarrow> same_but_ws rc rc"
  by (simp add: same_but_ws_def)

lemma same_but_ws_trans: "same_but_ws a b \<Longrightarrow> same_but_ws b c \<Longrightarrow> same_but_ws a c"
  by (auto simp: same_but_ws_def)

lemma set_ws_effect:
  assumes "wired rc" "0 \<le> i" "i < int (length (raftClients rc))"
  shows "\<exists>rc'. set_ws rc i w = Inr rc' \<and> same_but_ws rc rc'
    \<and> (\<forall>j < length (raftClients rc). ws_of rc' j = (if int j = i then Some w else ws_of rc j))"
proof -
  have upd: "\<And>v. None \<notin> set ((raftClients rc)[nat i := Some v])"
    using assms(1) by (meson insertE option.distinct(1) set_update_subset_insert subsetD wired_def)
  show ?thesis
    unfolding set_ws_wired[OF assms]
    using assms upd by (auto simp: put_client_def same_but_ws_def ws_of_def wired_def nth_list_update)
qed

text \<open>One connection per step: the clients in \<open>is\<close> get the connection \<open>conn i\<close>.\<close>

lemma connect_all:
  assumes "wired rc" "\<forall>i \<in> set is. 0 \<le> i \<and> i < int (length (raftClients rc))"
    and step: "\<And>i rc0. i \<in> set is \<Longrightarrow> same_but_ws rc rc0 \<Longrightarrow> step i rc0 = set_ws rc0 i (conn i)"
  shows "\<exists>rc'. go_fold step is rc = Inr rc' \<and> same_but_ws rc rc'
    \<and> (\<forall>j < length (raftClients rc). ws_of rc' j = (if int j \<in> set is then Some (conn (int j)) else ws_of rc j))"
  using assms(2,3)
proof (induction "is" rule: rev_induct)
  case Nil
  then show ?case using same_but_ws_refl[OF assms(1)] by simp
next
  case (snoc i "is")
  then obtain rc1 where rc1: "go_fold step is rc = Inr rc1" "same_but_ws rc rc1"
    "\<forall>j < length (raftClients rc). ws_of rc1 j = (if int j \<in> set is then Some (conn (int j)) else ws_of rc j)"
    by (auto simp: Ball_def)
  have w1: "wired rc1" "length (raftClients rc1) = length (raftClients rc)"
    using rc1(2) by (auto simp: same_but_ws_def)
  have i: "0 \<le> i" "i < int (length (raftClients rc1))" using snoc.prems(1) w1(2) by auto
  obtain rc2 where rc2: "set_ws rc1 i (conn i) = Inr rc2" "same_but_ws rc1 rc2"
    "\<forall>j < length (raftClients rc1). ws_of rc2 j = (if int j = i then Some (conn i) else ws_of rc1 j)"
    using set_ws_effect[OF w1(1) i] by blast
  have "step i rc1 = Inr rc2" using snoc.prems(2)[of i rc1] rc1(2) rc2(1) by simp
  then have "go_fold step (is @ [i]) rc = Inr rc2" by (simp add: go_fold_append rc1(1))
  moreover have "same_but_ws rc rc2" using same_but_ws_trans[OF rc1(2) rc2(2)] .
  moreover have "\<forall>j < length (raftClients rc). ws_of rc2 j =
      (if int j \<in> set (is @ [i]) then Some (conn (int j)) else ws_of rc j)"
    using rc1(3) rc2(3) w1(2) by auto
  ultimately show ?case by blast
qed

lemma go_fold_map: "go_fold f (map g xs) s = go_fold (\<lambda>x. f (g x)) xs s"
  by (induction xs arbitrary: s) (auto simp: go_bind_def split: sum.split)

lemma collect:
  "\<forall>i \<in> set is. P i \<longrightarrow> g i = Inr (h i) \<Longrightarrow>
   go_fold (\<lambda>i ws. if P i then go_bind (g i) (\<lambda>w. Inr (ws @ [w])) else Inr ws) is acc
   = Inr (acc @ map h (filter P is))"
  by (induction "is" arbitrary: acc) auto

lemma peer_ws_wired:
  assumes "wired rc" "\<forall>j < length (raftClients rc). int j \<noteq> rc_Me rc \<longrightarrow> ws_of rc j \<noteq> None"
  shows "peer_ws rc = Inr (map (\<lambda>i. the (ws_of rc (nat i)))
    (filter (\<lambda>i. i \<noteq> rc_Me rc) [0..int (length (raftClients rc)) - 1]))"
proof -
  let ?g = "\<lambda>i. go_bind (get_client rc i)
      (\<lambda>c. case WsMethods c ''Raft.WSHeartBeat'' of None \<Rightarrow> Inl NilDereference | Some w \<Rightarrow> Inr w)"
  have assoc: "go_bind (get_client rc i) (\<lambda>c. case WsMethods c ''Raft.WSHeartBeat'' of
        None \<Rightarrow> Inl NilDereference | Some w \<Rightarrow> Inr (ws @ [w])) = go_bind (?g i) (\<lambda>w. Inr (ws @ [w]))" for i ws
    by (cases "get_client rc i") (auto split: option.split)
  have g: "?g i = Inr (the (ws_of rc (nat i)))"
    if i: "i \<noteq> rc_Me rc" "0 \<le> i" "i < int (length (raftClients rc))" for i
  proof -
    have "ws_of rc (nat i) \<noteq> None" using i by (intro assms(2)[rule_format]) auto
    then show ?thesis by (auto simp: wired_client[OF assms(1) i(2,3)] ws_of_def)
  qed
  have "\<forall>i \<in> set [0..int (length (raftClients rc)) - 1]. i \<noteq> rc_Me rc \<longrightarrow> ?g i = Inr (the (ws_of rc (nat i)))"
    using g by simp
  from collect[OF this, of "[]"] show ?thesis unfolding peer_ws_def assoc append_Nil .
qed

lemma filter_not_one: "0 \<le> m \<Longrightarrow> m < int n \<Longrightarrow> length (filter (\<lambda>i. i \<noteq> m) [0..int n - 1]) = n - 1"
proof -
  assume m: "0 \<le> m" "m < int n"
  have "length (filter (\<lambda>i. i \<noteq> m) [0..int n - 1]) = card ({0..int n - 1} - {m})"
    by (subst distinct_card[symmetric]) (auto intro: arg_cong[where f = card])
  also have "\<dots> = n - 1" using m by simp
  finally show ?thesis .
qed

text \<open>The websockets: the servers before this one connect to it, it connects to those behind.\<close>

definition accept_peer :: "(int \<Rightarrow> 'w) \<Rightarrow> int \<Rightarrow> 'w raft_controller \<Rightarrow> 'w raft_controller go" where
  "accept_peer up j rc = go_bind (API_WSInitPeerConn (Itoa j) (up j) rc) (\<lambda>r. Inr (fst r))"

definition dialled :: "'w raft_controller \<Rightarrow> raft_connect_details \<Rightarrow> url" where
  "dialled rc v = \<lparr>Scheme = ''ws'', Host = full_addr (Addr v) (Port v),
     Path = Path (url_of (rc_BoundMethods rc) ''Raft.WSHeartBeat'')\<rparr>"

lemma Itoa_nonempty: "Itoa i \<noteq> ''''"
  using format_digits by (simp add: Itoa_def FormatInt_def)

lemma accept_lower:
  assumes "wired rc" "rc_Me rc < 2 ^ 63"
  shows "\<exists>rc'. go_fold (accept_peer up) [0..rc_Me rc - 1] rc = Inr rc' \<and> same_but_ws rc rc'
    \<and> (\<forall>j < length (raftClients rc). ws_of rc' j = (if int j < rc_Me rc then Some (up (int j)) else ws_of rc j))"
proof -
  have "accept_peer up i rc0 = set_ws rc0 i (up i)" if "i \<in> set [0..rc_Me rc - 1]" for i rc0
    using that assms(2)
    by (cases "set_ws rc0 i (up i)") (simp_all add: accept_peer_def API_WSInitPeerConn_def Itoa_nonempty Atoi_Itoa)
  moreover have "\<forall>i \<in> set [0..rc_Me rc - 1]. 0 \<le> i \<and> i < int (length (raftClients rc))"
    using assms(1) by (auto simp: wired_def)
  ultimately show ?thesis using connect_all[OF assms(1), of "[0..rc_Me rc - 1]" "accept_peer up" up] by auto
qed

lemma dial_higher:
  assumes "wired rc" "length ds = length (raftClients rc)"
    and ids: "map conn_Id ds = map int [0..<length ds]"
    and dial: "\<forall>v \<in> set (drop (nat (rc_Me rc) + 1) ds). dial (dialled rc v) (Itoa (rc_Me rc)) = Some (conn (conn_Id v))"
  shows "\<exists>rc'. StartWebsocket dial \<lparr>Peers = drop (nat (rc_Me rc) + 1) ds, cm_Ok = ok, cm_Id = me\<rparr> rc = Inr rc'
    \<and> same_but_ws rc rc'
    \<and> (\<forall>j < length (raftClients rc). ws_of rc' j = (if int j > rc_Me rc then Some (conn (int j)) else ws_of rc j))"
proof -
  let ?m = "nat (rc_Me rc) + 1"
  let ?is = "map int [?m..<length ds]"
  have id: "conn_Id (ds ! j) = int j" if "j < length ds" for j
    using that ids by (metis nth_map nth_upt add_0 length_map length_upt diff_zero)
  have drp: "drop ?m ds = map (\<lambda>i. ds ! nat i) ?is"
    using assms(1) by (intro nth_equalityI) (auto simp: wired_def nat_add_distrib)
  have "dial_one dial (ds ! nat i) rc0 = set_ws rc0 i (conn i)" if "i \<in> set ?is" "same_but_ws rc rc0" for i rc0
  proof -
    from that(1) obtain j where j: "i = int j" "?m \<le> j" "j < length ds" by auto
    then have "ds ! j \<in> set (drop ?m ds)" unfolding drp by auto
    with dial have "dial (dialled rc (ds ! j)) (Itoa (rc_Me rc)) = Some (conn i)" using id j by simp
    moreover have "dialled rc0 (ds ! j) = dialled rc (ds ! j)" "rc_Me rc0 = rc_Me rc"
      using that(2) by (simp_all add: dialled_def same_but_ws_def)
    ultimately show ?thesis using j id[OF j(3)] by (auto simp: dial_one_def dialled_def Let_def)
  qed
  moreover have "\<forall>i \<in> set ?is. 0 \<le> i \<and> i < int (length (raftClients rc))" using assms(2) by auto
  ultimately obtain rc' where rc': "go_fold (\<lambda>i. dial_one dial (ds ! nat i)) ?is rc = Inr rc'" "same_but_ws rc rc'"
    "\<forall>j < length (raftClients rc). ws_of rc' j = (if int j \<in> set ?is then Some (conn (int j)) else ws_of rc j)"
    using connect_all[OF assms(1), of ?is "\<lambda>i. dial_one dial (ds ! nat i)" conn] by auto
  moreover have "go_fold (dial_one dial) (drop ?m ds) rc = Inr rc'"
    unfolding drp using rc'(1) by (simp only: go_fold_map)
  moreover have "int j \<in> set ?is \<longleftrightarrow> int j > rc_Me rc" if "j < length (raftClients rc)" for j
    using that assms(1,2) by (auto simp: wired_def)
  ultimately show ?thesis unfolding StartWebsocket_def by (intro exI[of _ rc']) simp
qed

definition base_of :: "raft_connect_details \<Rightarrow> url" where
  "base_of d = \<lparr>Scheme = ''http'', Host = full_addr (Addr d) (Port d), Path = ''''\<rparr>"

definition apply_url :: "raft_connect_details \<Rightarrow> url" where
  "apply_url kv = \<lparr>Scheme = ''http'', Host = full_addr (Addr kv) (Port kv), Path = ''api/kvraft/v1/apply''\<rparr>"

lemma routes_host: "map_option (\<lambda>u. u\<lparr>Host := h\<rparr>) (raft_routes b k) = raft_routes (b\<lparr>Host := h\<rparr>) k"
  by (simp add: raft_routes_def)

lemma routes_apply: "raft_routes b ''RaftKV.Apply'' = None"
  by (simp add: raft_routes_def)

definition own_table :: "raft_connect_details \<Rightarrow> raft_connect_details \<Rightarrow> url_table" where
  "own_table d kv = (raft_routes (base_of d))(''RaftKV.Apply'' \<mapsto> apply_url kv)"

lemma ids_nth: "map conn_Id ds = map int [0..<length ds] \<Longrightarrow> j < length ds \<Longrightarrow> conn_Id (ds ! j) = int j"
  by (metis nth_map nth_upt add_0 length_map length_upt diff_zero)

lemma init_wired:
  fixes ds :: "raft_connect_details list"
  assumes ids: "map conn_Id ds = map int [0..<length ds]" and i: "i < length ds"
    and rc0: "rc_BoundMethods rc0 = raft_routes (base_of (ds ! i))" "raftClients rc0 = []"
  shows "\<exists>rc. InitRaftPeers \<lparr>Peers = ds, cm_Ok = True, cm_Id = int i\<rparr> (InitKVServerInfo kv rc0) = Inr rc
    \<and> wired rc \<and> rc_Me rc = int i \<and> length (raftClients rc) = length ds
    \<and> rc_BoundMethods rc = own_table (ds ! i) kv
    \<and> boundMethods (the (raftClients rc ! i)) ''RaftKV.Apply'' = Some (apply_url kv)
    \<and> (\<forall>j < length ds. \<forall>m. m \<noteq> ''RaftKV.Apply'' \<longrightarrow>
         boundMethods (the (raftClients rc ! j)) m = raft_routes (base_of (ds ! j)) m)"
proof -
  let ?rcI = "rc0\<lparr>rc_BoundMethods := own_table (ds ! i) kv, rc_Me := int i\<rparr>"
  have "get_client rc0 (rc_Me rc0) = Inl IndexOutOfRange" using rc0(2) by (auto simp: get_client_def idx_def)
  then have kv: "InitKVServerInfo kv rc0 = rc0\<lparr>rc_BoundMethods := own_table (ds ! i) kv\<rparr>"
    using rc0(1) by (simp add: InitKVServerInfo_def bind_own_def own_table_def apply_url_def Let_def)
  have bm: "boundMethods (peer_client ?rcI (ds ! j)) = (if j = i then own_table (ds ! i) kv
      else (\<lambda>k. map_option (\<lambda>u. u\<lparr>Host := full_addr (Addr (ds ! j)) (Port (ds ! j))\<rparr>) (own_table (ds ! i) kv k)))"
    if "j < length ds" for j
    using that by (simp add: peer_client_def ids_nth[OF ids] NewRClient_def)
  have "\<forall>j < length ds. \<forall>m. m \<noteq> ''RaftKV.Apply'' \<longrightarrow>
         boundMethods (peer_client ?rcI (ds ! j)) m = raft_routes (base_of (ds ! j)) m"
    by (intro allI impI, subst bm) (auto simp: own_table_def routes_host base_of_def)
  moreover have "boundMethods (peer_client ?rcI (ds ! i)) ''RaftKV.Apply'' = Some (apply_url kv)"
    using bm[OF i] by (simp add: own_table_def)
  ultimately show ?thesis using i ids
    by (intro exI[of _ "?rcI\<lparr>raftClients := map (\<lambda>v. Some (peer_client ?rcI v)) ds\<rparr>"])
      (auto simp: kv InitRaftPeers_eq wired_def)
qed

lemma websockets_wired:
  assumes "wired rc1" "rc_Me rc1 = int i" "length (raftClients rc1) = length ds" "length ds < 2 ^ 62"
    and ids: "map conn_Id ds = map int [0..<length ds]"
    and path: "Path (url_of (rc_BoundMethods rc1) ''Raft.WSHeartBeat'') = ''raft/v1/ws/heartbeat''"
    and dial: "\<forall>v \<in> set (drop (i + 1) ds).
      dial \<lparr>Scheme = ''ws'', Host = full_addr (Addr v) (Port v), Path = ''raft/v1/ws/heartbeat''\<rparr> (Itoa (int i)) \<noteq> None"
  shows "\<exists>rc2 rc3. go_fold (accept_peer up) [0..rc_Me rc1 - 1] rc1 = Inr rc2
    \<and> StartWebsocket dial \<lparr>Peers = drop (i + 1) ds, cm_Ok = True, cm_Id = int i\<rparr> rc2 = Inr rc3
    \<and> same_but_ws rc1 rc3 \<and> (\<forall>j < length ds. j \<noteq> i \<longrightarrow> ws_of rc3 j \<noteq> None)"
proof -
  have "rc_Me rc1 < 2 ^ 63" using assms(1-4) by (auto simp: wired_def)
  from accept_lower[OF assms(1) this, of up] assms(2,3)
  obtain rc2 where rc2: "go_fold (accept_peer up) [0..rc_Me rc1 - 1] rc1 = Inr rc2" "same_but_ws rc1 rc2"
    "\<forall>j < length ds. ws_of rc2 j = (if j < i then Some (up (int j)) else ws_of rc1 j)" by auto
  have w2: "wired rc2" "rc_Me rc2 = int i" "length ds = length (raftClients rc2)"
    "rc_BoundMethods rc2 = rc_BoundMethods rc1"
    using rc2(2) assms(2,3) by (auto simp: same_but_ws_def)
  define conn where "conn = (\<lambda>k. the (dial (dialled rc2 (ds ! nat k)) (Itoa (int i))))"
  have "\<forall>v \<in> set (drop (nat (rc_Me rc2) + 1) ds). dial (dialled rc2 v) (Itoa (rc_Me rc2)) = Some (conn (conn_Id v))"
  proof
    fix v assume v: "v \<in> set (drop (nat (rc_Me rc2) + 1) ds)"
    then obtain j where j: "v = ds ! j" "j < length ds" by (metis in_set_conv_nth in_set_dropD)
    have "dial (dialled rc2 v) (Itoa (int i)) \<noteq> None"
      using dial v unfolding dialled_def w2(2,4) path by simp
    then show "dial (dialled rc2 v) (Itoa (rc_Me rc2)) = Some (conn (conn_Id v))"
      using j ids_nth[OF ids j(2)] w2(2) by (auto simp: conn_def)
  qed
  from dial_higher[where dial = dial and conn = conn, OF w2(1,3) ids this, of True "int i"] w2(2,3)
  obtain rc3 where "StartWebsocket dial \<lparr>Peers = drop (i + 1) ds, cm_Ok = True, cm_Id = int i\<rparr> rc2 = Inr rc3"
    "same_but_ws rc2 rc3" "\<forall>j < length ds. ws_of rc3 j = (if j > i then Some (conn (int j)) else ws_of rc2 j)"
    by auto
  then show ?thesis using rc2 same_but_ws_trans[OF rc2(2)] by (intro exI[of _ rc2] exI[of _ rc3]) auto
qed

end
