(* ===== verification/Registration.thy ===== *)
theory Registration
  imports RaftControl Channels
begin

text \<open>
  The master controller (\<open>controller/controller.go\<close>): the registration of Raft and key/value
  servers, the barrier that \<open>serversInit\<close> waits at, the calls \<open>serversInit\<close> makes behind it, and
  the calls of the stop and start commands. A handler runs under the mutex, hence as one step.
  The two ready channels are unbuffered and written with \<open>select\<close> and \<open>default\<close>: a signal gets
  through only while \<open>serversInit\<close> is at the receive, which is the program counter \<open>init_at\<close>.
  The body of a request is an option, \<open>None\<close> when \<open>e.Bind\<close> fails. \<open>url.Parse\<close> is the
  argument \<open>parse\<close>, and the calls are the list of their URLs and arguments, in order (the code
  does not look at their answers).

  Not modelled: \<open>API_RemoveServer\<close>, which does nothing; the channel \<open>Stop\<close> that ends the
  process; the set-up of the HTTP client. The routes are in \<open>Routing\<close>.
\<close>

section \<open>State\<close>

datatype init_at = Spawned | At_raft | Got_raft | At_kv | Got_kv

record controller =
  nServers :: int
  connectedRaftServers :: int
  connectedKVServers :: int
  raftControllerDetails :: "raft_kv_init_config list"
  kvControllerDetails :: "raft_connect_details list"
  clientControllerDetails :: "raft_connect_details list"
  init_pc :: init_at

definition NewController :: "int \<Rightarrow> controller" where
  "NewController NraftServers =
     \<lparr>nServers = NraftServers, connectedRaftServers = 0, connectedKVServers = 0,
      raftControllerDetails = replicate (nat NraftServers) zero_init_config,
      kvControllerDetails = replicate (nat NraftServers) zero_connect,
      clientControllerDetails = [], init_pc = Spawned\<rparr>"

datatype answer = Bind_error | Json_reply common_reply

section \<open>Registration\<close>

definition raft_ready :: "controller \<Rightarrow> controller" where
  "raft_ready c = (if init_pc c = At_raft then c\<lparr>init_pc := Got_raft\<rparr> else c)"

definition kv_ready :: "controller \<Rightarrow> controller" where
  "kv_ready c = (if init_pc c = At_kv then c\<lparr>init_pc := Got_kv\<rparr> else c)"

definition API_AddRaftServer :: "raft_kv_init_config option \<Rightarrow> controller \<Rightarrow> (controller \<times> answer) go" where
  "API_AddRaftServer body c =
     (case body of
        None \<Rightarrow> Inr (c, Bind_error)
      | Some args0 \<Rightarrow>
          if connectedRaftServers c < nServers c
          then (let args = args0\<lparr>RaftConnect := (RaftConnect args0)\<lparr>conn_Id := connectedRaftServers c\<rparr>\<rparr> in
             go_bind (upd_idx (raftControllerDetails c) (connectedRaftServers c) args) (\<lambda>ds.
             let c1 = c\<lparr>raftControllerDetails := ds, connectedRaftServers := connectedRaftServers c + 1\<rparr> in
             Inr (if connectedRaftServers c1 = nServers c1 then raft_ready c1 else c1,
                  Json_reply zero_common_reply)))
          else Inr (c, Json_reply zero_common_reply))"

definition API_AddKVServer :: "raft_connect_details option \<Rightarrow> controller \<Rightarrow> (controller \<times> answer) go" where
  "API_AddKVServer body c =
     (case body of
        None \<Rightarrow> Inr (c, Bind_error)
      | Some args \<Rightarrow>
          if connectedKVServers c < nServers c
          then
             go_bind (upd_idx (kvControllerDetails c) (connectedKVServers c) args) (\<lambda>ds.
             let c1 = c\<lparr>kvControllerDetails := ds, connectedKVServers := connectedKVServers c + 1\<rparr> in
             Inr (if connectedKVServers c1 = nServers c1 then kv_ready c1 else c1,
                  Json_reply zero_common_reply))
          else Inr (c, Json_reply zero_common_reply))"

text \<open>\<open>serversInit\<close> reaches its next receive.\<close>

definition init_moves :: "controller \<Rightarrow> controller" where
  "init_moves c = (case init_pc c of
     Spawned \<Rightarrow> c\<lparr>init_pc := At_raft\<rparr> | Got_raft \<Rightarrow> c\<lparr>init_pc := At_kv\<rparr> | _ \<Rightarrow> c)"

datatype event = Raft_arrives "raft_kv_init_config option" | KV_arrives "raft_connect_details option" | Init_moves

fun handle_event :: "event \<Rightarrow> controller \<Rightarrow> controller go" where
  "handle_event (Raft_arrives b) c = go_bind (API_AddRaftServer b c) (\<lambda>r. Inr (fst r))"
| "handle_event (KV_arrives b) c = go_bind (API_AddKVServer b c) (\<lambda>r. Inr (fst r))"
| "handle_event Init_moves c = Inr (init_moves c)"

section \<open>The calls of serversInit\<close>

datatype call_args = Kv_details raft_connect_details | Master_reply connect_master_reply
  | Raft_details raft_connect_details | Empty_reply | Stop_arg stop_server_arg | Start_arg start_server_arg

type_synonym call = "url \<times> call_args"

primrec go_concat :: "'a list go list \<Rightarrow> 'a list go" where
  "go_concat [] = Inr []"
| "go_concat (x # xs) = go_bind x (\<lambda>a. go_bind (go_concat xs) (\<lambda>b. Inr (a @ b)))"

definition indexed :: "'a list \<Rightarrow> (nat \<times> 'a) list" where
  "indexed xs = zip [0..<length xs] xs"

definition init_calls ::
  "(string \<Rightarrow> url option) \<Rightarrow> controller \<Rightarrow> raft_connect_details list \<Rightarrow> nat \<times> raft_kv_init_config \<Rightarrow> call list go" where
  "init_calls parse c raftConnectConfig = (\<lambda>(i, raft).
     case parse (ReplyFullPath (RaftConnect raft)) of
       None \<Rightarrow> Inr []
     | Some raftInitURL \<Rightarrow>
         (case parse (KVInitFullPath raft) of
            None \<Rightarrow> Inr []
          | Some kvInitURL \<Rightarrow>
              go_bind (idx (kvControllerDetails c) (int i)) (\<lambda>kv.
              Inr [(kvInitURL, Kv_details kv),
                   (raftInitURL, Master_reply \<lparr>Peers = raftConnectConfig, cm_Ok = True, cm_Id = int i\<rparr>)])))"

definition ws_calls ::
  "(string \<Rightarrow> url option) \<Rightarrow> raft_connect_details list \<Rightarrow> nat \<times> raft_kv_init_config \<Rightarrow> call list go" where
  "ws_calls parse raftConnectConfig = (\<lambda>(i, raft).
     case parse (RaftStartWSFullPath raft) of
       None \<Rightarrow> Inr []
     | Some u \<Rightarrow>
         go_bind (reslice raftConnectConfig (int i + 1) (int (length raftConnectConfig))) (\<lambda>rest.
         Inr [(u, Master_reply \<lparr>Peers = rest, cm_Ok = True, cm_Id = int i\<rparr>)]))"

definition start_calls :: "(string \<Rightarrow> url option) \<Rightarrow> raft_kv_init_config \<Rightarrow> call list go" where
  "start_calls parse raft =
     (case parse (RaftStartFullPath raft) of None \<Rightarrow> Inr [] | Some u \<Rightarrow> Inr [(u, Empty_reply)])"

definition kv_calls :: "(string \<Rightarrow> url option) \<Rightarrow> controller \<Rightarrow> nat \<times> raft_connect_details \<Rightarrow> call list go" where
  "kv_calls parse c = (\<lambda>(i, kvserver).
     case parse (ReplyFullPath kvserver) of
       None \<Rightarrow> Inr []
     | Some u \<Rightarrow>
         go_bind (idx (raftControllerDetails c) (int i)) (\<lambda>raft.
         Inr [(u, Raft_details (RaftConnect raft))]))"

text \<open>Behind the barrier.\<close>

definition serversInit :: "(string \<Rightarrow> url option) \<Rightarrow> controller \<Rightarrow> call list go" where
  "serversInit parse c =
     (let raftConnectConfig = map RaftConnect (raftControllerDetails c) in
      go_concat (map (init_calls parse c raftConnectConfig) (indexed (raftControllerDetails c))
        @ map (ws_calls parse raftConnectConfig) (indexed (raftControllerDetails c))
        @ map (start_calls parse) (raftControllerDetails c)
        @ map (kv_calls parse c) (indexed (kvControllerDetails c))))"

section \<open>Clients\<close>

definition API_AddClient :: "raft_connect_details option \<Rightarrow> controller \<Rightarrow> (controller \<times> answer) go" where
  "API_AddClient body c =
     (case body of
        None \<Rightarrow> Inr (c, Bind_error)
      | Some args \<Rightarrow>
          go_bind (chan_send 1 args (clientControllerDetails c)) (\<lambda>ch.
          Inr (c\<lparr>clientControllerDetails := ch\<rparr>, Json_reply (zero_common_reply\<lparr>cr_Ok := True\<rparr>))))"

text \<open>One iteration of \<open>serveClients\<close>.\<close>

definition serveClients_step :: "(string \<Rightarrow> url option) \<Rightarrow> controller \<Rightarrow> (controller \<times> call list) go" where
  "serveClients_step parse c =
     go_bind (chan_recv (clientControllerDetails c)) (\<lambda>(client, ch).
     let c1 = c\<lparr>clientControllerDetails := ch\<rparr> in
     (case parse (ReplyFullPath client) of
        None \<Rightarrow> Inr (c1, [])
      | Some u \<Rightarrow> Inr (c1, [(u, Master_reply \<lparr>Peers = kvControllerDetails c, cm_Ok = True, cm_Id = 0\<rparr>)])))"

section \<open>Stop and start\<close>

definition API_StopServer :: "stop_server_arg option \<Rightarrow> controller \<Rightarrow> (call list \<times> answer) go" where
  "API_StopServer body c =
     (case body of
        None \<Rightarrow> Inr ([], Bind_error)
      | Some args \<Rightarrow>
          go_bind (idx (kvControllerDetails c) (stop_Idx args)) (\<lambda>kv.
          let kvURL = \<lparr>Scheme = ''http'', Host = full_addr (Addr kv) (Port kv), Path = ''api/kvraft/v1/internal/stop''\<rparr> in
          Inr ((kvURL, Empty_reply) #
                 map (\<lambda>d. (\<lparr>Scheme = ''http'', Host = full_addr (Addr (RaftConnect d)) (Port (RaftConnect d)),
                             Path = ''raft/v1/internal/stop''\<rparr>, Stop_arg args)) (raftControllerDetails c),
               Json_reply zero_common_reply)))"

definition API_StartServer :: "start_server_arg option \<Rightarrow> controller \<Rightarrow> (call list \<times> answer) go" where
  "API_StartServer body c =
     (case body of
        None \<Rightarrow> Inr ([], Bind_error)
      | Some args \<Rightarrow>
          go_bind (idx (kvControllerDetails c) (start_Idx args)) (\<lambda>kv.
          let kvURL = \<lparr>Scheme = ''http'', Host = full_addr (Addr kv) (Port kv), Path = ''api/kvraft/v1/internal/start''\<rparr> in
          Inr ((kvURL, Empty_reply) #
                 map (\<lambda>d. (\<lparr>Scheme = ''http'', Host = full_addr (Addr (RaftConnect d)) (Port (RaftConnect d)),
                             Path = ''raft/v1/internal/start''\<rparr>, Start_arg args)) (raftControllerDetails c),
               Json_reply zero_common_reply)))"

section \<open>What registration computes\<close>

fun raft_body :: "event \<Rightarrow> raft_kv_init_config list" where
  "raft_body (Raft_arrives (Some a)) = [a]"
| "raft_body _ = []"

fun kv_body :: "event \<Rightarrow> raft_connect_details list" where
  "kv_body (KV_arrives (Some a)) = [a]"
| "kv_body _ = []"

definition raft_arrivals :: "event list \<Rightarrow> raft_kv_init_config list" where
  "raft_arrivals evs = concat (map raft_body evs)"

definition kv_arrivals :: "event list \<Rightarrow> raft_connect_details list" where
  "kv_arrivals evs = concat (map kv_body evs)"

lemma arrivals_simps [simp]:
  "raft_arrivals [] = []" "kv_arrivals [] = []"
  "raft_arrivals (e # es) = raft_body e @ raft_arrivals es"
  "kv_arrivals (e # es) = kv_body e @ kv_arrivals es"
  "raft_arrivals (es @ es') = raft_arrivals es @ raft_arrivals es'"
  "kv_arrivals (es @ es') = kv_arrivals es @ kv_arrivals es'"
  by (simp_all add: raft_arrivals_def kv_arrivals_def)

definition with_id :: "nat \<Rightarrow> raft_kv_init_config \<Rightarrow> raft_kv_init_config" where
  "with_id i a = a\<lparr>RaftConnect := (RaftConnect a)\<lparr>conn_Id := int i\<rparr>\<rparr>"

definition with_ids :: "raft_kv_init_config list \<Rightarrow> raft_kv_init_config list" where
  "with_ids as = map (\<lambda>(i, a). with_id i a) (indexed as)"

lemma length_with_ids [simp]: "length (with_ids as) = length as"
  by (simp add: with_ids_def indexed_def)

lemma nth_with_ids [simp]: "i < length as \<Longrightarrow> with_ids as ! i = with_id i (as ! i)"
  by (simp add: with_ids_def indexed_def)

lemma with_ids_snoc [simp]: "with_ids (as @ [a]) = with_ids as @ [with_id (length as) a]"
  by (rule nth_equalityI) (auto simp: nth_append less_Suc_eq)

text \<open>The first \<open>n\<close> of each kind, in the order of arrival; Raft servers numbered from 0.\<close>

definition registered :: "nat \<Rightarrow> raft_kv_init_config list \<Rightarrow> raft_connect_details list \<Rightarrow> controller \<Rightarrow> bool" where
  "registered n as ks c \<longleftrightarrow> nServers c = int n
    \<and> connectedRaftServers c = int (min n (length as))
    \<and> connectedKVServers c = int (min n (length ks))
    \<and> raftControllerDetails c = with_ids (take n as) @ replicate (n - length as) zero_init_config
    \<and> kvControllerDetails c = take n ks @ replicate (n - length ks) zero_connect"

lemma fill_next:
  assumes "length xs < n"
  shows "(xs @ replicate (n - length xs) z)[length xs := x] = (xs @ [x]) @ replicate (n - Suc (length xs)) z"
proof -
  have "replicate (n - length xs) z = z # replicate (n - Suc (length xs)) z"
    using assms by (metis Suc_diff_Suc replicate_Suc)
  then show ?thesis by simp
qed

lemma registered_step:
  assumes "registered n as ks c"
  shows "\<exists>c'. handle_event e c = Inr c' \<and> registered n (as @ raft_body e) (ks @ kv_body e) c'"
proof (cases e)
  case (Raft_arrives b)
  show ?thesis
  proof (cases "b = None \<or> n \<le> length as")
    case True
    then show ?thesis using assms Raft_arrives
      by (cases b) (auto simp: API_AddRaftServer_def registered_def)
  next
    case False
    then show ?thesis using assms Raft_arrives fill_next[of "with_ids as" n zero_init_config]
      by (auto simp: API_AddRaftServer_def registered_def upd_idx_def raft_ready_def with_id_def Let_def)
  qed
next
  case (KV_arrives b)
  show ?thesis
  proof (cases "b = None \<or> n \<le> length ks")
    case True
    then show ?thesis using assms KV_arrives
      by (cases b) (auto simp: API_AddKVServer_def registered_def)
  next
    case False
    then show ?thesis using assms KV_arrives fill_next[of ks n zero_connect]
      by (auto simp: API_AddKVServer_def registered_def upd_idx_def kv_ready_def Let_def)
  qed
next
  case Init_moves
  then show ?thesis using assms by (auto simp: init_moves_def registered_def split: init_at.split)
qed

lemma registered_new: "registered n [] [] (NewController (int n))"
  by (simp add: registered_def NewController_def with_ids_def indexed_def)

lemma registered_run:
  "\<exists>c. go_fold handle_event evs (NewController (int n)) = Inr c
    \<and> registered n (raft_arrivals evs) (kv_arrivals evs) c"
proof (induction evs rule: rev_induct)
  case Nil
  then show ?case using registered_new by simp
next
  case (snoc e evs)
  then obtain c where "go_fold handle_event evs (NewController (int n)) = Inr c"
    "registered n (raft_arrivals evs) (kv_arrivals evs) c" by blast
  with registered_step[of n _ _ c e] show ?case by (auto simp: go_fold_snoc)
qed

lemma registration_length:
  assumes "go_fold handle_event evs (NewController (int n)) = Inr c"
  shows "length (raftControllerDetails c) = n" "length (kvControllerDetails c) = n"
  using registered_run[of evs n] assms by (auto simp: registered_def)

text \<open>C30: However registrations, bad requests and the master's own steps are interleaved, no handler
  fails, and the tables hold the first \<open>n\<close> Raft servers and the first \<open>n\<close> key/value servers in
  the order they arrived; the Raft servers' Ids are set to their positions, those of the key/value
  servers stay as they were sent; later registrations change nothing.\<close>
theorem registration_in_order:
  "\<exists>c. go_fold handle_event evs (NewController (int n)) = Inr c
    \<and> raftControllerDetails c = with_ids (take n (raft_arrivals evs))
        @ replicate (n - length (raft_arrivals evs)) zero_init_config
    \<and> kvControllerDetails c = take n (kv_arrivals evs)
        @ replicate (n - length (kv_arrivals evs)) zero_connect
    \<and> (n \<le> length (raft_arrivals evs) \<longrightarrow>
         map (conn_Id \<circ> RaftConnect) (raftControllerDetails c) = map int [0..<n])"
proof -
  obtain c where c: "go_fold handle_event evs (NewController (int n)) = Inr c"
    "registered n (raft_arrivals evs) (kv_arrivals evs) c" using registered_run by blast
  have "map (conn_Id \<circ> RaftConnect) (with_ids (take n (raft_arrivals evs))) = map int [0..<n]"
    if "n \<le> length (raft_arrivals evs)"
    using that by (intro nth_equalityI) (auto simp: with_id_def)
  then show ?thesis using c by (intro exI[of _ c]) (simp add: registered_def)
qed

definition ex_config :: raft_kv_init_config where
  "ex_config = zero_init_config\<lparr>KVInitFullPath := ''http://a:1/kv''\<rparr>"

theorem registration_in_order_witness:
  "\<exists>c. go_fold handle_event [Raft_arrives (Some ex_config), KV_arrives None, Raft_arrives (Some zero_init_config)]
      (NewController (int 2)) = Inr c
    \<and> map (conn_Id \<circ> RaftConnect) (raftControllerDetails c) = map int [0..<2]"
  using registration_in_order[of "[Raft_arrives (Some ex_config), KV_arrives None, Raft_arrives (Some zero_init_config)]" 2]
  by (elim exE conjE) (intro exI conjI, assumption, simp)

section \<open>The barrier\<close>

text \<open>The handlers of one event, after which \<open>serversInit\<close> gets to run.\<close>

primrec prompt :: "event list \<Rightarrow> event list" where
  "prompt [] = []"
| "prompt (e # es) = e # Init_moves # prompt es"

lemma prompt_snoc [simp]: "prompt (es @ [e]) = prompt es @ [e, Init_moves]"
  by (induction es) simp_all

lemma prompt_arrivals [simp]:
  "raft_arrivals (prompt es) = raft_arrivals es" "kv_arrivals (prompt es) = kv_arrivals es"
  by (induction es) simp_all

text \<open>All Raft servers were there before the last of the key/value servers.\<close>

definition opens :: "nat \<Rightarrow> event list \<Rightarrow> bool" where
  "opens n es \<longleftrightarrow> n \<le> length (kv_arrivals es)
    \<and> (\<exists>es1 es2. es = es1 @ es2 \<and> n \<le> length (raft_arrivals es1) \<and> length (kv_arrivals es1) < n)"

lemma opens_raft: "opens n es \<Longrightarrow> n \<le> length (raft_arrivals es)"
  by (auto simp: opens_def)

lemma opens_snoc:
  "opens n (es @ [e]) \<longleftrightarrow> opens n es
    \<or> length (kv_arrivals es) < n \<and> n \<le> length (kv_arrivals (es @ [e])) \<and> n \<le> length (raft_arrivals es)"
proof
  assume l: "opens n (es @ [e])"
  then obtain es1 es2 where s: "es @ [e] = es1 @ es2" "n \<le> length (raft_arrivals es1)" "length (kv_arrivals es1) < n"
    "n \<le> length (kv_arrivals (es @ [e]))" unfolding opens_def by (elim exE conjE) (rule that)
  then have "es2 \<noteq> []" by auto
  then obtain es3 where es: "es = es1 @ es3" using s(1) by (cases es2 rule: rev_cases) auto
  with s show "opens n es \<or> length (kv_arrivals es) < n \<and> n \<le> length (kv_arrivals (es @ [e]))
      \<and> n \<le> length (raft_arrivals es)"
    by (cases "n \<le> length (kv_arrivals es)") (auto simp: opens_def)
next
  assume "opens n es \<or> length (kv_arrivals es) < n \<and> n \<le> length (kv_arrivals (es @ [e]))
      \<and> n \<le> length (raft_arrivals es)"
  then show "opens n (es @ [e])"
  proof
    assume "opens n es"
    then obtain es1 es2 where "es @ [e] = es1 @ (es2 @ [e])" "n \<le> length (raft_arrivals es1)"
      "length (kv_arrivals es1) < n" "n \<le> length (kv_arrivals (es @ [e]))" by (auto simp: opens_def)
    then show ?thesis unfolding opens_def by blast
  qed (auto simp: opens_def)
qed

definition barrier_pc :: "nat \<Rightarrow> event list \<Rightarrow> init_at" where
  "barrier_pc n es = (if length (raft_arrivals es) < n then At_raft else if opens n es then Got_kv else At_kv)"

lemma barrier_step:
  assumes "0 < n" "registered n (raft_arrivals es) (kv_arrivals es) c" "init_pc c = barrier_pc n es"
    and "handle_event e c = Inr c1"
  shows "init_pc (init_moves c1) = barrier_pc n (es @ [e])"
proof (cases e)
  case (Raft_arrives b)
  then show ?thesis
    using assms by (cases b) (auto dest: opens_raft simp: API_AddRaftServer_def registered_def upd_idx_def raft_ready_def
        barrier_pc_def opens_snoc init_moves_def Let_def split: if_splits init_at.splits)
next
  case (KV_arrives b)
  then show ?thesis
    using assms by (cases b) (auto simp: API_AddKVServer_def registered_def upd_idx_def kv_ready_def
        barrier_pc_def opens_snoc init_moves_def Let_def split: if_splits init_at.splits)
next
  case Init_moves
  then show ?thesis using assms by (auto simp: barrier_pc_def opens_snoc init_moves_def split: init_at.splits if_splits)
qed

lemma barrier_run:
  assumes "0 < n"
  shows "\<exists>c. go_fold handle_event (Init_moves # prompt es) (NewController (int n)) = Inr c
    \<and> registered n (raft_arrivals es) (kv_arrivals es) c \<and> init_pc c = barrier_pc n es"
proof (induction es rule: rev_induct)
  case Nil
  have "registered n [] [] (init_moves (NewController (int n)))"
    using registered_new[of n] by (simp add: init_moves_def NewController_def registered_def)
  then show ?case using assms by (simp add: barrier_pc_def init_moves_def NewController_def)
next
  case (snoc e es)
  then obtain c where c: "go_fold handle_event (Init_moves # prompt es) (NewController (int n)) = Inr c"
    "registered n (raft_arrivals es) (kv_arrivals es) c" "init_pc c = barrier_pc n es" by blast
  obtain c1 where c1: "handle_event e c = Inr c1" "registered n (raft_arrivals (es @ [e])) (kv_arrivals (es @ [e])) c1"
    using registered_step[OF c(2), of e] by auto
  obtain c2 where c2: "handle_event Init_moves c1 = Inr c2" "registered n (raft_arrivals (es @ [e])) (kv_arrivals (es @ [e])) c2"
    using registered_step[OF c1(2), of Init_moves] by auto
  have "go_fold handle_event (Init_moves # prompt (es @ [e])) (NewController (int n)) = Inr c2"
    using c(1) c1(1) c2(1) by (simp add: go_fold_append flip: append_Cons)
  moreover have "init_pc c2 = barrier_pc n (es @ [e])"
    using barrier_step[OF assms c(2,3) c1(1)] c2(1) by simp
  ultimately show ?case using c2(2) by blast
qed

text \<open>C31: The start barrier, when \<open>serversInit\<close> runs promptly: it is behind the barrier exactly
  when all servers of both kinds have registered and the last Raft server came before the last
  key/value server. Otherwise the signal of the key/value servers finds nobody waiting and is
  lost, and the cluster never starts: whatever registers later does not make up for it.\<close>
theorem start_barrier:
  assumes "0 < n"
  shows "\<exists>c. go_fold handle_event (Init_moves # prompt es) (NewController (int n)) = Inr c
    \<and> (init_pc c = Got_kv \<longleftrightarrow> opens n es)
    \<and> (n \<le> length (kv_arrivals es) \<and> \<not> opens n es \<longrightarrow>
         (\<forall>es'. \<exists>c'. go_fold handle_event (Init_moves # prompt (es @ es')) (NewController (int n)) = Inr c'
            \<and> init_pc c' \<noteq> Got_kv))"
proof -
  have never: "\<not> opens n (es @ es')" if "n \<le> length (kv_arrivals es)" "\<not> opens n es" for es'
    using that by (induction es' rule: rev_induct) (auto simp: opens_snoc simp flip: append_assoc)
  have got: "barrier_pc n es = Got_kv \<longleftrightarrow> opens n es" for es
    using opens_raft[of n es] by (auto simp: barrier_pc_def)
  obtain c where c: "go_fold handle_event (Init_moves # prompt es) (NewController (int n)) = Inr c"
    "init_pc c = barrier_pc n es" using barrier_run[OF assms] by blast
  have "\<exists>c'. go_fold handle_event (Init_moves # prompt (es @ es')) (NewController (int n)) = Inr c'
      \<and> init_pc c' \<noteq> Got_kv" if "n \<le> length (kv_arrivals es)" "\<not> opens n es" for es'
    using barrier_run[OF assms, of "es @ es'"] never[OF that] got by metis
  with c got show ?thesis by (intro exI[of _ c]) auto
qed

theorem start_barrier_witness:
  "\<exists>c. go_fold handle_event (Init_moves # prompt [KV_arrives (Some zero_connect), Raft_arrives (Some zero_init_config)])
      (NewController (int 1)) = Inr c \<and> init_pc c \<noteq> Got_kv"
proof -
  have "\<not> opens 1 [KV_arrives (Some zero_connect), Raft_arrives (Some zero_init_config)]"
    using opens_snoc[of 1 "[KV_arrives (Some zero_connect)]" "Raft_arrives (Some zero_init_config)"]
      opens_snoc[of 1 "[]" "KV_arrives (Some zero_connect)"] by (simp add: opens_def)
  with start_barrier[of 1 "[KV_arrives (Some zero_connect), Raft_arrives (Some zero_init_config)]", OF zero_less_one]
  show ?thesis by (elim exE conjE) (intro exI conjI, assumption, argo)
qed

section \<open>Behind the barrier\<close>

lemma go_concat_ok: "\<forall>x \<in> set xs. f x = Inr (g x) \<Longrightarrow> go_concat (map f xs) = Inr (concat (map g xs))"
  by (induction xs) auto

lemma go_concat_append: "go_concat xs = Inr a \<Longrightarrow> go_concat ys = Inr b \<Longrightarrow> go_concat (xs @ ys) = Inr (a @ b)"
  by (induction xs arbitrary: a) auto

lemma indexed_eq: "indexed xs = map (\<lambda>i. (i, xs ! i)) [0..<length xs]"
  by (rule nth_equalityI) (auto simp: indexed_def)

lemma indexed_in: "(i, x) \<in> set (indexed xs) \<longleftrightarrow> i < length xs \<and> x = xs ! i"
  by (auto simp: indexed_eq)

definition parses :: "(string \<Rightarrow> url option) \<Rightarrow> raft_kv_init_config \<Rightarrow> bool" where
  "parses parse a \<longleftrightarrow> parse (ReplyFullPath (RaftConnect a)) \<noteq> None \<and> parse (KVInitFullPath a) \<noteq> None
    \<and> parse (RaftStartWSFullPath a) \<noteq> None \<and> parse (RaftStartFullPath a) \<noteq> None"

definition init_args :: "raft_connect_details list \<Rightarrow> nat \<Rightarrow> connect_master_reply" where
  "init_args ds i = \<lparr>Peers = ds, cm_Ok = True, cm_Id = int i\<rparr>"

definition rest_args :: "raft_connect_details list \<Rightarrow> nat \<Rightarrow> connect_master_reply" where
  "rest_args ds i = \<lparr>Peers = drop (i + 1) ds, cm_Ok = True, cm_Id = int i\<rparr>"

lemma call_steps:
  "parses parse raft \<Longrightarrow> i < length (kvControllerDetails c) \<Longrightarrow> init_calls parse c ds (i, raft) =
     Inr [(the (parse (KVInitFullPath raft)), Kv_details (kvControllerDetails c ! i)),
          (the (parse (ReplyFullPath (RaftConnect raft))), Master_reply (init_args ds i))]"
  "parses parse raft \<Longrightarrow> i < length ds \<Longrightarrow> ws_calls parse ds (i, raft) =
     Inr [(the (parse (RaftStartWSFullPath raft)), Master_reply (rest_args ds i))]"
  "parses parse raft \<Longrightarrow> start_calls parse raft = Inr [(the (parse (RaftStartFullPath raft)), Empty_reply)]"
  "parse (ReplyFullPath kv) \<noteq> None \<Longrightarrow> i < length (raftControllerDetails c) \<Longrightarrow> kv_calls parse c (i, kv) =
     Inr [(the (parse (ReplyFullPath kv)), Raft_details (RaftConnect (raftControllerDetails c ! i)))]"
  by (auto simp: parses_def init_calls_def ws_calls_def start_calls_def kv_calls_def idx_in reslice_def
      init_args_def rest_args_def nat_add_distrib)

text \<open>The calls, with their URLs.\<close>

lemma serversInit_eq:
  fixes c :: controller
  defines "ds \<equiv> map RaftConnect (raftControllerDetails c)"
  assumes n: "length (raftControllerDetails c) = n" "length (kvControllerDetails c) = n"
    and raft: "\<forall>a \<in> set (raftControllerDetails c). parses parse a"
    and kv: "\<forall>k \<in> set (kvControllerDetails c). parse (ReplyFullPath k) \<noteq> None"
  shows "serversInit parse c = Inr (concat (map (\<lambda>i. let a = raftControllerDetails c ! i in
        [(the (parse (KVInitFullPath a)), Kv_details (kvControllerDetails c ! i)),
         (the (parse (ReplyFullPath (RaftConnect a))), Master_reply (init_args ds i))]) [0..<n])
      @ map (\<lambda>i. (the (parse (RaftStartWSFullPath (raftControllerDetails c ! i))), Master_reply (rest_args ds i))) [0..<n]
      @ map (\<lambda>a. (the (parse (RaftStartFullPath a)), Empty_reply)) (raftControllerDetails c)
      @ map (\<lambda>i. (the (parse (ReplyFullPath (kvControllerDetails c ! i))), Raft_details (ds ! i))) [0..<n])"
proof -
  let ?R = "raftControllerDetails c" and ?K = "kvControllerDetails c"
  let ?u = "\<lambda>s. the (parse s)"
  have p: "parses parse (?R ! i)" "parse (ReplyFullPath (?K ! i)) \<noteq> None" if "i < n" for i
    using that raft kv n by simp_all
  have 1: "go_concat (map (init_calls parse c ds) (indexed ?R)) = Inr (concat (map (\<lambda>(i, a).
      [(?u (KVInitFullPath a), Kv_details (?K ! i)), (?u (ReplyFullPath (RaftConnect a)), Master_reply (init_args ds i))]) (indexed ?R)))"
    using p n by (intro go_concat_ok) (auto simp: indexed_in call_steps ds_def)
  have 2: "go_concat (map (ws_calls parse ds) (indexed ?R)) = Inr (concat (map (\<lambda>(i, a).
      [(?u (RaftStartWSFullPath a), Master_reply (rest_args ds i))]) (indexed ?R)))"
    using p n by (intro go_concat_ok) (auto simp: indexed_in call_steps ds_def)
  have 3: "go_concat (map (start_calls parse) ?R) = Inr (concat (map (\<lambda>a. [(?u (RaftStartFullPath a), Empty_reply)]) ?R))"
    using raft by (intro go_concat_ok) (auto simp: call_steps)
  have 4: "go_concat (map (kv_calls parse c) (indexed ?K)) = Inr (concat (map (\<lambda>(i, k).
      [(?u (ReplyFullPath k), Raft_details (ds ! i))]) (indexed ?K)))"
    using p n by (intro go_concat_ok) (auto simp: indexed_in call_steps ds_def)
  have flat: "concat (map (\<lambda>x. [h x]) xs) = map h xs" for h :: "'x \<Rightarrow> 'y" and xs
    by (induction xs) simp_all
  show ?thesis
    using go_concat_append[OF 1 go_concat_append[OF 2 go_concat_append[OF 3 4]]]
    unfolding serversInit_def ds_def[symmetric] Let_def by (simp add: comp_def split_beta flat indexed_eq n)
qed

lemma MakeRaftController_fresh:
  "rc_BoundMethods (fst (MakeRaftController urlText (Addr d) (Port d))) = raft_routes (base_of d)"
  "raftClients (fst (MakeRaftController urlText (Addr d) (Port d))) = []"
  by (simp_all add: MakeRaftController_def base_of_def Let_def)

end
