(* ===== verification/ServiceControl.thy ===== *)
theory ServiceControl
  imports RaftControl KvServer Clerk
begin

text \<open>
  The controllers of a key/value server (\<open>controller/kvraft_controller.go\<close>) and of a client
  (\<open>controller/clientcontroller.go\<close>): their routes, the call that registers each at the master
  controller, the set-up of the clients they talk to, and the stop and start of a key/value
  server. Their HTTP handlers find the method by reflection, bind the body, and answer with the
  method's reply (\<open>dispatch\<close>, as \<open>APIFunction\<close> of \<open>controller/common/common.go\<close> does for Raft). A
  request before the set-up finds no service, which is a nil pointer.

  Their routes are in \<open>Routing\<close>. Not modelled: the echo service, the HTTP client's settings.
\<close>

datatype 'r http_answer = Bind_failed | Answer 'r

definition dispatch :: "'s option \<Rightarrow> ('a \<Rightarrow> 's \<Rightarrow> 's \<times> 'r) \<Rightarrow> 'a option \<Rightarrow> ('s option \<times> 'r http_answer) go" where
  "dispatch service handler body =
     (case service of
        None \<Rightarrow> Inl NilDereference
      | Some s \<Rightarrow>
          (case body of
             None \<Rightarrow> Inr (Some s, Bind_failed)
           | Some args \<Rightarrow> (case handler args s of (s', r) \<Rightarrow> Inr (Some s', Answer r))))"

section \<open>The controller of a key/value server\<close>

record 'w kv_controller =
  kc_Me :: int
  kc_Addr :: string
  kc_BoundMethods :: url_table
  kvraft :: "raftkv option"
  raftAPIClient :: "'w rclient option"

definition kv_routes :: "url \<Rightarrow> url_table" where
  "kv_routes baseURL = Map.empty
     (''RaftKV.Get'' \<mapsto> baseURL\<lparr>Path := ''api/kvraft/v1/get''\<rparr>,
      ''RaftKV.PutAppend'' \<mapsto> baseURL\<lparr>Path := ''api/kvraft/v1/putappend''\<rparr>,
      ''RaftKV.Apply'' \<mapsto> baseURL\<lparr>Path := ''api/kvraft/v1/apply''\<rparr>,
      ''KVRaftController.Stop'' \<mapsto> baseURL\<lparr>Path := ''api/kvraft/v1/internal/stop''\<rparr>,
      ''KVRaftController.Start'' \<mapsto> baseURL\<lparr>Path := ''api/kvraft/v1/internal/start''\<rparr>,
      ''KVRaftController.InitRaft'' \<mapsto> baseURL\<lparr>Path := ''api/kvraft/v1/internal/init_raft''\<rparr>)"

definition MasterControllerKVServerAPI :: string where
  "MasterControllerKVServerAPI = ''/api/controller/v1/kvadd''"

definition MakeKVRaftController ::
  "(url \<Rightarrow> string) \<Rightarrow> string \<Rightarrow> int \<Rightarrow> 'w kv_controller \<times> url \<times> raft_connect_details" where
  "MakeKVRaftController url_text addr port =
     (let fullAddr = full_addr addr port;
          tab = kv_routes \<lparr>Scheme = ''http'', Host = fullAddr, Path = ''''\<rparr>
      in (\<lparr>kc_Me = 0, kc_Addr = fullAddr, kc_BoundMethods = tab, kvraft = None, raftAPIClient = None\<rparr>,
          \<lparr>Scheme = ''http'', Host = master_addr, Path = MasterControllerKVServerAPI\<rparr>,
          \<lparr>Addr = addr, Port = port, conn_Id = 0,
           ReplyFullPath = url_text (url_of tab ''KVRaftController.InitRaft'')\<rparr>))"

definition StartKVRaft :: "'w rclient \<Rightarrow> 'w kv_controller \<Rightarrow> 'w kv_controller" where
  "StartKVRaft raftClient c = c\<lparr>kvraft := Some (StartKVServer (kc_Me c) (-1)), raftAPIClient := Some raftClient\<rparr>"

definition API_InitRaft ::
  "raft_connect_details option \<Rightarrow> 'w kv_controller \<Rightarrow> 'w kv_controller \<times> common_reply http_answer" where
  "API_InitRaft body c =
     (case body of
        None \<Rightarrow> (c, Bind_failed)
      | Some args \<Rightarrow>
          (let c1 = c\<lparr>kc_Me := conn_Id args\<rparr>;
               baseURL = \<lparr>Scheme = ''http'', Host = full_addr (Addr args) (Port args), Path = ''raft/v1/agree''\<rparr>;
               raftBoundMethods = Map.empty
                 (''Raft.Agree'' \<mapsto> baseURL, ''Raft.ReturnState'' \<mapsto> baseURL\<lparr>Path := ''raft/v1/get_state''\<rparr>);
               raftClient = NewRClient raftBoundMethods Map.empty
           in (StartKVRaft raftClient c1, Answer zero_common_reply)))"

definition kv_API_Stop :: "'w kv_controller \<Rightarrow> 'w kv_controller \<times> common_reply" where
  "kv_API_Stop c = (c\<lparr>raftAPIClient := map_option RClient_Block (raftAPIClient c)\<rparr>, zero_common_reply)"

definition kv_API_Start :: "'w kv_controller \<Rightarrow> 'w kv_controller \<times> common_reply" where
  "kv_API_Start c = (c\<lparr>raftAPIClient := map_option RClient_Unblock (raftAPIClient c)\<rparr>, zero_common_reply)"

text \<open>\<open>KVRaftController.Call\<close>, by its own table.\<close>

definition kv_Call :: "('a, 'p, 'r) http_env \<Rightarrow> 'w kv_controller \<Rightarrow> string \<Rightarrow> 'a \<Rightarrow> 'r \<Rightarrow> 'r outcome go" where
  "kv_Call env c methodName args reply = Call env methodName args reply (kc_BoundMethods c)"

section \<open>The controller of a client\<close>

record 'w client_controller =
  cc_Addr :: string
  cc_BoundMethods :: url_table
  kvservers :: "'w rclient list"
  cc_lastLeader :: "int option"

text \<open>The clerk is there once \<open>start\<close> has run; of its state only \<open>lastLeader\<close> is its own, the
  servers are those of the controller.\<close>

definition client_routes :: "url \<Rightarrow> url_table" where
  "client_routes baseURL = Map.empty
     (''Clerk.Get'' \<mapsto> baseURL\<lparr>Path := ''api/client/v1/get''\<rparr>,
      ''Clerk.PutAppend'' \<mapsto> baseURL\<lparr>Path := ''api/client/v1/putappend''\<rparr>,
      ''ClientController.InitKVServer'' \<mapsto> baseURL\<lparr>Path := ''api/client/v1/internal/init_kv_servers''\<rparr>,
      ''RaftKV.Get'' \<mapsto> baseURL\<lparr>Path := ''api/kvraft/v1/get''\<rparr>,
      ''RaftKV.PutAppend'' \<mapsto> baseURL\<lparr>Path := ''api/kvraft/v1/putappend''\<rparr>)"

definition MasterControllerClientAPI :: string where
  "MasterControllerClientAPI = ''/api/controller/v1/clientadd''"

definition MakeClientController2 ::
  "(url \<Rightarrow> string) \<Rightarrow> string \<Rightarrow> int \<Rightarrow> 'w client_controller \<times> url \<times> raft_connect_details" where
  "MakeClientController2 url_text addr port =
     (let host = full_addr addr port;
          tab = client_routes \<lparr>Scheme = ''http'', Host = host, Path = ''''\<rparr>
      in (\<lparr>cc_Addr = host, cc_BoundMethods = tab, kvservers = [], cc_lastLeader = None\<rparr>,
          \<lparr>Scheme = ''http'', Host = master_addr, Path = MasterControllerClientAPI\<rparr>,
          \<lparr>Addr = addr, Port = port, conn_Id = 0,
           ReplyFullPath = url_text (url_of tab ''ClientController.InitKVServer'')\<rparr>))"

definition InitKVServer :: "connect_master_reply \<Rightarrow> 'w client_controller \<Rightarrow> 'w client_controller" where
  "InitKVServer args c =
     c\<lparr>kvservers := map (\<lambda>v. NewRClient
          (\<lambda>k. map_option (\<lambda>u. u\<lparr>Host := full_addr (Addr v) (Port v)\<rparr>) (cc_BoundMethods c k)) Map.empty) (Peers args),
       cc_lastLeader := Some MakeClerk\<rparr>"

definition client_API_InitKVServer ::
  "connect_master_reply option \<Rightarrow> 'w client_controller \<Rightarrow> 'w client_controller \<times> common_reply http_answer" where
  "client_API_InitKVServer body c =
     (case body of None \<Rightarrow> (c, Bind_failed) | Some args \<Rightarrow> (InitKVServer args c, Answer zero_common_reply))"

definition client_Call :: "('a, 'p, 'r) http_env \<Rightarrow> 'w client_controller \<Rightarrow> string \<Rightarrow> 'a \<Rightarrow> 'r \<Rightarrow> 'r outcome go" where
  "client_Call env c svcMethod args reply = Call env svcMethod args reply (cc_BoundMethods c)"

section \<open>The HTTP handlers\<close>

text \<open>Of a key/value server: \<open>API_Get\<close>, \<open>API_PutAppend\<close> and \<open>API_Apply\<close>. \<open>ReturnState\<close> and \<open>Agree\<close>
  are the answers of its Raft server.\<close>

definition kv_API_Get ::
  "state_reply option \<Rightarrow> (agree_args \<Rightarrow> agree_reply option) \<Rightarrow> get_args option \<Rightarrow> 'w kv_controller
   \<Rightarrow> ('w kv_controller \<times> get_reply progress http_answer) go" where
  "kv_API_Get ReturnState Agree body c =
     go_bind (dispatch (kvraft c) (\<lambda>args kv. Get ReturnState Agree args zero_get_reply kv) body)
       (\<lambda>(kv, a). Inr (c\<lparr>kvraft := kv\<rparr>, a))"

definition kv_API_PutAppend ::
  "state_reply option \<Rightarrow> (agree_args \<Rightarrow> agree_reply option) \<Rightarrow> put_append_args option \<Rightarrow> 'w kv_controller
   \<Rightarrow> ('w kv_controller \<times> put_append_reply progress http_answer) go" where
  "kv_API_PutAppend ReturnState Agree body c =
     go_bind (dispatch (kvraft c) (\<lambda>args kv. PutAppend ReturnState Agree args zero_put_append_reply kv) body)
       (\<lambda>(kv, a). Inr (c\<lparr>kvraft := kv\<rparr>, a))"

definition kv_API_Apply ::
  "apply_msg option \<Rightarrow> 'w kv_controller
   \<Rightarrow> ('w kv_controller \<times> (apply_msg_reply \<times> kv_error list) http_answer) go" where
  "kv_API_Apply body c =
     (case kvraft c of
        None \<Rightarrow> Inl NilDereference
      | Some kv \<Rightarrow>
          (case body of
             None \<Rightarrow> Inr (c, Bind_failed)
           | Some args \<Rightarrow>
               go_bind (Apply args \<lparr>apply_Ok = False\<rparr> kv) (\<lambda>(kv', reply, errs).
               Inr (c\<lparr>kvraft := Some kv'\<rparr>, Answer (reply, errs)))))"

text \<open>Of a client: the clerk's operations, with the messages of \<open>raftclient/dto\<close>. \<open>None\<close> is fuel that
  ran out in the clerk's loop; \<open>s\<close> is the state of the key/value servers.\<close>

record client_get_arg = cga_Key :: string
record client_get_reply =
  cgr_Key :: string
  cgr_Value :: string
record client_put_append_arg =
  cpa_Key :: string
  cpa_Op :: string
  cpa_Value :: string

definition client_API_Get ::
  "(get_args, get_reply, 's) call \<Rightarrow> nat \<Rightarrow> int \<times> int \<Rightarrow> client_get_arg option \<Rightarrow> 'w client_controller \<Rightarrow> 's
   \<Rightarrow> ('w client_controller \<times> client_get_reply http_answer \<times> 's) go option" where
  "client_API_Get call fuel rs body c s =
     (case cc_lastLeader c of
        None \<Rightarrow> Some (Inl NilDereference)
      | Some lastLeader \<Rightarrow>
          (case body of
             None \<Rightarrow> Some (Inr (c, Bind_failed, s))
           | Some args \<Rightarrow>
               map_option (\<lambda>(v, l, s'). Inr (c\<lparr>cc_lastLeader := Some l\<rparr>,
                   Answer \<lparr>cgr_Key = cga_Key args, cgr_Value = v\<rparr>, s'))
                 (clerk_Get call (length (kvservers c)) fuel rs (cga_Key args) lastLeader s)))"

definition client_API_PutAppend ::
  "(put_append_args, put_append_reply, 's) call \<Rightarrow> nat \<Rightarrow> int \<times> int \<Rightarrow> client_put_append_arg option
   \<Rightarrow> 'w client_controller \<Rightarrow> 's \<Rightarrow> ('w client_controller \<times> unit http_answer \<times> 's) go option" where
  "client_API_PutAppend call fuel rs body c s =
     (case cc_lastLeader c of
        None \<Rightarrow> Some (Inl NilDereference)
      | Some lastLeader \<Rightarrow>
          (case body of
             None \<Rightarrow> Some (Inr (c, Bind_failed, s))
           | Some args \<Rightarrow>
               map_option (\<lambda>(l, s'). Inr (c\<lparr>cc_lastLeader := Some l\<rparr>, Answer (), s'))
                 (clerk_PutAppend call (length (kvservers c)) fuel rs (cpa_Op args) (cpa_Key args) (cpa_Value args)
                    lastLeader s)))"

text \<open>Before the set-up every request is a nil pointer, whatever its body; a body that does not
  bind changes nothing.\<close>

lemma handlers_not_ready:
  "kvraft c = None \<Longrightarrow> kv_API_Get rs ag b c = Inl NilDereference"
  "kvraft c = None \<Longrightarrow> kv_API_PutAppend rs ag b' c = Inl NilDereference"
  "kvraft c = None \<Longrightarrow> kv_API_Apply b'' c = Inl NilDereference"
  "cc_lastLeader cc = None \<Longrightarrow> client_API_Get gcall fuel r g cc s = Some (Inl NilDereference)"
  "cc_lastLeader cc = None \<Longrightarrow> client_API_PutAppend pcall fuel r p cc s = Some (Inl NilDereference)"
  by (simp_all add: kv_API_Get_def kv_API_PutAppend_def kv_API_Apply_def dispatch_def
      client_API_Get_def client_API_PutAppend_def)

lemma handlers_bind_failed:
  "kvraft c = Some kv \<Longrightarrow> kv_API_Get rs ag None c = Inr (c, Bind_failed)"
  "kvraft c = Some kv \<Longrightarrow> kv_API_PutAppend rs ag None c = Inr (c, Bind_failed)"
  "kvraft c = Some kv \<Longrightarrow> kv_API_Apply None c = Inr (c, Bind_failed)"
  by (simp_all add: kv_API_Get_def kv_API_PutAppend_def kv_API_Apply_def dispatch_def)

section \<open>What the set-up connects\<close>

text \<open>The URLs a key/value server uses are those its Raft server serves.\<close>

lemma kv_init_raft:
  assumes "API_InitRaft (Some d) c = (c', a)"
  shows "kc_Me c' = conn_Id d" "kvraft c' = Some (StartKVServer (conn_Id d) (-1))"
    and "\<exists>rcl. raftAPIClient c' = Some rcl \<and> \<not> RClient_IsBlocked rcl
      \<and> (\<forall>m \<in> {''Raft.Agree'', ''Raft.ReturnState''}. boundMethods rcl m = raft_routes (base_of d) m)"
  using assms
  by (auto simp: API_InitRaft_def StartKVRaft_def NewRClient_def raft_routes_def base_of_def Let_def
      RClient_IsBlocked_def AtBool_Load_def)

text \<open>And those of a client's clerk are those the key/value servers serve.\<close>

lemma client_host: "map_option (\<lambda>u. u\<lparr>Host := h\<rparr>) (client_routes b m) = client_routes (b\<lparr>Host := h\<rparr>) m"
  by (simp add: client_routes_def)

lemma client_kv_routes:
  "m \<in> {''RaftKV.Get'', ''RaftKV.PutAppend''} \<Longrightarrow> client_routes b m = kv_routes b m"
  by (auto simp: client_routes_def kv_routes_def)

lemma client_init:
  assumes "cc_BoundMethods c = client_routes \<lparr>Scheme = ''http'', Host = h, Path = ''''\<rparr>" "j < length (Peers args)"
    and "m \<in> {''RaftKV.Get'', ''RaftKV.PutAppend''}"
  shows "boundMethods (kvservers (InitKVServer args c) ! j) m = kv_routes (base_of (Peers args ! j)) m"
    and "cc_lastLeader (InitKVServer args c) = Some (-1)"
  using assms
  by (simp_all add: InitKVServer_def NewRClient_def client_host client_kv_routes base_of_def MakeClerk_def)

text \<open>A stopped key/value server cannot reach its Raft server: \<open>ReturnState\<close> gives no answer, and a
  request is refused as from a wrong leader.\<close>

lemma kv_stopped_silent:
  assumes "raftAPIClient (fst (kv_API_Stop c)) = Some rcl"
  shows "RClient_Call env rcl m args reply = Inr ([], reply, False)"
    and "\<exists>kv r. Get None Agree gargs greply kv0 = (kv, Done r) \<and> kv = kv0 \<and> gr_WrongLeader r"
    and "\<exists>kv r. PutAppend None Agree' pargs preply kv0 = (kv, Done r) \<and> kv = kv0 \<and> par_WrongLeader r"
  using assms by (auto simp: kv_API_Stop_def blocked_silent Get_def PutAppend_def)

end
