(* ===== verification/Booting.thy ===== *)
theory Booting
  imports Registration ServiceControl
begin

text \<open>
  The start of a cluster: the calls that \<open>serversInit\<close> makes (theory \<open>Registration\<close>), with their
  URLs and arguments, as every Raft and every key/value server hears them, and the state the
  servers are in after them.
\<close>

section \<open>The calls of \<open>serversInit\<close>, as the servers hear them\<close>

text \<open>
  Every server is shown all the calls, in order, and acts on those that are for it. A call is for a
  handler when its URL is the one the server's table has for it (the routes that \<open>Init\<close> registers:
  theory \<open>Routing\<close>). A call that makes another server open its websockets is felt here when that
  server dials this one: when its peers contain this address with a larger Id than its own,
  which is the Id that its own set-up call gave it (\<open>told_id\<close>). \<open>up\<close> is the upgraded connection.
\<close>

fun set_ids :: "Registration.call list \<Rightarrow> (string \<times> int) list" where
  "set_ids [] = []"
| "set_ids ((u, Master_reply a) # cs) =
     (if Path u = ''raft/v1/internal/init_raft_server'' then (Host u, cm_Id a) # set_ids cs else set_ids cs)"
| "set_ids (_ # cs) = set_ids cs"

definition told_id :: "Registration.call list \<Rightarrow> string \<Rightarrow> int" where
  "told_id calls h = (case map_of (set_ids calls) h of None \<Rightarrow> 0 | Some i \<Rightarrow> i)"

definition dials_here :: "Registration.call list \<Rightarrow> url \<Rightarrow> connect_master_reply \<Rightarrow> 'w raft_controller \<Rightarrow> bool" where
  "dials_here calls u a rc \<longleftrightarrow> Path u = Path (url_of (rc_BoundMethods rc) ''RaftController.StartWebsocket'')
     \<and> (\<exists>v \<in> set (Peers a). full_addr (Addr v) (Port v) = Host (url_of (rc_BoundMethods rc) ''Raft.WSHeartBeat'')
          \<and> told_id calls (Host u) < conn_Id v)"

definition hears_call :: "(url \<Rightarrow> string \<Rightarrow> 'w option) \<Rightarrow> (int \<Rightarrow> 'w) \<Rightarrow> Registration.call list
    \<Rightarrow> Registration.call \<Rightarrow> 'w raft_controller \<Rightarrow> 'w raft_controller go" where
  "hears_call dial up calls = (\<lambda>(u, args) rc.
     let mine = url_of (rc_BoundMethods rc) in
     case args of
       Kv_details kv \<Rightarrow> Inr (if u = mine ''RaftController.InitKVServerInfo'' then InitKVServerInfo kv rc else rc)
     | Master_reply a \<Rightarrow>
         if u = mine ''RaftController.InitRaftPeers'' then InitRaftPeers a rc
         else if u = mine ''RaftController.StartWebsocket'' then StartWebsocket dial a rc
         else if dials_here calls u a rc then accept_peer up (told_id calls (Host u)) rc
         else Inr rc
     | _ \<Rightarrow> Inr rc)"

definition boot_server :: "(url \<Rightarrow> string \<Rightarrow> 'w option) \<Rightarrow> (int \<Rightarrow> 'w) \<Rightarrow> Registration.call list
    \<Rightarrow> 'w raft_controller \<Rightarrow> 'w raft_controller go" where
  "boot_server dial up calls = go_fold (hears_call dial up calls) calls"

definition boot_kv :: "Registration.call list \<Rightarrow> 'w kv_controller \<Rightarrow> 'w kv_controller" where
  "boot_kv = fold (\<lambda>(u, args) kc. case args of
     Raft_details d \<Rightarrow> if u = url_of (kc_BoundMethods kc) ''KVRaftController.InitRaft'' then fst (API_InitRaft (Some d) kc) else kc
   | _ \<Rightarrow> kc)"

text \<open>The calls, given the details the servers registered with.\<close>

definition raft_url :: "raft_connect_details list \<Rightarrow> nat \<Rightarrow> string \<Rightarrow> url" where
  "raft_url ds i k = url_of (raft_routes (base_of (ds ! i))) k"

definition set_up_calls :: "raft_connect_details list \<Rightarrow> raft_connect_details list \<Rightarrow> nat list \<Rightarrow> Registration.call list" where
  "set_up_calls ds ks is =
     concat (map (\<lambda>i. [(raft_url ds i ''RaftController.InitKVServerInfo'', Kv_details (ks ! i)),
                      (raft_url ds i ''RaftController.InitRaftPeers'', Master_reply (init_args ds i))]) is)"

definition socket_calls :: "raft_connect_details list \<Rightarrow> nat list \<Rightarrow> Registration.call list" where
  "socket_calls ds is = map (\<lambda>i. (raft_url ds i ''RaftController.StartWebsocket'', Master_reply (rest_args ds i))) is"

definition begin_calls :: "raft_connect_details list \<Rightarrow> nat list \<Rightarrow> Registration.call list" where
  "begin_calls ds is = map (\<lambda>i. (raft_url ds i ''RaftController.StartRaftServer'', Empty_reply)) is"

definition kv_set_up_calls :: "raft_connect_details list \<Rightarrow> raft_connect_details list \<Rightarrow> nat list \<Rightarrow> Registration.call list" where
  "kv_set_up_calls ds ks is = map (\<lambda>i. (url_of (kv_routes (base_of (ks ! i))) ''KVRaftController.InitRaft'', Raft_details (ds ! i))) is"

lemmas phases = set_up_calls_def socket_calls_def begin_calls_def kv_set_up_calls_def

definition hosts_distinct :: "raft_connect_details list \<Rightarrow> bool" where
  "hosts_distinct ds \<longleftrightarrow> distinct (map (\<lambda>d. full_addr (Addr d) (Port d)) ds)"

lemma hosts_eq: "hosts_distinct ds \<Longrightarrow> i < length ds \<Longrightarrow> j < length ds \<Longrightarrow>
    full_addr (Addr (ds ! i)) (Port (ds ! i)) = full_addr (Addr (ds ! j)) (Port (ds ! j)) \<longleftrightarrow> i = j"
  by (simp add: hosts_distinct_def distinct_conv_nth) (metis nth_map)

lemma base_path_eq: "(base_of d)\<lparr>Path := p\<rparr> = (base_of d')\<lparr>Path := q\<rparr> \<longleftrightarrow> Host (base_of d) = Host (base_of d') \<and> p = q"
  by (simp add: base_of_def)

lemma raft_urls:
  "raft_url ds i ''RaftController.InitKVServerInfo'' = (base_of (ds ! i))\<lparr>Path := ''raft/v1/internal/init_kv_server''\<rparr>"
  "raft_url ds i ''RaftController.InitRaftPeers'' = (base_of (ds ! i))\<lparr>Path := ''raft/v1/internal/init_raft_server''\<rparr>"
  "raft_url ds i ''RaftController.StartWebsocket'' = (base_of (ds ! i))\<lparr>Path := ''raft/v1/internal/start_websockets''\<rparr>"
  "raft_url ds i ''RaftController.StartRaftServer'' = (base_of (ds ! i))\<lparr>Path := ''raft/v1/internal/start_raft_server''\<rparr>"
  "raft_url ds i ''Raft.WSHeartBeat'' = (base_of (ds ! i))\<lparr>Path := ''raft/v1/ws/heartbeat''\<rparr>"
  by (simp_all add: raft_url_def url_of_def raft_routes_def)

lemma set_ids_append [simp]: "set_ids (xs @ ys) = set_ids xs @ set_ids ys"
  by (induction xs rule: set_ids.induct) auto

lemma set_ids_phases:
  "set_ids (set_up_calls ds ks is) = map (\<lambda>i. (Host (base_of (ds ! i)), int i)) is"
  "set_ids (socket_calls ds is) = []" "set_ids (begin_calls ds is) = []"
  unfolding phases by (induction "is") (auto simp: raft_urls init_args_def)

lemma told_ids:
  assumes "hosts_distinct ds" "length ds = n" "k < n"
  shows "told_id (set_up_calls ds ks [0..<n] @ socket_calls ds js @ begin_calls ds is) (Host (base_of (ds ! k))) = int k"
proof -
  let ?ids = "map (\<lambda>i. (Host (base_of (ds ! i)), int i)) [0..<n]"
  have "map fst ?ids = map (\<lambda>d. full_addr (Addr d) (Port d)) ds"
    using assms(2) by (intro nth_equalityI) (simp_all add: base_of_def)
  then have "distinct (map fst ?ids)" using assms(1) by (simp add: hosts_distinct_def)
  moreover have "(Host (base_of (ds ! k)), int k) \<in> set ?ids" using assms(3) by auto
  ultimately have "map_of ?ids (Host (base_of (ds ! k))) = Some (int k)" by (rule map_of_is_SomeI)
  then show ?thesis by (simp add: told_id_def set_ids_phases)
qed

text \<open>Calls that pass a server by, and those that reach it, one kind after the other.\<close>

lemma go_fold_pass: "\<forall>x \<in> set xs. f x s = Inr s \<Longrightarrow> go_fold f xs s = Inr s"
  by (induction xs) auto

lemma go_fold_same:
  assumes "I s" "\<And>x s. x \<in> set xs \<Longrightarrow> I s \<Longrightarrow> f x s = g x s" "\<And>x s s'. x \<in> set xs \<Longrightarrow> I s \<Longrightarrow> g x s = Inr s' \<Longrightarrow> I s'"
  shows "go_fold f xs s = go_fold g xs s"
  using assms
proof (induction xs arbitrary: s)
  case (Cons x xs)
  have f: "f x s = g x s" using Cons.prems(1,2) by simp
  show ?case
  proof (cases "g x s")
    case (Inr s')
    show ?thesis unfolding go_fold.simps f Inr go_bind_simps
    proof (rule Cons.IH)
      show "I s'" by (rule Cons.prems(3)[OF _ Cons.prems(1) Inr]) simp
    next
      fix y t assume "y \<in> set xs" "I t"
      then show "f y t = g y t" by (intro Cons.prems(2)) simp_all
    next
      fix y t t' assume "y \<in> set xs" "I t" "g y t = Inr t'"
      then show "I t'" by (intro Cons.prems(3)[OF _ \<open>I t\<close> \<open>g y t = Inr t'\<close>]) simp
    qed
  qed (simp add: f)
qed simp

lemma split_upt: "i < n \<Longrightarrow> [0..<n] = [0..<i] @ i # [Suc i..<n]"
  by (metis add_0 le0 less_or_eq_imp_le upt_add_eq_append upt_conv_Cons zero_less_iff_neq_zero le_add_diff_inverse)

lemma table_urls:
  assumes "rc_BoundMethods rc = raft_routes (base_of (ds ! i)) \<or> rc_BoundMethods rc = own_table (ds ! i) kv" "k \<noteq> ''RaftKV.Apply''"
  shows "url_of (rc_BoundMethods rc) k = raft_url ds i k"
  using assms by (auto simp: own_table_def url_of_def raft_url_def)

lemma hears_others:
  fixes dial :: "url \<Rightarrow> string \<Rightarrow> 'w option"
  assumes ds: "hosts_distinct ds" "i < length ds" "k < length ds" "k \<noteq> i"
    and rc: "rc_BoundMethods rc = raft_routes (base_of (ds ! i)) \<or> rc_BoundMethods rc = own_table (ds ! i) kv"
  shows "hears_call dial up calls (raft_url ds k ''RaftController.InitKVServerInfo'', Kv_details v) rc = Inr rc"
    "hears_call dial up calls (raft_url ds k ''RaftController.InitRaftPeers'', Master_reply a) rc = Inr rc"
    "hears_call dial up calls (raft_url ds k ''RaftController.StartWebsocket'', Master_reply a) rc =
       (if \<exists>d \<in> set (Peers a). full_addr (Addr d) (Port d) = Host (base_of (ds ! i)) \<and> told_id calls (Host (base_of (ds ! k))) < conn_Id d
        then accept_peer up (told_id calls (Host (base_of (ds ! k)))) rc else Inr rc)"
proof -
  have h: "Host (base_of (ds ! k)) \<noteq> Host (base_of (ds ! i))" using hosts_eq[OF ds(1,3,2)] ds(4) by (simp add: base_of_def)
  note u = table_urls[OF rc]
  show "hears_call dial up calls (raft_url ds k ''RaftController.InitKVServerInfo'', Kv_details v) rc = Inr rc"
    using h by (simp add: hears_call_def u raft_urls base_path_eq)
  show "hears_call dial up calls (raft_url ds k ''RaftController.InitRaftPeers'', Master_reply a) rc = Inr rc"
    using h by (simp add: hears_call_def dials_here_def u raft_urls base_path_eq)
  show "hears_call dial up calls (raft_url ds k ''RaftController.StartWebsocket'', Master_reply a) rc =
       (if \<exists>d \<in> set (Peers a). full_addr (Addr d) (Port d) = Host (base_of (ds ! i)) \<and> told_id calls (Host (base_of (ds ! k))) < conn_Id d
        then accept_peer up (told_id calls (Host (base_of (ds ! k)))) rc else Inr rc)"
    using h by (auto simp add: hears_call_def dials_here_def u raft_urls base_path_eq)
qed

lemma hears_own:
  fixes dial :: "url \<Rightarrow> string \<Rightarrow> 'w option"
  assumes rc: "rc_BoundMethods rc = raft_routes (base_of (ds ! i)) \<or> rc_BoundMethods rc = own_table (ds ! i) kv"
  shows "hears_call dial up calls (raft_url ds i ''RaftController.InitKVServerInfo'', Kv_details v) rc = Inr (InitKVServerInfo v rc)"
    "hears_call dial up calls (raft_url ds i ''RaftController.InitRaftPeers'', Master_reply a) rc = InitRaftPeers a rc"
    "hears_call dial up calls (raft_url ds i ''RaftController.StartWebsocket'', Master_reply a) rc = StartWebsocket dial a rc"
    "hears_call dial up calls (x, Empty_reply) rc = Inr rc" "hears_call dial up calls (x, Raft_details d) rc = Inr rc"
  by (simp_all add: hears_call_def table_urls[OF rc] raft_urls base_path_eq)

text \<open>The first pass: every server is told of its key/value server, its Id and all its peers.\<close>

lemma hears_set_up:
  fixes rc0 :: "'w raft_controller"
  assumes ids: "map conn_Id ds = map int [0..<length ds]" and h: "hosts_distinct ds" "i < length ds"
    and rc0: "rc_BoundMethods rc0 = raft_routes (base_of (ds ! i))" "raftClients rc0 = []"
  shows "\<exists>rc. go_fold (hears_call dial up calls) (set_up_calls ds ks [0..<length ds]) rc0 = Inr rc
    \<and> wired rc \<and> rc_Me rc = int i \<and> length (raftClients rc) = length ds
    \<and> rc_BoundMethods rc = own_table (ds ! i) (ks ! i)
    \<and> boundMethods (the (raftClients rc ! i)) ''RaftKV.Apply'' = Some (apply_url (ks ! i))
    \<and> (\<forall>j < length ds. \<forall>m. m \<noteq> ''RaftKV.Apply'' \<longrightarrow>
         boundMethods (the (raftClients rc ! j)) m = raft_routes (base_of (ds ! j)) m)"
proof -
  let ?f = "hears_call dial up calls"
  obtain rc where rc: "InitRaftPeers (init_args ds i) (InitKVServerInfo (ks ! i) rc0) = Inr rc"
    "wired rc \<and> rc_Me rc = int i \<and> length (raftClients rc) = length ds"
    and tab: "rc_BoundMethods rc = own_table (ds ! i) (ks ! i)"
    and bm: "boundMethods (the (raftClients rc ! i)) ''RaftKV.Apply'' = Some (apply_url (ks ! i))
      \<and> (\<forall>j < length ds. \<forall>m. m \<noteq> ''RaftKV.Apply'' \<longrightarrow>
         boundMethods (the (raftClients rc ! j)) m = raft_routes (base_of (ds ! j)) m)"
    using init_wired[OF ids h(2) rc0, of "ks ! i"] unfolding init_args_def by blast
  have pass: "go_fold ?f (set_up_calls ds ks js) s = Inr s"
    if "\<forall>j \<in> set js. j < length ds \<and> j \<noteq> i" "rc_BoundMethods s = raft_routes (base_of (ds ! i)) \<or> rc_BoundMethods s = own_table (ds ! i) kv"
    for js kv and s :: "'w raft_controller"
    using that(1) hears_others(1,2)[OF h _ _ that(2)] by (intro go_fold_pass) (auto simp: set_up_calls_def)
  let ?kv = "InitKVServerInfo (ks ! i) rc0"
  have kv_tab: "rc_BoundMethods ?kv = raft_routes (base_of (ds ! i)) \<or> rc_BoundMethods ?kv = own_table (ds ! i) (ks ! i)"
    using rc0 by (simp add: InitKVServerInfo_def bind_own_def own_table_def apply_url_def Let_def get_client_def put_client_def split: sum.split)
  have "go_fold ?f (set_up_calls ds ks (i # [Suc i..<length ds])) rc0 = go_fold ?f (set_up_calls ds ks [Suc i..<length ds]) rc"
    using hears_own(1)[OF disjI1[OF rc0(1)]] hears_own(2)[OF kv_tab] rc(1) by (simp add: set_up_calls_def)
  also have "\<dots> = Inr rc" by (rule pass) (use tab in auto)
  finally have "go_fold ?f (set_up_calls ds ks ([0..<i] @ i # [Suc i..<length ds])) rc0 = Inr rc"
    using pass[of "[0..<i]" rc0] rc0(1) h(2) by (simp add: set_up_calls_def go_fold_append)
  then show ?thesis using rc(2) tab bm by (intro exI[of _ rc]) (simp add: split_upt[OF h(2), symmetric])
qed

lemma accept_peer_table: "accept_peer up j s = Inr s' \<Longrightarrow> rc_BoundMethods s' = rc_BoundMethods s"
  by (auto simp: accept_peer_def API_WSInitPeerConn_def set_ws_def put_client_def go_bind_def split: sum.splits option.splits if_splits)

text \<open>The second pass: the servers before this one dial it, then it dials those behind it.\<close>

lemma hears_sockets:
  fixes rc1 :: "'w raft_controller"
  assumes ids: "map conn_Id ds = map int [0..<length ds]" and h: "hosts_distinct ds" "i < length ds"
    and tab: "rc_BoundMethods rc1 = own_table (ds ! i) kv"
    and told: "\<And>k. k < length ds \<Longrightarrow> told_id calls (Host (base_of (ds ! k))) = int k"
    and two: "go_fold (accept_peer up) [0..int i - 1] rc1 = Inr rc2" "StartWebsocket dial (rest_args ds i) rc2 = Inr rc3"
      "rc_BoundMethods rc2 = own_table (ds ! i) kv" "rc_BoundMethods rc3 = own_table (ds ! i) kv"
  shows "go_fold (hears_call dial up calls) (socket_calls ds [0..<length ds]) rc1 = Inr rc3"
proof -
  let ?f = "hears_call dial up calls"
  let ?c = "\<lambda>k. (raft_url ds k ''RaftController.StartWebsocket'', Master_reply (rest_args ds k))"
  have beh: "(\<exists>d \<in> set (Peers (rest_args ds k)). full_addr (Addr d) (Port d) = Host (base_of (ds ! i))
      \<and> int k < conn_Id d) \<longleftrightarrow> k < i" if k: "k < length ds" for k
  proof -
    have "ds ! i \<in> set (drop (k + 1) ds)" if "k < i"
      using that h(2) by (auto simp: in_set_conv_nth intro!: exI[of _ "i - k - 1"])
    moreover have "k < i" if d: "d \<in> set (drop (k + 1) ds)" "full_addr (Addr d) (Port d) = Host (base_of (ds ! i))" for d
    proof -
      obtain j where "d = ds ! j" "k < j" "j < length ds" using d(1) by (auto simp: in_set_conv_nth)
      then show ?thesis using hosts_eq[OF h(1) \<open>j < length ds\<close> h(2)] d(2) by (simp add: base_of_def)
    qed
    ultimately show ?thesis using ids_nth[OF ids h(2)] by (auto simp: rest_args_def base_of_def)
  qed
  have other: "?f (?c k) s = (if k < i then accept_peer up (int k) s else Inr s)"
    if "k < length ds" "k \<noteq> i" "rc_BoundMethods s = own_table (ds ! i) kv" for k and s :: "'w raft_controller"
    using hears_others(3)[OF h that(1,2) disjI2[OF that(3)], of dial up calls "rest_args ds k"] by (simp only: told[OF that(1)] beh[OF that(1)])
  have "go_fold ?f (map ?c [0..<i]) rc1 = go_fold (\<lambda>x. accept_peer up (int x)) [0..<i] rc1"
    unfolding go_fold_map by (rule go_fold_same[where I = "\<lambda>s. rc_BoundMethods s = own_table (ds ! i) kv"])
      (use tab other h(2) in \<open>auto dest!: accept_peer_table\<close>)
  also have "\<dots> = go_fold (accept_peer up) (map int [0..<i]) rc1" by (simp only: go_fold_map)
  also have "map int [0..<i] = [0..int i - 1]" by (rule nth_equalityI) auto
  finally have lower: "go_fold ?f (map ?c [0..<i]) rc1 = Inr rc2" using two(1) by simp
  have higher: "go_fold ?f (map ?c [Suc i..<length ds]) rc3 = Inr rc3"
    by (rule go_fold_pass) (use two(4) other in auto)
  have own: "?f (?c i) rc2 = Inr rc3" using hears_own(3)[OF disjI2[OF two(3)]] two(2) by simp
  show ?thesis unfolding socket_calls_def split_upt[OF h(2)]
    using lower own higher by (simp add: go_fold_append)
qed

text \<open>A fresh Raft server that hears the set-up calls, the websocket calls and the start of some of the
  others ends with its own Id, a client for every server, a websocket to each peer (so \<open>StartRaft\<close>
  finds no nil connection), \<open>RaftKV.Apply\<close> bound to its own key/value server, and every other
  method of the client for server \<open>j\<close> bound to the URL at which server \<open>j\<close> serves it.\<close>

lemma boot_run:
  fixes ds :: "raft_connect_details list" and dial :: "url \<Rightarrow> string \<Rightarrow> 'w option"
  assumes ids: "map conn_Id ds = map int [0..<length ds]" and h: "hosts_distinct ds" "i < length ds" "length ds < 2 ^ 62"
    and rc0: "rc_BoundMethods rc0 = raft_routes (base_of (ds ! i))" "raftClients rc0 = []"
    and dial: "\<forall>u h. Path u = ''raft/v1/ws/heartbeat'' \<longrightarrow> dial u h \<noteq> None"
  shows "\<exists>rc. boot_server dial up (set_up_calls ds ks [0..<length ds] @ socket_calls ds [0..<length ds] @ begin_calls ds bs) rc0 = Inr rc
    \<and> wired rc \<and> rc_Me rc = int i \<and> length (raftClients rc) = length ds
    \<and> rc_BoundMethods rc = own_table (ds ! i) (ks ! i)
    \<and> (\<exists>ws. peer_ws rc = Inr ws \<and> length ws = length ds - 1)
    \<and> boundMethods (the (raftClients rc ! i)) ''RaftKV.Apply'' = Some (apply_url (ks ! i))
    \<and> (\<forall>j < length ds. \<forall>m. m \<noteq> ''RaftKV.Apply'' \<longrightarrow>
         boundMethods (the (raftClients rc ! j)) m = raft_routes (base_of (ds ! j)) m)"
proof -
  let ?calls = "set_up_calls ds ks [0..<length ds] @ socket_calls ds [0..<length ds] @ begin_calls ds bs"
  obtain rc1 where rc1: "go_fold (hears_call dial up ?calls) (set_up_calls ds ks [0..<length ds]) rc0 = Inr rc1"
    "wired rc1" "rc_Me rc1 = int i" "length (raftClients rc1) = length ds" "rc_BoundMethods rc1 = own_table (ds ! i) (ks ! i)"
    and bm: "boundMethods (the (raftClients rc1 ! i)) ''RaftKV.Apply'' = Some (apply_url (ks ! i))"
      "\<forall>j < length ds. \<forall>m. m \<noteq> ''RaftKV.Apply'' \<longrightarrow>
         boundMethods (the (raftClients rc1 ! j)) m = raft_routes (base_of (ds ! j)) m"
    using hears_set_up[OF ids h(1,2) rc0, of dial up ?calls ks] by (elim exE conjE) (rule that)
  have path: "Path (url_of (rc_BoundMethods rc1) ''Raft.WSHeartBeat'') = ''raft/v1/ws/heartbeat''"
    by (simp add: rc1(5) own_table_def raft_routes_def url_of_def)
  have d: "\<forall>v \<in> set (drop (i + 1) ds).
      dial \<lparr>Scheme = ''ws'', Host = full_addr (Addr v) (Port v), Path = ''raft/v1/ws/heartbeat''\<rparr> (Itoa (int i)) \<noteq> None"
    using dial by simp
  obtain rc2 rc3 where rc2: "go_fold (accept_peer up) [0..rc_Me rc1 - 1] rc1 = Inr rc2"
    and rc3: "StartWebsocket dial (rest_args ds i) rc2 = Inr rc3"
      "same_but_ws rc1 rc3" "\<forall>j < length ds. j \<noteq> i \<longrightarrow> ws_of rc3 j \<noteq> None"
    using websockets_wired[where dial = dial, OF rc1(2,3,4) h(3) ids path d, of up, folded rest_args_def]
    by (elim exE conjE) (rule that)
  have tab2: "rc_BoundMethods s' = rc_BoundMethods s" if "go_fold (accept_peer up) js s = Inr s'" for js and s s' :: "'w raft_controller"
    using that by (induction js arbitrary: s) (auto simp: go_bind_def split: sum.splits dest!: accept_peer_table)
  have w3: "wired rc3" "rc_Me rc3 = int i" "length (raftClients rc3) = length ds" "rc_BoundMethods rc3 = own_table (ds ! i) (ks ! i)"
    using rc3(2) rc1(3,4,5) by (simp_all add: same_but_ws_def)
  have "go_fold (hears_call dial up ?calls) (socket_calls ds [0..<length ds]) rc1 = Inr rc3"
    using hears_sockets[where calls = ?calls, OF ids h(1,2) rc1(5) told_ids[OF h(1) refl] rc2[unfolded rc1(3)] rc3(1)]
      tab2[OF rc2] rc1(5) w3(4) by simp
  moreover have "go_fold (hears_call dial up ?calls) (begin_calls ds bs) rc3 = Inr rc3"
    by (rule go_fold_pass) (auto simp: begin_calls_def hears_call_def Let_def)
  ultimately have run: "boot_server dial up ?calls rc0 = Inr rc3"
    unfolding boot_server_def go_fold_append rc1(1) by simp
  have "peer_ws rc3 = Inr (map (\<lambda>k. the (ws_of rc3 (nat k))) (filter (\<lambda>k. k \<noteq> int i) [0..int (length ds) - 1]))"
    using peer_ws_wired[OF w3(1)] rc3(3) w3(2,3) by simp
  moreover have "length (filter (\<lambda>k. k \<noteq> int i) [0..int (length ds) - 1]) = length ds - 1"
    by (rule filter_not_one) (use h(2) in simp_all)
  ultimately show ?thesis using run rc3(2) w3 rc1(4,5) bm h(2) by (intro exI[of _ rc3]) (simp add: same_but_ws_def)
qed

text \<open>A key/value server hears only the call meant for it.\<close>

lemma init_kv_url: "url_of (kv_routes b) ''KVRaftController.InitRaft'' = b\<lparr>Path := ''api/kvraft/v1/internal/init_raft''\<rparr>"
  by (simp add: kv_routes_def url_of_def)

lemma boot_kv_pass: "\<forall>(u, a) \<in> set cs. \<forall>d. a = Raft_details d \<longrightarrow> u \<noteq> url_of (kc_BoundMethods kc) ''KVRaftController.InitRaft''
    \<Longrightarrow> boot_kv cs kc = kc"
  unfolding boot_kv_def by (induction cs) (auto split: call_args.split)

lemma boot_kv_run:
  assumes h: "hosts_distinct ks" "i < length ks" and kc: "kc_BoundMethods kc = kv_routes (base_of (ks ! i))"
  shows "boot_kv (set_up_calls ds ks' [0..<n] @ socket_calls ds [0..<n] @ begin_calls ds [0..<n] @ kv_set_up_calls ds ks [0..<length ks]) kc
    = fst (API_InitRaft (Some (ds ! i)) kc)"
proof -
  let ?kc = "fst (API_InitRaft (Some (ds ! i)) kc)"
  have kc': "kc_BoundMethods ?kc = kv_routes (base_of (ks ! i))" by (simp add: kc API_InitRaft_def StartKVRaft_def Let_def)
  have app: "boot_kv (xs @ ys) = boot_kv ys \<circ> boot_kv xs" for xs ys and k :: "'w kv_controller" by (simp add: boot_kv_def)
  have pre: "boot_kv (set_up_calls ds ks' [0..<n] @ socket_calls ds [0..<n] @ begin_calls ds [0..<n]) kc = kc"
    by (rule boot_kv_pass) (auto simp: phases)
  have pass: "boot_kv (kv_set_up_calls ds ks js) k = k"
    if "\<forall>j \<in> set js. j < length ks \<and> j \<noteq> i" "kc_BoundMethods k = kv_routes (base_of (ks ! i))" for js and k :: "'a kv_controller"
    using that hosts_eq[OF h(1) _ h(2)]
    by (intro boot_kv_pass) (auto simp: kv_set_up_calls_def init_kv_url base_path_eq base_of_def)
  have own: "boot_kv (kv_set_up_calls ds ks (i # js)) kc = boot_kv (kv_set_up_calls ds ks js) ?kc" for js
    by (simp add: boot_kv_def kv_set_up_calls_def kc init_kv_url)
  have "boot_kv (kv_set_up_calls ds ks ([0..<i] @ i # [Suc i..<length ks])) kc = ?kc"
  proof -
    have "kv_set_up_calls ds ks ([0..<i] @ i # [Suc i..<length ks]) = kv_set_up_calls ds ks [0..<i] @ kv_set_up_calls ds ks (i # [Suc i..<length ks])"
      by (simp add: kv_set_up_calls_def)
    then show ?thesis using pass[of "[0..<i]" kc] pass[of "[Suc i..<length ks]" ?kc] own kc kc' h(2) by (simp add: app)
  qed
  then show ?thesis using pre unfolding split_upt[OF h(2), symmetric] by (simp add: app)
qed

end
