(* ===== verification/Services.thy ===== *)
theory Services
  imports GoStrings Channels RaftControl
begin

text \<open>
  The reflection that turns a receiver's methods into routes (\<open>controller/service/service.go\<close>,
  \<open>APIFunction\<close> of \<open>controller/common/common.go\<close>, and the registration in
  \<open>controller/raft_controller.go\<close>). What \<open>reflect\<close> tells of a value is the datatype \<open>rvalue\<close>: the
  name of its type, whether it is a struct, its exported methods with their signatures, and its
  fields. \<open>MakeService\<close> walks through the fields to a given depth, one channel of capacity 16
  per level, and collects the methods that look like handlers: two arguments besides the
  receiver, the second a pointer, and no result. There is no other goroutine, so a send to a
  full channel never returns.
\<close>

section \<open>Reflected values and services\<close>

record rmethod =
  m_Name :: string
  m_PkgPath :: string
  m_NumIn :: nat
  m_In2_ptr :: bool
  m_NumOut :: nat

datatype rvalue = RValue (rv_type: string) (rv_struct: bool) (rv_methods: "rmethod list") (rv_fields: "rvalue list")

record service =
  svc_Name :: string
  svc_Methods :: "string \<rightharpoonup> rmethod"
  SvcMethodName :: "string list"

type_synonym services = "string \<rightharpoonup> service"

definition is_handler :: "rmethod \<Rightarrow> bool" where
  "is_handler m \<longleftrightarrow> \<not> (m_PkgPath m \<noteq> '''' \<or> m_NumIn m \<noteq> 3 \<or> \<not> m_In2_ptr m \<or> m_NumOut m \<noteq> 0)"

definition full_name :: "string \<Rightarrow> rmethod \<Rightarrow> string" where
  "full_name typ m = join ''.'' [typ, m_Name m]"

text \<open>The names start with as many empty strings as there are methods: the slice is made with that
  length and appended to.\<close>

definition make_svc :: "rvalue \<Rightarrow> service" where
  "make_svc v =
     \<lparr>svc_Name = rv_type v,
      svc_Methods = map_of (rev (map (\<lambda>m. (m_Name m, m)) (filter is_handler (rv_methods v)))),
      SvcMethodName = replicate (length (rv_methods v)) '''' @ map (full_name (rv_type v)) (filter is_handler (rv_methods v))\<rparr>"

definition struct_fields :: "rvalue \<Rightarrow> rvalue list" where
  "struct_fields v = (if rv_struct v then filter rv_struct (rv_fields v) else [])"

definition visit :: "bool \<Rightarrow> rvalue \<Rightarrow> rvalue list \<times> services \<Rightarrow> (rvalue list \<times> services) go" where
  "visit deeper v st =
     (case st of (nxt, svces) \<Rightarrow>
      if rv_struct v
      then go_bind (if deeper then go_fold (chan_send 16) (struct_fields v) nxt else Inr nxt) (\<lambda>nxt'.
        Inr (nxt', if filter is_handler (rv_methods v) \<noteq> [] then svces(rv_type v \<mapsto> make_svc v) else svces))
      else Inr (nxt, svces))"

primrec levels :: "nat \<Rightarrow> rvalue list \<Rightarrow> services \<Rightarrow> services go" where
  "levels 0 q svces = go_bind (go_fold (visit False) q ([], svces)) (\<lambda>st. Inr (snd st))"
| "levels (Suc d) q svces = go_bind (go_fold (visit True) q ([], svces)) (\<lambda>st. levels d (fst st) (snd st))"

definition MakeService :: "rvalue \<Rightarrow> nat \<Rightarrow> services go" where
  "MakeService rcvr maxDepth = go_bind (chan_send 16 rcvr []) (\<lambda>q. levels maxDepth q Map.empty)"

section \<open>Routes\<close>

definition APIFunction :: "string \<Rightarrow> services \<Rightarrow> rmethod go" where
  "APIFunction svcMethodFull ms =
     (let stringSplit = strings_Split ''.'' svcMethodFull in
      go_bind (idx stringSplit 0) (\<lambda>s.
      case ms s of None \<Rightarrow> Inl NilDereference
      | Some service \<Rightarrow>
          go_bind (idx stringSplit 1) (\<lambda>m.
          case svc_Methods service m of None \<Rightarrow> Inl NilDereference | Some method \<Rightarrow> Inr method)))"

text \<open>The loop of \<open>Init\<close> and \<open>StartRaft\<close>: the path of each route and the method behind it.\<close>

definition register_routes :: "url_table \<Rightarrow> string list \<Rightarrow> services \<Rightarrow> (string \<times> rmethod) list go" where
  "register_routes tab names ms =
     go_fold (\<lambda>val routes.
         case tab val of
           None \<Rightarrow> Inr routes
         | Some v \<Rightarrow> go_bind (APIFunction val ms) (\<lambda>m. Inr (routes @ [(''/'' @ Path v, m)])))
       names []"

section \<open>MakeService returns\<close>

lemma sends_16:
  "go_fold (chan_send 16) xs q = (if length q + length xs \<le> 16 \<or> xs = [] then Inr (q @ xs) else Inl Blocked)"
proof (induction xs arbitrary: q)
  case Nil
  then show ?case by simp
next
  case (Cons x xs)
  then show ?case by (cases "length q < 16") (auto simp: chan_send_def)
qed

definition collect_svc :: "rvalue \<Rightarrow> services \<Rightarrow> services" where
  "collect_svc v svces =
     (if rv_struct v \<and> filter is_handler (rv_methods v) \<noteq> [] then svces(rv_type v \<mapsto> make_svc v) else svces)"

definition below :: "rvalue list \<Rightarrow> rvalue list" where
  "below q = concat (map struct_fields q)"

lemma visit_eq:
  "visit False v (nxt, svces) = Inr (nxt, collect_svc v svces)"
  "length nxt \<le> 16 \<Longrightarrow> visit True v (nxt, svces) =
     (if length nxt + length (struct_fields v) \<le> 16 then Inr (nxt @ struct_fields v, collect_svc v svces)
      else Inl Blocked)"
  by (auto simp: visit_def sends_16 collect_svc_def struct_fields_def)

lemma visits_False: "go_fold (visit False) q (nxt, svces) = Inr (nxt, fold collect_svc q svces)"
  by (induction q arbitrary: svces) (simp_all add: visit_eq)

lemma visits_True:
  "length nxt \<le> 16 \<Longrightarrow> go_fold (visit True) q (nxt, svces) =
     (if length nxt + length (below q) \<le> 16 then Inr (nxt @ below q, fold collect_svc q svces) else Inl Blocked)"
proof (induction q arbitrary: nxt svces)
  case Nil
  then show ?case by (simp add: below_def)
next
  case (Cons v q)
  have b: "below (v # q) = struct_fields v @ below q" by (simp add: below_def)
  show ?case
  proof (cases "length nxt + length (struct_fields v) \<le> 16")
    case True
    then show ?thesis using Cons.IH[of "nxt @ struct_fields v"] Cons.prems by (simp add: visit_eq b)
  next
    case False
    then show ?thesis using Cons.prems by (simp add: visit_eq b)
  qed
qed

primrec level :: "rvalue list \<Rightarrow> nat \<Rightarrow> rvalue list" where
  "level q 0 = q"
| "level q (Suc k) = below (level q k)"

lemma level_below: "level (below q) k = level q (Suc k)"
  by (induction k) simp_all

lemma levels_eq:
  "levels d q svces =
     (if \<forall>k \<in> {1..d}. length (level q k) \<le> 16
      then Inr (fold collect_svc (concat (map (level q) [0..<Suc d])) svces) else Inl Blocked)"
proof (induction d arbitrary: q svces)
  case 0
  then show ?case by (simp add: visits_False)
next
  case (Suc d)
  have ks: "(\<forall>k \<in> {1..Suc d}. length (level q k) \<le> 16) \<longleftrightarrow>
      length (below q) \<le> 16 \<and> (\<forall>k \<in> {1..d}. length (level (below q) k) \<le> 16)"
  proof (intro iffI conjI ballI)
    fix k assume l: "length (below q) \<le> 16 \<and> (\<forall>k \<in> {1..d}. length (level (below q) k) \<le> 16)" "k \<in> {1..Suc d}"
    then obtain j where "k = Suc j" "j \<le> d" by (cases k) auto
    then have k: "k = Suc j" "j = 0 \<or> j \<in> {1..d}" by auto
    then have "length (level (below q) j) \<le> 16" using l(1) by auto
    then show "length (level q k) \<le> 16" unfolding k(1) level_below .
  next
    fix k assume "\<forall>k \<in> {1..Suc d}. length (level q k) \<le> 16" "k \<in> {1..d}"
    then show "length (level (below q) k) \<le> 16"
      unfolding level_below by (auto dest: bspec[of _ _ "Suc k"] simp del: level.simps)
  next
    assume "\<forall>k \<in> {1..Suc d}. length (level q k) \<le> 16"
    then show "length (below q) \<le> 16" by (auto dest: bspec[of _ _ 1])
  qed
  have cc: "concat (map (level q) [0..<Suc (Suc d)]) = q @ concat (map (level (below q)) [0..<Suc d])"
    unfolding map_upt_Suc[of "level q" "Suc d"] ext[of "level (below q)" "\<lambda>k. level q (Suc k)", OF level_below]
    by (simp del: upt_Suc)
  show ?case unfolding ks cc by (auto simp: visits_True Suc.IH simp del: upt_Suc)
qed

text \<open>C40: \<open>MakeService\<close> returns exactly when each level it walks to holds at most 16 structs; then it
  has collected the handlers of every struct it reached, level by level. Otherwise it stays in
  the send that finds the channel full. At depth 0, the only one the program uses, it returns
  for every receiver.\<close>
theorem MakeService_returns:
  "MakeService v d =
     (if \<forall>k \<in> {1..d}. length (level [v] k) \<le> 16
      then Inr (fold collect_svc (concat (map (level [v]) [0..<Suc d])) Map.empty) else Inl Blocked)"
  by (simp add: MakeService_def chan_send_def levels_eq del: upt_Suc)

definition ex_fields :: "nat \<Rightarrow> rvalue" where
  "ex_fields n = RValue ''S'' True [] (replicate n (RValue ''F'' True [] []))"

theorem MakeService_returns_witness:
  "MakeService (ex_fields 16) 1 = Inr Map.empty \<and> MakeService (ex_fields 17) 1 = Inl Blocked"
  using MakeService_returns[of "ex_fields 16" 1] MakeService_returns[of "ex_fields 17" 1]
  by (simp add: ex_fields_def below_def struct_fields_def collect_svc_def filter_replicate eval_nat_numeral del: replicate.simps)

section \<open>Routes lead to their methods\<close>

lemma cut_char:
  "c \<notin> set a \<Longrightarrow> cut_first [c] (a @ c # b) = Some (a, b)"
  "c \<notin> set a \<Longrightarrow> cut_first [c] a = None"
  by (induction a) auto

lemma split_full_name:
  assumes "CHR ''.'' \<notin> set t" "CHR ''.'' \<notin> set (m_Name m)"
  shows "strings_Split ''.'' (full_name t m) = [t, m_Name m]"
proof -
  have "strings_Split ''.'' (full_name t m) = t # strings_Split ''.'' (m_Name m)"
    by (rule Split_cut) (simp_all add: full_name_def cut_char assms)
  also have "strings_Split ''.'' (m_Name m) = [m_Name m]"
    by (rule Split_none) (simp_all add: contains_def cut_char assms)
  finally show ?thesis .
qed

definition plain_names :: "rvalue \<Rightarrow> bool" where
  "plain_names v \<longleftrightarrow> CHR ''.'' \<notin> set (rv_type v) \<and> (\<forall>m \<in> set (rv_methods v). CHR ''.'' \<notin> set (m_Name m))
    \<and> distinct (map m_Name (rv_methods v))"

definition routes_of :: "url_table \<Rightarrow> rvalue \<Rightarrow> (string \<times> rmethod) list" where
  "routes_of tab v = concat (map (\<lambda>m. case tab (full_name (rv_type v) m) of
       None \<Rightarrow> [] | Some u \<Rightarrow> [(''/'' @ Path u, m)]) (filter is_handler (rv_methods v)))"

lemma api_resolves:
  assumes "plain_names v" "m \<in> set (filter is_handler (rv_methods v))" "ms (rv_type v) = Some (make_svc v)"
  shows "APIFunction (full_name (rv_type v) m) ms = Inr m"
proof -
  let ?ps = "map (\<lambda>m. (m_Name m, m)) (filter is_handler (rv_methods v))"
  have d: "distinct (map fst (rev ?ps))"
    using assms(1) by (simp add: plain_names_def comp_def distinct_map_filter flip: rev_map)
  have "(m_Name m, m) \<in> set (rev ?ps)" using assms(2) by auto
  with d have "map_of (rev ?ps) (m_Name m) = Some m" by (rule map_of_is_SomeI)
  then show ?thesis
    using assms split_full_name[of "rv_type v" m]
    by (simp add: APIFunction_def idx_def make_svc_def plain_names_def rev_map)
qed

lemma register_skip:
  "tab '''' = None \<Longrightarrow> register_routes tab (replicate n '''' @ names) ms = register_routes tab names ms"
  by (induction n) (simp_all add: register_routes_def)

lemma register_handlers:
  assumes "rv_struct v" "plain_names v" "filter is_handler (rv_methods v) \<noteq> []" "tab '''' = None"
  shows "\<exists>ms svc. MakeService v 0 = Inr ms \<and> ms (rv_type v) = Some svc
    \<and> register_routes tab (SvcMethodName svc) ms = Inr (routes_of tab v)"
proof -
  let ?ms = "[rv_type v \<mapsto> make_svc v]"
  have ms: "MakeService v 0 = Inr ?ms"
    using assms(1,3) by (simp add: MakeService_def chan_send_def levels_eq collect_svc_def)
  have "go_fold (\<lambda>val routes. case tab val of None \<Rightarrow> Inr routes
         | Some u \<Rightarrow> go_bind (APIFunction val ?ms) (\<lambda>m. Inr (routes @ [(''/'' @ Path u, m)])))
       (map (full_name (rv_type v)) xs) acc
     = Inr (acc @ concat (map (\<lambda>m. case tab (full_name (rv_type v) m) of
       None \<Rightarrow> [] | Some u \<Rightarrow> [(''/'' @ Path u, m)]) xs))"
    if "set xs \<subseteq> set (filter is_handler (rv_methods v))" for xs acc
    using that
  proof (induction xs arbitrary: acc)
    case (Cons m xs)
    then have "APIFunction (full_name (rv_type v) m) ?ms = Inr m"
      by (intro api_resolves[OF assms(2)]) simp_all
    with Cons show ?case by (auto split: option.split)
  qed simp
  then have "register_routes tab (map (full_name (rv_type v)) (filter is_handler (rv_methods v))) ?ms = Inr (routes_of tab v)"
    by (simp add: register_routes_def routes_of_def)
  then show ?thesis using ms assms(4) by (simp add: make_svc_def register_skip)
qed

text \<open>The routes a controller registers are, in order, those of its receiver's handlers that its
  table of paths names, and each leads to the handler it is named after; no name makes the
  registration fail.\<close>
lemma routes_resolve:
  assumes "rv_struct v" "plain_names v" "filter is_handler (rv_methods v) \<noteq> []" "tab '''' = None"
  shows "\<exists>ms svc. MakeService v 0 = Inr ms \<and> ms (rv_type v) = Some svc
    \<and> register_routes tab (SvcMethodName svc) ms = Inr (routes_of tab v)"
  by (rule register_handlers[where v = v and tab = tab, OF assms])

text \<open>The receivers of the program: the methods of \<open>Raft\<close> and of \<open>RaftController\<close>, as \<open>reflect\<close> lists
  them.\<close>

definition handler_sig :: "string \<Rightarrow> rmethod" where
  "handler_sig n = \<lparr>m_Name = n, m_PkgPath = '''', m_NumIn = 3, m_In2_ptr = True, m_NumOut = 0\<rparr>"

definition other_sig :: "string \<Rightarrow> nat \<Rightarrow> nat \<Rightarrow> rmethod" where
  "other_sig n i out = \<lparr>m_Name = n, m_PkgPath = '''', m_NumIn = i, m_In2_ptr = False, m_NumOut = out\<rparr>"

definition raft_receiver :: rvalue where
  "raft_receiver = RValue ''Raft'' True
     [handler_sig ''Agree'', other_sig ''GetState'' 1 2, handler_sig ''HeartBeat'', other_sig ''Kill'' 1 0,
      handler_sig ''RequestVote'', handler_sig ''ReturnState'', handler_sig ''SendMetrics'', other_sig ''Start'' 2 3] []"

definition controller_receiver :: rvalue where
  "controller_receiver = RValue ''RaftController'' True
     [other_sig ''API_WSInitPeerConn'' 1 1, other_sig ''Init'' 1 0, handler_sig ''InitKVServerInfo'',
      handler_sig ''InitRaftPeers'', other_sig ''StartRaft'' 1 0, handler_sig ''StartRaftAPI'',
      handler_sig ''StartRaftServer'', handler_sig ''StartWebsocket'', handler_sig ''StopRaftAPI''] []"

lemmas receivers = raft_receiver_def controller_receiver_def handler_sig_def other_sig_def is_handler_def

lemma raft_served:
  "map (\<lambda>(p, m). (p, m_Name m)) (routes_of (raft_routes u) raft_receiver) =
     [(''/raft/v1/agree'', ''Agree''), (''/raft/v1/heartbeat'', ''HeartBeat''),
      (''/raft/v1/election'', ''RequestVote''), (''/raft/v1/get_state'', ''ReturnState'')]"
  "map (\<lambda>(p, m). (p, m_Name m)) (routes_of (raft_routes u) controller_receiver) =
     [(''/raft/v1/internal/init_kv_server'', ''InitKVServerInfo''), (''/raft/v1/internal/init_raft_server'', ''InitRaftPeers''),
      (''/raft/v1/internal/start'', ''StartRaftAPI''), (''/raft/v1/internal/start_raft_server'', ''StartRaftServer''),
      (''/raft/v1/internal/start_websockets'', ''StartWebsocket''), (''/raft/v1/internal/stop'', ''StopRaftAPI'')]"
  by (simp_all add: routes_of_def receivers full_name_def raft_routes_def)

lemma raft_routes_resolve:
  "\<exists>ms svc routes. MakeService raft_receiver 0 = Inr ms \<and> ms ''Raft'' = Some svc
    \<and> register_routes (raft_routes zero_url) (SvcMethodName svc) ms = Inr routes
    \<and> map (\<lambda>(p, m). (p, m_Name m)) routes =
        [(''/raft/v1/agree'', ''Agree''), (''/raft/v1/heartbeat'', ''HeartBeat''),
         (''/raft/v1/election'', ''RequestVote''), (''/raft/v1/get_state'', ''ReturnState'')]"
proof -
  have r: "rv_type raft_receiver = ''Raft''" "rv_struct raft_receiver" by (simp_all add: raft_receiver_def)
  have "plain_names raft_receiver" "filter is_handler (rv_methods raft_receiver) \<noteq> []" "raft_routes zero_url '''' = None"
    by (simp_all add: plain_names_def receivers raft_routes_def)
  from routes_resolve[where v = raft_receiver and tab = "raft_routes zero_url", OF r(2) this] show ?thesis
    unfolding r(1) by (elim exE conjE) (intro exI conjI, assumption+, rule raft_served)
qed

end
