(* ===== verification/RaftStart.thy ===== *)
theory RaftStart
  imports Services Raft
begin

text \<open>
  \<open>StartRaft\<close> of \<open>controller/raft_controller.go\<close>: the Raft server is made with one peer per client,
  its methods become services and routes, and the websockets to the other servers, which have
  to be there, and to the metric controller, which may be missing, go into RPC mode.
\<close>

record 'w raft_started =
  raftServer :: raft
  raft_routes_added :: "(string \<times> rmethod) list"
  peer_connections :: "'w list"
  metric_connection :: "'w option"

definition StartRaft :: "gob_value persister \<Rightarrow> 'w raft_controller \<Rightarrow> 'w raft_started go" where
  "StartRaft ps rc =
     (let rf = Make (length (raftClients rc)) (rc_Me rc) ps in
      go_bind (MakeService raft_receiver 0) (\<lambda>services.
      case services ''Raft'' of
        None \<Rightarrow> Inl NilDereference
      | Some raftServices \<Rightarrow>
          go_bind (register_routes (rc_BoundMethods rc) (SvcMethodName raftServices) services) (\<lambda>routes.
          go_bind (peer_ws rc) (\<lambda>ws.
          go_bind (get_client rc (rc_Me rc)) (\<lambda>own.
          Inr \<lparr>raftServer = rf, raft_routes_added = routes, peer_connections = ws,
               metric_connection = WsMethods own ''MetricController.Metrics''\<rparr>)))))"

lemma StartRaft_ok:
  assumes "wired rc" "peer_ws rc = Inr ws" "rc_BoundMethods rc '''' = None"
  shows "\<exists>st. StartRaft ps rc = Inr st \<and> raftServer st = Make (length (raftClients rc)) (rc_Me rc) ps
    \<and> raft_routes_added st = routes_of (rc_BoundMethods rc) raft_receiver \<and> peer_connections st = ws"
proof -
  have r: "rv_type raft_receiver = ''Raft''" "rv_struct raft_receiver" by (simp_all add: raft_receiver_def)
  have p: "plain_names raft_receiver" "filter is_handler (rv_methods raft_receiver) \<noteq> []"
    by (simp_all add: plain_names_def receivers)
  obtain ms svc where "MakeService raft_receiver 0 = Inr ms" "ms ''Raft'' = Some svc"
    "register_routes (rc_BoundMethods rc) (SvcMethodName svc) ms = Inr (routes_of (rc_BoundMethods rc) raft_receiver)"
    using register_handlers[where v = raft_receiver and tab = "rc_BoundMethods rc", OF r(2) p assms(3)]
    unfolding r(1) by (elim exE conjE) (rule that)
  then show ?thesis
    using assms(1,2) wired_client[OF assms(1)] by (simp add: StartRaft_def wired_def)
qed

text \<open>\<open>StartRaftServer\<close>, through which the master controller starts it; the reply stays as it is.\<close>

definition StartRaftServer :: "gob_value persister \<Rightarrow> common_reply \<Rightarrow> 'w raft_controller \<Rightarrow> ('w raft_started \<times> common_reply) go" where
  "StartRaftServer ps reply rc = go_bind (StartRaft ps rc) (\<lambda>st. Inr (st, reply))"

end
