(* ===== verification/LocalCluster.thy ===== *)
theory LocalCluster
  imports Booting RaftStart
begin

text \<open>
  The master program (\<open>cmd/cmd.go\<close>, with the constants of \<open>config/config.go\<close>): it makes the Raft
  servers, then the key/value servers, then the clients, all on one host, one after the other;
  each registers when it is made. The number of servers the controller waits for is the flag
  \<open>servers\<close>, an argument here. \<open>cmd.go\<close> itself calls \<open>Init\<close> a second time; that starts a second
  \<open>serversInit\<close> with its own channels, and the routes registered last are in use, so the
  first one is not part of the model.
\<close>

definition NRaftServers :: nat where "NRaftServers = 5"
definition RaftServerStartPort :: int where "RaftServerStartPort = 1150"
definition KVServerStartPort :: int where "KVServerStartPort = 1100"

definition initRaftServers :: "(url \<Rightarrow> string) \<Rightarrow> ('w raft_controller \<times> url \<times> raft_kv_init_config) list" where
  "initRaftServers url_text =
     map (\<lambda>i. MakeRaftController url_text ''localhost'' (RaftServerStartPort + int i)) [0..<NRaftServers]"

definition initKVServers :: "(url \<Rightarrow> string) \<Rightarrow> ('w kv_controller \<times> url \<times> raft_connect_details) list" where
  "initKVServers url_text =
     map (\<lambda>i. MakeKVRaftController url_text ''localhost'' (KVServerStartPort + int i)) [0..<NRaftServers]"

definition initClients :: "(url \<Rightarrow> string) \<Rightarrow> ('w client_controller \<times> url \<times> raft_connect_details) list" where
  "initClients url_text =
     (let nClients = 1; startPort = 6666 in
      map (\<lambda>i. MakeClientController2 url_text ''localhost'' (startPort + int i)) [0..<nClients])"

text \<open>The registrations in the order \<open>main\<close> makes them.\<close>

definition main_events :: "(url \<Rightarrow> string) \<Rightarrow> event list" where
  "main_events url_text =
     map (\<lambda>r. Raft_arrives (Some (snd (snd r)))) (initRaftServers url_text :: (unit raft_controller \<times> _) list)
     @ map (\<lambda>r. KV_arrives (Some (snd (snd r)))) (initKVServers url_text :: (unit kv_controller \<times> _) list)"

lemma raft_arrivals_main:
  "raft_arrivals (map (\<lambda>r. Raft_arrives (Some (f r))) xs) = map f xs"
  "kv_arrivals (map (\<lambda>r. Raft_arrives (Some (f r))) xs) = []"
  "kv_arrivals (map (\<lambda>r. KV_arrives (Some (g r))) ys) = map g ys"
  "raft_arrivals (map (\<lambda>r. KV_arrives (Some (g r))) ys) = []"
  by (induction xs, simp_all) (induction ys, simp_all)+

lemma main_arrivals:
  "raft_arrivals (main_events t) = map (\<lambda>i. snd (snd (MakeRaftController t ''localhost'' (RaftServerStartPort + int i) :: unit raft_controller \<times> _))) [0..<NRaftServers]"
  "kv_arrivals (main_events t) = map (\<lambda>i. snd (snd (MakeKVRaftController t ''localhost'' (KVServerStartPort + int i) :: unit kv_controller \<times> _))) [0..<NRaftServers]"
  by (simp_all add: main_events_def raft_arrivals_main initRaftServers_def initKVServers_def comp_def)

text \<open>Behind the barrier exactly when the flag asks for at most as many servers as are made.\<close>

lemma main_opens: "0 < n \<Longrightarrow> opens n (main_events t) \<longleftrightarrow> n \<le> NRaftServers"
proof
  assume "opens n (main_events t)"
  then show "n \<le> NRaftServers" by (auto simp: opens_def main_arrivals)
next
  assume n: "0 < n" "n \<le> NRaftServers"
  let ?es1 = "map (\<lambda>r. Raft_arrives (Some (snd (snd r)))) (initRaftServers t :: (unit raft_controller \<times> _) list)"
  have "n \<le> length (raft_arrivals ?es1)" "length (kv_arrivals ?es1) < n"
    using n unfolding raft_arrivals_main by (simp_all add: initRaftServers_def)
  moreover have "n \<le> length (kv_arrivals (main_events t))" using n by (simp add: main_arrivals)
  ultimately show "opens n (main_events t)"
    unfolding opens_def main_events_def by blast
qed

lemma with_id_Raft [simp]:
  "RaftConnect (with_id i a) = (RaftConnect a)\<lparr>conn_Id := int i\<rparr>"
  "KVInitFullPath (with_id i a) = KVInitFullPath a"
  "RaftStartWSFullPath (with_id i a) = RaftStartWSFullPath a"
  "RaftStartFullPath (with_id i a) = RaftStartFullPath a"
  by (simp_all add: with_id_def)

lemma base_of_id [simp]: "base_of (d\<lparr>conn_Id := i\<rparr>) = base_of d" "Addr (d\<lparr>conn_Id := i\<rparr>) = Addr d" "Port (d\<lparr>conn_Id := i\<rparr>) = Port d"
  by (simp_all add: base_of_def)

lemma main_details:
  assumes "registered n (raft_arrivals (main_events t)) (kv_arrivals (main_events t)) c" "n \<le> NRaftServers"
  shows "raftControllerDetails c = map (\<lambda>i. with_id i (snd (snd (MakeRaftController t ''localhost'' (RaftServerStartPort + int i) :: unit raft_controller \<times> _)))) [0..<n]"
    and "kvControllerDetails c = map (\<lambda>i. snd (snd (MakeKVRaftController t ''localhost'' (KVServerStartPort + int i) :: unit kv_controller \<times> _))) [0..<n]"
  using assms by (auto simp: registered_def main_arrivals min_def take_map intro!: nth_equalityI)

lemma make_details:
  "RaftConnect (snd (snd (MakeRaftController t h p))) =
     \<lparr>Addr = h, Port = p, conn_Id = 0, ReplyFullPath = t (\<lparr>Scheme = ''http'', Host = full_addr h p, Path = ''raft/v1/internal/init_raft_server''\<rparr>)\<rparr>"
  "snd (snd (MakeKVRaftController t h p)) =
     \<lparr>Addr = h, Port = p, conn_Id = 0, ReplyFullPath = t (\<lparr>Scheme = ''http'', Host = full_addr h p, Path = ''api/kvraft/v1/internal/init_raft''\<rparr>)\<rparr>"
  by (simp_all add: MakeRaftController_def MakeKVRaftController_def Let_def raft_routes_def kv_routes_def url_of_def)

text \<open>URLs whose host has no slash are read back from their texts.\<close>

definition reads_back :: "(url \<Rightarrow> string) \<Rightarrow> (string \<Rightarrow> url option) \<Rightarrow> bool" where
  "reads_back t parse \<longleftrightarrow> (\<forall>h p. CHR ''/'' \<notin> set h \<longrightarrow>
     parse (t \<lparr>Scheme = ''http'', Host = h, Path = p\<rparr>) = Some \<lparr>Scheme = ''http'', Host = h, Path = p\<rparr>)"

definition ex_text :: "url \<Rightarrow> string" where
  "ex_text u = Host u @ ''/'' @ Path u"

definition ex_parse :: "string \<Rightarrow> url option" where
  "ex_parse s = map_option (\<lambda>(h, p). \<lparr>Scheme = ''http'', Host = h, Path = p\<rparr>) (cut_first ''/'' s)"

lemma ex_reads_back: "reads_back ex_text ex_parse"
  using cut_char(1) by (simp add: reads_back_def ex_parse_def ex_text_def)

lemma host_no_slash: "CHR ''/'' \<notin> set h \<Longrightarrow> 0 \<le> p \<Longrightarrow> CHR ''/'' \<notin> set (full_addr h p)"
  using format_digits[of "nat p"] by (auto simp: full_addr_def Itoa_def FormatInt_def list_all_iff is_digit_def)

lemma base_read:
  "reads_back t parse \<Longrightarrow> CHR ''/'' \<notin> set (Addr d) \<Longrightarrow> 0 \<le> Port d \<Longrightarrow>
   parse (t ((base_of d)\<lparr>Path := p\<rparr>)) = Some ((base_of d)\<lparr>Path := p\<rparr>)"
  by (simp add: reads_back_def base_of_def host_no_slash)

lemma make_tables:
  "rc_BoundMethods (fst (MakeRaftController t h p)) = raft_routes \<lparr>Scheme = ''http'', Host = full_addr h p, Path = ''''\<rparr>"
  "kc_BoundMethods (fst (MakeKVRaftController t h p)) = kv_routes \<lparr>Scheme = ''http'', Host = full_addr h p, Path = ''''\<rparr>"
  by (simp_all add: MakeRaftController_def MakeKVRaftController_def Let_def)

lemma init_nth:
  "i < NRaftServers \<Longrightarrow> initRaftServers t ! i = MakeRaftController t ''localhost'' (RaftServerStartPort + int i)"
  "i < NRaftServers \<Longrightarrow> initKVServers t ! i = MakeKVRaftController t ''localhost'' (KVServerStartPort + int i)"
  by (simp_all add: initRaftServers_def initKVServers_def)

text \<open>What a started cluster looks like from server \<open>i\<close>: Raft's connections and tables, and those of
  its key/value server.\<close>

definition raft_connected :: "(url \<Rightarrow> string) \<Rightarrow> gob_value persister \<Rightarrow> nat \<Rightarrow> nat \<Rightarrow> 'w raft_controller \<Rightarrow> bool" where
  "raft_connected t ps n i rc \<longleftrightarrow> length (raftClients rc) = n
    \<and> (\<exists>st. StartRaft ps rc = Inr st \<and> raftServer st = Make n (int i) ps
        \<and> length (peer_connections st) = n - 1
        \<and> map (m_Name \<circ> snd) (raft_routes_added st) = [''Agree'', ''HeartBeat'', ''RequestVote'', ''ReturnState''])
    \<and> boundMethods (the (raftClients rc ! i)) ''RaftKV.Apply''
        = kc_BoundMethods (fst (initKVServers t ! i :: 'w kv_controller \<times> _)) ''RaftKV.Apply''
    \<and> (\<forall>j < n. \<forall>m. m \<noteq> ''RaftKV.Apply'' \<longrightarrow> boundMethods (the (raftClients rc ! j)) m
        = rc_BoundMethods (fst (initRaftServers t ! j :: 'w raft_controller \<times> _)) m)"

definition kv_connected :: "(url \<Rightarrow> string) \<Rightarrow> nat \<Rightarrow> 'w kv_controller \<Rightarrow> bool" where
  "kv_connected t i kc \<longleftrightarrow> kc_Me kc = int i \<and> kvraft kc = Some (StartKVServer (int i) (-1))
    \<and> (\<exists>rcl. raftAPIClient kc = Some rcl \<and> (\<forall>m \<in> {''Raft.Agree'', ''Raft.ReturnState''}.
        boundMethods rcl m = rc_BoundMethods (fst (initRaftServers t ! i :: 'w raft_controller \<times> _)) m))"

lemma start_connected:
  assumes "wired rc" "peer_ws rc = Inr ws" "rc_BoundMethods rc = own_table d kv"
  shows "\<exists>st. StartRaft ps rc = Inr st \<and> raftServer st = Make (length (raftClients rc)) (rc_Me rc) ps
    \<and> peer_connections st = ws
    \<and> map (m_Name \<circ> snd) (raft_routes_added st) = [''Agree'', ''HeartBeat'', ''RequestVote'', ''ReturnState'']"
proof -
  have "rc_BoundMethods rc '''' = None"
    by (simp add: assms(3) own_table_def raft_routes_def)
  from StartRaft_ok[OF assms(1,2) this, of ps] show ?thesis
    by (auto simp: assms(3) routes_of_def receivers full_name_def own_table_def raft_routes_def)
qed

text \<open>The details that the servers of \<open>main\<close> registered with.\<close>

lemma main_ready:
  assumes "registered n (raft_arrivals (main_events t)) (kv_arrivals (main_events t)) c" "n \<le> NRaftServers"
  defines "ds \<equiv> map RaftConnect (raftControllerDetails c)" and "ks \<equiv> kvControllerDetails c"
  shows "length ds = n" "length ks = n" "length (raftControllerDetails c) = n"
    and "i < n \<Longrightarrow> Addr (ds ! i) = ''localhost'' \<and> Port (ds ! i) = RaftServerStartPort + int i \<and> conn_Id (ds ! i) = int i"
    and "i < n \<Longrightarrow> Addr (ks ! i) = ''localhost'' \<and> Port (ks ! i) = KVServerStartPort + int i"
    and "i < n \<Longrightarrow> ReplyFullPath (ks ! i) = t ((base_of (ks ! i))\<lparr>Path := ''api/kvraft/v1/internal/init_raft''\<rparr>)"
    and "i < n \<Longrightarrow> (let a = raftControllerDetails c ! i; b = base_of (ds ! i) in
         KVInitFullPath a = t (b\<lparr>Path := ''raft/v1/internal/init_kv_server''\<rparr>)
       \<and> ReplyFullPath (RaftConnect a) = t (b\<lparr>Path := ''raft/v1/internal/init_raft_server''\<rparr>)
       \<and> RaftStartWSFullPath a = t (b\<lparr>Path := ''raft/v1/internal/start_websockets''\<rparr>)
       \<and> RaftStartFullPath a = t (b\<lparr>Path := ''raft/v1/internal/start_raft_server''\<rparr>))"
  by (simp_all add: ds_def ks_def main_details[OF assms(1,2)] MakeRaftController_def MakeKVRaftController_def
      raft_routes_def kv_routes_def url_of_def base_of_def Let_def with_id_def)

text \<open>So the calls are those of theory \<open>Booting\<close>.\<close>

lemma main_calls:
  assumes "registered n (raft_arrivals (main_events t)) (kv_arrivals (main_events t)) c" "n \<le> NRaftServers"
    and read: "reads_back t parse"
  defines "ds \<equiv> map RaftConnect (raftControllerDetails c)" and "ks \<equiv> kvControllerDetails c"
  shows "serversInit parse c = Inr (set_up_calls ds ks [0..<n] @ socket_calls ds [0..<n] @ begin_calls ds [0..<n] @ kv_set_up_calls ds ks [0..<n])"
    and "map conn_Id ds = map int [0..<n]" "hosts_distinct ds" "hosts_distinct ks"
proof -
  note rd = main_ready[OF assms(1,2), folded ds_def ks_def]
  have a: "ds ! i = RaftConnect (raftControllerDetails c ! i)" if "i < n" for i using that rd(3) by (simp add: ds_def)
  have r: "parse (t ((base_of (ds ! i))\<lparr>Path := p\<rparr>)) = Some ((base_of (ds ! i))\<lparr>Path := p\<rparr>)"
    and k: "parse (t ((base_of (ks ! i))\<lparr>Path := p\<rparr>)) = Some ((base_of (ks ! i))\<lparr>Path := p\<rparr>)" if "i < n" for i p
    using rd(4,5)[OF that] by (intro base_read[OF read]; simp add: RaftServerStartPort_def KVServerStartPort_def)+
  have "\<forall>a \<in> set (raftControllerDetails c). parses parse a"
    using rd(3,7) a r by (auto simp: in_set_conv_nth parses_def Let_def)
  moreover have "\<forall>k \<in> set (kvControllerDetails c). parse (ReplyFullPath k) \<noteq> None"
    using rd(2,6) k by (auto simp: in_set_conv_nth ks_def)
  ultimately have eq: "serversInit parse c = Inr (concat (map (\<lambda>i. let a = raftControllerDetails c ! i in
        [(the (parse (KVInitFullPath a)), Kv_details (ks ! i)),
         (the (parse (ReplyFullPath (RaftConnect a))), Master_reply (init_args ds i))]) [0..<n])
      @ map (\<lambda>i. (the (parse (RaftStartWSFullPath (raftControllerDetails c ! i))), Master_reply (rest_args ds i))) [0..<n]
      @ map (\<lambda>a. (the (parse (RaftStartFullPath a)), Empty_reply)) (raftControllerDetails c)
      @ map (\<lambda>i. (the (parse (ReplyFullPath (ks ! i))), Raft_details (ds ! i))) [0..<n])"
    using serversInit_eq[of c n parse] rd(2,3) unfolding ds_def ks_def by simp
  have "map f (raftControllerDetails c) = map (\<lambda>i. f (raftControllerDetails c ! i)) [0..<n]" for f :: "_ \<Rightarrow> 'x"
    using rd(3) by (auto intro: nth_equalityI)
  note each = this[of "\<lambda>a. (the (parse (RaftStartFullPath a)), Empty_reply)"]
  show "serversInit parse c = Inr (set_up_calls ds ks [0..<n] @ socket_calls ds [0..<n] @ begin_calls ds [0..<n] @ kv_set_up_calls ds ks [0..<n])"
    unfolding eq each phases sum.inject
    by (intro arg_cong2[where f = "(@)"] arg_cong[where f = concat] map_cong refl)
      (use rd(6,7) r k in \<open>simp_all add: raft_urls init_kv_url Let_def\<close>)
  show "map conn_Id ds = map int [0..<n]" using rd(1,4) by (auto intro: nth_equalityI)
  have inj: "full_addr h (q + int i) = full_addr h (q + int j) \<longleftrightarrow> i = j" if "CHR '':'' \<notin> set h" "0 \<le> q" for h q i j
    using full_addr_inj[of h "q + int i" h "q + int j"] that by auto
  show "hosts_distinct ds" "hosts_distinct ks"
    using rd(1,2,4,5) by (auto simp: hosts_distinct_def distinct_conv_nth inj RaftServerStartPort_def KVServerStartPort_def)
qed

lemma local_kv:
  assumes reg: "registered n (raft_arrivals (main_events t)) (kv_arrivals (main_events t)) c" "n \<le> NRaftServers"
    and read: "reads_back t parse" and calls: "serversInit parse c = Inr calls" and i: "i < n"
  shows "kv_connected t i (boot_kv calls (fst (initKVServers t ! i) :: 'w kv_controller))"
proof -
  let ?ds = "map RaftConnect (raftControllerDetails c)" and ?ks = "kvControllerDetails c"
  let ?kc = "fst (initKVServers t ! i) :: 'w kv_controller"
  note rd = main_ready[OF reg] and mc = main_calls[OF reg read]
  have tab: "kc_BoundMethods ?kc = kv_routes (base_of (?ks ! i))"
    using rd(5)[OF i] i reg(2) by (simp add: init_nth make_tables base_of_def)
  have "boot_kv calls ?kc = fst (API_InitRaft (Some (?ds ! i)) ?kc)"
    using boot_kv_run[OF mc(4) _ tab, of "?ds" ?ks n] calls mc(1) i rd(2) by simp
  moreover obtain kc' a where kc': "API_InitRaft (Some (?ds ! i)) ?kc = (kc', a)" by (cases "API_InitRaft (Some (?ds ! i)) ?kc")
  have "base_of (?ds ! i) = \<lparr>Scheme = ''http'', Host = full_addr ''localhost'' (RaftServerStartPort + int i), Path = ''''\<rparr>"
    using rd(4)[OF i] by (simp add: base_of_def)
  with kv_init_raft[OF kc'] rd(4)[OF i] kc' reg(2) i have "kv_connected t i (fst (API_InitRaft (Some (?ds ! i)) ?kc))"
    by (auto simp: kv_connected_def init_nth make_tables)
  ultimately show ?thesis by simp
qed

text \<open>The URL at which server \<open>i\<close> is told to start, and what comes before that call.\<close>

definition start_url :: "(url \<Rightarrow> string) \<Rightarrow> nat \<Rightarrow> url" where
  "start_url t i = url_of (rc_BoundMethods (fst (initRaftServers t ! i :: unit raft_controller \<times> _))) ''RaftController.StartRaftServer''"

lemma local_raft:
  fixes dial :: "url \<Rightarrow> string \<Rightarrow> 'w option"
  assumes reg: "registered n (raft_arrivals (main_events t)) (kv_arrivals (main_events t)) c" "n \<le> NRaftServers"
    and read: "reads_back t parse" and calls: "serversInit parse c = Inr calls" and i: "i < n"
    and dial: "\<forall>u h. Path u = ''raft/v1/ws/heartbeat'' \<longrightarrow> dial u h \<noteq> None"
  shows "\<exists>before after rc. calls = before @ (start_url t i, Empty_reply) # after
    \<and> boot_server dial up before (fst (initRaftServers t ! i)) = Inr rc \<and> raft_connected t ps n i rc"
proof -
  let ?ds = "map RaftConnect (raftControllerDetails c)" and ?ks = "kvControllerDetails c"
  let ?rc0 = "fst (initRaftServers t ! i) :: 'w raft_controller"
  let ?before = "set_up_calls ?ds ?ks [0..<n] @ socket_calls ?ds [0..<n] @ begin_calls ?ds [0..<i]"
  let ?after = "begin_calls ?ds [Suc i..<n] @ kv_set_up_calls ?ds ?ks [0..<n]"
  note rd = main_ready[OF reg] and mc = main_calls[OF reg read]
  have b: "base_of (?ds ! j) = \<lparr>Scheme = ''http'', Host = full_addr ''localhost'' (RaftServerStartPort + int j), Path = ''''\<rparr>" if "j < n" for j
    using rd(4)[OF that] by (simp add: base_of_def)
  have mk: "rc_BoundMethods (fst (initRaftServers t ! j :: 'x raft_controller \<times> _)) = raft_routes (base_of (?ds ! j))" if "j < n" for j
    using that reg(2) by (simp add: init_nth make_tables b)
  have fresh: "raftClients ?rc0 = []" using i reg(2) by (simp add: init_nth MakeRaftController_def Let_def)
  have "begin_calls ?ds [0..<n] = begin_calls ?ds [0..<i] @ (start_url t i, Empty_reply) # begin_calls ?ds [Suc i..<n]"
    unfolding split_upt[OF i] by (simp add: begin_calls_def start_url_def mk[OF i] raft_url_def)
  then have split: "calls = ?before @ (start_url t i, Empty_reply) # ?after" using calls mc(1) by simp
  have n: "length ?ds = n" "n < 2 ^ 62" using rd(1) reg(2) by (simp_all add: NRaftServers_def)
  obtain rc ws where rc: "boot_server dial up ?before ?rc0 = Inr rc"
    "wired rc" "rc_Me rc = int i" "length (raftClients rc) = n" "rc_BoundMethods rc = own_table (?ds ! i) (?ks ! i)"
    "boundMethods (the (raftClients rc ! i)) ''RaftKV.Apply'' = Some (apply_url (?ks ! i))"
    "\<forall>j < n. \<forall>m. m \<noteq> ''RaftKV.Apply'' \<longrightarrow> boundMethods (the (raftClients rc ! j)) m = raft_routes (base_of (?ds ! j)) m"
    and ws: "peer_ws rc = Inr ws" "length ws = n - 1"
    using boot_run[where dial = dial and up = up and ks = ?ks and bs = "[0..<i]" and ds = ?ds and i = i,
      unfolded n(1), OF mc(2,3) i n(2) mk[OF i] fresh dial] by (elim exE conjE) (rule that; assumption)
  have "raft_connected t ps n i rc"
    using start_connected[OF rc(2) ws(1) rc(5), of ps] rc(3,4,6,7) ws(2) i reg(2) rd(5)[OF i]
    by (auto simp: raft_connected_def b init_nth make_tables kv_routes_def apply_url_def)
  then show ?thesis using split rc(1) by (intro exI[of _ ?before] exI[of _ ?after] exI[of _ rc]) simp
qed

lemma main_registered:
  assumes "0 < n"
  shows "\<exists>c. go_fold handle_event (Init_moves # prompt (main_events t)) (NewController (int n)) = Inr c
    \<and> registered n (raft_arrivals (main_events t)) (kv_arrivals (main_events t)) c
    \<and> init_pc c = barrier_pc n (main_events t)"
  using barrier_run[OF assms] by blast

text \<open>C32: The program \<open>cmd.go\<close> brings up a connected cluster. With \<open>n\<close> for the flag \<open>servers\<close>, the
  barrier opens exactly when \<open>n\<close> is at most the number of servers it makes. Then, when the URLs
  are read back from their texts and dialling works, \<open>serversInit\<close> makes \<open>5 * n\<close> calls; a Raft
  server \<open>i < n\<close> that hears them, acting on those that carry one of its own URLs, has its Id, a
  websocket to each of the others, and URLs that the other servers and its key/value server
  serve, all this before the call that starts its Raft; and its key/value server has a client
  for it after them.\<close>
theorem local_cluster_boots:
  fixes dial :: "url \<Rightarrow> string \<Rightarrow> 'w option"
  assumes n: "0 < n" and p: "reads_back t parse"
    and d: "\<forall>u h. Path u = ''raft/v1/ws/heartbeat'' \<longrightarrow> dial u h \<noteq> None"
  shows "\<exists>c. go_fold handle_event (Init_moves # prompt (main_events t)) (NewController (int n)) = Inr c
    \<and> (init_pc c = Got_kv \<longleftrightarrow> n \<le> NRaftServers)
    \<and> (init_pc c = Got_kv \<longrightarrow> (\<exists>calls. serversInit parse c = Inr calls \<and> length calls = 5 * n
        \<and> (\<forall>i < n.
            (\<exists>before after rc. calls = before @ (start_url t i, Empty_reply) # after
               \<and> boot_server dial up before (fst (initRaftServers t ! i)) = Inr rc \<and> raft_connected t ps n i rc)
            \<and> kv_connected t i (boot_kv calls (fst (initKVServers t ! i) :: 'w kv_controller)))))"
proof -
  obtain c where c: "go_fold handle_event (Init_moves # prompt (main_events t)) (NewController (int n)) = Inr c"
    "registered n (raft_arrivals (main_events t)) (kv_arrivals (main_events t)) c"
    "init_pc c = barrier_pc n (main_events t)" using main_registered[OF n] by blast
  have open_iff: "init_pc c = Got_kv \<longleftrightarrow> n \<le> NRaftServers"
    using c(3) main_opens[OF n, of t] by (auto simp: barrier_pc_def main_arrivals)
  have "\<exists>calls. serversInit parse c = Inr calls \<and> length calls = 5 * n
        \<and> (\<forall>i < n.
            (\<exists>before after rc. calls = before @ (start_url t i, Empty_reply) # after
               \<and> boot_server dial up before (fst (initRaftServers t ! i)) = Inr rc \<and> raft_connected t ps n i rc)
            \<and> kv_connected t i (boot_kv calls (fst (initKVServers t ! i) :: 'w kv_controller)))" if le: "n \<le> NRaftServers"
  proof -
    from main_calls(1)[OF c(2) le p] obtain calls where calls: "serversInit parse c = Inr calls" "length calls = 5 * n"
      by (simp add: phases length_concat comp_def sum_list_triv)
    then show ?thesis using local_raft[where dial = dial and up = up and ps = ps, OF c(2) le p calls(1) _ d] local_kv[OF c(2) le p calls(1)] by blast
  qed
  then show ?thesis using c(1) open_iff by blast
qed

theorem local_cluster_boots_witness:
  "\<exists>c calls before after rc. go_fold handle_event (Init_moves # prompt (main_events ex_text)) (NewController (int 3)) = Inr c
    \<and> init_pc c = Got_kv \<and> serversInit ex_parse c = Inr calls \<and> length calls = 15
    \<and> calls = before @ (start_url ex_text 2, Empty_reply) # after
    \<and> boot_server (\<lambda>_ _. Some (7 :: nat)) (\<lambda>_. 8) before (fst (initRaftServers ex_text ! 2)) = Inr rc
    \<and> raft_connected ex_text MakePersister 3 2 rc"
proof -
  have n: "0 < (3::nat)" "(3::nat) \<le> NRaftServers" "(2::nat) < 3" by (simp_all add: NRaftServers_def)
  have d: "\<forall>u h. Path u = ''raft/v1/ws/heartbeat'' \<longrightarrow> (\<lambda>_ _. Some (7::nat)) u h \<noteq> None" by simp
  obtain c where c: "go_fold handle_event (Init_moves # prompt (main_events ex_text)) (NewController (int 3)) = Inr c"
    "init_pc c = Got_kv \<longleftrightarrow> 3 \<le> NRaftServers"
    "init_pc c = Got_kv \<longrightarrow> (\<exists>calls. serversInit ex_parse c = Inr calls \<and> length calls = 5 * 3
        \<and> (\<forall>i < 3. (\<exists>before after rc. calls = before @ (start_url ex_text i, Empty_reply) # after
           \<and> boot_server (\<lambda>_ _. Some (7 :: nat)) (\<lambda>_. 8) before (fst (initRaftServers ex_text ! i)) = Inr rc
           \<and> raft_connected ex_text MakePersister 3 i rc)
         \<and> kv_connected ex_text i (boot_kv calls (fst (initKVServers ex_text ! i) :: nat kv_controller))))"
    using local_cluster_boots[where up = "\<lambda>_. 8" and ps = MakePersister, OF n(1) ex_reads_back d]
    by (elim exE conjE) (rule that)
  from c(2,3) n(2) obtain calls where calls: "serversInit ex_parse c = Inr calls" "length calls = 15"
    "\<forall>i < 3. \<exists>before after rc. calls = before @ (start_url ex_text i, Empty_reply) # after
           \<and> boot_server (\<lambda>_ _. Some (7 :: nat)) (\<lambda>_. 8) before (fst (initRaftServers ex_text ! i)) = Inr rc
           \<and> raft_connected ex_text MakePersister 3 i rc" by auto
  then show ?thesis using c(1,2) n(2,3) by blast
qed

end
