(* ===== verification/Metrics.thy ===== *)
theory Metrics
  imports RaftData Channels
begin

text \<open>
  The metric controller (\<open>controller/metricontroller.go\<close>, \<open>controller/data/metric.go\<close>): it counts the
  messages the Raft servers report and shows the counts to web clients. An update sets a flag
  (a channel of capacity 1); the goroutine \<open>updateEndClientsOnChange\<close> takes it and puts the
  metrics into each client's write channel, without waiting. What is put there is a reference
  to the one map of metrics, so the writer of a client shows the metrics of the moment it
  writes: the queue of a client is a list of units. Go's \<open>int\<close> counters are integers.

  For each client the model also keeps the metrics it was last shown (\<open>seen\<close>; \<open>None\<close> until then:
  a client that joins is shown nothing before the next change).

  An update and its signal are one step here. Routes and the handlers of websocket requests are in
  \<open>MetricHost\<close>. Not modelled: the data race between the writers, which read the map without the
  mutex, and the updates.
\<close>

section \<open>State and operations\<close>

record metric =
  metric_Idx :: int
  HBRPC :: int
  SuccessfulHB :: int
  ElectionRPC :: int
  metric_Logs :: "raft_log list"
  metric_LeaderIdx :: int

type_synonym all_metrics = "int \<rightharpoonup> metric"

record end_client =
  queue :: "unit list"
  seen :: "all_metrics option"

record metric_controller =
  metrics :: all_metrics
  metricChangeChnl :: "bool list"
  endClients :: "end_client list"

definition MakeMetricController :: metric_controller where
  "MakeMetricController = \<lparr>metrics = Map.empty, metricChangeChnl = [], endClients = []\<rparr>"

definition new_metric :: "int \<Rightarrow> metric" where
  "new_metric i = \<lparr>metric_Idx = i, HBRPC = 0, SuccessfulHB = 0, ElectionRPC = 0, metric_Logs = [], metric_LeaderIdx = 0\<rparr>"

definition metric_switch :: "rpc_args \<Rightarrow> metric \<Rightarrow> metric" where
  "metric_switch args m =
     (if rpc_Type args = ''HB'' then m\<lparr>HBRPC := HBRPC m + 1, metric_LeaderIdx := RPCFromIdx args\<rparr>
      else if rpc_Type args = ''Election'' then m\<lparr>ElectionRPC := ElectionRPC m + 1\<rparr>
      else if rpc_Type args = ''Logs'' then m\<lparr>metric_Logs := rpc_Logs args\<rparr>
      else if rpc_Type args = ''SuccessHB'' then m\<lparr>SuccessfulHB := SuccessfulHB m + 1, metric_LeaderIdx := Idx args\<rparr>
      else m)"

definition MetricUpdate :: "rpc_args \<Rightarrow> metric_controller \<Rightarrow> metric_controller" where
  "MetricUpdate args c =
     (let m = (case metrics c (Idx args) of None \<Rightarrow> new_metric (Idx args) | Some m \<Rightarrow> m) in
      c\<lparr>metrics := (metrics c)(Idx args \<mapsto> metric_switch args m),
        metricChangeChnl := chan_try_send 1 True (metricChangeChnl c)\<rparr>)"

text \<open>\<open>WSWebHost_GetRPCCount\<close>: a client joins.\<close>

definition join_client :: "metric_controller \<Rightarrow> metric_controller" where
  "join_client c = c\<lparr>endClients := endClients c @ [\<lparr>queue = [], seen = None\<rparr>]\<rparr>"

definition updateEndClientsOnChange :: "metric_controller \<Rightarrow> metric_controller go" where
  "updateEndClientsOnChange c =
     go_bind (chan_recv (metricChangeChnl c)) (\<lambda>(_, ch).
     Inr (c\<lparr>metricChangeChnl := ch,
            endClients := map (\<lambda>e. e\<lparr>queue := chan_try_send 128 () (queue e)\<rparr>) (endClients c)\<rparr>))"

text \<open>The writer of client \<open>i\<close>.\<close>

definition client_writes :: "nat \<Rightarrow> metric_controller \<Rightarrow> metric_controller go" where
  "client_writes i c =
     go_bind (idx (endClients c) (int i)) (\<lambda>e.
     go_bind (chan_recv (queue e)) (\<lambda>(_, q).
     Inr (c\<lparr>endClients := (endClients c)[i := e\<lparr>queue := q, seen := Some (metrics c)\<rparr>]\<rparr>)))"

section \<open>What the metrics count\<close>

definition reports :: "int \<Rightarrow> string \<Rightarrow> rpc_args list \<Rightarrow> rpc_args list" where
  "reports i t as = filter (\<lambda>a. Idx a = i \<and> rpc_Type a = t) as"

definition last_or :: "'a \<Rightarrow> 'a list \<Rightarrow> 'a" where
  "last_or d xs = (if xs = [] then d else last xs)"

definition leaders :: "int \<Rightarrow> rpc_args list \<Rightarrow> int list" where
  "leaders i as = map (\<lambda>a. if rpc_Type a = ''HB'' then RPCFromIdx a else Idx a)
     (filter (\<lambda>a. Idx a = i \<and> (rpc_Type a = ''HB'' \<or> rpc_Type a = ''SuccessHB'')) as)"

definition metric_spec :: "int \<Rightarrow> rpc_args list \<Rightarrow> metric option" where
  "metric_spec i as =
     (if \<exists>a \<in> set as. Idx a = i
      then Some \<lparr>metric_Idx = i, HBRPC = int (length (reports i ''HB'' as)),
        SuccessfulHB = int (length (reports i ''SuccessHB'' as)),
        ElectionRPC = int (length (reports i ''Election'' as)),
        metric_Logs = last_or [] (map rpc_Logs (reports i ''Logs'' as)),
        metric_LeaderIdx = last_or 0 (leaders i as)\<rparr>
      else None)"

lemma spec_none: "\<not> (\<exists>a \<in> set as. Idx a = i) \<Longrightarrow> reports i t as = [] \<and> leaders i as = []"
  by (auto simp: reports_def leaders_def filter_empty_conv)

lemma metric_spec_snoc:
  "metric_spec i (as @ [a]) =
     (if Idx a = i then Some (metric_switch a (case metric_spec i as of None \<Rightarrow> new_metric i | Some m \<Rightarrow> m))
      else metric_spec i as)"
  using spec_none[of as i]
  by (auto simp: metric_spec_def metric_switch_def new_metric_def reports_def leaders_def last_or_def)

lemma metrics_fold:
  "metrics (fold MetricUpdate as MakeMetricController) i = metric_spec i as"
proof (induction as arbitrary: i rule: rev_induct)
  case Nil
  then show ?case by (simp add: MakeMetricController_def metric_spec_def)
next
  case (snoc a as)
  then show ?case by (auto simp: MetricUpdate_def metric_spec_snoc Let_def)
qed

section \<open>No change is lost\<close>

datatype metric_event = Update rpc_args | Joins | Notifies | Writes nat

fun metric_step :: "metric_event \<Rightarrow> metric_controller \<Rightarrow> metric_controller go" where
  "metric_step (Update args) c = Inr (MetricUpdate args c)"
| "metric_step Joins c = Inr (join_client c)"
| "metric_step Notifies c = updateEndClientsOnChange c"
| "metric_step (Writes i) c = client_writes i c"

fun update_of :: "metric_event \<Rightarrow> rpc_args list" where
  "update_of (Update a) = [a]"
| "update_of _ = []"

text \<open>The first \<open>k\<close> clients: those that were there before.\<close>

definition informed :: "nat \<Rightarrow> metric_controller \<Rightarrow> bool" where
  "informed k c \<longleftrightarrow> (\<forall>j < k. metricChangeChnl c \<noteq> [] \<or> queue (endClients c ! j) \<noteq> []
     \<or> seen (endClients c ! j) = Some (metrics c))"

lemma clients_step:
  "metric_step ev c = Inr c' \<Longrightarrow> length (endClients c) \<le> length (endClients c')"
  by (cases ev) (auto simp: MetricUpdate_def join_client_def updateEndClientsOnChange_def client_writes_def Let_def)

lemma informed_step:
  assumes "informed k c" "k \<le> length (endClients c)" "metric_step ev c = Inr c'"
  shows "informed k c'"
  using assms
  by (cases ev) (auto simp: informed_def MetricUpdate_def join_client_def updateEndClientsOnChange_def client_writes_def
      chan_recv_Inr idx_Inr chan_try_send_cases Let_def nth_append nth_list_update split: if_splits)

lemma informed_update: "update_of ev \<noteq> [] \<Longrightarrow> metric_step ev c = Inr c' \<Longrightarrow> informed k c'"
  by (cases ev) (auto simp: informed_def MetricUpdate_def chan_try_send_cases Let_def split: if_splits)

lemma informed_run:
  assumes "go_fold metric_step evs c = Inr c'" "k \<le> length (endClients c)"
  shows "k \<le> length (endClients c') \<and> (concat (map update_of evs) \<noteq> [] \<longrightarrow> informed k c')"
  using assms
proof (induction evs arbitrary: c' rule: rev_induct)
  case (snoc ev evs)
  from snoc.prems(1) obtain c1 where c1: "go_fold metric_step evs c = Inr c1" "metric_step ev c1 = Inr c'"
    by (auto simp: go_fold_snoc)
  note IH = snoc.IH[OF c1(1) snoc.prems(2)]
  show ?case
  proof (cases "update_of ev = []")
    case True
    with IH informed_step[OF _ _ c1(2), of k] clients_step[OF c1(2)] show ?thesis by auto
  next
    case False
    with IH informed_update[OF _ c1(2)] clients_step[OF c1(2)] show ?thesis by auto
  qed
qed simp

lemma metrics_run:
  assumes "go_fold metric_step evs MakeMetricController = Inr c"
  shows "metrics c = metrics (fold MetricUpdate (concat (map update_of evs)) MakeMetricController)"
  using assms
proof (induction evs arbitrary: c rule: rev_induct)
  case Nil
  then show ?case by simp
next
  case (snoc ev evs)
  then obtain c0 where c0: "go_fold metric_step evs MakeMetricController = Inr c0" "metric_step ev c0 = Inr c"
    by (auto simp: go_fold_snoc)
  have "metrics c = metrics (fold MetricUpdate (update_of ev) c0)"
    using c0(2) by (cases ev) (auto simp: join_client_def updateEndClientsOnChange_def client_writes_def)
  moreover have "metrics x = metrics y \<Longrightarrow> metrics (fold MetricUpdate (update_of ev) x) = metrics (fold MetricUpdate (update_of ev) y)" for x y
    by (cases ev) (auto simp: MetricUpdate_def Let_def)
  ultimately have "metrics c = metrics (fold MetricUpdate (update_of ev)
      (fold MetricUpdate (concat (map update_of evs)) MakeMetricController))"
    using snoc.IH[OF c0(1)] by metis
  then show ?case by simp
qed

text \<open>C39: The metrics of a server are what its reports add up to: the numbers of heartbeats, successful
  heartbeats and elections, the log of the last report of a log, and the leader named last. And
  no change is lost on the way to the web clients that were there when it happened: a client
  that joined before some update (one that joins later is shown nothing before the next one), with
  nothing in its queue while no flag is set, has been shown the current metrics.\<close>
theorem metrics_counted_and_shown:
  assumes "go_fold metric_step evs MakeMetricController = Inr c0" "go_fold metric_step evs' c0 = Inr c"
  shows "metrics c i = metric_spec i (concat (map update_of (evs @ evs')))
    \<and> (concat (map update_of evs') \<noteq> [] \<longrightarrow> metricChangeChnl c = [] \<longrightarrow>
        (\<forall>j < length (endClients c0). queue (endClients c ! j) = [] \<longrightarrow>
          (\<exists>m. seen (endClients c ! j) = Some m \<and> m i = metric_spec i (concat (map update_of (evs @ evs'))))))"
proof -
  have run: "go_fold metric_step (evs @ evs') MakeMetricController = Inr c" using assms by (simp add: go_fold_append)
  have m: "metrics c i = metric_spec i (concat (map update_of (evs @ evs')))" unfolding metrics_run[OF run] by (rule metrics_fold)
  then show ?thesis using informed_run[OF assms(2) order_refl] by (auto simp: informed_def)
qed

definition ex_metric_events :: "metric_event list" where
  "ex_metric_events = [Update (zero_rpc_args\<lparr>Idx := 1, rpc_Type := ''HB'', RPCFromIdx := 2\<rparr>),
     Update (zero_rpc_args\<lparr>Idx := 1, rpc_Type := ''HB'', RPCFromIdx := 2\<rparr>), Notifies, Joins, Writes 0]"

theorem metrics_counted_and_shown_witness:
  "\<exists>c. go_fold metric_step ([Joins] @ ex_metric_events) MakeMetricController = Inr c \<and> length (endClients c) = 2
    \<and> (\<exists>m. seen (endClients c ! 0) = Some m \<and> map_option HBRPC (m 1) = Some 2)"
proof -
  obtain c0 where c0: "go_fold metric_step [Joins] MakeMetricController = Inr c0" "length (endClients c0) = 1"
    by (simp add: MakeMetricController_def join_client_def)
  obtain c where c: "go_fold metric_step ex_metric_events c0 = Inr c" "length (endClients c) = 2"
    "metricChangeChnl c = []" "queue (endClients c ! 0) = []"
    using c0(1) by (auto simp: ex_metric_events_def MakeMetricController_def join_client_def MetricUpdate_def chan_try_send_cases
        updateEndClientsOnChange_def client_writes_def idx_def Let_def)
  have "metric_spec 1 (concat (map update_of ([Joins] @ ex_metric_events))) = Some \<lparr>metric_Idx = 1, HBRPC = 2, SuccessfulHB = 0,
      ElectionRPC = 0, metric_Logs = [], metric_LeaderIdx = 2\<rparr>"
    "concat (map update_of ex_metric_events) \<noteq> []"
    by (simp_all add: ex_metric_events_def metric_spec_def reports_def leaders_def last_or_def zero_rpc_args_def)
  with metrics_counted_and_shown[OF c0(1) c(1), of 1] c c0 show ?thesis by (auto simp: go_fold_append)
qed

end
