(* ===== verification/WsConn.thy ===== *)
theory WsConn
  imports Atomics Channels "HOL-Library.Multiset"
begin

text \<open>
  The websocket connection between two servers (\<open>controller/data/wsconnection.go\<close>) in RPC mode: a
  call takes the next of 256 slots, puts a frame with the slot's number into the write channel
  and waits on the slot's unbuffered channel; the reader answers requests and hands a reply to
  the caller that waits on the slot the frame names. JSON values are the type \<open>'j\<close>, and a frame
  on the wire is the value it encodes. Decoding and encoding of arguments and replies are
  arguments of the operations, as is the handler (\<open>method.Call\<close>) with its state. A slot's
  channel is the list of the callers waiting on it, longest first.

  \<open>WriteAndReceive\<close> accesses the slot counter up to three times, atomically each but not as a
  whole: \<open>conn_add\<close>, \<open>conn_reset\<close>, \<open>conn_write\<close> are the pieces between which another caller may
  run, \<open>WriteAndReceive_begin\<close> runs them in one go.

  \<open>WsLife\<close> has \<open>Close\<close>, dialling, the reflection that finds the handler's types, the automatic reply
  and \<open>ReceiveMust\<close>. An error of the connection ends the program (\<open>Logger.Fatal\<close>) or the writer.
\<close>

section \<open>State and operations\<close>

text \<open>A slice indexed by a \<open>uint64\<close>.\<close>

definition slot_chan :: "'c list list \<Rightarrow> nat \<Rightarrow> 'c list go" where
  "slot_chan xs i = (if i < length xs then Inr (xs ! i) else Inl IndexOutOfRange)"

definition WRITELOGS :: nat where "WRITELOGS = 128"
definition CONNECTIONS :: nat where "CONNECTIONS = 256"

definition NEEDREPLY :: int where "NEEDREPLY = 0"
definition NOTREPLY :: int where "NOTREPLY = 1"
definition REPLY :: int where "REPLY = 2"

record 'j frame =
  MsgType :: int
  frame_Idx :: "64 word"
  frame_Args :: "'j option"
  frame_Reply :: "'j option"

record ('j, 'c) wsconn =
  raceTester :: At32
  writeChnl :: "'j frame list"
  grpcMode :: AtBool
  uRunningConnections :: AtU64
  aRunningConnections :: "'c list list"

definition NewWsConnection :: "('j, 'c) wsconn" where
  "NewWsConnection =
     \<lparr>raceTester = \<lparr>at32_val = 0\<rparr>, writeChnl = [], grpcMode = \<lparr>atbool_val = 0\<rparr>,
      uRunningConnections = \<lparr>atu64_val = 0\<rparr>, aRunningConnections = replicate CONNECTIONS []\<rparr>"

text \<open>\<open>StartWriter\<close> and \<open>StartReader\<close> count the goroutines of a connection; a third one is fatal.\<close>

definition start_goroutine :: "('j, 'c) wsconn \<Rightarrow> ('j, 'c) wsconn option" where
  "start_goroutine w =
     (let w1 = w\<lparr>raceTester := fst (At32_Add (raceTester w) 1)\<rparr> in
      if 2 < sint (At32_Load (raceTester w1)) then None else Some w1)"

definition StartRPCMode :: "('j, 'c) wsconn \<Rightarrow> ('j, 'c) wsconn option" where
  "StartRPCMode w =
     (let w1 = w\<lparr>grpcMode := AtBool_Set (grpcMode w) True\<rparr> in
      case start_goroutine w1 of None \<Rightarrow> None | Some w2 \<Rightarrow> start_goroutine w2)"

definition Write_ws :: "'j frame \<Rightarrow> ('j, 'c) wsconn \<Rightarrow> ('j, 'c) wsconn" where
  "Write_ws arg w = w\<lparr>writeChnl := chan_try_send WRITELOGS arg (writeChnl w)\<rparr>"

definition WriteMust :: "'j \<Rightarrow> ('j, 'c) wsconn \<Rightarrow> ('j, 'c) wsconn go" where
  "WriteMust arg w =
     (let writeObj = \<lparr>MsgType = 0, frame_Idx = AtU64_Load (uRunningConnections w),
            frame_Args = Some arg, frame_Reply = None\<rparr>;
          w1 = w\<lparr>uRunningConnections := fst (AtU64_Add (uRunningConnections w) 1)\<rparr>
      in go_bind (chan_send WRITELOGS writeObj (writeChnl w1)) (\<lambda>ch. Inr (w1\<lparr>writeChnl := ch\<rparr>)))"

definition conn_add :: "('j, 'c) wsconn \<Rightarrow> ('j, 'c) wsconn \<times> bool" where
  "conn_add w =
     (case AtU64_Add (uRunningConnections w) 1 of (u, v) \<Rightarrow>
        (w\<lparr>uRunningConnections := u\<rparr>, of_nat CONNECTIONS \<le> v))"

definition conn_reset :: "('j, 'c) wsconn \<Rightarrow> ('j, 'c) wsconn" where
  "conn_reset w = w\<lparr>uRunningConnections := AtU64_Set (uRunningConnections w) 0\<rparr>"

definition conn_write :: "'c \<Rightarrow> 'j \<Rightarrow> 'j \<Rightarrow> ('j, 'c) wsconn \<Rightarrow> ('j, 'c) wsconn go" where
  "conn_write caller arg reply w =
     (let writeObj = \<lparr>MsgType = NEEDREPLY, frame_Idx = AtU64_Load (uRunningConnections w),
            frame_Args = Some arg, frame_Reply = Some reply\<rparr>;
          slot = unat (frame_Idx writeObj)
      in go_bind (slot_chan (aRunningConnections w) slot) (\<lambda>runningConnection.
         Inr (w\<lparr>writeChnl := chan_try_send WRITELOGS writeObj (writeChnl w),
                aRunningConnections := (aRunningConnections w)[slot := runningConnection @ [caller]]\<rparr>)))"

text \<open>Up to the receive; without RPC mode \<open>WriteAndReceive\<close> returns at once (\<open>None\<close>).\<close>

definition WriteAndReceive_begin :: "'c \<Rightarrow> 'j \<Rightarrow> 'j \<Rightarrow> ('j, 'c) wsconn \<Rightarrow> ('j, 'c) wsconn option go" where
  "WriteAndReceive_begin caller arg reply w =
     (if AtBool_Load (grpcMode w)
      then (case conn_add w of (w1, full) \<Rightarrow>
        go_bind (conn_write caller arg reply (if full then conn_reset w1 else w1)) (\<lambda>w2. Inr (Some w2)))
      else Inr None)"

text \<open>Behind the receive: the reply after decoding (\<open>unmarshal\<close> gives its new value and whether it
  succeeded).\<close>

definition WriteAndReceive_end :: "('j option \<Rightarrow> 'r \<Rightarrow> 'r \<times> bool) \<Rightarrow> 'j frame \<Rightarrow> 'r \<Rightarrow> 'r" where
  "WriteAndReceive_end unmarshal replyObj reply = fst (unmarshal (frame_Reply replyObj) reply)"

text \<open>One iteration of \<open>wsReader\<close>: a request is answered through the write channel, anything else
  is handed to the caller that waits.\<close>

datatype ('c, 'j) delivery = Answered | Delivered 'c "'j frame"

definition wsReader ::
  "('j option \<Rightarrow> 'a option) \<Rightarrow> ('r \<Rightarrow> 'j) \<Rightarrow> ('a \<Rightarrow> 's \<Rightarrow> 'r \<times> 's) \<Rightarrow> 'j frame \<Rightarrow> ('j, 'c) wsconn \<Rightarrow> 's
   \<Rightarrow> (('j, 'c) wsconn \<times> 's \<times> ('c, 'j) delivery) go" where
  "wsReader decode encode handle obj w s =
     (if MsgType obj = NEEDREPLY
      then
        (let obj = obj\<lparr>MsgType := REPLY\<rparr>;
             (obj, s) = (case decode (frame_Args obj) of
                 None \<Rightarrow> (obj, s)
               | Some incoming \<Rightarrow>
                   (case handle incoming s of (outgoing, s') \<Rightarrow>
                      (obj\<lparr>frame_Reply := Some (encode outgoing)\<rparr>, s')))
         in go_bind (chan_send WRITELOGS obj (writeChnl w)) (\<lambda>ch.
            Inr (w\<lparr>writeChnl := ch\<rparr>, s, Answered)))
      else
        (let slot = unat (frame_Idx obj) in
         go_bind (slot_chan (aRunningConnections w) slot) (\<lambda>runningConnection.
         go_bind (chan_recv runningConnection) (\<lambda>(caller, rest).
         Inr (w\<lparr>aRunningConnections := (aRunningConnections w)[slot := rest]\<rparr>, s,
              Delivered caller obj)))))"

definition wsWriter :: "('j, 'c) wsconn \<Rightarrow> ('j frame \<times> ('j, 'c) wsconn) go" where
  "wsWriter w = go_bind (chan_recv (writeChnl w)) (\<lambda>(outgoing, ch). Inr (outgoing, w\<lparr>writeChnl := ch\<rparr>))"

lemmas msg_types = NEEDREPLY_def NOTREPLY_def REPLY_def

section \<open>Slots\<close>

definition conn_wf :: "('j, 'c) wsconn \<Rightarrow> bool" where
  "conn_wf w \<longleftrightarrow> unat (AtU64_Load (uRunningConnections w)) < CONNECTIONS
    \<and> length (aRunningConnections w) = CONNECTIONS"

definition next_slot :: "('j, 'c) wsconn \<Rightarrow> nat" where
  "next_slot w = (unat (AtU64_Load (uRunningConnections w)) + 1) mod CONNECTIONS"

lemma unat_succ_small:
  fixes v :: "64 word"
  assumes "unat v < 256"
  shows "unat (v + 1) = unat v + 1" "(256 \<le> v + 1) = (unat v = 255)"
proof -
  have "unat v + unat (1 :: 64 word) < 2 ^ LENGTH(64)" using assms by simp
  then show s: "unat (v + 1) = unat v + 1" by (subst unat_add_lem[THEN iffD1]) simp_all
  show "(256 \<le> v + 1) = (unat v = 255)" using assms by (auto simp: word_le_nat_alt s)
qed

definition call_frame :: "('j, 'c) wsconn \<Rightarrow> 'j \<Rightarrow> 'j \<Rightarrow> 'j frame" where
  "call_frame w arg reply = \<lparr>MsgType = NEEDREPLY, frame_Idx = of_nat (next_slot w),
     frame_Args = Some arg, frame_Reply = Some reply\<rparr>"

text \<open>A call that is not interrupted takes the next slot, cyclically, and does not panic.\<close>

lemma begin_eq:
  assumes "conn_wf w" "AtBool_Load (grpcMode w)"
  shows "\<exists>w'. WriteAndReceive_begin c arg reply w = Inr (Some w') \<and> conn_wf w' \<and> grpcMode w' = grpcMode w
    \<and> unat (AtU64_Load (uRunningConnections w')) = next_slot w
    \<and> writeChnl w' = chan_try_send WRITELOGS (call_frame w arg reply) (writeChnl w)
    \<and> aRunningConnections w' = (aRunningConnections w)[next_slot w := aRunningConnections w ! next_slot w @ [c]]"
proof -
  let ?v = "atu64_val (uRunningConnections w)"
  have v: "unat ?v < 256" and l: "length (aRunningConnections w) = 256"
    using assms(1) by (simp_all add: conn_wf_def CONNECTIONS_def AtU64_Load_def)
  have nx: "next_slot w = (if unat ?v = 255 then 0 else unat ?v + 1)"
    using v by (auto simp: next_slot_def CONNECTIONS_def AtU64_Load_def)
  show ?thesis
    using assms(2) v l unat_succ_small[OF v]
    by (auto simp: nx WriteAndReceive_begin_def conn_add_def conn_reset_def conn_write_def Let_def
        atomic_defs CONNECTIONS_def slot_chan_def conn_wf_def call_frame_def add.commute)
qed

text \<open>A sequence of calls.\<close>

primrec begin_all :: "('c \<times> 'j) list \<Rightarrow> 'j \<Rightarrow> ('j, 'c) wsconn \<Rightarrow> ('j, 'c) wsconn go" where
  "begin_all [] reply w = Inr w"
| "begin_all (ca # cs) reply w =
     go_bind (WriteAndReceive_begin (fst ca) (snd ca) reply w)
       (\<lambda>r. case r of None \<Rightarrow> begin_all cs reply w | Some w' \<Rightarrow> begin_all cs reply w')"

lemma begin_all_slots:
  assumes "conn_wf w" "AtBool_Load (grpcMode w)"
  shows "\<exists>w'. begin_all cs reply w = Inr w' \<and> conn_wf w' \<and> AtBool_Load (grpcMode w')
    \<and> unat (AtU64_Load (uRunningConnections w')) = (unat (AtU64_Load (uRunningConnections w)) + length cs) mod CONNECTIONS"
  using assms
proof (induction cs arbitrary: w)
  case Nil
  then show ?case by (simp add: conn_wf_def)
next
  case (Cons ca cs)
  obtain w1 where w1: "WriteAndReceive_begin (fst ca) (snd ca) reply w = Inr (Some w1)" "conn_wf w1"
    "grpcMode w1 = grpcMode w" "unat (AtU64_Load (uRunningConnections w1)) = next_slot w"
    using begin_eq[OF Cons.prems] by blast
  obtain w' where "begin_all cs reply w1 = Inr w'" "conn_wf w'" "AtBool_Load (grpcMode w')"
    "unat (AtU64_Load (uRunningConnections w')) = (next_slot w + length cs) mod CONNECTIONS"
    using Cons.IH[OF w1(2)] w1(3,4) Cons.prems(2) by auto
  with w1(1) show ?case by (simp add: next_slot_def mod_simps add.commute add.left_commute)
qed

text \<open>
  Interrupted, two calls can take the same slot, and one can find the counter at 256 and index out
  of range: the addition and the load of the counter are two accesses.
\<close>

lemma same_slot_race:
  fixes w :: "('j, 'c) wsconn"
  assumes "conn_wf w" "unat (AtU64_Load (uRunningConnections w)) < 254"
  shows "\<exists>w1 w2 w3 w4 f g. conn_add w = (w1, False) \<and> conn_add w1 = (w2, False)
    \<and> conn_write c arg reply w2 = Inr w3 \<and> conn_write d arg' reply w3 = Inr w4
    \<and> aRunningConnections w4 = (aRunningConnections w)[unat (AtU64_Load (uRunningConnections w)) + 2 :=
        aRunningConnections w ! (unat (AtU64_Load (uRunningConnections w)) + 2) @ [c, d]]"
proof -
  let ?v = "atu64_val (uRunningConnections w)"
  have v: "unat ?v < 254" and l: "length (aRunningConnections w) = 256"
    using assms by (simp_all add: conn_wf_def CONNECTIONS_def AtU64_Load_def)
  have "unat ?v < 256" using v by simp
  note s1 = unat_succ_small[OF this]
  have "unat (?v + 1) < 256" using s1(1) v by simp
  note s2 = unat_succ_small[OF this]
  show ?thesis
    using v l s1 s2
    by (simp add: conn_add_def conn_write_def Let_def atomic_defs CONNECTIONS_def slot_chan_def)
qed

lemma slot_out_of_range:
  fixes w :: "('j, 'c) wsconn"
  assumes "conn_wf w" "unat (AtU64_Load (uRunningConnections w)) = 254"
  shows "\<exists>w1 w2. conn_add w = (w1, False) \<and> conn_add w1 = (w2, True)
    \<and> conn_write c arg reply w2 = Inl IndexOutOfRange"
proof -
  let ?v = "atu64_val (uRunningConnections w)"
  have v: "unat ?v = 254" and l: "length (aRunningConnections w) = 256"
    using assms by (simp_all add: conn_wf_def CONNECTIONS_def AtU64_Load_def)
  have "unat ?v < 256" using v by simp
  note s1 = unat_succ_small[OF this]
  have "unat (?v + 1) < 256" using s1(1) v by simp
  note s2 = unat_succ_small[OF this]
  show ?thesis
    using v l s1 s2
    by (simp add: conn_add_def conn_write_def Let_def atomic_defs CONNECTIONS_def slot_chan_def)
qed

section \<open>Two ends of a connection\<close>

text \<open>
  The ends are the booleans. \<open>wire p\<close> holds the frames on their way to end \<open>p\<close>, \<open>srv p\<close> is the
  state of the handler there, and \<open>answers\<close> collects what was handed to callers. A caller is one
  call of \<open>WriteAndReceive\<close>, with argument \<open>arg c\<close> and the zero reply \<open>rep0\<close>.
\<close>

record ('j, 'c, 's) link =
  conn :: "bool \<Rightarrow> ('j, 'c) wsconn"
  wire :: "bool \<Rightarrow> 'j frame list"
  srv :: "bool \<Rightarrow> 's"
  answers :: "(bool \<times> 'c \<times> 'j frame) list"

definition received :: "bool \<Rightarrow> ('c, 'j) delivery \<Rightarrow> (bool \<times> 'c \<times> 'j frame) list" where
  "received p d = (case d of Answered \<Rightarrow> [] | Delivered c g \<Rightarrow> [(p, c, g)])"

inductive link_step ::
  "('j option \<Rightarrow> 'a option) \<Rightarrow> ('r \<Rightarrow> 'j) \<Rightarrow> (bool \<Rightarrow> 'a \<Rightarrow> 's \<Rightarrow> 'r \<times> 's) \<Rightarrow> ('c \<Rightarrow> 'j) \<Rightarrow> 'j
   \<Rightarrow> ('j, 'c, 's) link \<Rightarrow> ('j, 'c, 's) link \<Rightarrow> bool"
  for decode encode handle arg rep0 where
  call: "link_step decode encode handle arg rep0 l (l\<lparr>conn := (conn l)(p := w)\<rparr>)"
    if "WriteAndReceive_begin c (arg c) rep0 (conn l p) = Inr (Some w)"
      "aRunningConnections (conn l p) ! next_slot (conn l p) = []"
| send: "link_step decode encode handle arg rep0 l
      (l\<lparr>conn := (conn l)(p := w), wire := (wire l)((\<not> p) := wire l (\<not> p) @ [f])\<rparr>)"
    if "wsWriter (conn l p) = Inr (f, w)"
| read: "link_step decode encode handle arg rep0 l
      (l\<lparr>conn := (conn l)(p := w), wire := (wire l)(p := fs), srv := (srv l)(p := s),
         answers := answers l @ received p d\<rparr>)"
    if "wire l p = f # fs" "wsReader decode encode (handle p) f (conn l p) (srv l p) = Inr (w, s, d)"

inductive link_reach ::
  "('j option \<Rightarrow> 'a option) \<Rightarrow> ('r \<Rightarrow> 'j) \<Rightarrow> (bool \<Rightarrow> 'a \<Rightarrow> 's \<Rightarrow> 'r \<times> 's) \<Rightarrow> ('c \<Rightarrow> 'j) \<Rightarrow> 'j
   \<Rightarrow> ('j, 'c, 's) link \<Rightarrow> bool"
  for decode encode handle arg rep0 where
  start: "link_reach decode encode handle arg rep0 l"
    if "StartRPCMode NewWsConnection = Some w" "conn l = (\<lambda>_. w)" "wire l = (\<lambda>_. [])" "answers l = []"
| step: "link_reach decode encode handle arg rep0 l'"
    if "link_reach decode encode handle arg rep0 l" "link_step decode encode handle arg rep0 l l'"

text \<open>What the call \<open>c\<close> may be answered with: the handler's reply to its argument, in some state.\<close>

definition right_answer ::
  "('j option \<Rightarrow> 'a option) \<Rightarrow> ('r \<Rightarrow> 'j) \<Rightarrow> (bool \<Rightarrow> 'a \<Rightarrow> 's \<Rightarrow> 'r \<times> 's) \<Rightarrow> ('c \<Rightarrow> 'j) \<Rightarrow> 'j
   \<Rightarrow> bool \<Rightarrow> 'c \<Rightarrow> 'j frame \<Rightarrow> bool" where
  "right_answer decode encode handle arg rep0 q c g \<longleftrightarrow>
     (case decode (Some (arg c)) of
        None \<Rightarrow> frame_Reply g = Some rep0
      | Some a \<Rightarrow> \<exists>s. frame_Reply g = Some (encode (fst (handle q a s))))"

section \<open>Every answer reaches its caller\<close>

text \<open>Slots and the frames that name them, in general: a slot has at most one caller, each frame is
  about the caller of its slot, and no two frames are about the same slot.\<close>

definition slot_of :: "'j frame \<Rightarrow> nat" where "slot_of f = unat (frame_Idx f)"

definition slots_ok :: "('j frame \<Rightarrow> 'c \<Rightarrow> bool) \<Rightarrow> 'j frame multiset \<Rightarrow> 'c list list \<Rightarrow> bool" where
  "slots_ok good M run \<longleftrightarrow> length run = CONNECTIONS
    \<and> (\<forall>i < CONNECTIONS. size {#f \<in># M. slot_of f = i#} \<le> length (run ! i) \<and> length (run ! i) \<le> 1)
    \<and> (\<forall>f \<in># M. slot_of f < CONNECTIONS \<and> (\<exists>c. run ! slot_of f = [c] \<and> good f c))"

lemma filter_none: "{#x \<in># M. P x#} = {#} \<longleftrightarrow> (\<forall>x \<in># M. \<not> P x)"
  by (auto simp flip: set_mset_eq_empty_iff)

lemma slots_take:
  assumes "slots_ok good M run" "run ! i = []" "i < CONNECTIONS"
  shows "slots_ok good M (run[i := [c]])"
    and "slot_of f = i \<Longrightarrow> good f c \<Longrightarrow> slots_ok good (add_mset f M) (run[i := [c]])"
proof -
  have other: "g \<in># M \<Longrightarrow> slot_of g \<noteq> i" for g
    using assms by (auto simp: slots_ok_def)
  have none: "{#f \<in># M. slot_of f = i#} = {#}"
    using other by (auto simp: filter_none)
  show 1: "slots_ok good M (run[i := [c]])"
    using assms other by (auto simp: slots_ok_def nth_list_update none)
  show "slot_of f = i \<Longrightarrow> good f c \<Longrightarrow> slots_ok good (add_mset f M) (run[i := [c]])"
    using 1 assms(3) other by (auto simp: slots_ok_def nth_list_update none)
qed

lemma slots_replace:
  assumes "slots_ok good (add_mset f M) run" "slot_of f' = slot_of f" "\<And>c. good f c \<Longrightarrow> good f' c"
  shows "slots_ok good (add_mset f' M) run"
  using assms by (auto simp: slots_ok_def)

lemma slots_free:
  assumes "slots_ok good (add_mset f M) run" "run ! slot_of f = [c]"
  shows "slots_ok good M (run[slot_of f := []])" "good f c"
proof -
  have i: "slot_of f < CONNECTIONS" "length run = CONNECTIONS" using assms(1) by (auto simp: slots_ok_def)
  then have "size {#g \<in># add_mset f M. slot_of g = slot_of f#} \<le> length (run ! slot_of f)"
    using assms(1) by (auto simp: slots_ok_def)
  then have none: "{#g \<in># M. slot_of g = slot_of f#} = {#}" using assms(2) by simp
  then have other: "g \<in># M \<Longrightarrow> slot_of g \<noteq> slot_of f" for g
    by (auto simp: filter_none)
  show "good f c" using assms by (auto simp: slots_ok_def)
  have "size {#g \<in># M. slot_of g = j#} \<le> length (run ! j)" if "j < CONNECTIONS" "j \<noteq> slot_of f" for j
    using assms(1) that by (auto simp: slots_ok_def dest!: spec[of _ j])
  then show "slots_ok good M (run[slot_of f := []])"
    using assms(1) i none by (auto simp: slots_ok_def nth_list_update dest: other)
qed

text \<open>The frames about the calls of end \<open>p\<close>: its requests, and the replies to them.\<close>

definition about :: "bool \<Rightarrow> ('j, 'c, 's) link \<Rightarrow> 'j frame multiset" where
  "about p l = {#f \<in># mset (writeChnl (conn l p)) + mset (wire l (\<not> p)). MsgType f = NEEDREPLY#}
    + {#f \<in># mset (writeChnl (conn l (\<not> p))) + mset (wire l p). MsgType f \<noteq> NEEDREPLY#}"

definition right_frame ::
  "('j option \<Rightarrow> 'a option) \<Rightarrow> ('r \<Rightarrow> 'j) \<Rightarrow> (bool \<Rightarrow> 'a \<Rightarrow> 's \<Rightarrow> 'r \<times> 's) \<Rightarrow> ('c \<Rightarrow> 'j) \<Rightarrow> 'j
   \<Rightarrow> bool \<Rightarrow> 'j frame \<Rightarrow> 'c \<Rightarrow> bool" where
  "right_frame decode encode handle arg rep0 q f c \<longleftrightarrow> frame_Args f = Some (arg c)
    \<and> (if MsgType f = NEEDREPLY then frame_Reply f = Some rep0
       else right_answer decode encode handle arg rep0 q c f)"

definition link_inv ::
  "('j option \<Rightarrow> 'a option) \<Rightarrow> ('r \<Rightarrow> 'j) \<Rightarrow> (bool \<Rightarrow> 'a \<Rightarrow> 's \<Rightarrow> 'r \<times> 's) \<Rightarrow> ('c \<Rightarrow> 'j) \<Rightarrow> 'j
   \<Rightarrow> ('j, 'c, 's) link \<Rightarrow> bool" where
  "link_inv decode encode handle arg rep0 l \<longleftrightarrow>
     (\<forall>p. conn_wf (conn l p) \<and> AtBool_Load (grpcMode (conn l p))
       \<and> slots_ok (right_frame decode encode handle arg rep0 (\<not> p)) (about p l) (aRunningConnections (conn l p)))
     \<and> (\<forall>(p, c, g) \<in> set (answers l). right_answer decode encode handle arg rep0 (\<not> p) c g)"

lemma bool_sides: "(\<forall>q. P q) \<longleftrightarrow> P p \<and> P (\<not> p)"
  by (cases p) (auto simp: all_bool_eq)

lemma mset_try_send:
  "mset (chan_try_send n f ch) = mset ch \<or> mset (chan_try_send n f ch) = add_mset f (mset ch)"
  by (simp add: chan_try_send_cases)

lemma call_inv:
  assumes "link_inv decode encode handle arg rep0 l"
    and "WriteAndReceive_begin c (arg c) rep0 (conn l p) = Inr (Some w)"
    and "aRunningConnections (conn l p) ! next_slot (conn l p) = []"
  shows "link_inv decode encode handle arg rep0 (l\<lparr>conn := (conn l)(p := w)\<rparr>)"
proof -
  let ?G = "right_frame decode encode handle arg rep0"
  have wf: "conn_wf (conn l p)" "AtBool_Load (grpcMode (conn l p))"
    and ok: "slots_ok (?G (\<not> p)) (about p l) (aRunningConnections (conn l p))"
    using assms(1) by (auto simp: link_inv_def)
  let ?f = "call_frame (conn l p) (arg c) rep0"
  from begin_eq[OF wf, of c "arg c" rep0] assms(2)
  have w: "conn_wf w" "grpcMode w = grpcMode (conn l p)"
    "writeChnl w = chan_try_send WRITELOGS ?f (writeChnl (conn l p))"
    "aRunningConnections w = (aRunningConnections (conn l p))[next_slot (conn l p) := [c]]"
    using assms(3) by auto
  have slot: "next_slot (conn l p) < CONNECTIONS" by (simp add: next_slot_def CONNECTIONS_def)
  have f: "slot_of ?f = next_slot (conn l p)" "?G (\<not> p) ?f c" "MsgType ?f = NEEDREPLY"
    using slot by (auto simp: slot_of_def call_frame_def right_frame_def CONNECTIONS_def unat_of_nat take_bit_eq_mod)
  let ?l = "l\<lparr>conn := (conn l)(p := w)\<rparr>"
  have "about p ?l = about p l \<or> about p ?l = add_mset ?f (about p l)"
    using mset_try_send[of WRITELOGS ?f "writeChnl (conn l p)"] f(3) by (auto simp: about_def w(3))
  moreover have "about (\<not> p) ?l = about (\<not> p) l"
    using f(3) by (auto simp: about_def w(3) chan_try_send_cases)
  ultimately show ?thesis
    using assms(1) w wf slots_take[OF ok assms(3) slot] f
    unfolding link_inv_def bool_sides[of _ p] by auto
qed

lemma send_inv:
  assumes "link_inv decode encode handle arg rep0 l" "wsWriter (conn l p) = Inr (f, w)"
  shows "link_inv decode encode handle arg rep0
    (l\<lparr>conn := (conn l)(p := w), wire := (wire l)((\<not> p) := wire l (\<not> p) @ [f])\<rparr>)"
proof -
  let ?l = "l\<lparr>conn := (conn l)(p := w), wire := (wire l)((\<not> p) := wire l (\<not> p) @ [f])\<rparr>"
  have w: "writeChnl (conn l p) = f # writeChnl w" "aRunningConnections w = aRunningConnections (conn l p)"
    "grpcMode w = grpcMode (conn l p)" "uRunningConnections w = uRunningConnections (conn l p)"
    using assms(2) by (auto simp: wsWriter_def chan_recv_Inr)
  have "about p ?l = about p l" "about (\<not> p) ?l = about (\<not> p) l"
    by (auto simp: about_def w(1))
  then show ?thesis
    using assms(1) w unfolding link_inv_def bool_sides[of _ p] by (auto simp: conn_wf_def)
qed

lemma wsReader_request:
  assumes "wsReader decode encode handle f w s = Inr (w', s', d)" "MsgType f = NEEDREPLY"
  shows "\<exists>g. writeChnl w' = writeChnl w @ [g] \<and> MsgType g = REPLY \<and> slot_of g = slot_of f
    \<and> frame_Args g = frame_Args f \<and> w' = w\<lparr>writeChnl := writeChnl w @ [g]\<rparr> \<and> d = Answered
    \<and> frame_Reply g = (case decode (frame_Args f) of None \<Rightarrow> frame_Reply f
                       | Some a \<Rightarrow> Some (encode (fst (handle a s))))"
  using assms by (auto simp: wsReader_def chan_send_Inr slot_of_def Let_def split_beta split: option.splits)

lemma wsReader_reply:
  assumes "wsReader decode encode handle f w s = Inr (w', s', d)" "MsgType f \<noteq> NEEDREPLY"
  shows "\<exists>c rest. slot_of f < length (aRunningConnections w) \<and> aRunningConnections w ! slot_of f = c # rest
    \<and> w' = w\<lparr>aRunningConnections := (aRunningConnections w)[slot_of f := rest]\<rparr> \<and> d = Delivered c f"
  using assms by (auto simp: wsReader_def slot_chan_def chan_recv_Inr slot_of_def Let_def split: if_splits)

lemma read_request_inv:
  assumes inv: "link_inv decode encode handle arg rep0 l" and "wire l p = f # fs" "MsgType f = NEEDREPLY"
    and "wsReader decode encode (handle p) f (conn l p) (srv l p) = Inr (w, s, d)"
  shows "link_inv decode encode handle arg rep0
    (l\<lparr>conn := (conn l)(p := w), wire := (wire l)(p := fs), srv := (srv l)(p := s),
       answers := answers l @ received p d\<rparr>)"
proof -
  let ?G = "right_frame decode encode handle arg rep0"
  let ?l = "l\<lparr>conn := (conn l)(p := w), wire := (wire l)(p := fs), srv := (srv l)(p := s),
       answers := answers l @ received p d\<rparr>"
  obtain g where g: "MsgType g = REPLY" "slot_of g = slot_of f" "frame_Args g = frame_Args f"
    "w = conn l p\<lparr>writeChnl := writeChnl (conn l p) @ [g]\<rparr>" "d = Answered"
    "frame_Reply g = (case decode (frame_Args f) of None \<Rightarrow> frame_Reply f
                       | Some a \<Rightarrow> Some (encode (fst (handle p a (srv l p)))))"
    using wsReader_request[OF assms(4,3)] by auto
  define M where "M = {#f \<in># mset (writeChnl (conn l (\<not> p))) + mset fs. MsgType f = NEEDREPLY#}
    + {#f \<in># mset (writeChnl (conn l p)) + mset (wire l (\<not> p)). MsgType f \<noteq> NEEDREPLY#}"
  have "about (\<not> p) l = add_mset f M" "about (\<not> p) ?l = add_mset g M" "about p ?l = about p l"
    using assms(2,3) g by (auto simp: about_def M_def msg_types)
  moreover have "?G p f c \<Longrightarrow> ?G p g c" for c
    using g assms(3) by (auto simp: right_frame_def right_answer_def msg_types split: option.splits)
  moreover have "slots_ok (?G p) (about (\<not> p) l) (aRunningConnections (conn l (\<not> p)))"
    using inv unfolding link_inv_def bool_sides[of _ p] by simp
  ultimately have "slots_ok (?G p) (about (\<not> p) ?l) (aRunningConnections (conn l (\<not> p)))"
    using slots_replace[OF _ g(2)] by metis
  then show ?thesis
    using inv g(4,5) \<open>about p ?l = about p l\<close> unfolding link_inv_def bool_sides[of _ p]
    by (auto simp: conn_wf_def received_def)
qed

lemma read_reply_inv:
  assumes inv: "link_inv decode encode handle arg rep0 l" and "wire l p = f # fs" "MsgType f \<noteq> NEEDREPLY"
    and "wsReader decode encode (handle p) f (conn l p) (srv l p) = Inr (w, s, d)"
  shows "link_inv decode encode handle arg rep0
    (l\<lparr>conn := (conn l)(p := w), wire := (wire l)(p := fs), srv := (srv l)(p := s),
       answers := answers l @ received p d\<rparr>)"
proof -
  let ?G = "right_frame decode encode handle arg rep0"
  let ?l = "l\<lparr>conn := (conn l)(p := w), wire := (wire l)(p := fs), srv := (srv l)(p := s),
       answers := answers l @ received p d\<rparr>"
  obtain c rest where c: "aRunningConnections (conn l p) ! slot_of f = c # rest"
    "w = conn l p\<lparr>aRunningConnections := (aRunningConnections (conn l p))[slot_of f := rest]\<rparr>" "d = Delivered c f"
    using wsReader_reply[OF assms(4,3)] by auto
  define M where "M = {#f \<in># mset (writeChnl (conn l p)) + mset (wire l (\<not> p)). MsgType f = NEEDREPLY#}
    + {#f \<in># mset (writeChnl (conn l (\<not> p))) + mset fs. MsgType f \<noteq> NEEDREPLY#}"
  have ab: "about p l = add_mset f M" "about p ?l = M" "about (\<not> p) ?l = about (\<not> p) l"
    using assms(2,3) c by (auto simp: about_def M_def)
  have ok: "slots_ok (?G (\<not> p)) (add_mset f M) (aRunningConnections (conn l p))"
    using inv ab(1) unfolding link_inv_def bool_sides[of _ p] by simp
  then have run: "aRunningConnections (conn l p) ! slot_of f = [c]" "rest = []"
    using c(1) by (auto simp: slots_ok_def)
  from slots_free[OF ok run(1)] run(2) show ?thesis
    using inv c(2,3) ab assms(3) unfolding link_inv_def bool_sides[of _ p]
    by (auto simp: conn_wf_def received_def right_frame_def)
qed

lemma link_reach_inv:
  "link_reach decode encode handle arg rep0 l \<Longrightarrow> link_inv decode encode handle arg rep0 l"
proof (induction rule: link_reach.induct)
  case (start w l)
  then have "conn_wf w" "AtBool_Load (grpcMode w)" "aRunningConnections w = replicate CONNECTIONS []" "writeChnl w = []"
    by (auto simp: StartRPCMode_def NewWsConnection_def start_goroutine_def atomic_defs conn_wf_def CONNECTIONS_def
        Let_def split: if_splits)
  then show ?case using start by (simp add: link_inv_def about_def slots_ok_def)
next
  case (step l l')
  from step(2,3) show ?case
    by (cases rule: link_step.cases)
      (auto intro: call_inv send_inv read_request_inv read_reply_inv)
qed

text \<open>C36: However calls from both ends, the writers and the readers are interleaved, and in whatever
  order they are answered: as long as a call finds its slot free, what a caller receives is the
  other end's reply to this caller's own argument, and decodes to it when JSON gives back what
  was encoded.\<close>
theorem ws_answers_match:
  assumes "link_reach decode encode handle (\<lambda>c. enc_arg (a c)) rep0 l" "(p, c, g) \<in> set (answers l)"
    and "decode (Some (enc_arg (a c))) = Some (a c)"
    and "\<forall>s. unmarshal (Some (encode (fst (handle (\<not> p) (a c) s)))) zr = (fst (handle (\<not> p) (a c) s), True)"
  shows "\<exists>s. WriteAndReceive_end unmarshal g zr = fst (handle (\<not> p) (a c) s)"
proof -
  have "right_answer decode encode handle (\<lambda>c. enc_arg (a c)) rep0 (\<not> p) c g"
    using link_reach_inv[OF assms(1)] assms(2) by (auto simp: link_inv_def)
  with assms(3,4) show ?thesis by (auto simp: right_answer_def WriteAndReceive_end_def)
qed

section \<open>One call\<close>

text \<open>A call with nothing else under way: the steps of both ends in order.\<close>

definition ws_exchange ::
  "('j option \<Rightarrow> 'a option) \<Rightarrow> ('r \<Rightarrow> 'j) \<Rightarrow> ('j option \<Rightarrow> 'r \<Rightarrow> 'r \<times> bool) \<Rightarrow> ('a \<Rightarrow> 's \<Rightarrow> 'r \<times> 's)
   \<Rightarrow> 'c \<Rightarrow> 'j \<Rightarrow> 'r \<Rightarrow> ('j, 'c) wsconn \<Rightarrow> ('j, 'c) wsconn \<Rightarrow> 's \<Rightarrow> ('r \<times> ('j, 'c) wsconn \<times> ('j, 'c) wsconn \<times> 's) go" where
  "ws_exchange decode encode unmarshal handle c arg zr w v s =
     go_bind (WriteAndReceive_begin c arg (encode zr) w) (\<lambda>b. case b of
       None \<Rightarrow> Inr (zr, w, v, s)
     | Some w \<Rightarrow>
         go_bind (wsWriter w) (\<lambda>(f, w).
         go_bind (wsReader decode encode handle f v s) (\<lambda>(v, s, d).
         go_bind (wsWriter v) (\<lambda>(g, v).
         go_bind (wsReader decode encode handle g w s) (\<lambda>(w, s, d).
         case d of
           Answered \<Rightarrow> Inr (zr, w, v, s)
         | Delivered c' obj \<Rightarrow> Inr (WriteAndReceive_end unmarshal obj zr, w, v, s))))))"

lemma exchange_run:
  assumes "conn_wf w" "writeChnl w = []" "writeChnl v = []" "aRunningConnections w ! next_slot w = []"
    and "decode (Some (enc_arg a)) = Some a"
    and "unmarshal (Some (encode (fst (handle a s)))) zr = (fst (handle a s), True)"
  shows "AtBool_Load (grpcMode w) \<Longrightarrow> \<exists>w'. ws_exchange decode encode unmarshal handle c (enc_arg a) zr w v s
        = Inr (fst (handle a s), w', v, snd (handle a s))
      \<and> conn_wf w' \<and> writeChnl w' = [] \<and> aRunningConnections w' = aRunningConnections w
      \<and> unat (AtU64_Load (uRunningConnections w')) = next_slot w"
    and "\<not> AtBool_Load (grpcMode w) \<Longrightarrow>
      ws_exchange decode encode unmarshal handle c (enc_arg a) zr w v s = Inr (zr, w, v, s)"
proof -
  assume "AtBool_Load (grpcMode w)"
  from begin_eq[OF assms(1) this, of c "enc_arg a" "encode zr"] obtain w1 where
    b: "WriteAndReceive_begin c (enc_arg a) (encode zr) w = Inr (Some w1)" and
    w1: "conn_wf w1" "unat (AtU64_Load (uRunningConnections w1)) = next_slot w"
    "writeChnl w1 = chan_try_send WRITELOGS (call_frame w (enc_arg a) (encode zr)) (writeChnl w)"
    "aRunningConnections w1 = (aRunningConnections w)[next_slot w := aRunningConnections w ! next_slot w @ [c]]"
    by blast
  have slot: "next_slot w < length (aRunningConnections w)" "unat (of_nat (next_slot w) :: 64 word) = next_slot w"
    using assms(1) by (simp_all add: conn_wf_def next_slot_def CONNECTIONS_def unat_of_nat take_bit_eq_mod)
  have ch: "writeChnl w1 = [call_frame w (enc_arg a) (encode zr)]"
    using assms(2) by (simp add: w1(3) chan_try_send_cases WRITELOGS_def)
  show "\<exists>w'. ws_exchange decode encode unmarshal handle c (enc_arg a) zr w v s
        = Inr (fst (handle a s), w', v, snd (handle a s))
      \<and> conn_wf w' \<and> writeChnl w' = [] \<and> aRunningConnections w' = aRunningConnections w
      \<and> unat (AtU64_Load (uRunningConnections w')) = next_slot w"
    using w1(1,2,4) assms(3-6) slot
    by (cases "handle a s")
      (auto simp: ws_exchange_def b wsWriter_def ch wsReader_def call_frame_def chan_send_def WRITELOGS_def
        slot_chan_def WriteAndReceive_end_def conn_wf_def msg_types Let_def list_update_same_conv
        intro!: exI[of _ "w1\<lparr>writeChnl := [], aRunningConnections := aRunningConnections w\<rparr>"])
next
  show "\<not> AtBool_Load (grpcMode w) \<Longrightarrow>
      ws_exchange decode encode unmarshal handle c (enc_arg a) zr w v s = Inr (zr, w, v, s)"
    by (simp add: ws_exchange_def WriteAndReceive_begin_def)
qed

text \<open>In RPC mode a call returns, with the handler's reply to its argument, and leaves nothing
  behind but the advanced slot counter; in the other mode it returns at once with the reply as
  it was.\<close>
lemma ws_call_roundtrip:
  assumes "conn_wf w" "writeChnl w = []" "writeChnl v = []" "aRunningConnections w ! next_slot w = []"
    and "decode (Some (enc_arg a)) = Some a"
    and "unmarshal (Some (encode (fst (handle a s)))) zr = (fst (handle a s), True)"
  shows "(AtBool_Load (grpcMode w) \<longrightarrow> (\<exists>w'. ws_exchange decode encode unmarshal handle c (enc_arg a) zr w v s
          = Inr (fst (handle a s), w', v, snd (handle a s))
        \<and> conn_wf w' \<and> writeChnl w' = [] \<and> aRunningConnections w' = aRunningConnections w
        \<and> unat (AtU64_Load (uRunningConnections w')) = next_slot w))
    \<and> (\<not> AtBool_Load (grpcMode w) \<longrightarrow>
        ws_exchange decode encode unmarshal handle c (enc_arg a) zr w v s = Inr (zr, w, v, s))"
  by (intro conjI impI exchange_run[where enc_arg = enc_arg and decode = decode and a = a and encode = encode
        and unmarshal = unmarshal and handle = handle and s = s and zr = zr, OF assms])

text \<open>A call that finds the write channel full drops its frame and waits all the same: nothing on the
  way is about its slot.\<close>

lemma full_channel_drops:
  assumes "conn_wf w" "AtBool_Load (grpcMode w)" "length (writeChnl w) = WRITELOGS"
  shows "\<exists>w'. WriteAndReceive_begin c arg reply w = Inr (Some w') \<and> writeChnl w' = writeChnl w
    \<and> aRunningConnections w' = (aRunningConnections w)[next_slot w := aRunningConnections w ! next_slot w @ [c]]"
  using begin_eq[OF assms(1,2), of c arg reply] assms(3) by (auto simp: chan_try_send_cases)

definition ex_conn :: "(nat, nat) wsconn" where
  "ex_conn = NewWsConnection\<lparr>grpcMode := \<lparr>atbool_val = 1\<rparr>, raceTester := \<lparr>at32_val = 2\<rparr>\<rparr>"

lemma ex_conn:
  "StartRPCMode NewWsConnection = Some ex_conn" "conn_wf ex_conn" "AtBool_Load (grpcMode ex_conn)"
  "writeChnl ex_conn = []" "aRunningConnections ex_conn = replicate CONNECTIONS []" "next_slot ex_conn = 1"
  by (simp_all add: ex_conn_def StartRPCMode_def NewWsConnection_def start_goroutine_def atomic_defs conn_wf_def
      CONNECTIONS_def next_slot_def Let_def)

lemma ws_call_roundtrip_run:
  "\<exists>w'. ws_exchange id id (\<lambda>j r. (case j of None \<Rightarrow> r | Some x \<Rightarrow> x, True)) (\<lambda>a s. (a + s, a)) (0::nat) (5::nat) 0
      ex_conn ex_conn (3::nat) = Inr (8, w', ex_conn, 5)"
  using ws_call_roundtrip[of ex_conn ex_conn id "\<lambda>x. x" 5 "\<lambda>j r. (case j of None \<Rightarrow> r | Some x \<Rightarrow> x, True)" id
      "\<lambda>a s. (a + s, a)" 3 0 0]
  by (auto simp: ex_conn CONNECTIONS_def)

definition ex_link :: "(nat, nat, nat) link" where
  "ex_link = \<lparr>conn = (\<lambda>_. ex_conn), wire = (\<lambda>_. []), srv = (\<lambda>_. 3), answers = []\<rparr>"

lemma ex_link_answered:
  "\<exists>l g. link_reach id id (\<lambda>_ a s. (a + s, a)) (\<lambda>c. c) (0::nat) (l :: (nat, nat, nat) link) \<and> (True, 5, g) \<in> set (answers l)"
proof -
  let ?R = "link_reach id id (\<lambda>_ a s. (a + s, a)) (\<lambda>c. c) (0::nat) :: (nat, nat, nat) link \<Rightarrow> bool"
  let ?S = "link_step id id (\<lambda>_ a s. (a + s, a)) (\<lambda>c. c) (0::nat) :: (nat, nat, nat) link \<Rightarrow> _"
  have zr: "?R ex_link" by (rule start[OF ex_conn(1)]) (simp_all add: ex_link_def)
  obtain w1 where w1: "WriteAndReceive_begin 5 5 0 ex_conn = Inr (Some w1)"
    "writeChnl w1 = chan_try_send WRITELOGS (call_frame ex_conn 5 0) []"
    "aRunningConnections w1 = (replicate CONNECTIONS [])[1 := replicate CONNECTIONS [] ! 1 @ [5]]"
    using begin_eq[OF ex_conn(2,3), of 5 5 0] unfolding ex_conn(4-6) by auto
  let ?f = "call_frame ex_conn 5 (0::nat)"
  define w2 where "w2 = w1\<lparr>writeChnl := []\<rparr>"
  let ?g = "?f\<lparr>MsgType := REPLY, frame_Reply := Some 8\<rparr>"
  let ?l1 = "ex_link\<lparr>conn := (conn ex_link)(True := w1)\<rparr>"
  have r1: "?R ?l1"
    by (rule step[OF zr call[where c = 5]]) (simp_all add: ex_link_def w1(1) ex_conn CONNECTIONS_def)
  have f: "wsWriter w1 = Inr (?f, w2)"
    by (simp add: wsWriter_def w1(2) chan_try_send_cases WRITELOGS_def w2_def)
  let ?l2 = "?l1\<lparr>conn := (conn ?l1)(True := w2), wire := (wire ?l1)((\<not> True) := wire ?l1 (\<not> True) @ [?f])\<rparr>"
  have r2: "?R ?l2" by (rule step[OF r1 send]) (simp add: f)
  let ?v = "ex_conn\<lparr>writeChnl := [?g]\<rparr>"
  have h: "wsReader id id (\<lambda>a s. (a + s, a)) ?f ex_conn 3 = Inr (?v, 5, Answered)"
    by (simp add: wsReader_def call_frame_def msg_types chan_send_def WRITELOGS_def ex_conn(4) Let_def)
  let ?l3 = "?l2\<lparr>conn := (conn ?l2)(False := ?v), wire := (wire ?l2)(False := []), srv := (srv ?l2)(False := 5),
      answers := answers ?l2 @ received False Answered\<rparr>"
  have r3: "?R ?l3" using h by (intro step[OF r2 read[where f = ?f]]) (simp_all add: ex_link_def)
  have f2: "wsWriter ?v = Inr (?g, ?v\<lparr>writeChnl := []\<rparr>)" by (simp add: wsWriter_def)
  let ?l4 = "?l3\<lparr>conn := (conn ?l3)(False := ?v\<lparr>writeChnl := []\<rparr>),
      wire := (wire ?l3)((\<not> False) := wire ?l3 (\<not> False) @ [?g])\<rparr>"
  have r4: "?R ?l4" by (rule step[OF r3 send]) (simp add: f2)
  have h2: "wsReader id id (\<lambda>a s. (a + s, a)) ?g w2 3
      = Inr (w2\<lparr>aRunningConnections := (aRunningConnections w2)[1 := []]\<rparr>, 3, Delivered 5 ?g)"
    by (simp add: wsReader_def slot_chan_def call_frame_def msg_types ex_conn(6) w2_def w1(3) CONNECTIONS_def Let_def)
  have r5: "?R (?l4\<lparr>conn := (conn ?l4)(True := w2\<lparr>aRunningConnections := (aRunningConnections w2)[1 := []]\<rparr>),
      wire := (wire ?l4)(True := []), srv := (srv ?l4)(True := 3), answers := answers ?l4 @ received True (Delivered 5 ?g)\<rparr>)"
    using h2 by (intro step[OF r4 read[where f = ?g]]) (simp_all add: ex_link_def)
  show ?thesis by (intro exI[of _ ?g] exI conjI, rule r5) (simp add: received_def)
qed

theorem ws_answers_match_witness:
  "\<exists>l g s. link_reach id id (\<lambda>_ a s. (a + s, a)) (\<lambda>c. c) (0::nat) (l :: (nat, nat, nat) link) \<and> (True, 5, g) \<in> set (answers l)
    \<and> WriteAndReceive_end (\<lambda>j r. (case j of None \<Rightarrow> r | Some x \<Rightarrow> x, True)) g (0::nat) = 5 + (s::nat)"
proof -
  obtain l g where l: "link_reach id id (\<lambda>_ a s. (a + s, a)) (\<lambda>c. c) (0::nat) (l :: (nat, nat, nat) link)" "(True, 5, g) \<in> set (answers l)"
    using ex_link_answered by blast
  obtain s :: nat where "WriteAndReceive_end (\<lambda>j r. (case j of None \<Rightarrow> r | Some x \<Rightarrow> x, True)) g (0::nat) = 5 + s"
    using ws_answers_match[OF l, where unmarshal = "\<lambda>j r. (case j of None \<Rightarrow> r | Some x \<Rightarrow> x, True)" and zr = 0]
    by auto
  with l show ?thesis by blast
qed

end
