(* ===== verification/WsLife.thy ===== *)
theory WsLife
  imports WsConn ControlData
begin

text \<open>
  The beginning and the end of a websocket connection (\<open>controller/data/wsconnection.go\<close>): the
  dialling, what \<open>getMethodArgType\<close> finds out about the handler of incoming requests and how the
  reader calls it, and \<open>Close\<close>. What \<open>reflect\<close> says of a Go type is the datatype \<open>go_type\<close>.

  After \<open>Close\<close> the socket gives an error to both goroutines: the reader ends the program
  (\<open>Logger.Fatal\<close>), the writer returns. A caller that waits is woken by the value \<open>struct{}{}\<close>, or,
  if another one waits on the same slot before it, by the zero value of the closed channel.
\<close>

section \<open>The handler's types\<close>

datatype go_type = Func_type "go_type list" | Ptr_type go_type | Other_type string

datatype method_error = No_method | Not_a_method | Parameters nat

definition elem_type :: "go_type \<Rightarrow> go_type" where
  "elem_type t = (case t of Ptr_type e \<Rightarrow> e | _ \<Rightarrow> t)"

definition getMethodArgType :: "go_type option \<Rightarrow> method_error + go_type \<times> go_type" where
  "getMethodArgType f =
     (case f of
        None \<Rightarrow> Inl No_method
      | Some (Func_type ins) \<Rightarrow>
          if length ins \<noteq> 2 \<and> length ins \<noteq> 3 then Inl (Parameters (length ins))
          else Inr (elem_type (ins ! (length ins - 2)), elem_type (ins ! (length ins - 1)))
      | Some _ \<Rightarrow> Inl Not_a_method)"

record 'v rpc_mode =
  incomingType :: "go_type option"
  outgoingType :: "go_type option"
  actualParameterValues :: "'v list"
  autoReply :: AtBool
  autoReplyVal :: "'v option"
  readChnl :: "'v list"

definition no_mode :: "'v rpc_mode" where
  "no_mode = \<lparr>incomingType = None, outgoingType = None, actualParameterValues = [],
     autoReply = \<lparr>atbool_val = 0\<rparr>, autoReplyVal = None, readChnl = []\<rparr>"

text \<open>All of \<open>StartRPCMode\<close>: a handler it cannot take leaves the connection as it was.\<close>

definition StartRPCMode_with :: "go_type option \<Rightarrow> 'v list \<Rightarrow> ('j, 'c) wsconn \<Rightarrow> 'v rpc_mode
    \<Rightarrow> (('j, 'c) wsconn \<times> 'v rpc_mode) option" where
  "StartRPCMode_with f capture w m =
     (case getMethodArgType f of
        Inl e \<Rightarrow> Some (w, m)
      | Inr (argType, replyType) \<Rightarrow>
          map_option (\<lambda>w'. (w', m\<lparr>incomingType := Some argType, outgoingType := Some replyType,
              actualParameterValues := capture\<rparr>)) (StartRPCMode w))"

text \<open>The arguments of \<open>method.Call\<close>; \<open>reflect\<close> panics when there are not as many as parameters.\<close>

definition call_parameters :: "'v rpc_mode \<Rightarrow> 'v \<Rightarrow> 'v \<Rightarrow> 'v list" where
  "call_parameters m incoming outgoing =
     (let paraLength = length (actualParameterValues m) + 2;
          parameters = actualParameterValues m @ replicate 2 incoming
      in parameters[paraLength - 2 := incoming, paraLength - 1 := outgoing])"

lemma call_parameters_eq: "call_parameters m a r = actualParameterValues m @ [a, r]"
  by (simp add: call_parameters_def Let_def numeral_2_eq_2 list_update_append)

lemma StartRPCMode_refuses:
  "StartRPCMode_with f capture w m = Some (w, m)" if "getMethodArgType f = Inl e"
  using that by (simp add: StartRPCMode_with_def)

text \<open>A new connection takes a handler of two or three parameters, and calls it with as many
  arguments exactly if a receiver was captured for the third.\<close>

lemma StartRPCMode_new:
  assumes "length ins = 2 \<or> length ins = 3"
  shows "\<exists>(w :: ('j, 'c) wsconn) m. StartRPCMode_with (Some (Func_type ins)) capture NewWsConnection no_mode = Some (w, m)
    \<and> AtBool_Load (grpcMode w) \<and> conn_wf w
    \<and> incomingType m = Some (elem_type (ins ! (length ins - 2))) \<and> outgoingType m = Some (elem_type (last ins))
    \<and> (\<forall>a r. length (call_parameters m a r) = length ins \<longleftrightarrow> length capture + 2 = length ins)"
proof -
  obtain w :: "('j, 'c) wsconn" where "StartRPCMode NewWsConnection = Some w" "AtBool_Load (grpcMode w)" "conn_wf w"
    by (simp add: StartRPCMode_def NewWsConnection_def start_goroutine_def atomic_defs conn_wf_def CONNECTIONS_def Let_def)
  moreover have "ins \<noteq> []" using assms by auto
  ultimately show ?thesis using assms
    by (auto simp: StartRPCMode_with_def getMethodArgType_def no_mode_def call_parameters_eq last_conv_nth)
qed

text \<open>The automatic reply, which no reader looks at, and a receive from the read channel, which nobody
  sends to: it waits forever.\<close>

definition SetAutoReply :: "'v \<Rightarrow> 'v rpc_mode \<Rightarrow> 'v rpc_mode" where
  "SetAutoReply reply m = m\<lparr>autoReply := AtBool_Set (autoReply m) True, autoReplyVal := Some reply\<rparr>"

definition StopAutoReply :: "'v rpc_mode \<Rightarrow> 'v rpc_mode" where
  "StopAutoReply m = m\<lparr>autoReply := AtBool_Set (autoReply m) False\<rparr>"

definition ReceiveMust :: "'v rpc_mode \<Rightarrow> 'v rpc_mode go" where
  "ReceiveMust m = go_bind (chan_recv (readChnl m)) (\<lambda>(reply, ch). Inr (m\<lparr>readChnl := ch\<rparr>))"

lemma ReceiveMust_waits:
  "readChnl no_mode = []" "readChnl (SetAutoReply r m) = readChnl m" "readChnl (StopAutoReply m) = readChnl m"
  "StartRPCMode_with f capture w m = Some (w', m') \<Longrightarrow> readChnl m' = readChnl m"
  "readChnl m = [] \<Longrightarrow> ReceiveMust m = Inl Blocked"
  by (auto simp: no_mode_def SetAutoReply_def StopAutoReply_def ReceiveMust_def StartRPCMode_with_def split: sum.splits)

definition DialNewWSConnection :: "(url \<Rightarrow> 'ws option) \<Rightarrow> url \<Rightarrow> ('ws \<times> ('j, 'c) wsconn) option" where
  "DialNewWSConnection dial bURL = (case dial bURL of None \<Rightarrow> None | Some c \<Rightarrow> Some (c, NewWsConnection))"

section \<open>Close\<close>

record ('j, 'c) socket =
  sock :: "('j, 'c) wsconn"
  chans_closed :: bool
  slots_closed :: "bool list"

definition open_socket :: "('j, 'c) wsconn \<Rightarrow> ('j, 'c) socket" where
  "open_socket w = \<lparr>sock = w, chans_closed = False, slots_closed = replicate CONNECTIONS False\<rparr>"

datatype 'j slot_value = Empty_struct | Closed_zero | Reply_frame "'j frame"

text \<open>The type assertion behind the receive of \<open>WriteAndReceive\<close>.\<close>

definition as_connection :: "'j slot_value \<Rightarrow> 'j frame go" where
  "as_connection v = (case v of Reply_frame obj \<Rightarrow> Inr obj | _ \<Rightarrow> Inl BadAssertion)"

definition wake_slot :: "'c list \<Rightarrow> ('c \<times> 'j slot_value) list" where
  "wake_slot waiting = (case waiting of [] \<Rightarrow> [] | c # cs \<Rightarrow> (c, Empty_struct) # map (\<lambda>d. (d, Closed_zero)) cs)"

definition Close :: "('j, 'c) socket \<Rightarrow> (('j, 'c) socket \<times> ('c \<times> 'j slot_value) list) go" where
  "Close s =
     (if chans_closed s then Inl ClosedChannel
      else
        (let w = sock s; running = aRunningConnections w in
         Inr (s\<lparr>sock := w\<lparr>aRunningConnections := map (\<lambda>_. []) running,
                   uRunningConnections := AtU64_Set (uRunningConnections w) 0\<rparr>,
                chans_closed := True,
                slots_closed := map2 (\<lambda>waiting b. b \<or> waiting \<noteq> []) running (slots_closed s)\<rparr>,
              concat (map wake_slot running))))"

text \<open>A send to a closed channel panics, also in a select with a default.\<close>

definition WriteAndReceive_socket :: "'c \<Rightarrow> 'j \<Rightarrow> 'j \<Rightarrow> ('j, 'c) socket \<Rightarrow> ('j, 'c) socket option go" where
  "WriteAndReceive_socket caller arg reply s =
     go_bind (WriteAndReceive_begin caller arg reply (sock s)) (\<lambda>r.
       case r of
         None \<Rightarrow> Inr None
       | Some w \<Rightarrow> if chans_closed s then Inl ClosedChannel else Inr (Some (s\<lparr>sock := w\<rparr>)))"

lemma wake_slot_callers: "map fst (wake_slot cs) = cs"
  by (auto simp: wake_slot_def o_def split: list.split)

lemma wake_slot_panics: "(c, v) \<in> set (wake_slot cs) \<Longrightarrow> as_connection v = Inl BadAssertion"
  by (auto simp: wake_slot_def as_connection_def split: list.splits)

text \<open>Closing wakes every caller that waits, and every one of them panics; when nobody waits, nobody
  does. Afterwards each call in RPC mode panics, and so does closing again.\<close>

lemma Close_outcome:
  assumes "\<not> chans_closed s" "conn_wf (sock s)"
  shows "\<exists>s' woken. Close s = Inr (s', woken)
    \<and> map fst woken = concat (aRunningConnections (sock s))
    \<and> (\<forall>(c, v) \<in> set woken. as_connection v = Inl BadAssertion)
    \<and> conn_wf (sock s') \<and> concat (aRunningConnections (sock s')) = [] \<and> grpcMode (sock s') = grpcMode (sock s)
    \<and> (AtBool_Load (grpcMode (sock s)) \<longrightarrow> (\<forall>c arg reply. WriteAndReceive_socket c arg reply s' = Inl ClosedChannel))
    \<and> Close s' = Inl ClosedChannel"
proof -
  let ?w = "(sock s)\<lparr>aRunningConnections := map (\<lambda>_. []) (aRunningConnections (sock s)),
      uRunningConnections := AtU64_Set (uRunningConnections (sock s)) 0\<rparr>"
  let ?s = "s\<lparr>sock := ?w, chans_closed := True,
      slots_closed := map2 (\<lambda>waiting b. b \<or> waiting \<noteq> []) (aRunningConnections (sock s)) (slots_closed s)\<rparr>"
  let ?woken = "concat (map wake_slot (aRunningConnections (sock s))) :: ('b \<times> 'a slot_value) list"
  have c: "Close s = Inr (?s, ?woken)" using assms(1) by (simp add: Close_def Let_def)
  have wf: "conn_wf ?w" using assms(2) by (simp add: conn_wf_def atomic_defs CONNECTIONS_def)
  have woken: "map fst ?woken = concat (aRunningConnections (sock s))"
    by (simp add: map_concat o_def wake_slot_callers)
  have panics: "\<forall>(c, v) \<in> set ?woken. as_connection v = Inl BadAssertion"
    using wake_slot_panics by fastforce
  have "WriteAndReceive_socket c arg reply ?s = Inl ClosedChannel" if "AtBool_Load (grpcMode (sock s))" for c arg reply
    using begin_eq[OF wf, of c arg reply] that by (auto simp: WriteAndReceive_socket_def)
  moreover have "Close ?s = Inl ClosedChannel" by (simp add: Close_def)
  moreover have "concat (aRunningConnections ?w) = []" by simp
  ultimately show ?thesis using c wf woken panics
    by (intro exI[of _ ?s] exI[of _ ?woken]) simp
qed

text \<open>A connection that is not closed works as in \<open>WsConn\<close>.\<close>

lemma open_socket_call:
  "WriteAndReceive_socket c arg reply (open_socket w) =
     go_bind (WriteAndReceive_begin c arg reply w) (\<lambda>r. Inr (map_option open_socket r))"
  by (auto simp: WriteAndReceive_socket_def open_socket_def split: option.split intro!: go_bind_cong)

end
