(* ===== verification/MetricHost.thy ===== *)
theory MetricHost
  imports Metrics WsLife RaftControl
begin

text \<open>
  The metric controller as a server (\<open>controller/metricontroller.go\<close>): its address and routes, the
  two websocket handlers, and what a Raft server's report does when it arrives over the
  websocket that \<open>connectToMetricController\<close> of \<open>RaftControl\<close> dials. Whether the upgrade of a
  request to a websocket succeeds is an argument of the handlers. The state of counting is
  \<open>metric_controller\<close> of \<open>Metrics\<close>. Not modelled: echo's server behind \<open>StartEchoService\<close>.
\<close>

section \<open>State and operations\<close>

datatype ws_route = Server_reports | Web_clients

record ('j, 'c) metric_host =
  counting :: metric_controller
  serversWSConnections :: "('j, 'c) wsconn list"
  endConnections :: "('j, 'c) wsconn list"
  mh_Started :: AtBool
  mh_BoundMethods :: url_table
  mh_Addr :: string
  mh_routes :: "string \<rightharpoonup> ws_route"

definition rpcID_RPCCount :: string where "rpcID_RPCCount = ''MetricController.Metrics''"
definition webHostID_RPCCount :: string where "webHostID_RPCCount = ''WebHost.RPCCount''"

definition MakeMetricHost :: "string \<Rightarrow> int \<Rightarrow> ('j, 'c) metric_host" where
  "MakeMetricHost addr port =
     (let host = addr @ '':'' @ FormatInt port 10;
          baseURL = \<lparr>Scheme = ''http'', Host = host, Path = ''''\<rparr>
      in \<lparr>counting = MakeMetricController, serversWSConnections = [], endConnections = [],
          mh_Started = \<lparr>atbool_val = 0\<rparr>,
          mh_BoundMethods = [rpcID_RPCCount \<mapsto> baseURL\<lparr>Path := ''api/metric/v1/rpccount''\<rparr>,
            webHostID_RPCCount \<mapsto> baseURL\<lparr>Path := ''api/metric/v1/getrpccount''\<rparr>],
          mh_Addr = host, mh_routes = Map.empty\<rparr>)"

text \<open>The routes of \<open>Init\<close>, and the guard of \<open>StartEchoService\<close>.\<close>

definition StartEchoService :: "('j, 'c) metric_host \<Rightarrow> ('j, 'c) metric_host" where
  "StartEchoService h = (if AtBool_Load (mh_Started h) then h else h\<lparr>mh_Started := AtBool_Set (mh_Started h) True\<rparr>)"

definition Init_metric :: "('j, 'c) metric_host \<Rightarrow> ('j, 'c) metric_host" where
  "Init_metric h =
     StartEchoService (h\<lparr>mh_routes := (mh_routes h)
       (''/'' @ Path (url_of (mh_BoundMethods h) rpcID_RPCCount) \<mapsto> Server_reports,
        ''/'' @ Path (url_of (mh_BoundMethods h) webHostID_RPCCount) \<mapsto> Web_clients)\<rparr>)"

text \<open>The origin checks of \<open>metric.go\<close>. The upgrader takes \<open>COriginAll\<close>, so the table has no effect.\<close>

definition allowedOrigins :: "string \<rightharpoonup> bool" where
  "allowedOrigins = [''http://localhost:3000'' \<mapsto> True]"

definition COrigin :: "(string \<rightharpoonup> bool) \<Rightarrow> string \<Rightarrow> bool" where
  "COrigin origins header =
     (case origins header of Some allowed \<Rightarrow> allowed | None \<Rightarrow> False)"

definition COriginAll :: "string \<Rightarrow> bool" where
  "COriginAll header = True"

lemma origin_checks_differ: "COriginAll h \<noteq> COrigin allowedOrigins h \<longleftrightarrow> h \<noteq> ''http://localhost:3000''"
  by (auto simp: COriginAll_def COrigin_def allowedOrigins_def)

text \<open>The type of \<open>c.MetricUpdate\<close>.\<close>

definition metric_update_type :: go_type where
  "metric_update_type = Func_type [Other_type ''RPCArgs'', Ptr_type (Other_type ''RPCReply'')]"

text \<open>\<open>None\<close>: the third goroutine of a connection ends the program.\<close>

definition WSAPI_RPCCount :: "bool \<Rightarrow> ('j, 'c) metric_host \<Rightarrow> ('j, 'c) metric_host option" where
  "WSAPI_RPCCount upgraded h =
     (if \<not> upgraded then Some h
      else (case StartRPCMode_with (Some metric_update_type) [] NewWsConnection (no_mode :: unit rpc_mode) of
              None \<Rightarrow> None
            | Some (wsconn, m) \<Rightarrow> Some (h\<lparr>serversWSConnections := serversWSConnections h @ [wsconn]\<rparr>)))"

definition WSWebHost_GetRPCCount :: "bool \<Rightarrow> ('j, 'c) metric_host \<Rightarrow> ('j, 'c) metric_host option" where
  "WSWebHost_GetRPCCount upgraded h =
     (if \<not> upgraded then Some h
      else (case start_goroutine NewWsConnection of
              None \<Rightarrow> None
            | Some wsconn \<Rightarrow> Some (h\<lparr>endConnections := endConnections h @ [wsconn], counting := join_client (counting h)\<rparr>)))"

text \<open>A websocket request for a path, as the router hands it on; \<open>None\<close> inside: no such route.\<close>

definition serve_ws :: "string \<Rightarrow> ('j, 'c) metric_host \<Rightarrow> ('j, 'c) metric_host option" where
  "serve_ws path h =
     (case mh_routes h path of
        None \<Rightarrow> Some h
      | Some Server_reports \<Rightarrow> WSAPI_RPCCount True h
      | Some Web_clients \<Rightarrow> WSWebHost_GetRPCCount True h)"

section \<open>Who is served where\<close>

lemma FormatInt_Itoa: "FormatInt i 10 = Itoa i"
  by (simp add: Itoa_def)

lemma metric_routes:
  "mh_routes (Init_metric (MakeMetricHost addr port)) =
     [''/api/metric/v1/rpccount'' \<mapsto> Server_reports, ''/api/metric/v1/getrpccount'' \<mapsto> Web_clients]"
  "mh_Addr (Init_metric (MakeMetricHost addr port)) = full_addr addr port"
  by (simp_all add: Init_metric_def MakeMetricHost_def StartEchoService_def Let_def url_of_def rpcID_RPCCount_def
      webHostID_RPCCount_def full_addr_def FormatInt_Itoa atomic_defs)

lemma handlers_never_fatal:
  "\<exists>w. StartRPCMode_with (Some metric_update_type) [] NewWsConnection no_mode = Some w
     \<and> AtBool_Load (grpcMode (fst w)) \<and> conn_wf (fst w) \<and> writeChnl (fst w) = []"
  by (simp add: StartRPCMode_with_def metric_update_type_def getMethodArgType_def StartRPCMode_def NewWsConnection_def
      start_goroutine_def atomic_defs conn_wf_def CONNECTIONS_def Let_def)

text \<open>Every request is served; each server's connection is ready for calls, and each web client has one
  connection and one queue.\<close>

definition host_ok :: "('j, 'c) metric_host \<Rightarrow> bool" where
  "host_ok h \<longleftrightarrow> (\<forall>w \<in> set (serversWSConnections h). AtBool_Load (grpcMode w) \<and> conn_wf w)
     \<and> length (endConnections h) = length (endClients (counting h))"

lemma serve_ws_ok:
  assumes "host_ok h"
  shows "\<exists>h'. serve_ws path h = Some h' \<and> host_ok h' \<and> mh_routes h' = mh_routes h \<and> metrics (counting h') = metrics (counting h)"
proof -
  obtain w where w: "StartRPCMode_with (Some metric_update_type) [] (NewWsConnection :: ('a, 'b) wsconn) (no_mode :: unit rpc_mode) = Some w"
    "AtBool_Load (grpcMode (fst w))" "conn_wf (fst w)" using handlers_never_fatal by blast
  have "\<exists>w. start_goroutine (NewWsConnection :: ('a, 'b) wsconn) = Some w"
    by (simp add: NewWsConnection_def start_goroutine_def atomic_defs Let_def)
  then show ?thesis using w assms
    by (cases w) (auto simp: serve_ws_def WSAPI_RPCCount_def WSWebHost_GetRPCCount_def join_client_def host_ok_def
        split: option.split ws_route.split)
qed

text \<open>The path that \<open>metric_cmd.go\<close> names for a web application is that of the Raft servers: who connects
  there is no end client, and is never shown the metrics.\<close>

lemma documented_path:
  assumes "serve_ws ''/api/metric/v1/rpccount'' (Init_metric (MakeMetricHost addr port)) = Some h"
  shows "endConnections h = [] \<and> endClients (counting h) = [] \<and> length (serversWSConnections h) = 1"
  using assms unfolding serve_ws_def metric_routes
  by (auto simp: WSAPI_RPCCount_def Init_metric_def MakeMetricHost_def StartEchoService_def MakeMetricController_def
      Let_def atomic_defs split: option.splits)

section \<open>From a Raft server to the metrics\<close>

text \<open>A dialler that reaches nothing but the route of the servers' reports.\<close>

definition dial_metric :: "('j, 'c) metric_host \<Rightarrow> 'w \<Rightarrow> url \<Rightarrow> 'w option" where
  "dial_metric h ws u = (if Scheme u = ''ws'' \<and> Host u = mh_Addr h \<and> mh_routes h (''/'' @ Path u) = Some Server_reports
     then Some ws else None)"

lemma get_put_client: "get_client rc i = Inr v \<Longrightarrow> get_client (put_client rc i v') i = Inr v'"
  by (auto simp: get_client_def put_client_def idx_def split: if_splits option.splits)

lemma raft_reaches_metrics:
  assumes "get_client rc (rc_Me rc) = Inr v"
  shows "\<exists>rc'. connectToMetricController (dial_metric (Init_metric (MakeMetricHost ''localhost'' 12800)) ws) rc = Inr rc'
    \<and> get_client rc' (rc_Me rc') = Inr (v\<lparr>WsMethods := (WsMethods v)(''MetricController.Metrics'' \<mapsto> ws)\<rparr>)"
  using assms get_put_client[OF assms]
  by (simp add: connectToMetricController_def dial_metric_def metric_routes put_client_def)

text \<open>A report on an idle connection is counted, exactly once.\<close>

lemma report_counted:
  assumes "conn_wf w" "writeChnl w = []" "aRunningConnections w ! next_slot w = []" "AtBool_Load (grpcMode w)"
    and "writeChnl v = []"
    and "decode (Some (enc_arg args)) = Some args" "unmarshal (Some (encode zr)) zr = (zr, True)"
  shows "\<exists>w'. ws_exchange decode encode unmarshal (\<lambda>a c. (zr, MetricUpdate a c)) caller (enc_arg args) zr w v c
    = Inr (zr, w', v, MetricUpdate args c) \<and> conn_wf w' \<and> writeChnl w' = [] \<and> aRunningConnections w' = aRunningConnections w"
  using exchange_run(1)[where w = w and v = v and decode = decode and encode = encode and unmarshal = unmarshal
      and enc_arg = enc_arg and a = args and handle = "\<lambda>a c. (zr, MetricUpdate a c)" and c = caller and zr = zr and s = c, OF assms(1,2,5,3,6) _ assms(4)] assms(7)
  by auto

end
