(* ===== verification/Routing.thy ===== *)
theory Routing
  imports LocalCluster MetricHost
begin

text \<open>
  The routes the servers register with echo (\<open>Init\<close> of \<open>controller/controller.go\<close>,
  \<open>raft_controller.go\<close>, \<open>kvraft_controller.go\<close>, \<open>clientcontroller.go\<close>), in the order of
  registration, and whether the calls between the processes find them. A route is a method, a
  path and a handler; what echo does with them is not modelled, so \<open>answers\<close> asks for exactly one
  route with the method and path of the request. The path in a request begins with a slash:
  \<open>URL.String\<close> of \<open>net/url\<close> puts one between host and path when the path has none.
\<close>

section \<open>What is registered\<close>

datatype http_method = GET_request | POST_request

datatype handler = KV_Get | KV_PutAppend | KV_Apply | KV_InitRaft | KV_Stop | KV_Start
  | Client_Get | Client_PutAppend | Client_InitKVServer
  | Add_raft | Add_kv | Add_client | Remove_server | Stop_server | Start_server
  | WS_peer | Service_method string

type_synonym route = "http_method \<times> string \<times> handler"

definition path_of :: "url_table \<Rightarrow> string \<Rightarrow> string" where
  "path_of tab k = ''/'' @ Path (url_of tab k)"

definition Init_kv :: "'w kv_controller \<Rightarrow> route list" where
  "Init_kv c = (let tab = kc_BoundMethods c in
     [(POST_request, path_of tab ''RaftKV.Get'', KV_Get),
      (POST_request, path_of tab ''RaftKV.PutAppend'', KV_PutAppend),
      (POST_request, path_of tab ''RaftKV.Apply'', KV_Apply),
      (POST_request, path_of tab ''KVRaftController.InitRaft'', KV_InitRaft),
      (POST_request, path_of tab ''KVRaftController.Stop'', KV_Stop),
      (POST_request, path_of tab ''KVRaftController.Start'', KV_Start)])"

definition Init_client :: "'w client_controller \<Rightarrow> route list" where
  "Init_client c = (let tab = cc_BoundMethods c in
     [(GET_request, path_of tab ''Clerk.Get'', Client_Get),
      (POST_request, path_of tab ''Clerk.PutAppend'', Client_PutAppend),
      (POST_request, path_of tab ''ClientController.InitKVServer'', Client_InitKVServer)])"

text \<open>The route of the websocket first, then those of the controller's own methods.\<close>

definition method_routes :: "(string \<times> rmethod) list \<Rightarrow> route list" where
  "method_routes rs = map (\<lambda>(p, m). (POST_request, p, Service_method (m_Name m))) rs"

definition Init_raft :: "'w raft_controller \<Rightarrow> route list go" where
  "Init_raft rc =
     go_bind (MakeService controller_receiver 0) (\<lambda>services.
     case services ''RaftController'' of
       None \<Rightarrow> Inl NilDereference
     | Some svc \<Rightarrow>
         go_bind (register_routes (rc_BoundMethods rc) (SvcMethodName svc) services) (\<lambda>rs.
         Inr ((GET_request, path_of (rc_BoundMethods rc) ''Raft.WSHeartBeat'', WS_peer) # method_routes rs)))"

definition Init_controller :: "route list" where
  "Init_controller =
     [(POST_request, MasterControllerRaftServerAPI, Add_raft), (POST_request, MasterControllerKVServerAPI, Add_kv),
      (POST_request, MasterControllerClientAPI, Add_client), (POST_request, ''/api/controller/v1/remove'', Remove_server),
      (POST_request, ''/api/controller/v1/stop'', Stop_server), (POST_request, ''/api/controller/v1/start'', Start_server)]"

text \<open>The guard of \<open>StartEchoService\<close>: the addresses that are listened at.\<close>

record listener =
  ln_Started :: AtBool
  ln_addrs :: "string list"

definition listen :: "string \<Rightarrow> listener \<Rightarrow> listener" where
  "listen addr l = (if AtBool_Load (ln_Started l) then l
     else l\<lparr>ln_Started := AtBool_Set (ln_Started l) True, ln_addrs := ln_addrs l @ [addr]\<rparr>)"

definition kv_StartEchoService :: "'w kv_controller \<Rightarrow> listener \<Rightarrow> listener" where
  "kv_StartEchoService c = listen (kc_Addr c)"

definition client_StartEchoService :: "'w client_controller \<Rightarrow> listener \<Rightarrow> listener" where
  "client_StartEchoService c = listen (cc_Addr c)"

definition raft_startEchoService :: "'w raft_controller \<Rightarrow> listener \<Rightarrow> listener" where
  "raft_startEchoService rc = listen (rc_Addr rc)"

lemma listen_once: "listen a (listen b l) = listen b l"
  by (simp add: listen_def atomic_defs)

text \<open>\<open>MakeClientController\<close>, which nothing calls: no registration, and no echo instance, so that its
  \<open>Init\<close> is a nil pointer.\<close>

definition MakeClientController :: "string \<Rightarrow> 'w rclient list \<Rightarrow> 'w client_controller" where
  "MakeClientController addr kvs =
     (let baseURL = \<lparr>Scheme = ''http'', Host = addr, Path = ''''\<rparr> in
      \<lparr>cc_Addr = addr, cc_BoundMethods = Map.empty
         (''Clerk.Get'' \<mapsto> baseURL\<lparr>Path := ''api/client/v1/get''\<rparr>,
          ''Clerk.PutAppend'' \<mapsto> baseURL\<lparr>Path := ''api/client/v1/putappend''\<rparr>),
       kvservers = kvs, cc_lastLeader = None\<rparr>)"

section \<open>Requests\<close>

definition request_path :: "url \<Rightarrow> string" where
  "request_path u = (if Path u \<noteq> [] \<and> hd (Path u) \<noteq> CHR ''/'' then ''/'' @ Path u else Path u)"

definition answers :: "string \<times> route list \<Rightarrow> http_method \<Rightarrow> url \<Rightarrow> handler \<Rightarrow> bool" where
  "answers server m u h \<longleftrightarrow> Host u = fst server
     \<and> filter (\<lambda>(m', p, _). m' = m \<and> p = request_path u) (snd server) = [(m, request_path u, h)]"

lemma Init_raft_routes:
  assumes "rc_BoundMethods rc '''' = None"
  shows "Init_raft rc = Inr ((GET_request, path_of (rc_BoundMethods rc) ''Raft.WSHeartBeat'', WS_peer)
    # method_routes (routes_of (rc_BoundMethods rc) controller_receiver))"
proof -
  have r: "rv_type controller_receiver = ''RaftController''" "rv_struct controller_receiver" by (simp_all add: controller_receiver_def)
  have "plain_names controller_receiver" "filter is_handler (rv_methods controller_receiver) \<noteq> []"
    by (simp_all add: plain_names_def receivers)
  from register_handlers[where v = controller_receiver and tab = "rc_BoundMethods rc", OF r(2) this assms]
  show ?thesis unfolding r(1) by (auto simp: Init_raft_def)
qed

section \<open>The calls find their handlers\<close>

text \<open>A server by host and port, with its address and routes: a Raft server once \<open>Init\<close> has run, and once
  Raft is started, a key/value server, a client, and the master controller.\<close>

type_synonym place = "string \<times> int"

definition raft_server :: "(url \<Rightarrow> string) \<Rightarrow> place \<Rightarrow> string \<times> route list" where
  "raft_server t hp = (let rc = fst (MakeRaftController t (fst hp) (snd hp) :: unit raft_controller \<times> _) in
     (rc_Addr rc, case Init_raft rc of Inl _ \<Rightarrow> [] | Inr rs \<Rightarrow> rs))"

definition raft_server_started :: "(url \<Rightarrow> string) \<Rightarrow> place \<Rightarrow> string \<times> route list" where
  "raft_server_started t hp = (let rc = fst (MakeRaftController t (fst hp) (snd hp) :: unit raft_controller \<times> _) in
     (rc_Addr rc, snd (raft_server t hp) @ method_routes (routes_of (rc_BoundMethods rc) raft_receiver)))"

definition kv_place :: "(url \<Rightarrow> string) \<Rightarrow> place \<Rightarrow> string \<times> route list" where
  "kv_place t hp = (let c = fst (MakeKVRaftController t (fst hp) (snd hp) :: unit kv_controller \<times> _) in (kc_Addr c, Init_kv c))"

definition client_place :: "(url \<Rightarrow> string) \<Rightarrow> place \<Rightarrow> string \<times> route list" where
  "client_place t hp = (let c = fst (MakeClientController2 t (fst hp) (snd hp) :: unit client_controller \<times> _) in
     (cc_Addr c, Init_client c))"

definition master_server :: "string \<times> route list" where
  "master_server = (master_addr, Init_controller)"

definition http_url :: "place \<Rightarrow> string \<Rightarrow> url" where
  "http_url hp p = \<lparr>Scheme = ''http'', Host = full_addr (fst hp) (snd hp), Path = p\<rparr>"

lemma raft_server_routes:
  "raft_server t hp = (full_addr (fst hp) (snd hp),
     (GET_request, ''/raft/v1/ws/heartbeat'', WS_peer) #
     map (\<lambda>(p, m). (POST_request, p, Service_method m))
     [(''/raft/v1/internal/init_kv_server'', ''InitKVServerInfo''), (''/raft/v1/internal/init_raft_server'', ''InitRaftPeers''),
      (''/raft/v1/internal/start'', ''StartRaftAPI''), (''/raft/v1/internal/start_raft_server'', ''StartRaftServer''),
      (''/raft/v1/internal/start_websockets'', ''StartWebsocket''), (''/raft/v1/internal/stop'', ''StopRaftAPI'')])"
proof -
  let ?rc = "fst (MakeRaftController t (fst hp) (snd hp) :: unit raft_controller \<times> _)"
  have tab: "rc_BoundMethods ?rc = raft_routes (http_url hp '''')" "rc_Addr ?rc = full_addr (fst hp) (snd hp)"
    by (simp_all add: MakeRaftController_def http_url_def Let_def)
  have "rc_BoundMethods ?rc '''' = None" unfolding tab by (simp add: raft_routes_def)
  from Init_raft_routes[OF this] show ?thesis
    by (simp add: raft_server_def tab Let_def method_routes_def path_of_def url_of_def routes_of_def receivers full_name_def raft_routes_def)
qed

lemma started_routes:
  "raft_server_started t hp = (full_addr (fst hp) (snd hp), snd (raft_server t hp) @
     map (\<lambda>(p, m). (POST_request, p, Service_method m))
     [(''/raft/v1/agree'', ''Agree''), (''/raft/v1/heartbeat'', ''HeartBeat''),
      (''/raft/v1/election'', ''RequestVote''), (''/raft/v1/get_state'', ''ReturnState'')])"
  by (simp add: raft_server_started_def MakeRaftController_def Let_def method_routes_def routes_of_def receivers full_name_def raft_routes_def)

lemma kv_place_routes:
  "kv_place t hp = (full_addr (fst hp) (snd hp), map (\<lambda>(p, h). (POST_request, p, h))
     [(''/api/kvraft/v1/get'', KV_Get), (''/api/kvraft/v1/putappend'', KV_PutAppend), (''/api/kvraft/v1/apply'', KV_Apply),
      (''/api/kvraft/v1/internal/init_raft'', KV_InitRaft), (''/api/kvraft/v1/internal/stop'', KV_Stop),
      (''/api/kvraft/v1/internal/start'', KV_Start)])"
  by (simp add: kv_place_def MakeKVRaftController_def Let_def Init_kv_def path_of_def url_of_def kv_routes_def)

lemma client_place_routes:
  "client_place t hp = (full_addr (fst hp) (snd hp), [(GET_request, ''/api/client/v1/get'', Client_Get),
     (POST_request, ''/api/client/v1/putappend'', Client_PutAppend),
     (POST_request, ''/api/client/v1/internal/init_kv_servers'', Client_InitKVServer)])"
  by (simp add: client_place_def MakeClientController2_def Let_def Init_client_def path_of_def url_of_def client_routes_def)

text \<open>The servers that register at the master controller.\<close>

lemma registrations_answered:
  "answers master_server POST_request (fst (snd (MakeRaftController t h p))) Add_raft"
  "answers master_server POST_request (fst (snd (MakeKVRaftController t h p))) Add_kv"
  "answers master_server POST_request (fst (snd (MakeClientController2 t h p))) Add_client"
  by (simp_all add: answers_def master_server_def Init_controller_def request_path_def MakeRaftController_def MakeKVRaftController_def
      MakeClientController2_def Let_def MasterControllerRaftServerAPI_def MasterControllerKVServerAPI_def
      MasterControllerClientAPI_def)

text \<open>The calls of the clerk, of a key/value server to its Raft server, of Raft servers to each other,
  and of a Raft server to its key/value server.\<close>

lemma clerk_calls_answered:
  "answers (kv_place t hp) POST_request (url_of (client_routes (http_url hp p)) ''RaftKV.Get'') KV_Get"
  "answers (kv_place t hp) POST_request (url_of (client_routes (http_url hp p)) ''RaftKV.PutAppend'') KV_PutAppend"
  "answers (kv_place t hp) POST_request (http_url hp ''api/kvraft/v1/apply'') KV_Apply"
  by (simp_all add: kv_place_routes answers_def request_path_def http_url_def url_of_def client_routes_def)

lemma raft_calls_answered:
  "answers (raft_server_started t hp) POST_request (url_of (raft_routes (http_url hp p)) ''Raft.Agree'') (Service_method ''Agree'')"
  "answers (raft_server_started t hp) POST_request (url_of (raft_routes (http_url hp p)) ''Raft.ReturnState'') (Service_method ''ReturnState'')"
  "answers (raft_server_started t hp) POST_request (url_of (raft_routes (http_url hp p)) ''Raft.RequestVote'') (Service_method ''RequestVote'')"
  "answers (raft_server_started t hp) POST_request (url_of (raft_routes (http_url hp p)) ''Raft.HeartBeat'') (Service_method ''HeartBeat'')"
  "answers (raft_server t hp) GET_request (url_of (raft_routes (http_url hp p)) ''Raft.WSHeartBeat'') WS_peer"
  by (simp_all add: raft_server_routes started_routes answers_def request_path_def http_url_def url_of_def raft_routes_def)

text \<open>The calls of the master controller.\<close>

definition raft_enrols :: "(url \<Rightarrow> string) \<Rightarrow> place \<Rightarrow> raft_kv_init_config" where
  "raft_enrols t hp = snd (snd (MakeRaftController t (fst hp) (snd hp) :: unit raft_controller \<times> _))"

definition kv_enrols :: "(url \<Rightarrow> string) \<Rightarrow> place \<Rightarrow> raft_connect_details" where
  "kv_enrols t hp = snd (snd (MakeKVRaftController t (fst hp) (snd hp) :: unit kv_controller \<times> _))"

definition client_enrols :: "(url \<Rightarrow> string) \<Rightarrow> place \<Rightarrow> raft_connect_details" where
  "client_enrols t hp = snd (snd (MakeClientController2 t (fst hp) (snd hp) :: unit client_controller \<times> _))"

definition enrolled :: "(url \<Rightarrow> string) \<Rightarrow> place list \<Rightarrow> place list \<Rightarrow> controller \<Rightarrow> bool" where
  "enrolled t rs ks c \<longleftrightarrow> length rs = length ks
     \<and> raftControllerDetails c = map (\<lambda>i. with_id i (raft_enrols t (rs ! i))) [0..<length rs]
     \<and> kvControllerDetails c = map (kv_enrols t) ks"

definition reached :: "(string \<times> route list) \<times> handler \<Rightarrow> Registration.call \<Rightarrow> bool" where
  "reached = (\<lambda>(server, h) (u, _). answers server POST_request u h)"

text \<open>The servers and handlers that the calls of \<open>serversInit\<close> are meant for.\<close>

definition start_plan :: "(url \<Rightarrow> string) \<Rightarrow> place list \<Rightarrow> place list \<Rightarrow> ((string \<times> route list) \<times> handler) list" where
  "start_plan t rs ks =
     concat (map (\<lambda>r. [(raft_server t r, Service_method ''InitKVServerInfo''), (raft_server t r, Service_method ''InitRaftPeers'')]) rs)
     @ map (\<lambda>r. (raft_server t r, Service_method ''StartWebsocket'')) rs
     @ map (\<lambda>r. (raft_server t r, Service_method ''StartRaftServer'')) rs
     @ map (\<lambda>k. (kv_place t k, KV_InitRaft)) ks"

lemma enrols:
  "KVInitFullPath (raft_enrols t hp) = t (http_url hp ''raft/v1/internal/init_kv_server'')"
  "ReplyFullPath (RaftConnect (raft_enrols t hp)) = t (http_url hp ''raft/v1/internal/init_raft_server'')"
  "RaftStartWSFullPath (raft_enrols t hp) = t (http_url hp ''raft/v1/internal/start_websockets'')"
  "RaftStartFullPath (raft_enrols t hp) = t (http_url hp ''raft/v1/internal/start_raft_server'')"
  "ReplyFullPath (kv_enrols t hp) = t (http_url hp ''api/kvraft/v1/internal/init_raft'')"
  "ReplyFullPath (client_enrols t hp) = t (http_url hp ''api/client/v1/internal/init_kv_servers'')"
  "Addr (RaftConnect (raft_enrols t hp)) = fst hp" "Port (RaftConnect (raft_enrols t hp)) = snd hp"
  "Addr (kv_enrols t hp) = fst hp" "Port (kv_enrols t hp) = snd hp"
  by (simp_all add: raft_enrols_def kv_enrols_def client_enrols_def MakeRaftController_def MakeKVRaftController_def
      MakeClientController2_def Let_def url_of_def raft_routes_def kv_routes_def client_routes_def http_url_def)

text \<open>The texts of these URLs parse back.\<close>

definition setup_paths :: "string list" where
  "setup_paths = [''raft/v1/internal/init_kv_server'', ''raft/v1/internal/init_raft_server'', ''raft/v1/internal/start_websockets'',
     ''raft/v1/internal/start_raft_server'', ''api/kvraft/v1/internal/init_raft'', ''api/client/v1/internal/init_kv_servers'']"

definition texts_parse :: "(url \<Rightarrow> string) \<Rightarrow> (string \<Rightarrow> url option) \<Rightarrow> place list \<Rightarrow> bool" where
  "texts_parse t parse hps \<longleftrightarrow> list_all (\<lambda>hp. list_all (\<lambda>p. parse (t (http_url hp p)) = Some (http_url hp p)) setup_paths) hps"

lemma texts_parseD:
  assumes "texts_parse t parse hps" "hp \<in> set hps"
  shows "parse (t (http_url hp ''raft/v1/internal/init_kv_server'')) = Some (http_url hp ''raft/v1/internal/init_kv_server'')"
    "parse (t (http_url hp ''raft/v1/internal/init_raft_server'')) = Some (http_url hp ''raft/v1/internal/init_raft_server'')"
    "parse (t (http_url hp ''raft/v1/internal/start_websockets'')) = Some (http_url hp ''raft/v1/internal/start_websockets'')"
    "parse (t (http_url hp ''raft/v1/internal/start_raft_server'')) = Some (http_url hp ''raft/v1/internal/start_raft_server'')"
    "parse (t (http_url hp ''api/kvraft/v1/internal/init_raft'')) = Some (http_url hp ''api/kvraft/v1/internal/init_raft'')"
    "parse (t (http_url hp ''api/client/v1/internal/init_kv_servers'')) = Some (http_url hp ''api/client/v1/internal/init_kv_servers'')"
  using assms by (simp_all add: texts_parse_def setup_paths_def list_all_iff)

lemma control_answered:
  "answers (raft_server t hp) POST_request (http_url hp ''raft/v1/internal/init_kv_server'') (Service_method ''InitKVServerInfo'')"
  "answers (raft_server t hp) POST_request (http_url hp ''raft/v1/internal/init_raft_server'') (Service_method ''InitRaftPeers'')"
  "answers (raft_server t hp) POST_request (http_url hp ''raft/v1/internal/start_websockets'') (Service_method ''StartWebsocket'')"
  "answers (raft_server t hp) POST_request (http_url hp ''raft/v1/internal/start_raft_server'') (Service_method ''StartRaftServer'')"
  "answers (raft_server t hp) POST_request (http_url hp ''raft/v1/internal/stop'') (Service_method ''StopRaftAPI'')"
  "answers (raft_server t hp) POST_request (http_url hp ''raft/v1/internal/start'') (Service_method ''StartRaftAPI'')"
  "answers (kv_place t hp) POST_request (http_url hp ''api/kvraft/v1/internal/init_raft'') KV_InitRaft"
  "answers (kv_place t hp) POST_request (http_url hp ''api/kvraft/v1/internal/stop'') KV_Stop"
  "answers (kv_place t hp) POST_request (http_url hp ''api/kvraft/v1/internal/start'') KV_Start"
  "answers (client_place t hp) POST_request (http_url hp ''api/client/v1/internal/init_kv_servers'') Client_InitKVServer"
  by (simp_all add: raft_server_routes kv_place_routes client_place_routes answers_def request_path_def http_url_def)

lemma concat_all2: "(\<And>x. x \<in> set xs \<Longrightarrow> list_all2 P (f x) (g x)) \<Longrightarrow> list_all2 P (concat (map f xs)) (concat (map g xs))"
  by (induction xs) (auto intro: list_all2_appendI)

lemma start_calls_answered:
  assumes en: "enrolled t rs ks c" and parse: "texts_parse t parse (rs @ ks @ cs)"
  shows "\<exists>calls. serversInit parse c = Inr calls \<and> list_all2 reached (start_plan t rs ks) calls"
proof -
  let ?n = "length rs"
  have len: "length (raftControllerDetails c) = ?n" "length (kvControllerDetails c) = ?n"
    and R: "\<And>i. i < ?n \<Longrightarrow> raftControllerDetails c ! i = with_id i (raft_enrols t (rs ! i))"
    and K: "\<And>i. i < ?n \<Longrightarrow> kvControllerDetails c ! i = kv_enrols t (ks ! i)"
    and lk: "length ks = ?n" and Rm: "raftControllerDetails c = map (\<lambda>i. with_id i (raft_enrols t (rs ! i))) [0..<?n]"
    using en by (simp_all add: enrolled_def)
  have pR: "i < ?n \<Longrightarrow> rs ! i \<in> set (rs @ ks @ cs)" and pK: "i < ?n \<Longrightarrow> ks ! i \<in> set (rs @ ks @ cs)" for i using lk by auto
  note pR = texts_parseD[OF parse pR] and pK = texts_parseD[OF parse pK]
  have "\<forall>a \<in> set (raftControllerDetails c). parses parse a" using pR by (auto simp: Rm parses_def enrols)
  moreover have "\<forall>k \<in> set (kvControllerDetails c). parse (ReplyFullPath k) \<noteq> None"
    using pK K len by (auto simp: in_set_conv_nth enrols)
  note eq = serversInit_eq[OF len calculation this]
  have rs: "map f rs = map (\<lambda>i. f (rs ! i)) [0..<?n]" and ks: "map f ks = map (\<lambda>i. f (ks ! i)) [0..<?n]" for f :: "place \<Rightarrow> 'x"
    using lk by (auto intro: nth_equalityI)
  have each: "list_all2 P (map f [0..<?n]) (map g [0..<?n])" if "\<And>i. i < ?n \<Longrightarrow> P (f i) (g i)"
    for P :: "'x \<Rightarrow> 'y \<Rightarrow> bool" and f g using that by (simp add: list_all2_conv_all_nth)
  have "list_all2 reached (start_plan t rs ks) calls" if "serversInit parse c = Inr calls" for calls
    using that unfolding eq start_plan_def rs ks Rm
    by (elim Inr_inject[elim_format]) (auto simp: pR pK reached_def enrols R K control_answered Let_def
        intro!: list_all2_appendI each concat_all2)
  then show ?thesis unfolding eq by blast
qed

text \<open>C33: Every call of the master controller finds its handler: when the servers that registered are
  those the program makes, at whatever hosts and ports, and their URLs parse back, the calls of
  \<open>serversInit\<close> go, in this order, to the set-up handlers of every Raft server, its websocket and
  start handlers, and those of every key/value server; a stop or start command goes to the
  handlers of the key/value server it names and of every Raft server; and a client that
  registered gets the key/value servers. No request meets a missing or a second route.\<close>
theorem master_calls_answered:
  assumes en: "enrolled t rs ks c" and parse: "texts_parse t parse (rs @ ks @ cs)"
  shows "(\<exists>calls. serversInit parse c = Inr calls \<and> list_all2 reached (start_plan t rs ks) calls)
    \<and> (\<forall>i < length ks.
        (\<exists>calls. API_StopServer (Some \<lparr>stop_Idx = int i\<rparr>) c = Inr (calls, Json_reply zero_common_reply)
           \<and> list_all2 reached ((kv_place t (ks ! i), KV_Stop) # map (\<lambda>r. (raft_server t r, Service_method ''StopRaftAPI'')) rs) calls)
        \<and> (\<exists>calls. API_StartServer (Some \<lparr>start_Idx = int i\<rparr>) c = Inr (calls, Json_reply zero_common_reply)
           \<and> list_all2 reached ((kv_place t (ks ! i), KV_Start) # map (\<lambda>r. (raft_server t r, Service_method ''StartRaftAPI'')) rs) calls))
    \<and> (\<forall>hp \<in> set cs. \<forall>ds. clientControllerDetails c = client_enrols t hp # ds \<longrightarrow>
        (\<exists>c' calls. serveClients_step parse c = Inr (c', calls) \<and> clientControllerDetails c' = ds
           \<and> list_all2 reached [(client_place t hp, Client_InitKVServer)] calls))"
proof -
  let ?n = "length rs"
  have len: "length (raftControllerDetails c) = ?n" "length (kvControllerDetails c) = ?n"
    and K: "\<And>i. i < ?n \<Longrightarrow> kvControllerDetails c ! i = kv_enrols t (ks ! i)"
    and lk: "length ks = ?n" and Rm: "raftControllerDetails c = map (\<lambda>i. with_id i (raft_enrols t (rs ! i))) [0..<?n]"
    using en by (simp_all add: enrolled_def)
  note pC = texts_parseD[OF parse]
  have rs: "map f rs = map (\<lambda>i. f (rs ! i)) [0..<?n]" for f :: "place \<Rightarrow> 'x" by (auto intro: nth_equalityI)
  have each: "list_all2 P (map f [0..<?n]) (map g [0..<?n])" if "\<And>i. i < ?n \<Longrightarrow> P (f i) (g i)"
    for P :: "'x \<Rightarrow> 'y \<Rightarrow> bool" and f g using that by (simp add: list_all2_conv_all_nth)
  note start_calls_answered[OF en parse]
  moreover have stop: "list_all2 reached ((kv_place t (ks ! i), h) # map (\<lambda>r. (raft_server t r, h')) rs)
      ((http_url (ks ! i) p, a) # map (\<lambda>d. (http_url (Addr (RaftConnect d), Port (RaftConnect d)) p', a')) (raftControllerDetails c))"
    if "answers (kv_place t (ks ! i)) POST_request (http_url (ks ! i) p) h"
      "\<And>i. answers (raft_server t (rs ! i)) POST_request (http_url (rs ! i) p') h'" for i h h' p p' a a'
    using that unfolding rs Rm by (auto simp: reached_def enrols intro!: each)
  moreover have "(\<exists>calls. API_StopServer (Some \<lparr>stop_Idx = int i\<rparr>) c = Inr (calls, Json_reply zero_common_reply)
      \<and> list_all2 reached ((kv_place t (ks ! i), KV_Stop) # map (\<lambda>r. (raft_server t r, Service_method ''StopRaftAPI'')) rs) calls)
    \<and> (\<exists>calls. API_StartServer (Some \<lparr>start_Idx = int i\<rparr>) c = Inr (calls, Json_reply zero_common_reply)
      \<and> list_all2 reached ((kv_place t (ks ! i), KV_Start) # map (\<lambda>r. (raft_server t r, Service_method ''StartRaftAPI'')) rs) calls)"
    if "i < length ks" for i
    using stop[OF control_answered(8,5)] stop[OF control_answered(9,6)] that K lk len
    by (simp add: API_StopServer_def API_StartServer_def idx_in enrols http_url_def Let_def)
  moreover have "\<exists>c' calls. serveClients_step parse c = Inr (c', calls) \<and> clientControllerDetails c' = ds
      \<and> list_all2 reached [(client_place t hp, Client_InitKVServer)] calls" if "hp \<in> set cs" "clientControllerDetails c = client_enrols t hp # ds" for hp ds
    using that pC[of hp] by (simp add: serveClients_step_def enrols reached_def control_answered Let_def)
  ultimately show ?thesis by blast
qed

text \<open>The cluster of \<open>cmd.go\<close> is such a cluster.\<close>

lemma main_enrolled:
  assumes "registered n (raft_arrivals (main_events t)) (kv_arrivals (main_events t)) c" "n \<le> NRaftServers"
  shows "enrolled t (map (\<lambda>i. (''localhost'', RaftServerStartPort + int i)) [0..<n])
    (map (\<lambda>i. (''localhost'', KVServerStartPort + int i)) [0..<n]) c"
  unfolding enrolled_def main_details[OF assms] by (auto simp: raft_enrols_def kv_enrols_def)

lemma ex_texts: "list_all (\<lambda>hp. CHR ''/'' \<notin> set (fst hp) \<and> 0 \<le> snd hp) hps \<Longrightarrow> texts_parse ex_text ex_parse hps"
proof -
  have "ex_parse (ex_text (http_url hp p)) = Some (http_url hp p)" if "CHR ''/'' \<notin> set (fst hp)" "0 \<le> snd hp" for hp p
    using ex_reads_back host_no_slash[OF that] by (simp add: reads_back_def http_url_def)
  then show "list_all (\<lambda>hp. CHR ''/'' \<notin> set (fst hp) \<and> 0 \<le> snd hp) hps \<Longrightarrow> texts_parse ex_text ex_parse hps"
    by (simp add: texts_parse_def list_all_iff)
qed

theorem master_calls_answered_witness:
  "\<exists>c calls. go_fold handle_event (Init_moves # prompt (main_events ex_text)) (NewController (int 3)) = Inr c
     \<and> serversInit ex_parse c = Inr calls \<and> length calls = 15
     \<and> list_all2 reached (start_plan ex_text [(''localhost'', 1150), (''localhost'', 1151), (''localhost'', 1152)]
         [(''localhost'', 1100), (''localhost'', 1101), (''localhost'', 1102)]) calls"
proof -
  let ?rs = "[(''localhost'', 1150), (''localhost'', 1151), (''localhost'', 1152)] :: place list"
  let ?ks = "[(''localhost'', 1100), (''localhost'', 1101), (''localhost'', 1102)] :: place list"
  obtain c where c: "go_fold handle_event (Init_moves # prompt (main_events ex_text)) (NewController (int 3)) = Inr c"
    "registered 3 (raft_arrivals (main_events ex_text)) (kv_arrivals (main_events ex_text)) c"
    using main_registered[of 3 ex_text] by auto
  have "enrolled ex_text ?rs ?ks c"
    using main_enrolled[OF c(2)] by (simp add: NRaftServers_def RaftServerStartPort_def KVServerStartPort_def upt_rec)
  moreover have "texts_parse ex_text ex_parse (?rs @ ?ks @ [])" by (rule ex_texts) simp
  ultimately obtain calls where "serversInit ex_parse c = Inr calls" "list_all2 reached (start_plan ex_text ?rs ?ks) calls"
    using master_calls_answered[of ex_text ?rs ?ks c ex_parse "[]"] by blast
  moreover from this have "length calls = 15" using list_all2_lengthD[of reached] by (fastforce simp: start_plan_def)
  ultimately show ?thesis using c(1) by blast
qed

end
