(* ===== verification/Programs.thy ===== *)
theory Programs
  imports Routing
begin

text \<open>
  The programs: \<open>raft_controller_cmd\<close>, \<open>kv_controller_cmd\<close>, \<open>raftclient\<close>, \<open>metric_controller_cmd\<close>
  and \<open>cmd\<close>, from the command line to the servers they make, with what they use of Go's packages
  \<open>flag\<close> (\<open>Parse\<close> with \<open>ExitOnError\<close>) and \<open>strconv\<close> (\<open>ParseInt\<close> with base 0); and the cluster that
  \<open>start_raft.sh\<close> and \<open>start_kv.sh\<close> bring up, one process per server. What
  the programs wait for afterwards is in \<open>Processes\<close>. Not modelled: the text of the usage message.
\<close>

section \<open>strconv.ParseInt(s, 0, 64)\<close>

definition is_letter :: "char \<Rightarrow> bool" where
  "is_letter c \<longleftrightarrow> (97::nat) \<le> of_char (ascii_lower c) \<and> of_char (ascii_lower c) \<le> (122::nat)"

definition int_base :: "string \<Rightarrow> nat \<times> string" where
  "int_base s =
     (if s \<noteq> [] \<and> hd s = CHR ''0'' then
        (if 3 \<le> length s \<and> ascii_lower (s ! 1) = CHR ''b'' then (2, drop 2 s)
         else if 3 \<le> length s \<and> ascii_lower (s ! 1) = CHR ''o'' then (8, drop 2 s)
         else if 3 \<le> length s \<and> ascii_lower (s ! 1) = CHR ''x'' then (16, drop 2 s)
         else (8, tl s))
      else (10, s))"

text \<open>An underscore is skipped here; where it may stand is \<open>underscoreOK\<close>.\<close>

fun read_digits :: "nat \<Rightarrow> string \<Rightarrow> nat \<Rightarrow> nat option" where
  "read_digits b [] n = Some n"
| "read_digits b (c # cs) n =
     (if c = CHR ''_'' then read_digits b cs n
      else if (is_digit c \<or> is_letter c) \<and> digit_val (ascii_lower c) < b then read_digits b cs (n * b + digit_val (ascii_lower c))
      else None)"

datatype seen = Begin_seen | Digit_seen | Underscore_seen | Other_seen

fun underscores :: "bool \<Rightarrow> seen \<Rightarrow> string \<Rightarrow> bool" where
  "underscores hex i [] = (i \<noteq> Underscore_seen)"
| "underscores hex i (c # cs) =
     (if is_digit c \<or> hex \<and> is_letter c \<and> of_char (ascii_lower c) \<le> (102::nat) then underscores hex Digit_seen cs
      else if c = CHR ''_'' then i = Digit_seen \<and> underscores hex Underscore_seen cs
      else i \<noteq> Underscore_seen \<and> underscores hex Other_seen cs)"

definition underscoreOK :: "string \<Rightarrow> bool" where
  "underscoreOK s =
     (if 2 \<le> length s \<and> hd s = CHR ''0'' \<and> ascii_lower (s ! 1) \<in> {CHR ''b'', CHR ''o'', CHR ''x''}
      then underscores (ascii_lower (s ! 1) = CHR ''x'') Digit_seen (drop 2 s)
      else underscores False Begin_seen s)"

definition ParseInt :: "string \<Rightarrow> int option" where
  "ParseInt s =
     (let neg = (s \<noteq> [] \<and> hd s = CHR ''-'');
          s0 = (if s \<noteq> [] \<and> hd s \<in> {CHR ''-'', CHR ''+''} then tl s else s) in
      if s0 = [] then None
      else (case int_base s0 of (b, ds) \<Rightarrow>
        case read_digits b ds 0 of
          None \<Rightarrow> None
        | Some n \<Rightarrow>
            if \<not> underscoreOK s0 then None
            else if neg then (if n \<le> 2 ^ 63 then Some (- int n) else None)
            else if n < 2 ^ 63 then Some (int n) else None))"

section \<open>flag.Parse\<close>

datatype flag_value = Int_value int | String_value string

type_synonym flags = "string \<rightharpoonup> flag_value"

datatype flag_exit = Bad_flag | Help_wanted

text \<open>The value of a flag is set by the kind the flag was defined with.\<close>

definition set_flag :: "string \<Rightarrow> string \<Rightarrow> flags \<Rightarrow> flag_exit + flags" where
  "set_flag name v fs =
     (case fs name of
        None \<Rightarrow> Inl Bad_flag
      | Some (Int_value _) \<Rightarrow>
          (case ParseInt v of None \<Rightarrow> Inl Bad_flag | Some i \<Rightarrow> Inr (fs(name \<mapsto> Int_value i)))
      | Some (String_value _) \<Rightarrow> Inr (fs(name \<mapsto> String_value v)))"

text \<open>The name of a flag up to the first \<open>=\<close> that is not its first character.\<close>

definition split_flag :: "string \<Rightarrow> string \<times> string option" where
  "split_flag s = (case cut_first ''='' (tl s) of
     None \<Rightarrow> (s, None) | Some (n, v) \<Rightarrow> (hd s # n, Some v))"

fun flag_Parse :: "string list \<Rightarrow> flags \<Rightarrow> flag_exit + flags" where
  "flag_Parse [] fs = Inr fs"
| "flag_Parse (s # args) fs =
     (if length s < 2 \<or> hd s \<noteq> CHR ''-'' then Inr fs
      else if s = ''--'' then Inr fs
      else let name = (if s ! 1 = CHR ''-'' then drop 2 s else tl s) in
        if name = [] \<or> hd name = CHR ''-'' \<or> hd name = CHR ''='' then Inl Bad_flag
        else let nv = split_flag name in
          if fs (fst nv) = None then Inl (if fst nv = ''help'' \<or> fst nv = ''h'' then Help_wanted else Bad_flag)
          else case snd nv of
            Some v \<Rightarrow> (case set_flag (fst nv) v fs of Inl e \<Rightarrow> Inl e | Inr fs' \<Rightarrow> flag_Parse args fs')
          | None \<Rightarrow>
              (case args of
                 [] \<Rightarrow> Inl Bad_flag
               | v # args' \<Rightarrow> (case set_flag (fst nv) v fs of Inl e \<Rightarrow> Inl e | Inr fs' \<Rightarrow> flag_Parse args' fs')))"

definition int_flag :: "flags \<Rightarrow> string \<Rightarrow> int" where
  "int_flag fs name = (case fs name of Some (Int_value i) \<Rightarrow> i | _ \<Rightarrow> 0)"

definition string_flag :: "flags \<Rightarrow> string \<Rightarrow> string" where
  "string_flag fs name = (case fs name of Some (String_value s) \<Rightarrow> s | _ \<Rightarrow> [])"

section \<open>The programs\<close>

definition raft_flags :: flags where
  "raft_flags = [''host'' \<mapsto> String_value ''localhost'', ''port'' \<mapsto> Int_value 1255,
     ''master'' \<mapsto> String_value ''localhost:65000'', ''metric'' \<mapsto> String_value ''localhost:12800'']"

text \<open>\<open>main\<close> writes to \<open>*masterFlag\<close> and \<open>*metricFlag\<close> and does not read them again.\<close>

definition raft_main :: "(url \<Rightarrow> string) \<Rightarrow> string list \<Rightarrow> flag_exit + (flags \<times> 'w raft_controller \<times> url \<times> raft_kv_init_config)" where
  "raft_main t args =
     (case flag_Parse args raft_flags of
        Inl e \<Rightarrow> Inl e
      | Inr fs \<Rightarrow>
          let fs1 = (if string_flag fs ''master'' = '''' then fs(''master'' \<mapsto> String_value ''localhost:65000'') else fs);
              fs2 = (if string_flag fs1 ''metric'' = '''' then fs1(''metric'' \<mapsto> String_value ''localhost:12800'') else fs1)
          in Inr (fs2, MakeRaftController t (string_flag fs2 ''host'') (int_flag fs2 ''port'')))"

definition kv_flags :: flags where
  "kv_flags = [''host'' \<mapsto> String_value ''localhost'', ''port'' \<mapsto> Int_value 1255,
     ''master'' \<mapsto> String_value ''localhost:65000'', ''metric'' \<mapsto> String_value ''localhost:12800'']"

definition kv_main :: "(url \<Rightarrow> string) \<Rightarrow> string list \<Rightarrow> flag_exit + ('w kv_controller \<times> url \<times> raft_connect_details)" where
  "kv_main t args =
     (case flag_Parse args kv_flags of
        Inl e \<Rightarrow> Inl e
      | Inr fs \<Rightarrow> Inr (MakeKVRaftController t (string_flag fs ''host'') (int_flag fs ''port'')))"

definition client_flags :: flags where
  "client_flags = [''port'' \<mapsto> Int_value 14000, ''addr'' \<mapsto> String_value ''localhost'']"

definition client_main :: "(url \<Rightarrow> string) \<Rightarrow> string list \<Rightarrow> flag_exit + ('w client_controller \<times> url \<times> raft_connect_details)" where
  "client_main t args =
     (case flag_Parse args client_flags of
        Inl e \<Rightarrow> Inl e
      | Inr fs \<Rightarrow> Inr (MakeClientController2 t (string_flag fs ''addr'') (int_flag fs ''port'')))"

definition metric_flags :: flags where
  "metric_flags = [''host'' \<mapsto> String_value ''localhost'', ''port'' \<mapsto> Int_value 12800]"

definition metric_main :: "string list \<Rightarrow> flag_exit + ('j, 'c) metric_host" where
  "metric_main args =
     (case flag_Parse args metric_flags of
        Inl e \<Rightarrow> Inl e
      | Inr fs \<Rightarrow> Inr (Init_metric (MakeMetricHost (string_flag fs ''host'') (int_flag fs ''port''))))"

text \<open>\<open>cmd.go\<close>: the master controller, the metric controller and, made by a goroutine, the servers of
  \<open>LocalCluster\<close>.\<close>

definition cmd_flags :: flags where
  "cmd_flags = [''servers'' \<mapsto> Int_value 3]"

definition cmd_main :: "(url \<Rightarrow> string) \<Rightarrow> string list \<Rightarrow> flag_exit + (controller \<times> ('j, 'c) metric_host \<times> event list)" where
  "cmd_main t args =
     (case flag_Parse args cmd_flags of
        Inl e \<Rightarrow> Inl e
      | Inr fs \<Rightarrow> Inr (NewController (int_flag fs ''servers''), Init_metric (MakeMetricHost ''localhost'' 12800), main_events t))"

section \<open>What the programs make of their arguments\<close>

lemma read_format: "read_digits 10 (format_nat 10 n) 0 = Some n"
proof -
  have "read_digits 10 s a = Some (foldl (\<lambda>a c. a * 10 + digit_val c) a s)" if "list_all is_digit s" for s a
    using that
  proof (induction s arbitrary: a)
    case (Cons c s)
    then have "ascii_lower c = c" "digit_val c < 10" "c \<noteq> CHR ''_''"
      by (auto simp: is_digit_def ascii_lower_def digit_val_def)
    with Cons show ?case by simp
  qed simp
  then show ?thesis using format_digits[of n] unformat_format[of 10 n] by (simp add: unformat_def)
qed

lemma format_head: "0 < n \<Longrightarrow> hd (format_nat 10 n) \<noteq> CHR ''0''"
proof (induction n rule: less_induct)
  case (less n)
  show ?case
  proof (cases "n < 10")
    case True
    then have "digit_val (digit n) = n" by (simp add: digit_val)
    then have "digit n \<noteq> CHR ''0''" using less.prems by (auto simp: digit_val_def)
    with True show ?thesis by (subst format_nat.simps) simp
  next
    case False
    with less.IH[of "n div 10"] format_digits[of "n div 10"] show ?thesis by (subst format_nat.simps) simp
  qed
qed

lemma digits_underscores: "list_all is_digit s \<Longrightarrow> underscores hex i s \<longleftrightarrow> s \<noteq> [] \<or> i \<noteq> Underscore_seen"
proof (induction s arbitrary: i)
  case (Cons c s)
  then show ?case by (cases s) simp_all
qed simp

lemma digit_zero: "digit 0 = CHR ''0''"
  by code_simp

text \<open>The ports the scripts write are read back: a decimal number never starts with a zero, which
  \<open>ParseInt\<close> would read as octal.\<close>

lemma ParseInt_Itoa:
  assumes "0 \<le> i" "i < 2 ^ 63"
  shows "ParseInt (Itoa i) = Some i"
proof -
  define s where "s = format_nat 10 (nat i)"
  have s: "Itoa i = s" "s \<noteq> []" "list_all is_digit s" "read_digits 10 s 0 = Some (nat i)"
    using assms(1) format_digits[of "nat i"] read_format[of "nat i"] by (auto simp: s_def Itoa_def FormatInt_def)
  have h: "is_digit (hd s)" using s(2,3) by (cases s) auto
  have "read_digits (fst (int_base s)) (snd (int_base s)) 0 = Some (nat i)"
  proof (cases "i = 0")
    case True
    then have "s = ''0''" by (simp add: s_def format_nat.simps[of 10 0] digit_zero)
    then show ?thesis using True by (simp add: int_base_def)
  next
    case False
    then have "hd s \<noteq> CHR ''0''" using format_head[of "nat i"] assms(1) by (simp add: s_def)
    then show ?thesis by (simp add: int_base_def s(4))
  qed
  moreover have "\<not> (2 \<le> length s \<and> ascii_lower (s ! 1) \<in> {CHR ''b'', CHR ''o'', CHR ''x''})"
  proof
    assume l: "2 \<le> length s \<and> ascii_lower (s ! 1) \<in> {CHR ''b'', CHR ''o'', CHR ''x''}"
    then have "is_digit (s ! 1)" using s(3) by (auto simp: list_all_length)
    then have "ascii_lower (s ! 1) = s ! 1" by (simp add: is_digit_def ascii_lower_def)
    with l \<open>is_digit (s ! 1)\<close> show False by (auto simp: is_digit_def)
  qed
  then have "underscoreOK s" using s(2) digits_underscores[OF s(3)] by (auto simp: underscoreOK_def)
  moreover have "hd s \<noteq> CHR ''-''" "hd s \<noteq> CHR ''+''" using h by (auto simp: is_digit_def)
  moreover have "n < 2 ^ 63" if "n = nat i" for n :: nat using that assms by (simp add: nat_less_iff)
  ultimately show ?thesis using s assms by (auto simp: ParseInt_def Let_def split: prod.split)
qed

lemma split_flags:
  "split_flag (''host='' @ h) = (''host'', Some h)" "split_flag (''port='' @ h) = (''port'', Some h)"
  "split_flag (''master='' @ h) = (''master'', Some h)" "split_flag (''addr='' @ h) = (''addr'', Some h)"
  "split_flag ''servers'' = (''servers'', None)"
  by (simp_all add: split_flag_def)

lemma Parse_flag:
  assumes "split_flag name = (n, Some v)" "fs n \<noteq> None" "name \<noteq> []" "hd name \<noteq> CHR ''-''" "hd name \<noteq> CHR ''=''"
  shows "flag_Parse ((CHR ''-'' # name) # args) fs = (case set_flag n v fs of Inl e \<Rightarrow> Inl e | Inr fs' \<Rightarrow> flag_Parse args fs')"
  using assms by (cases name) (auto simp: Let_def)

text \<open>The arguments that \<open>start_raft.sh\<close> and \<open>start_kv.sh\<close> pass: the master's address when the script has
  one, the host when it has one, and always a port.\<close>

definition launch_args :: "string \<Rightarrow> string \<Rightarrow> int \<Rightarrow> string list" where
  "launch_args master host port =
     (if master = '''' then [] else [''-master='' @ master]) @ (if host = '''' then [] else [''-host='' @ host])
     @ [''-port='' @ Itoa port]"

definition launched :: "string \<Rightarrow> int \<Rightarrow> nat \<Rightarrow> place list" where
  "launched host port n =
     map (\<lambda>i. (if host = '''' then ''localhost'' else host, port + int i)) [0..<if n < 3 then 3 else n]"

lemma launch_parse:
  assumes "0 \<le> p" "p < 2 ^ 63" "fs = raft_flags \<or> fs = kv_flags"
  shows "\<exists>fs'. flag_Parse (launch_args m h p) fs = Inr fs' \<and> int_flag fs' ''port'' = p
    \<and> string_flag fs' ''host'' = (if h = '''' then ''localhost'' else h)"
proof -
  have fs: "fs = raft_flags" using assms(3) by (auto simp: raft_flags_def kv_flags_def)
  have sets: "set_flag ''host'' v f = Inr (f(''host'' \<mapsto> String_value v))" "set_flag ''master'' v f = Inr (f(''master'' \<mapsto> String_value v))"
    "set_flag ''port'' (Itoa p) f = Inr (f(''port'' \<mapsto> Int_value p))"
    if "\<exists>s. f ''host'' = Some (String_value s)" "\<exists>s. f ''master'' = Some (String_value s)" "\<exists>i. f ''port'' = Some (Int_value i)"
    for f :: flags and v
    using that ParseInt_Itoa[OF assms(1,2)] by (auto simp: set_flag_def)
  note P = Parse_flag[of "''host='' @ v" for v, simplified append.simps] Parse_flag[of "''port='' @ v" for v, simplified append.simps]
    Parse_flag[of "''master='' @ v" for v, simplified append.simps]
  show ?thesis
    by (auto simp: fs launch_args_def P split_flags[simplified append.simps] sets raft_flags_def int_flag_def string_flag_def
        simp del: flag_Parse.simps(2))
qed

section \<open>Servers launched by the scripts\<close>

definition launch_place :: "string \<times> string \<times> int \<Rightarrow> place" where
  "launch_place = (\<lambda>(master, host, port). (if host = '''' then ''localhost'' else host, port))"

lemma launched_raft:
  assumes "0 \<le> p" "p < 2 ^ 63"
  shows "\<exists>fs. raft_main t (launch_args m h p) = Inr (fs, MakeRaftController t (fst (launch_place (m, h, p))) p)"
proof -
  obtain fs where "flag_Parse (launch_args m h p) raft_flags = Inr fs" "int_flag fs ''port'' = p"
    "string_flag fs ''host'' = fst (launch_place (m, h, p))"
    using launch_parse[OF assms, of raft_flags m h] by (auto simp: launch_place_def)
  then show ?thesis by (auto simp: raft_main_def Let_def string_flag_def int_flag_def)
qed

lemma launched_kv:
  assumes "0 \<le> p" "p < 2 ^ 63"
  shows "kv_main t (launch_args m h p) = Inr (MakeKVRaftController t (fst (launch_place (m, h, p))) p)"
  using launch_parse[OF assms, of kv_flags m h] by (auto simp: kv_main_def launch_place_def)

text \<open>The flag \<open>master\<close> makes no difference: the server registers at the fixed address.\<close>

lemma master_flag_ignored:
  "raft_main t args = Inr (fs, rc, u, d) \<Longrightarrow> Host u = master_addr"
  "kv_main t args = Inr (kc, u, k) \<Longrightarrow> Host u = master_addr"
  by (auto simp: raft_main_def kv_main_def MakeRaftController_def MakeKVRaftController_def Let_def split: sum.splits)

text \<open>Without arguments a Raft server and a key/value server take the same address.\<close>

lemma default_ports_clash:
  "map_sum id (rc_Addr \<circ> fst \<circ> snd) (raft_main t []) = (Inr ''localhost:1255'' :: flag_exit + string)"
  "map_sum id (kc_Addr \<circ> fst) (kv_main t []) = (Inr ''localhost:1255'' :: flag_exit + string)"
proof -
  have "Itoa 1255 = ''1255''" by code_simp
  then show "map_sum id (rc_Addr \<circ> fst \<circ> snd) (raft_main t []) = (Inr ''localhost:1255'' :: flag_exit + string)"
    "map_sum id (kc_Addr \<circ> fst) (kv_main t []) = (Inr ''localhost:1255'' :: flag_exit + string)"
    by (simp_all add: raft_main_def kv_main_def raft_flags_def kv_flags_def string_flag_def int_flag_def Let_def
        MakeRaftController_def MakeKVRaftController_def full_addr_def)
qed

text \<open>And \<open>cmd.go\<close> makes its own metric controller where the program for it makes one.\<close>

lemma metric_clash:
  "metric_main [] = Inr h \<Longrightarrow> cmd_main t [] = Inr (NewController 3, h, main_events t)"
  by (simp add: metric_main_def cmd_main_def metric_flags_def cmd_flags_def string_flag_def int_flag_def)

lemma client_default:
  "client_main t [] = Inr (MakeClientController2 t ''localhost'' 14000)"
  by (simp add: client_main_def client_flags_def string_flag_def int_flag_def)

text \<open>\<open>start_master.sh\<close> passes the value of an unset variable: the flag \<open>servers\<close> is left without a value,
  and the program ends.\<close>

lemma start_master_exits: "cmd_main t [''-servers''] = Inl Bad_flag"
  by (simp add: cmd_main_def cmd_flags_def split_flags Let_def)

lemma cmd_servers:
  assumes "int n < 2 ^ 63"
  shows "cmd_main t [''-servers'', Itoa (int n)] = Inr (NewController (int n), Init_metric (MakeMetricHost ''localhost'' 12800), main_events t)"
proof -
  have "ParseInt (Itoa (int n)) = Some (int n)" using assms by (intro ParseInt_Itoa) simp_all
  then show ?thesis by (simp add: cmd_main_def cmd_flags_def split_flags Let_def set_flag_def int_flag_def)
qed

text \<open>What reaches the master controller from the launched processes; one that exits registers nothing.\<close>

definition launch_events :: "(url \<Rightarrow> string) \<Rightarrow> string list list \<Rightarrow> string list list \<Rightarrow> event list" where
  "launch_events t rafts kvs =
     concat (map (\<lambda>args. case raft_main t args :: flag_exit + (flags \<times> unit raft_controller \<times> _) of
       Inl _ \<Rightarrow> [] | Inr r \<Rightarrow> [Raft_arrives (Some (snd (snd (snd r))))]) rafts)
     @ concat (map (\<lambda>args. case kv_main t args :: flag_exit + (unit kv_controller \<times> _) of
       Inl _ \<Rightarrow> [] | Inr r \<Rightarrow> [KV_arrives (Some (snd (snd r)))]) kvs)"

definition all_places :: "int \<Rightarrow> (string \<times> string \<times> int) list \<Rightarrow> place list" where
  "all_places start launches = map (\<lambda>i. (''localhost'', start + int i)) [0..<NRaftServers] @ map launch_place launches"

abbreviation args_of :: "string \<times> string \<times> int \<Rightarrow> string list" where
  "args_of \<equiv> \<lambda>(m, h, p). launch_args m h p"

abbreviation port_ok :: "string \<times> string \<times> int \<Rightarrow> bool" where
  "port_ok \<equiv> \<lambda>(m, h, p). 0 \<le> p \<and> p < 2 ^ 63"

lemma launch_arrivals:
  assumes "\<forall>a \<in> set as. port_ok a" "\<forall>b \<in> set bs. port_ok b"
  shows "raft_arrivals (launch_events t (map args_of as) (map args_of bs)) = map (raft_enrols t) (map launch_place as)"
    and "kv_arrivals (launch_events t (map args_of as) (map args_of bs)) = map (kv_enrols t) (map launch_place bs)"
proof -
  have pl: "snd (launch_place (m, h, p)) = p" for m h p by (simp add: launch_place_def)
  have r: "concat (map (\<lambda>args. case raft_main t args :: flag_exit + (flags \<times> unit raft_controller \<times> _) of
       Inl _ \<Rightarrow> [] | Inr r \<Rightarrow> [Raft_arrives (Some (snd (snd (snd r))))]) (map args_of xs))
     = map (\<lambda>hp. Raft_arrives (Some (raft_enrols t hp))) (map launch_place xs)" if "\<forall>x \<in> set xs. port_ok x" for xs
    using that
  proof (induction xs)
    case (Cons x xs)
    obtain m h p where x: "x = (m, h, p)" by (cases x)
    obtain fs where "raft_main t (launch_args m h p) =
        (Inr (fs, MakeRaftController t (fst (launch_place (m, h, p))) p) :: flag_exit + (flags \<times> unit raft_controller \<times> _))"
      using launched_raft[of p t m h] Cons.prems x by auto
    with Cons show ?case by (simp add: x pl raft_enrols_def)
  qed simp
  have k: "concat (map (\<lambda>args. case kv_main t args :: flag_exit + (unit kv_controller \<times> _) of
       Inl _ \<Rightarrow> [] | Inr r \<Rightarrow> [KV_arrives (Some (snd (snd r)))]) (map args_of xs))
     = map (\<lambda>hp. KV_arrives (Some (kv_enrols t hp))) (map launch_place xs)" if "\<forall>x \<in> set xs. port_ok x" for xs
    using that by (induction xs) (auto simp: launched_kv pl kv_enrols_def)
  show "raft_arrivals (launch_events t (map args_of as) (map args_of bs)) = map (raft_enrols t) (map launch_place as)"
    "kv_arrivals (launch_events t (map args_of as) (map args_of bs)) = map (kv_enrols t) (map launch_place bs)"
    unfolding launch_events_def r[OF assms(1)] k[OF assms(2)]
    by (simp_all add: raft_arrivals_main del: map_map)
qed

lemma all_arrivals:
  fixes t :: "url \<Rightarrow> string"
  assumes "\<forall>a \<in> set as. port_ok a" "\<forall>b \<in> set bs. port_ok b"
  defines "es \<equiv> main_events t @ launch_events t (map args_of as) (map args_of bs)"
  shows "raft_arrivals es = map (raft_enrols t) (all_places RaftServerStartPort as)"
    and "kv_arrivals es = map (kv_enrols t) (all_places KVServerStartPort bs)"
  unfolding es_def all_places_def by (simp_all add: launch_arrivals[OF assms(1,2)] main_arrivals raft_enrols_def kv_enrols_def)

lemma launch_opens:
  assumes "0 < n" "n \<le> NRaftServers + length as" "length bs = length as"
    and "\<forall>a \<in> set as. port_ok a" "\<forall>b \<in> set bs. port_ok b"
  shows "opens n (main_events t @ launch_events t (map args_of as) (map args_of bs))"
proof (cases "n \<le> NRaftServers")
  case True
  then obtain es1 es2 where "main_events t = es1 @ es2" "n \<le> length (raft_arrivals es1)" "length (kv_arrivals es1) < n"
    "n \<le> length (kv_arrivals (main_events t))"
    using main_opens[OF assms(1), of t] by (auto simp: opens_def)
  then show ?thesis unfolding opens_def
    by (intro conjI exI[of _ es1] exI[of _ "es2 @ launch_events t (map args_of as) (map args_of bs)"]) simp_all
next
  case False
  let ?r = "launch_events t (map args_of as) []"
  have sp: "launch_events t (map args_of as) (map args_of bs) = ?r @ launch_events t [] (map args_of bs)"
    by (simp add: launch_events_def)
  have r: "raft_arrivals ?r = map (raft_enrols t) (map launch_place as)" "kv_arrivals ?r = []"
    using launch_arrivals[OF assms(4), of "[]" t] by simp_all
  have "n \<le> length (raft_arrivals (main_events t @ ?r))" "length (kv_arrivals (main_events t @ ?r)) < n"
    using r False assms(2) by (simp_all add: main_arrivals)
  moreover have "n \<le> length (kv_arrivals (main_events t @ launch_events t (map args_of as) (map args_of bs)))"
    unfolding all_arrivals(2)[OF assms(4,5)] using assms(2,3) by (simp add: all_places_def)
  ultimately show ?thesis unfolding opens_def sp by (metis append.assoc)
qed

lemma registered_enrolled:
  assumes "registered n (map (raft_enrols t) rs) (map (kv_enrols t) ks) c" "n \<le> length rs" "n \<le> length ks"
  shows "enrolled t (take n rs) (take n ks) c"
proof -
  have "with_ids (take n (map (raft_enrols t) rs)) = map (\<lambda>i. with_id i (raft_enrols t (take n rs ! i))) [0..<length (take n rs)]"
    by (rule nth_equalityI) (use assms(2) in simp_all)
  then show ?thesis using assms by (simp add: enrolled_def registered_def take_map)
qed

text \<open>C34: From the command lines to the calls: the program \<open>cmd.go\<close>, run with the flag \<open>servers\<close> set to
  \<open>n\<close>, and \<open>k\<close> processes of each kind launched by the scripts with hosts and ports of their own
  choice, form a cluster when they register in this order: the servers of \<open>cmd.go\<close>, all launched
  Raft servers, all launched key/value servers (another order may never start: \<open>start_barrier\<close>);
  for every \<open>n\<close> up to \<open>k\<close> and the five servers \<open>cmd.go\<close> makes itself. The members are the first \<open>n\<close>,
  those of \<open>cmd.go\<close> before the launched ones, and every call of \<open>serversInit\<close> finds its handler
  at the member it is meant for. With \<open>n\<close> at most five no launched server is a member.\<close>
theorem launched_cluster_starts:
  assumes n: "0 < n" "n \<le> NRaftServers + length as" "length bs = length as"
    and ports: "\<forall>a \<in> set (as @ bs). port_ok a" and fits: "int n < 2 ^ 63"
    and parse: "texts_parse t parse (all_places RaftServerStartPort as @ all_places KVServerStartPort bs)"
  shows "\<exists>con mh own c calls. cmd_main t [''-servers'', Itoa (int n)] = Inr (con, mh, own)
    \<and> go_fold handle_event (Init_moves # prompt (own @ launch_events t (map args_of as) (map args_of bs))) con = Inr c
    \<and> init_pc c = Got_kv \<and> serversInit parse c = Inr calls
    \<and> list_all2 reached (start_plan t (take n (all_places RaftServerStartPort as)) (take n (all_places KVServerStartPort bs))) calls
    \<and> (n \<le> NRaftServers \<longrightarrow> take n (all_places RaftServerStartPort as) = take n (all_places RaftServerStartPort [])
         \<and> take n (all_places KVServerStartPort bs) = take n (all_places KVServerStartPort []))"
proof -
  let ?es = "main_events t @ launch_events t (map args_of as) (map args_of bs)"
  let ?rs = "all_places RaftServerStartPort as" and ?ks = "all_places KVServerStartPort bs"
  have p: "\<forall>a \<in> set as. port_ok a" "\<forall>b \<in> set bs. port_ok b" using ports by auto
  have len: "n \<le> length ?rs" "n \<le> length ?ks" using n by (simp_all add: all_places_def)
  obtain c where c: "go_fold handle_event (Init_moves # prompt ?es) (NewController (int n)) = Inr c"
    "registered n (raft_arrivals ?es) (kv_arrivals ?es) c" "init_pc c = barrier_pc n ?es"
    using barrier_run[OF n(1)] by blast
  have "init_pc c = Got_kv"
    using launch_opens[OF n p, of t] opens_raft[OF launch_opens[OF n p, of t]] unfolding c(3) barrier_pc_def by simp
  moreover have "enrolled t (take n ?rs) (take n ?ks) c"
    by (rule registered_enrolled[OF c(2)[unfolded all_arrivals[OF p]] len])
  moreover have "texts_parse t parse (take n ?rs @ take n ?ks @ [])"
    using parse unfolding texts_parse_def list_all_iff by (auto dest: in_set_takeD)
  ultimately obtain calls where "init_pc c = Got_kv" "serversInit parse c = Inr calls"
    "list_all2 reached (start_plan t (take n ?rs) (take n ?ks)) calls"
    using start_calls_answered by blast
  moreover have "n \<le> NRaftServers \<longrightarrow> take n ?rs = take n (all_places RaftServerStartPort [])
      \<and> take n ?ks = take n (all_places KVServerStartPort [])" by (simp add: all_places_def)
  ultimately show ?thesis
    by (intro exI conjI) (rule cmd_servers[OF fits] c(1) | assumption)+
qed

theorem launched_cluster_starts_witness:
  "\<exists>con mh own c calls. cmd_main ex_text [''-servers'', Itoa 7] = Inr (con, mh, own)
    \<and> go_fold handle_event (Init_moves # prompt (own @ launch_events ex_text
        [[''-host=10.0.0.7'', ''-port='' @ Itoa 1400], [''-master=10.0.0.1:65000'', ''-port='' @ Itoa 1401]]
        [[''-host=10.0.0.7'', ''-port='' @ Itoa 1500], [''-port='' @ Itoa 1501]])) con = Inr c
    \<and> init_pc c = Got_kv \<and> serversInit ex_parse c = Inr calls
    \<and> list_all2 reached (start_plan ex_text
        [(''localhost'', 1150), (''localhost'', 1151), (''localhost'', 1152), (''localhost'', 1153), (''localhost'', 1154),
         (''10.0.0.7'', 1400), (''localhost'', 1401)]
        [(''localhost'', 1100), (''localhost'', 1101), (''localhost'', 1102), (''localhost'', 1103), (''localhost'', 1104),
         (''10.0.0.7'', 1500), (''localhost'', 1501)]) calls"
proof -
  let ?as = "[('''', ''10.0.0.7'', 1400), (''10.0.0.1:65000'', '''', 1401)] :: (string \<times> string \<times> int) list"
  let ?bs = "[('''', ''10.0.0.7'', 1500), ('''', '''', 1501)] :: (string \<times> string \<times> int) list"
  have "texts_parse ex_text ex_parse (all_places RaftServerStartPort ?as @ all_places KVServerStartPort ?bs)"
    by (rule ex_texts) (auto simp: all_places_def launch_place_def RaftServerStartPort_def KVServerStartPort_def list_all_iff)
  then show ?thesis
    using launched_cluster_starts[of 7 ?as ?bs ex_text ex_parse]
    by (simp add: NRaftServers_def all_places_def launch_place_def launch_args_def upt_rec
        RaftServerStartPort_def KVServerStartPort_def)
qed

end
