(* ===== verification/Processes.thy ===== *)
theory Processes
  imports Programs
begin

text \<open>
  What the programs do beside serving: the debugging output of \<open>raft/util.go\<close> and of
  \<open>kvraft/server.go\<close>, and how a process ends. The four programs for single servers wait for a
  signal: \<open>signal.Notify\<close> fills a channel of one place and drops what does not fit, a goroutine takes the
  first signal, prints it and tells \<open>main\<close>. A SIGKILL ends a process without the program seeing
  it (package os/signal), although the programs ask for it. \<open>cmd.go\<close> waits for
  \<open>Controller.API_Stop\<close>, which no route leads to.
\<close>

section \<open>Debugging output\<close>

text \<open>The lines written, and the zero values of the named results; \<open>sprintf\<close> stands for the formatting of package fmt.\<close>

definition raft_Debug :: int where "raft_Debug = 0"

definition raft_DPrintf :: "(string \<Rightarrow> 'a list \<Rightarrow> string) \<Rightarrow> string \<Rightarrow> 'a list \<Rightarrow> string list \<times> int \<times> string option" where
  "raft_DPrintf sprintf format a = (if raft_Debug > 0 then [sprintf (format @ [CHR 0x0A]) a] else [], 0, None)"

definition kv_Debug :: int where "kv_Debug = 1"

definition kv_DPrintf :: "(string \<Rightarrow> 'a list \<Rightarrow> string) \<Rightarrow> string \<Rightarrow> 'a list \<Rightarrow> string list \<times> int \<times> string option" where
  "kv_DPrintf sprintf format a = (if kv_Debug > 0 then [sprintf format a] else [], 0, None)"

lemma debug_output: "raft_DPrintf sprintf f a = ([], 0, None)" "kv_DPrintf sprintf f a = ([sprintf f a], 0, None)"
  by (simp_all add: raft_DPrintf_def raft_Debug_def kv_DPrintf_def kv_Debug_def)

section \<open>Waiting for a signal\<close>

datatype os_signal = SIGINT | SIGKILL | SIGABRT | SIGTERM | Other_signal int

definition notified :: "os_signal list" where
  "notified = [SIGINT, SIGKILL, SIGABRT, SIGTERM]"

datatype process_end = Returned | Killed

text \<open>\<open>printed\<close> is \<open>None\<close> while the goroutine waits.\<close>

record process =
  sigs :: "os_signal list"
  done_chnl :: "bool list"
  printed :: "os_signal option"
  ended :: "process_end option"

definition signal_wait :: process where
  "signal_wait = \<lparr>sigs = [], done_chnl = [], printed = None, ended = None\<rparr>"

text \<open>\<open>fatal\<close> says which of the other signals end a process that does not ask for them.\<close>

definition deliver_signal :: "(os_signal \<Rightarrow> bool) \<Rightarrow> os_signal \<Rightarrow> process \<Rightarrow> process" where
  "deliver_signal fatal s p =
     (if s = SIGKILL then p\<lparr>ended := Some Killed\<rparr>
      else if s \<in> set notified then p\<lparr>sigs := chan_try_send 1 s (sigs p)\<rparr>
      else if fatal s then p\<lparr>ended := Some Killed\<rparr> else p)"

definition wait_goroutine :: "process \<Rightarrow> process go" where
  "wait_goroutine p =
     (if printed p \<noteq> None then Inl Blocked
      else go_bind (chan_recv (sigs p)) (\<lambda>(sig, c).
           go_bind (chan_send 1 True (done_chnl p)) (\<lambda>d.
           Inr (p\<lparr>sigs := c, printed := Some sig, done_chnl := d\<rparr>))))"

definition main_wait :: "process \<Rightarrow> process go" where
  "main_wait p = go_bind (chan_recv (done_chnl p)) (\<lambda>(_, d). Inr (p\<lparr>done_chnl := d, ended := Some Returned\<rparr>))"

inductive process_run :: "(os_signal \<Rightarrow> bool) \<Rightarrow> os_signal list \<Rightarrow> process \<Rightarrow> bool" for fatal where
  start: "process_run fatal [] signal_wait"
| signal: "process_run fatal ss p \<Longrightarrow> ended p = None \<Longrightarrow> process_run fatal (ss @ [s]) (deliver_signal fatal s p)"
| waiter: "process_run fatal ss p \<Longrightarrow> ended p = None \<Longrightarrow> wait_goroutine p = Inr p' \<Longrightarrow> process_run fatal ss p'"
| main: "process_run fatal ss p \<Longrightarrow> ended p = None \<Longrightarrow> main_wait p = Inr p' \<Longrightarrow> process_run fatal ss p'"

text \<open>The signals that a program catches.\<close>

abbreviation caught :: "os_signal list \<Rightarrow> os_signal list" where
  "caught \<equiv> filter (\<lambda>s. s \<in> set notified \<and> s \<noteq> SIGKILL)"

definition process_inv :: "os_signal list \<Rightarrow> process \<Rightarrow> bool" where
  "process_inv ss p \<longleftrightarrow> (case printed p of
     None \<Rightarrow> sigs p = take 1 (caught ss) \<and> done_chnl p = [] \<and> ended p \<noteq> Some Returned
   | Some s \<Rightarrow> caught ss \<noteq> [] \<and> s = hd (caught ss) \<and> (ended p = Some Returned \<or> done_chnl p = [True]))"

lemma process_run_inv: "process_run fatal ss p \<Longrightarrow> process_inv ss p"
proof (induction rule: process_run.induct)
  case start
  then show ?case by (simp add: process_inv_def signal_wait_def)
next
  case (signal ss p s)
  then show ?case
    by (cases "caught ss") (auto simp: process_inv_def deliver_signal_def chan_try_send_cases split: option.splits)
next
  case (waiter ss p p')
  then show ?case
    by (cases "caught ss") (auto simp: process_inv_def wait_goroutine_def chan_recv_Inr chan_send_Inr split: if_splits option.splits)
next
  case (main ss p p')
  then show ?case by (auto simp: process_inv_def main_wait_def chan_recv_Inr split: option.splits)
qed

text \<open>A process returns exactly for the first signal it catches, and then as soon as its two goroutines run.\<close>

lemma returns_for_signal:
  assumes "process_run fatal ss p"
  shows "ended p = Some Returned \<Longrightarrow> \<exists>s. printed p = Some s \<and> s = hd (caught ss) \<and> caught ss \<noteq> []"
    and "ended p = None \<Longrightarrow> caught ss \<noteq> [] \<Longrightarrow>
      \<exists>p'. (if printed p = None then go_bind (wait_goroutine p) main_wait else main_wait p) = Inr p' \<and> ended p' = Some Returned"
    and "caught ss = [] \<Longrightarrow> wait_goroutine p = Inl Blocked \<and> main_wait p = Inl Blocked"
  using process_run_inv[OF assms]
  by (cases "caught ss"; auto simp: process_inv_def wait_goroutine_def main_wait_def chan_send_def split: option.splits)+

section \<open>The master controller\<close>

definition controller_API_Stop :: "unit list \<Rightarrow> (unit list \<times> nat) go" where
  "controller_API_Stop stop = go_bind (chan_send 1 () stop) (\<lambda>stop. Inr (stop, 200))"

definition controller_Wait :: "unit list \<Rightarrow> unit list go" where
  "controller_Wait stop = go_bind (chan_recv stop) (\<lambda>(_, stop). Inr stop)"

definition API_RemoveServer :: "controller \<Rightarrow> controller \<times> nat" where
  "API_RemoveServer c = (c, 200)"

text \<open>\<open>Init\<close> makes the channel empty: \<open>cmd.go\<close> returns after one call of \<open>API_Stop\<close>, and only then; a second
  call before that waits.\<close>

lemma master_stops:
  "controller_Wait [] = Inl Blocked"
  "go_bind (controller_API_Stop []) (\<lambda>(stop, _). controller_Wait stop) = Inr []"
  "go_bind (controller_API_Stop []) (\<lambda>(stop, _). controller_API_Stop stop) = Inl Blocked"
  by (simp_all add: controller_Wait_def controller_API_Stop_def chan_send_def)

end
