(* ===== verification/Wire.thy ===== *)
theory Wire
  imports ServiceControl MetricHost RaftHeartBeat
begin

text \<open>
  The messages on the wire: what \<open>encoding/json\<close> makes of the structs the processes exchange, and what
  it reads back. A JSON value is a \<open>gval\<close>, an object the list of its members. Encoding follows the
  tags of the fields (name, \<open>omitempty\<close>); decoding writes into an existing value: a member is matched
  with a field by name, or else by name up to case, a member without a field is skipped, a field
  without a member keeps its value, \<open>null\<close> changes nothing, and a member of the wrong type or out
  of range is an error that leaves its field alone and lets decoding go on.

  Bounds of the model: texts are valid UTF-8 (others come back changed), and numbers in an
  \<open>interface{}\<close>, which become a \<open>float64\<close> there, are at most \<open>2 ^ 53\<close> in size, where that is exact.
  The bytes of a JSON text are not modelled.
\<close>

section \<open>encoding/json\<close>

definition mem :: "string \<Rightarrow> bool \<Rightarrow> gval \<Rightarrow> (string \<times> gval) list" where
  "mem name skip v = (if skip then [] else [(name, v)])"

text \<open>A decoder gives the new value and whether there was no error.\<close>

type_synonym 'a into = "gval \<Rightarrow> 'a \<Rightarrow> 'a \<times> bool"

type_synonym 'r fields = "(string \<times> 'r into) list"

definition find_field :: "'r fields \<Rightarrow> string \<Rightarrow> 'r into option" where
  "find_field fs k =
     (case find (\<lambda>f. fst f = k) fs of
        Some f \<Rightarrow> Some (snd f)
      | None \<Rightarrow> map_option snd (find (\<lambda>f. map ascii_lower (fst f) = map ascii_lower k) fs))"

fun into_members :: "'r fields \<Rightarrow> (string \<times> gval) list \<Rightarrow> 'r \<Rightarrow> 'r \<times> bool" where
  "into_members fs [] r = (r, True)"
| "into_members fs ((k, v) # ms) r =
     (case find_field fs k of
        None \<Rightarrow> into_members fs ms r
      | Some f \<Rightarrow> let (r1, ok1) = f v r; (r2, ok2) = into_members fs ms r1 in (r2, ok1 \<and> ok2))"

fun into_struct :: "'r fields \<Rightarrow> 'r into" where
  "into_struct fs (GMap ms) r = into_members fs ms r"
| "into_struct fs GNil r = (r, True)"
| "into_struct fs _ r = (r, False)"

text \<open>A field of a struct, by its selector and update.\<close>

definition field :: "string \<Rightarrow> ('r \<Rightarrow> 'a) \<Rightarrow> (('a \<Rightarrow> 'a) \<Rightarrow> 'r \<Rightarrow> 'r) \<Rightarrow> 'a into \<Rightarrow> string \<times> 'r into" where
  "field name get upd into = (name, \<lambda>v r. let (x, ok) = into v (get r) in (upd (\<lambda>_. x) r, ok))"

definition in64 :: "int \<Rightarrow> bool" where
  "in64 i \<longleftrightarrow> - (2 ^ 63) \<le> i \<and> i < 2 ^ 63"

fun into_num :: "(int \<Rightarrow> bool) \<Rightarrow> int into" where
  "into_num fits (GNum i) x = (if fits i then (i, True) else (x, False))"
| "into_num fits GNil x = (x, True)"
| "into_num fits _ x = (x, False)"

fun into_bool :: "bool into" where
  "into_bool (GBool b) x = (b, True)"
| "into_bool GNil x = (x, True)"
| "into_bool _ x = (x, False)"

fun into_string :: "string into" where
  "into_string (GStr s) x = (s, True)"
| "into_string GNil x = (x, True)"
| "into_string _ x = (x, False)"

text \<open>A slice is emptied, and filled element by element from the zero value. (Decoding into a slice
  that has elements would start from those; no caller does that.)\<close>

fun into_slice :: "'a \<Rightarrow> 'a into \<Rightarrow> 'a list into" where
  "into_slice zero into (GList vs) xs = (map (\<lambda>v. fst (into v zero)) vs, list_all (\<lambda>v. snd (into v zero)) vs)"
| "into_slice zero into GNil xs = ([], True)"
| "into_slice zero into _ xs = (xs, False)"

text \<open>An \<open>interface{}\<close>: a map keeps the last of several members of one name.\<close>

fun last_wins :: "(string \<times> 'a) list \<Rightarrow> (string \<times> 'a) list" where
  "last_wins [] = []"
| "last_wins (p # ps) = (if fst p \<in> fst ` set ps then last_wins ps else p # last_wins ps)"

fun any :: "gval \<Rightarrow> gval" where
  "any (GList vs) = GList (map any vs)"
| "any (GMap ms) = GMap (last_wins (map (\<lambda>(k, v). (k, any v)) ms))"
| "any v = v"

definition into_any :: "gval into" where
  "into_any v x = (any v, True)"

text \<open>Values that come through an \<open>interface{}\<close> as they are.\<close>

fun plain :: "gval \<Rightarrow> bool" where
  "plain (GNum i) = (\<bar>i\<bar> \<le> 2 ^ 53)"
| "plain (GList vs) = list_all plain vs"
| "plain (GMap ms) = (distinct (map fst ms) \<and> list_all (\<lambda>(k, v). plain v) ms)"
| "plain v = True"

lemma last_wins_distinct: "distinct (map fst ps) \<Longrightarrow> last_wins ps = ps"
  by (induction ps) auto

lemma any_plain: "plain v \<Longrightarrow> any v = v"
proof (induction v rule: any.induct)
  case (2 ms)
  then have "map (\<lambda>(k, v). (k, any v)) ms = ms" by (intro map_idI) (auto simp: list_all_iff)
  with 2 show ?case by (simp add: last_wins_distinct)
qed (auto simp: list_all_iff intro!: map_idI)

named_theorems json_simps

lemmas [json_simps] = mem_def field_def find_field_def ascii_lower_def into_any_def

section \<open>The messages of Raft\<close>

definition RaftLog_json :: "raft_log \<Rightarrow> gval" where
  "RaftLog_json e = GMap
     (mem ''index'' (Index e = 0) (GNum (Index e)) @ mem ''term'' (Term e = 0) (GNum (Term e))
      @ mem ''cmd'' (Cmd e = GNil) (Cmd e))"

definition RaftLog_fields :: "raft_log fields" where
  "RaftLog_fields =
     [field ''index'' Index Index_update (into_num in32), field ''term'' Term Term_update (into_num in32),
      field ''cmd'' Cmd Cmd_update into_any]"

definition log_ok :: "raft_log \<Rightarrow> bool" where
  "log_ok e \<longleftrightarrow> in32 (Index e) \<and> in32 (Term e) \<and> plain (Cmd e)"

lemma zero_log_ok [simp]: "log_ok zero_log"
  by (simp add: log_ok_def in32_def)

lemma RaftLog_back: "log_ok e \<Longrightarrow> into_struct RaftLog_fields (RaftLog_json e) zero_log = (e, True)"
  by (cases e) (auto simp: RaftLog_json_def RaftLog_fields_def json_simps log_ok_def any_plain zero_log_def)

definition AppendEntriesArgs_json :: "append_entries_args \<Rightarrow> gval" where
  "AppendEntriesArgs_json a = GMap
     (mem ''term'' (ae_Term a = 0) (GNum (ae_Term a)) @ mem ''leader_id'' (LeaderID a = 0) (GNum (LeaderID a))
      @ mem ''prev_log'' False (RaftLog_json (PrevLog a))
      @ mem ''entries'' (Entries a = []) (GList (map RaftLog_json (Entries a)))
      @ mem ''leader_commit_idx'' (LeaderCommitIdx a = 0) (GNum (LeaderCommitIdx a)))"

definition AppendEntriesArgs_fields :: "append_entries_args fields" where
  "AppendEntriesArgs_fields =
     [field ''term'' ae_Term ae_Term_update (into_num in32), field ''leader_id'' LeaderID LeaderID_update (into_num in32),
      field ''prev_log'' PrevLog PrevLog_update (into_struct RaftLog_fields),
      field ''entries'' Entries Entries_update (into_slice zero_log (into_struct RaftLog_fields)),
      field ''leader_commit_idx'' LeaderCommitIdx LeaderCommitIdx_update (into_num in32)]"

definition zero_append_args :: append_entries_args where
  "zero_append_args = \<lparr>ae_Term = 0, LeaderID = 0, PrevLog = zero_log, Entries = [], LeaderCommitIdx = 0\<rparr>"

definition append_args_ok :: "append_entries_args \<Rightarrow> bool" where
  "append_args_ok a \<longleftrightarrow> in32 (ae_Term a) \<and> in32 (LeaderID a) \<and> log_ok (PrevLog a) \<and> list_all log_ok (Entries a)
     \<and> in32 (LeaderCommitIdx a)"

lemma into_slice_back:
  assumes "\<And>x. x \<in> set xs \<Longrightarrow> into (f x) zero = (x, True)"
  shows "into_slice zero into (GList (map f xs)) ys = (xs, True)"
  using assms by (auto simp: list_all_iff intro: map_idI)

lemma logs_back: "list_all log_ok es \<Longrightarrow>
    into_slice zero_log (into_struct RaftLog_fields) (GList (map RaftLog_json es)) ys = (es, True)"
  by (rule into_slice_back) (auto simp: list_all_iff RaftLog_back)

lemma AppendEntriesArgs_back:
  "append_args_ok a \<Longrightarrow> into_struct AppendEntriesArgs_fields (AppendEntriesArgs_json a) zero_append_args = (a, True)"
  by (cases a) (auto simp: AppendEntriesArgs_json_def AppendEntriesArgs_fields_def json_simps append_args_ok_def
      RaftLog_back logs_back zero_append_args_def simp del: into_slice.simps)

definition AppendEntriesReply_json :: "append_entries_reply \<Rightarrow> gval" where
  "AppendEntriesReply_json r = GMap
     (mem ''term'' (aer_Term r = 0) (GNum (aer_Term r)) @ mem ''success'' (\<not> Success r) (GBool (Success r))
      @ mem ''last_entry'' False (RaftLog_json (LastEntry r)))"

definition AppendEntriesReply_fields :: "append_entries_reply fields" where
  "AppendEntriesReply_fields =
     [field ''term'' aer_Term aer_Term_update (into_num in32), field ''success'' Success Success_update into_bool,
      field ''last_entry'' LastEntry LastEntry_update (into_struct RaftLog_fields)]"

definition append_reply_ok :: "append_entries_reply \<Rightarrow> bool" where
  "append_reply_ok r \<longleftrightarrow> in32 (aer_Term r) \<and> log_ok (LastEntry r)"

lemma AppendEntriesReply_back:
  "append_reply_ok r \<Longrightarrow> into_struct AppendEntriesReply_fields (AppendEntriesReply_json r) zero_append_reply = (r, True)"
  by (cases r) (auto simp: AppendEntriesReply_json_def AppendEntriesReply_fields_def json_simps append_reply_ok_def RaftLog_back)

definition RequestVoteArgs_json :: "request_vote_args \<Rightarrow> gval" where
  "RequestVoteArgs_json a = GMap
     (mem ''term'' (rv_Term a = 0) (GNum (rv_Term a)) @ mem ''id'' (ID a = 0) (GNum (ID a))
      @ mem ''log'' False (RaftLog_json (Log a)))"

definition RequestVoteArgs_fields :: "request_vote_args fields" where
  "RequestVoteArgs_fields =
     [field ''term'' rv_Term rv_Term_update (into_num in32), field ''id'' ID ID_update (into_num in32),
      field ''log'' Log Log_update (into_struct RaftLog_fields)]"

definition zero_vote_args :: request_vote_args where
  "zero_vote_args = \<lparr>rv_Term = 0, ID = 0, Log = zero_log\<rparr>"

lemma RequestVoteArgs_back:
  "in32 (rv_Term a) \<Longrightarrow> in32 (ID a) \<Longrightarrow> log_ok (Log a) \<Longrightarrow>
    into_struct RequestVoteArgs_fields (RequestVoteArgs_json a) zero_vote_args = (a, True)"
  by (cases a) (auto simp: RequestVoteArgs_json_def RequestVoteArgs_fields_def json_simps RaftLog_back zero_vote_args_def)

definition RequestVoteReply_json :: "request_vote_reply \<Rightarrow> gval" where
  "RequestVoteReply_json r = GMap
     (mem ''term'' (rvr_Term r = 0) (GNum (rvr_Term r)) @ mem ''voted'' (\<not> Voted r) (GBool (Voted r)))"

definition RequestVoteReply_fields :: "request_vote_reply fields" where
  "RequestVoteReply_fields =
     [field ''term'' rvr_Term rvr_Term_update (into_num in32), field ''voted'' Voted Voted_update into_bool]"

lemma RequestVoteReply_back:
  "in32 (rvr_Term r) \<Longrightarrow> into_struct RequestVoteReply_fields (RequestVoteReply_json r) zero_vote_reply = (r, True)"
  by (cases r) (auto simp: RequestVoteReply_json_def RequestVoteReply_fields_def json_simps)

section \<open>Between Raft and the key/value server\<close>

definition AgreeReply_json :: "agree_reply \<Rightarrow> gval" where
  "AgreeReply_json r = GMap
     (mem ''term'' (ag_Term r = 0) (GNum (ag_Term r)) @ mem ''index'' (ag_Index r = 0) (GNum (ag_Index r))
      @ mem ''is_leader'' (\<not> ag_IsLeader r) (GBool (ag_IsLeader r)))"

definition AgreeReply_fields :: "agree_reply fields" where
  "AgreeReply_fields =
     [field ''term'' ag_Term ag_Term_update (into_num in64), field ''index'' ag_Index ag_Index_update (into_num in64),
      field ''is_leader'' ag_IsLeader ag_IsLeader_update into_bool]"

lemma AgreeReply_back:
  "in64 (ag_Term r) \<Longrightarrow> in64 (ag_Index r) \<Longrightarrow> into_struct AgreeReply_fields (AgreeReply_json r) zero_agree_reply = (r, True)"
  by (cases r) (auto simp: AgreeReply_json_def AgreeReply_fields_def json_simps)

text \<open>The key/value server puts an \<open>Op\<close> into \<open>Cmd\<close>; what arrives is the map \<open>op_json\<close>.\<close>

definition AgreeArgs_json :: "gval \<Rightarrow> gval" where
  "AgreeArgs_json v = GMap (mem ''cmd'' (v = GNil) v)"

definition AgreeArgs_fields :: "agree_args fields" where
  "AgreeArgs_fields = [field ''cmd'' agree_Cmd agree_Cmd_update into_any]"

lemma AgreeArgs_back: "plain v \<Longrightarrow> into_struct AgreeArgs_fields (AgreeArgs_json v) \<lparr>agree_Cmd = GNil\<rparr> = (\<lparr>agree_Cmd = v\<rparr>, True)"
  by (auto simp: AgreeArgs_json_def AgreeArgs_fields_def json_simps any_plain)

lemma op_json_plain: "plain (op_json o')"
  by (simp add: op_json_def)

text \<open>No caller sends a snapshot, so its base64 text is an argument.\<close>

definition ApplyMsg_json :: "(8 word list \<Rightarrow> string) \<Rightarrow> apply_msg \<Rightarrow> gval" where
  "ApplyMsg_json base64 m = GMap
     (mem ''index'' (msg_Index m = 0) (GNum (msg_Index m)) @ mem ''command'' (Command m = GNil) (Command m)
      @ mem ''use_snapshot'' (\<not> UseSnapshot m) (GBool (UseSnapshot m))
      @ mem ''snapshot'' (Snapshot m = []) (GStr (base64 (Snapshot m))))"

definition ApplyMsg_fields :: "8 word list into \<Rightarrow> apply_msg fields" where
  "ApplyMsg_fields into_bytes =
     [field ''index'' msg_Index msg_Index_update (into_num in64), field ''command'' Command Command_update into_any,
      field ''use_snapshot'' UseSnapshot UseSnapshot_update into_bool, field ''snapshot'' Snapshot Snapshot_update into_bytes]"

definition zero_apply_msg :: apply_msg where
  "zero_apply_msg = \<lparr>msg_Index = 0, Command = GNil, UseSnapshot = False, Snapshot = []\<rparr>"

lemma ApplyMsg_back:
  "in64 (msg_Index m) \<Longrightarrow> plain (Command m) \<Longrightarrow> Snapshot m = [] \<Longrightarrow>
    into_struct (ApplyMsg_fields ib) (ApplyMsg_json b64 m) zero_apply_msg = (m, True)"
  by (cases m) (auto simp: ApplyMsg_json_def ApplyMsg_fields_def json_simps any_plain zero_apply_msg_def)

definition ApplyMsgReply_json :: "apply_msg_reply \<Rightarrow> gval" where
  "ApplyMsgReply_json r = GMap (mem ''ok'' (\<not> apply_Ok r) (GBool (apply_Ok r)))"

definition ApplyMsgReply_fields :: "apply_msg_reply fields" where
  "ApplyMsgReply_fields = [field ''ok'' apply_Ok apply_Ok_update into_bool]"

lemma ApplyMsgReply_back: "into_struct ApplyMsgReply_fields (ApplyMsgReply_json r) \<lparr>apply_Ok = False\<rparr> = (r, True)"
  by (cases r) (auto simp: ApplyMsgReply_json_def ApplyMsgReply_fields_def json_simps)

definition StateReply_json :: "state_reply \<Rightarrow> gval" where
  "StateReply_json r = GMap
     (mem ''term'' False (GNum (st_Term r)) @ mem ''is_leader'' False (GBool (st_IsLeader r)))"

definition StateReply_fields :: "state_reply fields" where
  "StateReply_fields =
     [field ''term'' st_Term st_Term_update (into_num in64), field ''is_leader'' st_IsLeader st_IsLeader_update into_bool]"

lemma StateReply_back: "in64 (st_Term r) \<Longrightarrow> into_struct StateReply_fields (StateReply_json r) r0 = (r, True)"
  by (cases r; cases r0) (auto simp: StateReply_json_def StateReply_fields_def json_simps)

text \<open>Why the reply has to be a new one: a reply without its zero fields does not overwrite them.\<close>

lemma reused_reply_keeps:
  "into_struct AgreeReply_fields (AgreeReply_json \<lparr>ag_Term = 0, ag_Index = 0, ag_IsLeader = False\<rparr>) r0 = (r0, True)"
  by (cases r0) (simp add: AgreeReply_json_def json_simps)

section \<open>Between the clerk and the key/value server\<close>

text \<open>The clerk has its own copies of the server's types (\<open>raftclient/common/common.go\<close>). The theory
  \<open>Clerk\<close> uses the server's; here is what comes across.\<close>

record common_op =
  co_ContextId :: string
  co_Cmd :: string

record common_put_append_args =
  cp_Op :: common_op
  cp_OK :: bool
  cp_Tries :: int
  cp_Idx :: int

record common_put_append_reply =
  cp_WrongLeader :: bool
  cp_Err :: string
  cp_reply_Idx :: int

record common_get_args =
  cg_Key :: string
  cg_Op :: common_op

record common_get_reply =
  cg_WrongLeader :: bool
  cg_Err :: string
  cg_Value :: string

definition served_op :: "common_op \<Rightarrow> kv_op" where
  "served_op o' = \<lparr>ContextId = co_ContextId o', op_Cmd = co_Cmd o'\<rparr>"

definition served_put :: "common_put_append_args \<Rightarrow> put_append_args" where
  "served_put a = \<lparr>pa_Op = served_op (cp_Op a), pa_OK = cp_OK a, Tries = cp_Tries a, pa_Idx = cp_Idx a\<rparr>"

definition served_get :: "common_get_args \<Rightarrow> get_args" where
  "served_get a = \<lparr>Key = cg_Key a, get_Op = served_op (cg_Op a)\<rparr>"

definition seen_put :: "put_append_reply \<Rightarrow> common_put_append_reply" where
  "seen_put r = \<lparr>cp_WrongLeader = par_WrongLeader r, cp_Err = par_Err r, cp_reply_Idx = par_Idx r\<rparr>"

definition seen_get :: "get_reply \<Rightarrow> common_get_reply" where
  "seen_get r = \<lparr>cg_WrongLeader = gr_WrongLeader r, cg_Err = gr_Err r, cg_Value = Value r\<rparr>"

definition common_op_json :: "common_op \<Rightarrow> gval" where
  "common_op_json o' = GMap (mem ''ContextId'' False (GStr (co_ContextId o')) @ mem ''Cmd'' False (GStr (co_Cmd o')))"

definition common_put_json :: "common_put_append_args \<Rightarrow> gval" where
  "common_put_json a = GMap
     (mem ''Op'' False (common_op_json (cp_Op a)) @ mem ''OK'' False (GBool (cp_OK a))
      @ mem ''Tries'' False (GNum (cp_Tries a)) @ mem ''Idx'' False (GNum (cp_Idx a)))"

definition common_get_json :: "common_get_args \<Rightarrow> gval" where
  "common_get_json a = GMap (mem ''Key'' False (GStr (cg_Key a)) @ mem ''Op'' False (common_op_json (cg_Op a)))"

definition Op_fields :: "kv_op fields" where
  "Op_fields = [field ''ContextId'' ContextId ContextId_update into_string, field ''Cmd'' op_Cmd op_Cmd_update into_string]"

definition PutAppendArgs_fields :: "put_append_args fields" where
  "PutAppendArgs_fields =
     [field ''Op'' pa_Op pa_Op_update (into_struct Op_fields), field ''OK'' pa_OK pa_OK_update into_bool,
      field ''Tries'' Tries Tries_update (into_num in64), field ''Idx'' pa_Idx pa_Idx_update (into_num in64)]"

definition GetArgs_fields :: "get_args fields" where
  "GetArgs_fields = [field ''Key'' Key Key_update into_string, field ''Op'' get_Op get_Op_update (into_struct Op_fields)]"

definition PutAppendReply_json :: "put_append_reply \<Rightarrow> gval" where
  "PutAppendReply_json r = GMap
     (mem ''WrongLeader'' False (GBool (par_WrongLeader r)) @ mem ''Err'' False (GStr (par_Err r))
      @ mem ''Idx'' False (GNum (par_Idx r)))"

definition GetReply_json :: "get_reply \<Rightarrow> gval" where
  "GetReply_json r = GMap
     (mem ''WrongLeader'' False (GBool (gr_WrongLeader r)) @ mem ''Err'' False (GStr (gr_Err r))
      @ mem ''Value'' False (GStr (Value r)))"

definition common_put_reply_fields :: "common_put_append_reply fields" where
  "common_put_reply_fields =
     [field ''WrongLeader'' cp_WrongLeader cp_WrongLeader_update into_bool, field ''Err'' cp_Err cp_Err_update into_string,
      field ''Idx'' cp_reply_Idx cp_reply_Idx_update (into_num in64)]"

definition common_get_reply_fields :: "common_get_reply fields" where
  "common_get_reply_fields =
     [field ''WrongLeader'' cg_WrongLeader cg_WrongLeader_update into_bool, field ''Err'' cg_Err cg_Err_update into_string,
      field ''Value'' cg_Value cg_Value_update into_string]"

lemma common_op_arrives: "into_struct Op_fields (common_op_json o') r0 = (served_op o', True)"
  by (cases o'; cases r0) (simp add: common_op_json_def Op_fields_def json_simps served_op_def)

lemma common_put_arrives:
  "in64 (cp_Tries a) \<Longrightarrow> in64 (cp_Idx a) \<Longrightarrow> into_struct PutAppendArgs_fields (common_put_json a) a0 = (served_put a, True)"
  by (cases a; cases a0) (simp add: common_put_json_def PutAppendArgs_fields_def json_simps common_op_arrives served_put_def)

lemma common_get_arrives: "into_struct GetArgs_fields (common_get_json a) a0 = (served_get a, True)"
  by (cases a; cases a0) (simp add: common_get_json_def GetArgs_fields_def json_simps common_op_arrives served_get_def)

lemma put_reply_seen: "in64 (par_Idx r) \<Longrightarrow> into_struct common_put_reply_fields (PutAppendReply_json r) r0 = (seen_put r, True)"
  by (cases r; cases r0) (simp add: PutAppendReply_json_def common_put_reply_fields_def json_simps seen_put_def)

lemma get_reply_seen: "into_struct common_get_reply_fields (GetReply_json r) r0 = (seen_get r, True)"
  by (cases r; cases r0) (simp add: GetReply_json_def common_get_reply_fields_def json_simps seen_get_def)

section \<open>The messages of the controllers\<close>

text \<open>An \<open>error\<close> is sent as an empty object, which no \<open>error\<close> can be read from; the program sets none.\<close>

fun into_error :: "string option into" where
  "into_error GNil x = (None, True)"
| "into_error _ x = (x, False)"

definition CommonReply_json :: "common_reply \<Rightarrow> gval" where
  "CommonReply_json r = GMap
     (mem ''ok'' (\<not> cr_Ok r) (GBool (cr_Ok r)) @ mem ''err'' (cr_Err r = None) (GMap []))"

definition CommonReply_fields :: "common_reply fields" where
  "CommonReply_fields = [field ''ok'' cr_Ok cr_Ok_update into_bool, field ''err'' cr_Err cr_Err_update into_error]"

lemma CommonReply_back:
  "cr_Err r = None \<Longrightarrow> into_struct CommonReply_fields (CommonReply_json r) zero_common_reply = (r, True)"
  "cr_Err r \<noteq> None \<Longrightarrow> \<not> snd (into_struct CommonReply_fields (CommonReply_json r) r0)"
  by (cases r; auto simp: CommonReply_json_def CommonReply_fields_def json_simps zero_common_reply_def)+

definition RaftConnectDetails_json :: "raft_connect_details \<Rightarrow> gval" where
  "RaftConnectDetails_json d = GMap
     (mem ''addr'' False (GStr (Addr d)) @ mem ''port'' False (GNum (Port d)) @ mem ''id'' False (GNum (conn_Id d))
      @ mem ''reply_full_path'' (ReplyFullPath d = []) (GStr (ReplyFullPath d)))"

definition RaftConnectDetails_fields :: "raft_connect_details fields" where
  "RaftConnectDetails_fields =
     [field ''addr'' Addr Addr_update into_string, field ''port'' Port Port_update (into_num in64),
      field ''id'' conn_Id conn_Id_update (into_num in64),
      field ''reply_full_path'' ReplyFullPath ReplyFullPath_update into_string]"

definition connect_ok :: "raft_connect_details \<Rightarrow> bool" where
  "connect_ok d \<longleftrightarrow> in64 (Port d) \<and> in64 (conn_Id d)"

lemma RaftConnectDetails_back:
  "connect_ok d \<Longrightarrow> into_struct RaftConnectDetails_fields (RaftConnectDetails_json d) zero_connect = (d, True)"
  by (cases d) (auto simp: RaftConnectDetails_json_def RaftConnectDetails_fields_def json_simps connect_ok_def zero_connect_def)

definition RaftKVInitConfig_json :: "raft_kv_init_config \<Rightarrow> gval" where
  "RaftKVInitConfig_json a = GMap
     (mem ''raft_connect'' False (RaftConnectDetails_json (RaftConnect a))
      @ mem ''raft_start_ws_full_path'' (RaftStartWSFullPath a = []) (GStr (RaftStartWSFullPath a))
      @ mem ''raft_start_full_path'' (RaftStartFullPath a = []) (GStr (RaftStartFullPath a))
      @ mem ''kv_init_full_path'' (KVInitFullPath a = []) (GStr (KVInitFullPath a)))"

definition RaftKVInitConfig_fields :: "raft_kv_init_config fields" where
  "RaftKVInitConfig_fields =
     [field ''raft_connect'' RaftConnect RaftConnect_update (into_struct RaftConnectDetails_fields),
      field ''raft_start_ws_full_path'' RaftStartWSFullPath RaftStartWSFullPath_update into_string,
      field ''raft_start_full_path'' RaftStartFullPath RaftStartFullPath_update into_string,
      field ''kv_init_full_path'' KVInitFullPath KVInitFullPath_update into_string]"

lemma RaftKVInitConfig_back:
  "connect_ok (RaftConnect a) \<Longrightarrow> into_struct RaftKVInitConfig_fields (RaftKVInitConfig_json a) zero_init_config = (a, True)"
  by (cases a) (auto simp: RaftKVInitConfig_json_def RaftKVInitConfig_fields_def json_simps RaftConnectDetails_back zero_init_config_def)

definition ConnectMasterReply_json :: "connect_master_reply \<Rightarrow> gval" where
  "ConnectMasterReply_json m = GMap
     (mem ''peers'' False (GList (map RaftConnectDetails_json (Peers m))) @ mem ''ok'' False (GBool (cm_Ok m))
      @ mem ''id'' False (GNum (cm_Id m)))"

definition ConnectMasterReply_fields :: "connect_master_reply fields" where
  "ConnectMasterReply_fields =
     [field ''peers'' Peers Peers_update (into_slice zero_connect (into_struct RaftConnectDetails_fields)),
      field ''ok'' cm_Ok cm_Ok_update into_bool, field ''id'' cm_Id cm_Id_update (into_num in64)]"

lemma ConnectMasterReply_back:
  assumes "list_all connect_ok (Peers m)" "in64 (cm_Id m)"
  shows "into_struct ConnectMasterReply_fields (ConnectMasterReply_json m) m0 = (m, True)"
proof -
  have "into_slice zero_connect (into_struct RaftConnectDetails_fields) (GList (map RaftConnectDetails_json (Peers m))) ys = (Peers m, True)" for ys
    by (rule into_slice_back) (use assms(1) in \<open>auto simp: list_all_iff RaftConnectDetails_back\<close>)
  then show ?thesis using assms(2)
    by (cases m; cases m0) (simp add: ConnectMasterReply_json_def ConnectMasterReply_fields_def json_simps del: into_slice.simps)
qed

definition StopServerArg_json :: "stop_server_arg \<Rightarrow> gval" where
  "StopServerArg_json a = GMap (mem ''idx'' False (GNum (stop_Idx a)))"

definition StopServerArg_fields :: "stop_server_arg fields" where
  "StopServerArg_fields = [field ''idx'' stop_Idx stop_Idx_update (into_num in64)]"

definition StartServerArg_json :: "start_server_arg \<Rightarrow> gval" where
  "StartServerArg_json a = GMap (mem ''Idx'' False (GNum (start_Idx a)))"

definition StartServerArg_fields :: "start_server_arg fields" where
  "StartServerArg_fields = [field ''Idx'' start_Idx start_Idx_update (into_num in64)]"

lemma server_arg_back:
  "in64 (stop_Idx a) \<Longrightarrow> into_struct StopServerArg_fields (StopServerArg_json a) a0 = (a, True)"
  "in64 (start_Idx b) \<Longrightarrow> into_struct StartServerArg_fields (StartServerArg_json b) b0 = (b, True)"
  by (cases a; cases a0; simp add: StopServerArg_json_def StopServerArg_fields_def json_simps)
    (cases b; cases b0; simp add: StartServerArg_json_def StartServerArg_fields_def json_simps)

definition RPCArgs_json :: "rpc_args \<Rightarrow> gval" where
  "RPCArgs_json a = GMap
     (mem ''idx'' False (GNum (Idx a)) @ mem ''rpc_from_idx'' False (GNum (RPCFromIdx a))
      @ mem ''logs'' (rpc_Logs a = []) (GList (map RaftLog_json (rpc_Logs a)))
      @ mem ''type'' (rpc_Type a = []) (GStr (rpc_Type a)) @ mem ''voted_for'' False (GNum (rpc_VotedFor a))
      @ mem ''leader_idx'' False (GNum (rpc_LeaderIdx a)))"

definition RPCArgs_fields :: "rpc_args fields" where
  "RPCArgs_fields =
     [field ''idx'' Idx Idx_update (into_num in64), field ''rpc_from_idx'' RPCFromIdx RPCFromIdx_update (into_num in64),
      field ''logs'' rpc_Logs rpc_Logs_update (into_slice zero_log (into_struct RaftLog_fields)),
      field ''type'' rpc_Type rpc_Type_update into_string, field ''voted_for'' rpc_VotedFor rpc_VotedFor_update (into_num in64),
      field ''leader_idx'' rpc_LeaderIdx rpc_LeaderIdx_update (into_num in64)]"

definition rpc_args_ok :: "rpc_args \<Rightarrow> bool" where
  "rpc_args_ok a \<longleftrightarrow> list_all (\<lambda>i. \<bar>i\<bar> \<le> 2 ^ 53) [Idx a, RPCFromIdx a, rpc_VotedFor a, rpc_LeaderIdx a]
     \<and> list_all log_ok (rpc_Logs a)"

lemma small_in64: "\<bar>i\<bar> \<le> 2 ^ 53 \<Longrightarrow> in64 i"
  by (auto simp: in64_def)

lemma RPCArgs_back: "rpc_args_ok a \<Longrightarrow> into_struct RPCArgs_fields (RPCArgs_json a) zero_rpc_args = (a, True)"
  by (cases a) (auto simp: RPCArgs_json_def RPCArgs_fields_def json_simps rpc_args_ok_def logs_back small_in64
      zero_rpc_args_def simp del: into_slice.simps)

section \<open>Over a websocket\<close>

text \<open>Arguments and replies go in an \<open>interface{}\<close> of a frame, so the other end reads a JSON value, encodes
  that again, and decodes it into the type its handler takes (\<open>null\<close> when the frame has none).\<close>

fun into_value :: "gval option into" where
  "into_value GNil x = (None, True)"
| "into_value v x = (Some (any v), True)"

fun into_u64 :: "64 word into" where
  "into_u64 (GNum i) x = (if 0 \<le> i \<and> i < 2 ^ 64 then (word_of_int i, True) else (x, False))"
| "into_u64 GNil x = (x, True)"
| "into_u64 _ x = (x, False)"

definition value_json :: "string \<Rightarrow> gval option \<Rightarrow> (string \<times> gval) list" where
  "value_json name v = (case v of None \<Rightarrow> [] | Some j \<Rightarrow> [(name, j)])"

definition frame_json :: "gval frame \<Rightarrow> gval" where
  "frame_json f = GMap
     (mem ''msg_type'' False (GNum (MsgType f)) @ mem ''idx'' (frame_Idx f = 0) (GNum (uint (frame_Idx f)))
      @ value_json ''args'' (frame_Args f) @ value_json ''reply'' (frame_Reply f))"

definition frame_fields :: "gval frame fields" where
  "frame_fields =
     [field ''msg_type'' MsgType MsgType_update (into_num in64), field ''idx'' frame_Idx frame_Idx_update into_u64,
      field ''args'' frame_Args frame_Args_update into_value, field ''reply'' frame_Reply frame_Reply_update into_value]"

definition zero_frame :: "gval frame" where
  "zero_frame = \<lparr>MsgType = 0, frame_Idx = 0, frame_Args = None, frame_Reply = None\<rparr>"

definition value_ok :: "gval option \<Rightarrow> bool" where
  "value_ok v = (case v of None \<Rightarrow> True | Some j \<Rightarrow> j \<noteq> GNil \<and> plain j)"

lemma into_value_back: "j \<noteq> GNil \<Longrightarrow> plain j \<Longrightarrow> into_value j x = (Some j, True)"
  by (cases j) (simp_all add: any_plain del: any.simps)

text \<open>So a frame on the wire may stand for the value it encodes, as in \<open>WsConn\<close>; \<open>ReadJSON\<close> starts from a
  new frame each time, and slot 0, which is left out, is read back as 0.\<close>

lemma frame_back:
  assumes "in64 (MsgType f)" "value_ok (frame_Args f)" "value_ok (frame_Reply f)"
  shows "into_struct frame_fields (frame_json f) zero_frame = (f, True)"
proof -
  have u: "0 \<le> uint (frame_Idx f)" "uint (frame_Idx f) < 2 ^ 64" using uint_lt2p[of "frame_Idx f"] by simp_all
  show ?thesis using assms u
    by (cases f) (auto simp: frame_json_def frame_fields_def json_simps value_json_def value_ok_def zero_frame_def
        into_value_back simp del: into_value.simps split: option.splits)
qed

definition ws_decode :: "'a fields \<Rightarrow> 'a \<Rightarrow> gval option \<Rightarrow> 'a option" where
  "ws_decode fs zero v = (case v of
     None \<Rightarrow> Some zero
   | Some j \<Rightarrow> (let (a, ok) = into_struct fs (any j) zero in if ok then Some a else None))"

definition ws_unmarshal :: "'r fields \<Rightarrow> gval option \<Rightarrow> 'r \<Rightarrow> 'r \<times> bool" where
  "ws_unmarshal fs v r = (case v of None \<Rightarrow> (r, True) | Some j \<Rightarrow> into_struct fs (any j) r)"

lemma small32: "in32 i \<Longrightarrow> \<bar>i\<bar> \<le> 2 ^ 53"
  by (auto simp: in32_def)

lemma RaftLog_plain: "log_ok e \<Longrightarrow> plain (RaftLog_json e)"
  by (auto simp: RaftLog_json_def mem_def log_ok_def dest: small32)

lemma logs_plain: "list_all log_ok es \<Longrightarrow> plain (GList (map RaftLog_json es))"
  by (auto simp: list_all_iff RaftLog_plain)

lemma AppendEntries_plain:
  "append_args_ok a \<Longrightarrow> plain (AppendEntriesArgs_json a)"
  "append_reply_ok r \<Longrightarrow> plain (AppendEntriesReply_json r)"
  "rpc_args_ok m \<Longrightarrow> plain (RPCArgs_json m)"
  by (auto simp: AppendEntriesArgs_json_def AppendEntriesReply_json_def RPCArgs_json_def mem_def append_args_ok_def
      append_reply_ok_def rpc_args_ok_def RaftLog_plain logs_plain simp del: plain.simps(2) dest: small32)

text \<open>The end of a websocket that belongs to a Raft server. A handler that panics ends the program, one that
  waits keeps its connection waiting; both are excluded where this is used.\<close>

definition serve_HeartBeat :: "append_entries_args \<Rightarrow> raft \<Rightarrow> append_entries_reply \<times> raft" where
  "serve_HeartBeat a rf = (case HeartBeat a zero_append_reply rf of Inl _ \<Rightarrow> (zero_append_reply, rf) | Inr (rf', r, out) \<Rightarrow> (r, rf'))"

lemma HeartBeat_carries:
  assumes wf: "log_wf (logs rf)" "args_wf args" "0 \<le> lastApplied rf"
    and run: "HeartBeat args zero_append_reply rf = Inr (rf', reply, out)"
  shows "aer_Term reply = currentTerm rf" "LastEntry reply \<in> set (logs rf) \<union> set (Entries args)"
    and "set (logs rf') \<subseteq> set (logs rf) \<union> set (Entries args)" "currentTerm rf' \<in> {currentTerm rf, ae_Term args}"
proof -
  have "aer_Term reply = currentTerm rf \<and> LastEntry reply \<in> set (logs rf) \<union> set (Entries args)
    \<and> set (logs rf') \<subseteq> set (logs rf) \<union> set (Entries args) \<and> currentTerm rf' \<in> {currentTerm rf, ae_Term args}"
    using wf
  proof (cases rule: HeartBeat_branches[where reply = zero_append_reply])
    case blocked
    then show ?thesis using run by simp
  next
    case stale
    then show ?thesis using run wf log_wfD(1)[OF wf(1)] by (auto simp: HeartBeat_stale)
  next
    case missing
    then show ?thesis using run wf log_wfD(1)[OF wf(1)] by (auto simp: HeartBeat_missing hb_follow_def)
  next
    case conflict
    then have "hb_cut args rf \<le> length (logs rf)" "1 \<le> hb_cut args rf"
      using hb_cut_bounds[OF conflict(3)] wf(2) by (auto simp: args_wf_def)
    then show ?thesis
      using run conflict HeartBeat_conflict[OF wf(1,2) conflict(2,1,3), of zero_append_reply]
      by (auto simp: hb_follow_def dest: in_set_takeD)
  next
    case accept
    have m: "hb_merged args rf \<noteq> []" "set (hb_merged args rf) \<subseteq> set (logs rf) \<union> set (Entries args)"
      using log_wfD(1)[OF wf(1)] unfolding hb_merged_def merge_ref_def Let_def
      by (auto dest: in_set_takeD in_set_dropD)
    have "last (hb_merged args rf) \<in> set (logs rf) \<union> set (Entries args)" using m last_in_set by blast
    then show ?thesis using run m HeartBeat_accept[OF wf(1,2) accept(2) wf(3) accept(1,3,4), of zero_append_reply]
      by (auto simp: Let_def hb_follow_def split: if_splits)
  qed
  then show "aer_Term reply = currentTerm rf" "LastEntry reply \<in> set (logs rf) \<union> set (Entries args)"
    "set (logs rf') \<subseteq> set (logs rf) \<union> set (Entries args)" "currentTerm rf' \<in> {currentTerm rf, ae_Term args}" by blast+
qed

text \<open>What a Raft server holds can be sent, and a HeartBeat that can be sent keeps it so.\<close>

definition sendable :: "raft \<Rightarrow> bool" where
  "sendable rf \<longleftrightarrow> in32 (currentTerm rf) \<and> list_all log_ok (logs rf)"

lemma HeartBeat_sendable:
  assumes wf: "log_wf (logs rf)" "args_wf args" "0 \<le> lastApplied rf"
    and run: "HeartBeat args zero_append_reply rf = Inr (rf', reply, out)"
    and "sendable rf" "append_args_ok args"
  shows "append_reply_ok reply \<and> sendable rf'"
  using HeartBeat_carries[OF wf run] assms(5,6)
  by (auto simp: append_reply_ok_def sendable_def append_args_ok_def list_all_iff)

text \<open>C37: A HeartBeat over a websocket is a HeartBeat: the call of the peer sender on an idle connection in
  RPC mode, with the message encoded, read by the other end, decoded, handled there, and the
  reply sent and decoded the same way, ends with the reply and the state that calling \<open>HeartBeat\<close>
  on the message itself gives, and leaves the connection idle. So the messages and replies of the
  cluster's step relations are the values the servers exchange.\<close>
theorem heartbeat_over_websocket:
  assumes "conn_wf w" "AtBool_Load (grpcMode w)" "writeChnl w = []" "writeChnl v = []" "aRunningConnections w ! next_slot w = []"
    and "log_wf (logs rf)" "0 \<le> lastApplied rf" "sendable rf" "args_wf a" "append_args_ok a"
    and "HeartBeat a zero_append_reply rf = Inr (rf', reply, out)"
  shows "\<exists>w'. ws_exchange (ws_decode AppendEntriesArgs_fields zero_append_args) AppendEntriesReply_json
        (ws_unmarshal AppendEntriesReply_fields) serve_HeartBeat c (AppendEntriesArgs_json a) zero_append_reply w v rf
      = Inr (reply, w', v, rf')
    \<and> conn_wf w' \<and> writeChnl w' = [] \<and> aRunningConnections w' = aRunningConnections w \<and> sendable rf'"
proof -
  have ok: "append_reply_ok reply" "sendable rf'" using HeartBeat_sendable[OF assms(6,9,7,11,8,10)] by simp_all
  have h: "serve_HeartBeat a rf = (reply, rf')" using assms(11) by (simp add: serve_HeartBeat_def)
  have "ws_decode AppendEntriesArgs_fields zero_append_args (Some (AppendEntriesArgs_json a)) = Some a"
    using any_plain[OF AppendEntries_plain(1)[OF assms(10)]] AppendEntriesArgs_back[OF assms(10)] by (simp add: ws_decode_def)
  moreover have "ws_unmarshal AppendEntriesReply_fields (Some (AppendEntriesReply_json (fst (serve_HeartBeat a rf)))) zero_append_reply
      = (fst (serve_HeartBeat a rf), True)"
    using any_plain[OF AppendEntries_plain(2)[OF ok(1)]] AppendEntriesReply_back[OF ok(1)]
    by (simp add: ws_unmarshal_def h del: zero_append_reply_def)
  ultimately show ?thesis
    using exchange_run(1)[where decode = "ws_decode AppendEntriesArgs_fields zero_append_args" and handle = serve_HeartBeat
        and encode = AppendEntriesReply_json and enc_arg = AppendEntriesArgs_json and c = c and s = rf and a = a
        and unmarshal = "ws_unmarshal AppendEntriesReply_fields" and zr = zero_append_reply, OF assms(1,3,4,5)] assms(2) ok(2)
    by (auto simp: h simp del: zero_append_reply_def)
qed

definition ws_ready :: "(gval, nat) wsconn" where
  "ws_ready = NewWsConnection\<lparr>grpcMode := \<lparr>atbool_val = 1\<rparr>, raceTester := \<lparr>at32_val = 2\<rparr>\<rparr>"

lemma ws_ready:
  "StartRPCMode NewWsConnection = Some ws_ready" "conn_wf ws_ready" "AtBool_Load (grpcMode ws_ready)"
  "writeChnl ws_ready = []" "aRunningConnections ws_ready ! next_slot ws_ready = []"
  by (simp_all add: ws_ready_def StartRPCMode_def NewWsConnection_def start_goroutine_def atomic_defs conn_wf_def
      CONNECTIONS_def next_slot_def Let_def)

lemma ex_sendable: "sendable ex_follower" "append_args_ok ex_args"
  by (auto simp: sendable_def append_args_ok_def log_ok_def in32_def ex_follower_def ex_args_def ex_log_def)

theorem heartbeat_over_websocket_witness:
  "\<exists>reply rf' w'. Success reply \<and> length (logs rf') = 3 \<and> sendable rf'
    \<and> ws_exchange (ws_decode AppendEntriesArgs_fields zero_append_args) AppendEntriesReply_json
        (ws_unmarshal AppendEntriesReply_fields) serve_HeartBeat (0 :: nat) (AppendEntriesArgs_json ex_args) zero_append_reply
        ws_ready ws_ready ex_follower = Inr (reply, w', ws_ready, rf')"
proof -
  obtain rf' r out where hb: "HeartBeat ex_args zero_append_reply ex_follower = Inr (rf', r, out)" "Success r"
    "length (logs rf') = 3" using ex_accept by (auto simp del: zero_append_reply_def)
  show ?thesis
    using heartbeat_over_websocket[OF ws_ready(2,3,4,4,5) ex_facts(1,3) ex_sendable(1) ex_facts(2) ex_sendable(2) hb(1), of 0] hb
    by blast
qed

text \<open>A report to the metric controller, over its websocket.\<close>

lemma report_over_websocket:
  assumes "conn_wf w" "writeChnl w = []" "aRunningConnections w ! next_slot w = []" "AtBool_Load (grpcMode w)"
    and "writeChnl v = []" "rpc_args_ok args"
  shows "\<exists>w'. ws_exchange (ws_decode RPCArgs_fields zero_rpc_args) CommonReply_json (ws_unmarshal CommonReply_fields)
      (\<lambda>a c. (zero_common_reply, MetricUpdate a c)) caller (RPCArgs_json args) zero_common_reply w v c
    = Inr (zero_common_reply, w', v, MetricUpdate args c) \<and> conn_wf w' \<and> writeChnl w' = [] \<and> aRunningConnections w' = aRunningConnections w"
proof (rule report_counted[where enc_arg = RPCArgs_json, OF assms(1-5)])
  show "ws_decode RPCArgs_fields zero_rpc_args (Some (RPCArgs_json args)) = Some args"
    using any_plain[OF AppendEntries_plain(3)[OF assms(6)]] RPCArgs_back[OF assms(6)] by (simp add: ws_decode_def)
  have "plain (CommonReply_json zero_common_reply)" by (simp add: CommonReply_json_def zero_common_reply_def mem_def)
  then show "ws_unmarshal CommonReply_fields (Some (CommonReply_json zero_common_reply)) zero_common_reply = (zero_common_reply, True)"
    using CommonReply_back(1)[of zero_common_reply] by (simp add: ws_unmarshal_def any_plain zero_common_reply_def)
qed

section \<open>Round trips\<close>

text \<open>C38: What a process sends is what the other end decodes. For the messages of Raft, between Raft and the
  key/value server, and of the controllers that are named here, decoding the encoded message
  into a new value gives the message back, although \<open>omitempty\<close> leaves out its zero fields, when
  its integers fit the width of their fields (those of a metric report the 53 bits of a JSON
  number), its commands are plain JSON, the snapshot of an \<open>ApplyMsg\<close> is empty and the error of a
  \<open>CommonReply\<close> is nil; a \<open>CommonReply\<close> with an error does not decode. Between the clerk and the
  key/value server, whose types are copies of each other, each field arrives in the field of the
  same name, also in a reply that was used before.\<close>
theorem messages_roundtrip:
  "(\<forall>a. append_args_ok a \<longrightarrow> into_struct AppendEntriesArgs_fields (AppendEntriesArgs_json a) zero_append_args = (a, True))
   \<and> (\<forall>r. append_reply_ok r \<longrightarrow> into_struct AppendEntriesReply_fields (AppendEntriesReply_json r) zero_append_reply = (r, True))
   \<and> (\<forall>a. in32 (rv_Term a) \<and> in32 (ID a) \<and> log_ok (Log a) \<longrightarrow>
        into_struct RequestVoteArgs_fields (RequestVoteArgs_json a) zero_vote_args = (a, True))
   \<and> (\<forall>r. in32 (rvr_Term r) \<longrightarrow> into_struct RequestVoteReply_fields (RequestVoteReply_json r) zero_vote_reply = (r, True))
   \<and> (\<forall>o'. into_struct AgreeArgs_fields (AgreeArgs_json (op_json o')) \<lparr>agree_Cmd = GNil\<rparr> = (\<lparr>agree_Cmd = op_json o'\<rparr>, True))
   \<and> (\<forall>r. in64 (ag_Term r) \<and> in64 (ag_Index r) \<longrightarrow>
        into_struct AgreeReply_fields (AgreeReply_json r) zero_agree_reply = (r, True))
   \<and> (\<forall>m. in64 (msg_Index m) \<and> plain (Command m) \<and> Snapshot m = [] \<longrightarrow>
        into_struct (ApplyMsg_fields ib) (ApplyMsg_json b64 m) zero_apply_msg = (m, True))
   \<and> (\<forall>a. connect_ok (RaftConnect a) \<longrightarrow>
        into_struct RaftKVInitConfig_fields (RaftKVInitConfig_json a) zero_init_config = (a, True))
   \<and> (\<forall>m m0. list_all connect_ok (Peers m) \<and> in64 (cm_Id m) \<longrightarrow>
        into_struct ConnectMasterReply_fields (ConnectMasterReply_json m) m0 = (m, True))
   \<and> (\<forall>a a0. in64 (cp_Tries a) \<and> in64 (cp_Idx a) \<longrightarrow>
        into_struct PutAppendArgs_fields (common_put_json a) a0 = (served_put a, True))
   \<and> (\<forall>a a0. into_struct GetArgs_fields (common_get_json a) a0 = (served_get a, True))
   \<and> (\<forall>r r0. in64 (par_Idx r) \<longrightarrow> into_struct common_put_reply_fields (PutAppendReply_json r) r0 = (seen_put r, True))
   \<and> (\<forall>r r0. into_struct common_get_reply_fields (GetReply_json r) r0 = (seen_get r, True))
   \<and> (\<forall>r. into_struct ApplyMsgReply_fields (ApplyMsgReply_json r) \<lparr>apply_Ok = False\<rparr> = (r, True))
   \<and> (\<forall>r r0. in64 (st_Term r) \<longrightarrow> into_struct StateReply_fields (StateReply_json r) r0 = (r, True))
   \<and> (\<forall>d. connect_ok d \<longrightarrow> into_struct RaftConnectDetails_fields (RaftConnectDetails_json d) zero_connect = (d, True))
   \<and> (\<forall>a a0. in64 (stop_Idx a) \<longrightarrow> into_struct StopServerArg_fields (StopServerArg_json a) a0 = (a, True))
   \<and> (\<forall>a a0. in64 (start_Idx a) \<longrightarrow> into_struct StartServerArg_fields (StartServerArg_json a) a0 = (a, True))
   \<and> (\<forall>a. rpc_args_ok a \<longrightarrow> into_struct RPCArgs_fields (RPCArgs_json a) zero_rpc_args = (a, True))
   \<and> (\<forall>r. cr_Err r = None \<longrightarrow> into_struct CommonReply_fields (CommonReply_json r) zero_common_reply = (r, True))
   \<and> (\<forall>r r0. cr_Err r \<noteq> None \<longrightarrow> \<not> snd (into_struct CommonReply_fields (CommonReply_json r) r0))"
  using AppendEntriesArgs_back AppendEntriesReply_back RequestVoteArgs_back RequestVoteReply_back
    AgreeArgs_back[OF op_json_plain] AgreeReply_back ApplyMsg_back RaftKVInitConfig_back ConnectMasterReply_back
    common_put_arrives common_get_arrives put_reply_seen get_reply_seen
    ApplyMsgReply_back StateReply_back RaftConnectDetails_back server_arg_back RPCArgs_back CommonReply_back
  by (intro conjI) blast+

theorem messages_roundtrip_witness:
  "into_struct AppendEntriesArgs_fields (AppendEntriesArgs_json ex_args) zero_append_args = (ex_args, True)
   \<and> into_struct PutAppendArgs_fields (common_put_json \<lparr>cp_Op = \<lparr>co_ContextId = ''x:1'', co_Cmd = ''Put:::k<<>>v''\<rparr>,
       cp_OK = False, cp_Tries = 0, cp_Idx = 7\<rparr>)
       \<lparr>pa_Op = \<lparr>ContextId = '''', op_Cmd = ''''\<rparr>, pa_OK = False, Tries = 0, pa_Idx = 0\<rparr>
     = (\<lparr>pa_Op = \<lparr>ContextId = ''x:1'', op_Cmd = ''Put:::k<<>>v''\<rparr>, pa_OK = False, Tries = 0, pa_Idx = 7\<rparr>, True)"
  using messages_roundtrip[of "\<lambda>_ x. (x, True)" "\<lambda>_. ''''"] ex_sendable(2)
  by (auto simp: served_put_def served_op_def in64_def simp del: zero_replies)

end
