(* ===== verification/Spec2Isabelle.thy ===== *)
theory Spec2Isabelle
  imports Atomics Election NetworkNodes RaftRestart Goroutines Campaign Shutdown Linearizable EndToEnd Processes Wire
begin

text \<open>
  A verification library for a key/value store replicated by Raft: the Go program of this
  repository. Clients reach a clerk (\<open>raftclient/client\<close>), the clerk calls key/value servers
  (\<open>kvraft\<close>), each of which has a Raft server beside it (\<open>raft\<close>). A key/value server asks its
  Raft server to agree on an operation (\<open>Raft.Agree\<close>); the Raft servers replicate it by
  \<open>RequestVote\<close> and \<open>HeartBeat\<close> calls; when it is committed each Raft server calls
  \<open>RaftKV.Apply\<close> on its own key/value server, which executes it and wakes the waiting
  request. The theories follow these parts.

  Prelude, Channels, Atomics. What the program uses of Go: faults (\<open>IndexOutOfRange\<close>,
  \<open>SliceBounds\<close>, \<open>BadAssertion\<close>, \<open>ClosedChannel\<close> are panics, \<open>Blocked\<close> is a goroutine that waits), \<open>int32\<close> as
  integers with the wrap-around written out (\<open>i32\<close>) and tied to 32-bit words, checked indexing
  and slicing, buffered channels as bounded lists (locale \<open>fifo\<close>, interpreted on
  \<open>chan_send\<close>/\<open>chan_recv\<close>), and the atomic cells of \<open>common/data/atomic_data.go\<close> on words
  (locale \<open>cell\<close>, interpreted on the three cells).

  RaftData, Persist. The structs of \<open>raft/data/rpc_data.go\<close>, what it means for a log to be
  well-formed (\<open>log_wf\<close>: a sentinel at 0, and every entry's \<open>Index\<close> is its position), the persister of
  \<open>raft/persister.go\<close>, and gob streams as far as the documentation of \<open>encoding/gob\<close> goes.

  Raft, RaftLoops. The struct \<open>Raft\<close> and all its operations: the record \<open>raft\<close>, one definition
  per handler and API function, and one per \<open>select\<close> branch of each goroutine that \<open>Make\<close>
  starts. A goroutine that waits for another server is split there, so messages and answers may
  be delayed, lost, reordered and repeated in the step relations. One step runs without
  interference from the other goroutines and handlers of the same server; the data races of the
  code are outside the model (no lock on the log, and none in \<open>RequestVote\<close>: two handlers that run
  at the same time can both grant their vote, which election safety therefore does not cover; in
  \<open>Election\<close> a vote request is handled at most once, as the code sends it once). The order of independent effects inside a
  step, and the partial effects of a handler that waits inside, are not visible. Slices are
  values, except for the one write through a shared array in the peer sender, which is modelled.

  RaftHeartBeat. \<open>HeartBeat\<close> in closed form on each branch; the loop over the entries is
  compared with the reference \<open>merge_ref\<close>; success, conflict, redelivery, no panic.

  RaftSteps, RaftVotes, Quorums, Election. The election: what each step does to vote and term,
  quorums and voting as locales (\<open>quorum_system\<close>, \<open>voting\<close>) interpreted on majorities and on
  the cluster, and election safety for any interleaving of \<open>cluster_step\<close>.

  RaftLeader, RaftCommit, RaftRepair. The leader: \<open>Start\<close> and the dispatcher as a refinement of
  the sequence log-then-queue, the commit index against the acknowledgements, and log repair,
  with the number of rounds bounded by \<open>nextIndex\<close>.

  RaftNode, RaftRestart. One server through all its steps (\<open>node_step\<close>): the invariant of the
  log and the stream of applied entries; and what a crash keeps. A restart is \<open>Make\<close> on the persister
  the server left, as the comment of \<open>Make\<close> has it; \<open>raft_controller.go\<close> makes a new, empty persister
  in memory at every process start, so a process that is started again remembers nothing.

  Goroutines. The loops of the goroutines around the branches of \<open>RaftLoops\<close>, each with its \<open>select\<close>;
  every turn is a run of the server (\<open>turn_run\<close>). The bounded channels between them: the timer, the
  main loop and the updater never wait for room, the senders wait for these only, the dispatcher
  and the announcements of a new leader for the senders, so there is no circle (\<open>no_deadlock\<close>).

  RaftProgress, Campaign. What a cluster gets done when nothing is lost for a while. \<open>RaftProgress\<close>:
  a leader that half of the other servers answer commits a new command and they all hand it over,
  in a number of rounds bounded by \<open>nextIndex\<close> (\<open>command_commits\<close>); \<open>Campaign\<close>: a server whose log
  is up to date for half of the others wins an election and commits what its log holds
  (\<open>election_commits\<close>). These runs are functions (\<open>gather\<close>, \<open>announce\<close>, \<open>campaign\<close>) that say in which order the
  goroutines run. A follower whose log is longer than the leader's is excluded, for the reason
  \<open>stale_match_blocks_commit\<close> shows.

  Network, LogWindows, LogMatching, NetworkNodes. The cluster with its AppendEntries messages, which
  may be lost, repeated and reordered (\<open>net_step\<close>): a message is a window into a log its sender
  had, an entry is made by the one server elected in its term, and so any two logs that any servers
  ever had agree up to each index where their terms agree (\<open>log_matching\<close>). Each server's part of
  such a run is a run of \<open>RaftNode\<close>. Three steps carry a condition (\<open>keeps_term\<close>, \<open>fresh_win\<close>,
  \<open>jobs_sync\<close>): the code keeps its logs consistent only if a leadership ends when a newer term is
  seen, an election is not announced in a later term, and a new leader finds no message or command
  of an earlier leadership in its channels. Terms and indices stay below the largest \<open>int32\<close>, and
  servers do not restart there.

  ServerEffects, AuditedRuns, LeaderCompleteness, CountedRuns, SafeRun, StateSafety. Safety of
  commitment. \<open>ServerEffects\<close> says of each step which entries it adds to a log and keeps;
  \<open>AuditedRuns\<close> adds to a cluster run the facts the argument speaks of (who was a candidate with which
  log, which entries who held in their term) and proves its invariant; \<open>leader_completeness\<close> follows. The
  conditions, beside those of \<open>LogMatching\<close>, each exclude one of the defects shown below:
  \<open>honest_cut\<close> (a follower cuts its log only where it differs from the message's log: not
  \<open>HeartBeat_drops_committed\<close>), \<open>fresh_entries\<close> (what a server adds to its own log it adds as a
  leader, in its current term: no command queued in an earlier leadership, no
  \<open>stale_send_overwrites\<close>). \<open>CountedRuns\<close> adds the answers to AppendEntries and follows the count
  of acknowledgements from \<open>HeartBeat\<close>'s reply through \<open>peer_reply\<close>, \<open>matchIndex\<close>, \<open>commitIdxChnl\<close> and
  \<open>commitTracker\<close> to \<open>commit_step\<close>: what a leader commits is on a majority (\<open>committed_on_majority\<close>).
  Its conditions are \<open>prompt\<close> (what raises \<open>matchIndex\<close> answers a message of the current term and
  names its last entry: not \<open>HeartBeat_acks_unmatched_tail\<close>), \<open>fresh_tally\<close> (nothing counted yet
  for open indices when a leadership begins: not \<open>commit_counts_twice\<close>) and \<open>own_commit\<close> (leaders commit
  entries of their own term; the test for it is a comment in the code); none of them speaks of
  majorities. \<open>state_machine_safety\<close> follows from both. \<open>SafeRun\<close> is a run
  all of whose steps meet the conditions. The locale
  \<open>replicas\<close> (servers that hand over parts of one sequence),
  interpreted on the cluster, gives agreement of the streams.

  Replicas, Linearizable. The key/value servers fed by such a cluster: one that is behind has the
  database the other had at that point. With the requests they answer in between (\<open>served\<close>): a write
  one server has acknowledged is executed by all at the same index, and a Get is answered from the
  common sequence of commands. Keys and values with a separator in them are excluded (\<open>clean\<close>), and
  of a value that Appends have put a \<open><<>>\<close> into a Get returns what stands before it.

  Shutdown. \<open>Kill\<close> and how the goroutines of a server hand its one value on and return.

  GoStrings, KvCommands, KvServer, KvApply, KvAnswers. The command texts with \<open>strings.Split\<close>; the
  key/value server as the record \<open>raftkv\<close> with the applying goroutine and the two handlers,
  split where they wait; the locale \<open>replay\<close> (a state machine fed by index), interpreted on the
  server, which makes it a refinement of the abstract map; and what its answers mean.

  Clerk, ClerkRuns. The clerk, over any servers behind \<open>Call\<close>; the locales \<open>put_service\<close> and \<open>get_service\<close> (what
  the clerk needs to finish), interpreted on the key/value server behind a stub for Raft (\<open>put_call\<close>,
  \<open>get_call\<close>: one server's \<open>Agree\<close> gives a fixed index and the command is committed while the handler
  waits); \<open>EndToEnd\<close> has the same with the modelled Raft in its place.
  The clerk's loops have no bound in the code; the model gives them fuel, one unit per
  iteration, and the theorems say how much is enough: three for a Put or Append, one for a Get.

  RaftSessions, EndToEnd. The clerk, the leader's key/value server and the Raft servers in one run.
  \<open>RaftSessions\<close>: after a command the senders empty their channels and the cluster is as before
  (\<open>steady\<close>). \<open>EndToEnd\<close>: \<open>put_cluster\<close> and \<open>get_cluster\<close> are second instances of \<open>put_service\<close> and
  \<open>get_service\<close>, in which the commit is no assumption but a run of the Raft servers; so every sequence of
  requests completes, answered as by the abstract map (\<open>session_end_to_end\<close>). The argument \<open>p\<close> there
  bounds the rounds with one follower: its log and the new commands together are enough.

  ControlData, RpcClient. The messages of the controllers and the calls between processes:
  \<open>QuickCall\<close>, \<open>Call\<close> and \<open>RClient\<close>, over a record \<open>http_env\<close> of what the HTTP and JSON libraries
  do; the locale \<open>switch\<close> (something that is put off and on), interpreted on the block flag.

  WsConn, WsLife. The websocket between two servers: 256 slots, frames, reader and writer, a call split
  at its receive. \<open>link_step\<close> interleaves both ends; every answer goes to the call it belongs
  to as long as a call finds its slot free, and the lemmas \<open>same_slot_race\<close>, \<open>slot_out_of_range\<close>
  and \<open>full_channel_drops\<close> show where the code does not see to that. \<open>WsLife\<close> has the types of the
  handler, and what closing a connection does to those who wait on it (\<open>Close_outcome\<close>).

  RaftControl, Services, RaftStart, ServiceControl. The controllers of a Raft server, a key/value
  server and a client: set-up of peers and websockets, stop and start, the services that
  reflection finds and the routes they get, \<open>StartRaft\<close>.

  Registration, Booting, LocalCluster. The master controller (registration, the start barrier, the
  calls of \<open>serversInit\<close>, stop and start commands); what those calls, with their URLs and arguments,
  do to the servers that hear them (\<open>boot_server\<close>); and \<open>cmd.go\<close>: the cluster it brings up.

  Routing. The routes each server registers, and that every call between the processes finds
  exactly the one it is meant for (\<open>master_calls_answered\<close>).

  Wire. The JSON form of every message, after the tags of the structs, and \<open>encoding/json\<close>'s
  decoding into an existing value: what arrives is what was sent, and a HeartBeat over a websocket
  is a HeartBeat, which is why the theories before pass records instead of bytes.

  Programs. The five programs from the command line on, with \<open>flag.Parse\<close> and \<open>strconv.ParseInt\<close>; the
  cluster of \<open>cmd.go\<close> and the servers that the start scripts launch (\<open>launched_cluster_starts\<close>), and
  what the scripts' flags do not do.

  Processes. Debugging output, the signals the programs wait for, and the end of the master process.

  Metrics, MetricHost. The metric controller: what it counts, that no change is lost on the way to
  the web clients that have joined before it, its routes, and that a Raft server's report reaches the count.

  This theory puts Raft and the key/value server together.

  Where the code does not keep what Raft or its comments promise, a lemma shows it by a
  concrete run or in general: \<open>stale_match_blocks_commit\<close>, \<open>two_leaders_in_one_term\<close>, \<open>HeartBeat_drops_committed\<close>,
  \<open>HeartBeat_acks_unmatched_tail\<close>, \<open>commit_counts_twice\<close>, \<open>job_step_panics_after_cut\<close>,
  \<open>send_before_init_panics\<close>, \<open>stale_election_leads\<close>, \<open>stale_send_overwrites\<close>,
  \<open>self_vote_lost\<close>, \<open>kv_log_not_saved\<close>, \<open>append_twice\<close>, \<open>put_value_truncated\<close>,
  \<open>put_index_zero\<close>, \<open>put_dead_leader\<close>, \<open>start_reopens_stopped\<close>, \<open>start_barrier\<close>. This is
  also why the properties of commitment carry hypotheses: state machine safety across the whole
  cluster holds of this code only in runs that stay clear of them, which is what
  \<open>state_machine_safety\<close> says.

  Not modelled: the echo HTTP servers and the prometheus middleware (what is registered with them
  is, in \<open>Routing\<close>); the texts that are logged and when. What \<open>net/http\<close>,
  \<open>encoding/json\<close>, \<open>url.Parse\<close> and gorilla's websockets do is a parameter of the definitions
  that call them; what \<open>encoding/json\<close> makes of this program's messages is in \<open>Wire\<close>, up to the text of
  a document.
\<close>

section \<open>Raft and the key/value server together\<close>

text \<open>The messages a Raft server's effects carry, as committed commands of the key/value server.\<close>

definition carries :: "effect list \<Rightarrow> committed list \<Rightarrow> bool" where
  "carries out ms \<longleftrightarrow> applied out = map committed_msg ms \<and> list_all committed_ok ms"

lemma carries_indices: "carries out ms \<Longrightarrow> map fst ms = map msg_Index (applied out)"
  by (auto simp: carries_def committed_msg_def split_beta)

text \<open>C17: Fed by a Raft server, the key/value server executes the commands of indices 1 to lastApplied,
  each once and in order, and nothing else; and when that Raft server restarts and hands over
  its log again, up to any index it had applied before, the database does not change. For runs
  of the Raft server on well-formed messages in which the dispatcher runs on a queue that
  continues the log (\<open>node_step\<close>: \<open>jobs_sync\<close>), and commands of the service whose keys and values
  contain no separator (\<open>carries\<close>).\<close>
theorem raft_feeds_kv:
  assumes "node_run (Make n i ps) out msgs rf" "log_wf (logs (Make n i ps))" "n < 2147483648"
    and "carries out ms"
    and "node_run (Make n i ps') out' msgs' rf'" "log_wf (logs (Make n i ps'))"
    and "carries out' ms'" "lastApplied rf' \<le> lastApplied rf"
  shows "\<exists>kv kv'. go_fold deliver ms (StartKVServer j s) = Inr kv
    \<and> db kv = fold (\<lambda>m. kv_sem (snd (snd m))) ms Map.empty
    \<and> dom (kv_log kv) = {1..lastApplied rf}
    \<and> go_fold deliver ms' kv = Inr kv' \<and> db kv' = db kv"
proof -
  have ok: "\<forall>m \<in> set ms. committed_ok m" "\<forall>m \<in> set ms'. committed_ok m"
    using assms(4,7) by (auto simp: carries_def list_all_iff)
  have ix: "map fst ms = [1..lastApplied rf]" "map fst ms' = [1..lastApplied rf']"
    using carries_indices[OF assms(4)] carries_indices[OF assms(7)]
      node_run_stream[OF assms(1-3)] node_run_stream[OF assms(5,6,3)] by simp_all
  then have set: "fst ` set ms = {1..lastApplied rf}" "fst ` set ms' = {1..lastApplied rf'}"
    by (metis set_map set_upto)+
  have "distinct (map fst ms)" unfolding ix by simp
  then have all: "first_seen fst {} ms = ms" by (intro first_seen_distinct) auto
  have start: "dom (kv_log (StartKVServer j s)) = {}" "db (StartKVServer j s) = Map.empty"
    by (simp_all add: StartKVServer_def)
  obtain kv where kv: "go_fold deliver ms (StartKVServer j s) = Inr kv"
    "db kv = fold (\<lambda>m. kv_sem (snd (snd m))) ms Map.empty" "dom (kv_log kv) = {1..lastApplied rf}"
    using kv.run_refines[OF ok(1), of "StartKVServer j s"] unfolding start all set by auto
  have "fst ` set ms' \<subseteq> dom (kv_log kv)" using set(2) kv(3) assms(8) by auto
  from kv.redelivery[OF ok(2) this] kv show ?thesis by blast
qed

definition ex_feed :: append_entries_args where
  "ex_feed = \<lparr>ae_Term = 1, LeaderID = 0, PrevLog = zero_log,
     Entries = [\<lparr>Index = 1, Term = 1, Cmd = op_json \<lparr>ContextId = ''x:1'', op_Cmd = render (KPut ''k'' ''a'')\<rparr>\<rparr>],
     LeaderCommitIdx = 1\<rparr>"

theorem raft_feeds_kv_witness:
  "\<exists>rf out kv. node_run (Make 3 1 MakePersister) out [] rf \<and> carries out [(1, ''x:1'', KPut ''k'' ''a'')]
     \<and> go_fold deliver [(1, ''x:1'', KPut ''k'' ''a'')] (StartKVServer 0 (-1)) = Inr kv \<and> db kv ''k'' = Some ''a''"
proof -
  have "\<exists>rf reply out. HeartBeat ex_feed zero_append_reply (Make 3 1 MakePersister) = Inr (rf, reply, out) \<and> lastApplied rf = 1
      \<and> applied out = [committed_msg (1, ''x:1'', KPut ''k'' ''a'')]"
    by (simp add: ex_feed_def HeartBeat_def MAX_LOGS_def chan_send_def idx_def reslice_def follower_commit_def Let_def persist_def
        apply_msg_of_def committed_msg_def cong: go_bind_weak_cong)
  then obtain rf reply out where hb: "HeartBeat ex_feed zero_append_reply (Make 3 1 MakePersister) = Inr (rf, reply, out)"
    and la: "lastApplied rf = 1" and app: "applied out = [committed_msg (1, ''x:1'', KPut ''k'' ''a'')]" by blast
  have "args_wf ex_feed" by (simp add: args_wf_def ex_feed_def)
  then have run: "node_run (Make 3 1 MakePersister) out [] rf"
    using node_run.step[OF node_run.refl node_step.heartbeat[OF _ hb]] by simp
  have car: "carries out [(1, ''x:1'', KPut ''k'' ''a'')]"
    using app by (simp add: carries_def committed_ok_def contains_def separators)
  have wf: "log_wf (logs (Make 3 1 MakePersister))" by simp
  have lt: "(3::nat) < 2147483648" by simp
  from raft_feeds_kv[OF run wf lt car run wf car order_refl, of 0 "-1"]
  obtain kv where kv: "go_fold deliver [(1, ''x:1'', KPut ''k'' ''a'')] (StartKVServer 0 (-1)) = Inr kv"
    "db kv = fold (\<lambda>m. kv_sem (snd (snd m))) [(1 :: int, ''x:1'', KPut ''k'' ''a'')] Map.empty"
    by blast
  from kv run car show ?thesis by (intro exI[of _ rf] exI[of _ out] exI[of _ kv]) simp
qed

text \<open>C29: An operation of the key/value service in the log keeps the log from being saved: after a
  restart the log is empty, whatever was committed.\<close>
theorem kv_log_not_saved:
  assumes "e \<in> set (logs rf)" "Cmd e = op_json o'"
  shows "logs (restart (persist rf)) = [zero_log]"
proof -
  have "\<not> gob_registered (Cmd e)" using assms(2) by (simp add: op_json_def)
  then have "\<not> storable (logs rf)" using assms(1) by (auto simp: storable_def list_all_iff)
  then show ?thesis using unstorable_log_lost by blast
qed

theorem kv_log_not_saved_witness:
  "\<exists>e. logs (restart (persist (ex_follower\<lparr>logs := [zero_log, e]\<rparr>))) = [zero_log] \<and> Index e = 1"
  using kv_log_not_saved[of "\<lparr>Index = 1, Term = 1, Cmd = op_json (pa_Op ex_put)\<rparr>"
      "ex_follower\<lparr>logs := [zero_log, \<lparr>Index = 1, Term = 1, Cmd = op_json (pa_Op ex_put)\<rparr>]\<rparr>" "pa_Op ex_put"]
  by (intro exI[of _ "\<lparr>Index = 1, Term = 1, Cmd = op_json (pa_Op ex_put)\<rparr>"]) simp

end
